(* ===== verification/Prelude.thy ===== *)
theory Prelude imports Main "HOL-Library.AList" "HOL-Library.Multiset" begin

text \<open>
  Shared by every component: Python's exceptions as values, the sequencing of fallible
  computations, Python's indexing and dictionaries, and generic lemmas on lists.

  \<^item> An exception of the source is a value of \<open>py_error\<close>; a function that may raise
    returns \<open>'a result\<close>, \<open>Inl e\<close> for the exception and \<open>Inr v\<close> for the value.
  \<^item> A dictionary is an association list in insertion order: \<open>AList.update k v d\<close> is
    \<open>d[k] = v\<close> (an existing key keeps its place, a new one goes last), \<open>AList.delete k d\<close>
    removes a key, \<open>map_of d k\<close> looks it up.
  \<^item> Integers are \<open>int\<close>; \<open>div\<close> and \<open>mod\<close> on \<open>int\<close> round towards minus infinity, as
    \<open>//\<close> and \<open>%\<close> do. Division by zero is tested where the source could divide by it.
\<close>

section \<open>Collections of hints\<close>

named_theorems res_simps "equations of the result combinators"
named_theorems dict_simps "lookup and key facts of dictionaries"

section \<open>Exceptions as values\<close>

datatype py_error =
    AssertionError | KeyError | IndexError | ValueError | TypeError
  | ZeroDivisionError | AttributeError | RuntimeError | NotImplementedError | NameError

type_synonym 'a result = "py_error + 'a"

definition bindE :: "'a result \<Rightarrow> ('a \<Rightarrow> 'b result) \<Rightarrow> 'b result" where
  "bindE m f = (case m of Inl e \<Rightarrow> Inl e | Inr x \<Rightarrow> f x)"

definition assertE :: "bool \<Rightarrow> 'a result \<Rightarrow> 'a result" where
  "assertE c m = (if c then m else Inl AssertionError)"

lemma bindE_simps [simp, res_simps]:
  "bindE (Inl e) f = Inl e"
  "bindE (Inr x) f = f x"
  by (simp_all add: bindE_def)

lemma assertE_simps [simp, res_simps]:
  "assertE True m = m"
  "assertE False m = Inl AssertionError"
  by (simp_all add: assertE_def)

lemma bindE_cong [fundef_cong]:
  "m = m' \<Longrightarrow> (\<And>x. m' = Inr x \<Longrightarrow> f x = f' x) \<Longrightarrow> bindE m f = bindE m' f'"
  by (auto simp: bindE_def split: sum.splits)

lemma assertE_cong [fundef_cong]:
  "c = c' \<Longrightarrow> (c' \<Longrightarrow> m = m') \<Longrightarrow> assertE c m = assertE c' m'"
  by (simp add: assertE_def)

lemma bindE_Inr_iff: "bindE m f = Inr y \<longleftrightarrow> (\<exists>x. m = Inr x \<and> f x = Inr y)"
  by (auto simp: bindE_def split: sum.splits)

lemma bindE_InrE:
  assumes "bindE m f = Inr y"
  obtains x where "m = Inr x" and "f x = Inr y"
  using assms by (auto simp: bindE_Inr_iff)

lemma assertE_Inr_iff: "assertE c m = Inr y \<longleftrightarrow> c \<and> m = Inr y"
  by (simp add: assertE_def)

lemma result_ok: "(case r of Inl e \<Rightarrow> False | Inr x \<Rightarrow> True) \<Longrightarrow> \<exists>x. r = Inr x"
  by (cases r) auto

text \<open>A loop that stops at the first exception, with and without a state.\<close>

fun mapE :: "('a \<Rightarrow> 'b result) \<Rightarrow> 'a list \<Rightarrow> 'b list result" where
  "mapE f [] = Inr []"
| "mapE f (x # xs) = bindE (f x) (\<lambda>y. bindE (mapE f xs) (\<lambda>ys. Inr (y # ys)))"

fun foldE :: "('s \<Rightarrow> 'a \<Rightarrow> 's result) \<Rightarrow> 's \<Rightarrow> 'a list \<Rightarrow> 's result" where
  "foldE f s [] = Inr s"
| "foldE f s (x # xs) = bindE (f s x) (\<lambda>s'. foldE f s' xs)"

lemma mapE_cong [fundef_cong]:
  "xs = ys \<Longrightarrow> (\<And>x. x \<in> set ys \<Longrightarrow> f x = g x) \<Longrightarrow> mapE f xs = mapE g ys"
  by (induction ys arbitrary: xs) auto

lemma foldE_append: "foldE f s (xs @ ys) = bindE (foldE f s xs) (\<lambda>s'. foldE f s' ys)"
  by (induction xs arbitrary: s) (auto simp: bindE_def split: sum.splits)

lemma mapE_Inr_iff: "mapE f xs = Inr ys \<longleftrightarrow> list_all2 (\<lambda>x y. f x = Inr y) xs ys"
  by (induction xs arbitrary: ys) (auto simp: bindE_Inr_iff list_all2_Cons1)

lemma mapE_all_Inr: "(\<And>x. x \<in> set xs \<Longrightarrow> f x = Inr (g x)) \<Longrightarrow> mapE f xs = Inr (map g xs)"
  by (induction xs) auto

text \<open>
  The invariant rule of \<open>foldE\<close>: what every step keeps holds at the end of the loop.
\<close>

lemma foldE_invariant:
  assumes "foldE f s xs = Inr t" and "P s"
    and "\<And>s x s'. x \<in> set xs \<Longrightarrow> P s \<Longrightarrow> f s x = Inr s' \<Longrightarrow> P s'"
  shows "P t"
  using assms by (induction xs arbitrary: s) (auto elim!: bindE_InrE)

section \<open>Python's indexing and ranges\<close>

definition py_nth :: "'a list \<Rightarrow> int \<Rightarrow> 'a result" where
  "py_nth xs i =
     (if 0 \<le> i then (if nat i < length xs then Inr (xs ! nat i) else Inl IndexError)
      else if nat (- i) \<le> length xs then Inr (xs ! (length xs - nat (- i))) else Inl IndexError)"

definition list_at :: "'a list \<Rightarrow> nat \<Rightarrow> 'a result" where
  "list_at xs i = (if i < length xs then Inr (xs ! i) else Inl IndexError)"

definition py_lookup :: "('k \<times> 'v) list \<Rightarrow> 'k \<Rightarrow> 'v result" where
  "py_lookup d k = (case map_of d k of None \<Rightarrow> Inl KeyError | Some v \<Rightarrow> Inr v)"

definition dict_get :: "('k \<times> 'v) list \<Rightarrow> 'k \<Rightarrow> 'v \<Rightarrow> 'v" where
  "dict_get d k v = (case map_of d k of None \<Rightarrow> v | Some w \<Rightarrow> w)"

abbreviation has_key :: "('k \<times> 'v) list \<Rightarrow> 'k \<Rightarrow> bool" where
  "has_key d k \<equiv> k \<in> fst ` set d"

lemma py_nth_nat [simp]: "i < length xs \<Longrightarrow> py_nth xs (int i) = Inr (xs ! i)"
  by (simp add: py_nth_def)

lemma py_lookup_update [simp, dict_simps]:
  "py_lookup (AList.update k v d) k' = (if k' = k then Inr v else py_lookup d k')"
  by (simp add: py_lookup_def update_conv')

lemma py_lookup_delete [dict_simps]:
  "py_lookup (AList.delete k d) k' = (if k' = k then Inl KeyError else py_lookup d k')"
  by (simp add: py_lookup_def delete_conv')

lemma py_lookup_Inr_iff: "py_lookup d k = Inr v \<longleftrightarrow> map_of d k = Some v"
  by (auto simp: py_lookup_def split: option.splits)

lemma has_key_iff: "has_key d k \<longleftrightarrow> map_of d k \<noteq> None"
  by (auto simp: map_of_eq_None_iff)

lemma has_key_update [simp, dict_simps]: "has_key (AList.update k v d) k' \<longleftrightarrow> k' = k \<or> has_key d k'"
  by (auto simp: dom_update)

lemma dict_get_update [simp, dict_simps]:
  "dict_get (AList.update k v d) k' w = (if k' = k then v else dict_get d k' w)"
  by (simp add: dict_get_def update_conv')

lemma dict_get_Nil [simp]: "dict_get [] k w = w"
  by (simp add: dict_get_def)

lemma dict_get_absent: "\<not> has_key d k \<Longrightarrow> dict_get d k v = v"
  by (simp add: dict_get_def map_of_eq_None_iff [THEN iffD2] split: option.splits)

text \<open>The dictionary that a loop of assignments \<open>d[k] = v\<close> builds from the empty one.\<close>

definition dict_of :: "('k \<times> 'v) list \<Rightarrow> ('k \<times> 'v) list" where
  "dict_of ps = fold (\<lambda>(k, v) d. AList.update k v d) ps []"

lemma update_absent: "\<not> has_key d k \<Longrightarrow> AList.update k v d = d @ [(k, v)]"
  by (induction d) auto

lemma dict_of_distinct: "distinct (map fst ps) \<Longrightarrow> dict_of ps = ps"
proof -
  have "distinct (map fst (d @ ps)) \<Longrightarrow> fold (\<lambda>(k, v) d. AList.update k v d) ps d = d @ ps" for d
    by (induction ps arbitrary: d) (auto simp: update_absent image_iff)
  from this [of "[]"] show "distinct (map fst ps) \<Longrightarrow> dict_of ps = ps"
    by (simp add: dict_of_def)
qed

section \<open>Counting\<close>

lemma count_list_le_mset: "mset xs \<subseteq># mset ys \<Longrightarrow> count_list xs x \<le> count_list ys x"
  by (metis count_mset mset_subset_eq_count)

section \<open>Sums and products of lists\<close>

lemma sum_list_update_nat:
  "i < length xs \<Longrightarrow> sum_list (xs[i := (v::nat)]) + xs ! i = sum_list xs + v"
  by (induction xs arbitrary: i) (auto split: nat.splits)

lemma prod_list_pos_nat: "(\<forall>x \<in> set xs. 0 < (x::nat)) \<Longrightarrow> 0 < prod_list xs"
  by (induction xs) auto

lemma prod_list_pos_int: "(\<forall>x \<in> set xs. 0 < (x::int)) \<Longrightarrow> 0 < prod_list xs"
  by (induction xs) auto

lemma div_slot: "0 < m \<Longrightarrow> q * m \<le> x \<and> x < q * m + m \<longleftrightarrow> x div m = (q :: nat)"
  by (metis add.commute div_nat_eqI dividend_less_div_times dividend_less_times_div div_times_less_eq_dividend mult.commute mult_Suc)

lemma sum_list_take_le: "sum_list (take n ns) \<le> sum_list (ns :: nat list)"
  by (metis append_take_drop_id le_add1 sum_list_append)

section \<open>The first minimum\<close>

text \<open>The loop that keeps the first element whose value is less than the best so far.\<close>

definition first_min :: "('b \<Rightarrow> 'a::linorder) \<Rightarrow> 'b list \<Rightarrow> 'b option" where
  "first_min f xs =
     foldl (\<lambda>best x. case best of None \<Rightarrow> Some x | Some y \<Rightarrow> if f x < f y then Some x else best) None xs"

lemma first_min_snoc:
  "first_min f (xs @ [x]) = (case first_min f xs of None \<Rightarrow> Some x | Some y \<Rightarrow> if f x < f y then Some x else Some y)"
  by (simp add: first_min_def split: option.split)

lemma first_min_Nil [simp]: "first_min f [] = None"
  by (simp add: first_min_def)

lemma first_min_None [simp]: "first_min f xs = None \<longleftrightarrow> xs = []"
  by (induction xs rule: rev_induct) (simp_all add: first_min_snoc split: option.split)

lemma first_min_Some: "first_min f xs = Some x \<Longrightarrow> x \<in> set xs \<and> (\<forall>y \<in> set xs. f x \<le> f y)"
proof (induction xs arbitrary: x rule: rev_induct)
  case (snoc z xs)
  show ?case
  proof (cases "first_min f xs")
    case None
    with snoc.prems show ?thesis by (simp add: first_min_snoc)
  next
    case (Some y)
    note IH = snoc.IH [OF Some]
    show ?thesis
    proof (cases "f z < f y")
      case True
      with snoc.prems Some IH show ?thesis by (auto simp: first_min_snoc)
    next
      case False
      with snoc.prems Some IH show ?thesis by (auto simp: first_min_snoc)
    qed
  qed
qed simp

lemma first_min_obtain:
  assumes "xs \<noteq> []"
  obtains x where "first_min f xs = Some x" and "x \<in> set xs" and "\<forall>y \<in> set xs. f x \<le> f y"
  using assms first_min_Some [of f xs] by (cases "first_min f xs") auto

end
