(* ===== verification/KvContract.thy ===== *)
theory KvContract imports Prelude begin

text \<open>
  The contract that the key-value stores of the rendezvous servers share: what a lookup
  returns after a store and after a removal. The client's lemmas (last writer wins,
  independence of keys, consuming a produced value once) are proved here once; every store
  that honours the contract interprets the locale on its own handlers.
\<close>

locale kv_contract =
  fixes ready :: "'s \<Rightarrow> bool"
    and put :: "'k \<Rightarrow> 'v \<Rightarrow> 's \<Rightarrow> 's"
    and get :: "'k \<Rightarrow> 's \<Rightarrow> 'r option"
    and remove :: "'k \<Rightarrow> 's \<Rightarrow> 's"
    and wrap :: "'v \<Rightarrow> 'r"
  assumes ready_put: "ready s \<Longrightarrow> ready (put k v s)"
    and ready_remove: "ready s \<Longrightarrow> ready (remove k s)"
    and get_put: "ready s \<Longrightarrow> get k' (put k v s) = (if k' = k then Some (wrap v) else get k' s)"
    and get_remove: "ready s \<Longrightarrow> get k' (remove k s) = (if k' = k then None else get k' s)"
begin

lemma ready_puts: "ready s \<Longrightarrow> ready (fold (\<lambda>(k, v). put k v) kvs s)"
  by (induction kvs arbitrary: s) (auto intro: ready_put)

lemma last_writer_wins:
  "ready s \<Longrightarrow> get k (fold (\<lambda>(k, v). put k v) kvs s) =
     (case map_of (rev kvs) k of Some v \<Rightarrow> Some (wrap v) | None \<Rightarrow> get k s)"
proof (induction kvs arbitrary: s)
  case (Cons p kvs)
  obtain k' v where p: "p = (k', v)" by (cases p)
  from Cons.IH [OF ready_put [OF Cons.prems, of k' v]] show ?case
    by (simp add: p map_add_def get_put [OF Cons.prems] split: option.splits)
qed simp

lemma removed_until_put:
  assumes "ready s" and "k \<notin> fst ` set kvs"
  shows "get k (fold (\<lambda>(k, v). put k v) kvs (remove k s)) = None"
proof -
  have "map_of (rev kvs) k = None" using assms(2) by (simp add: map_of_eq_None_iff)
  with last_writer_wins [OF ready_remove [OF assms(1), of k]] show ?thesis
    using assms(1) by (simp add: get_remove)
qed

lemma puts_commute:
  assumes "ready s" and "a \<noteq> b"
  shows "get k (put a u (put b v s)) = get k (put b v (put a u s))"
  using assms by (simp add: get_put ready_put)

end

end
