(* ===== verification/RpcServer.thy ===== *)
theory RpcServer imports KvContract begin

text \<open>
  The rendezvous server of \<open>python/hetu/rpc/heturpc_polling_server.py\<close>: the class
  \<open>DeviceController\<close> (all of its handlers but \<open>Barrier\<close>, which is in the theory
  \<open>BarrierProtocol\<close>) and the supervising loop of \<open>server_launch\<close>.

  A handler is a function from the server's state to an outcome and a state. The outcome is
  \<open>Waiting\<close> when the handler spins in a \<open>while ... sleep\<close> loop or waits for a lock in this
  state, \<open>Raised e\<close> when it raises, \<open>Done r\<close> when it returns a reply. A lock acquired by
  \<open>acquire()\<close> and not released because an exception left the section stays held: no
  handler uses \<open>with\<close>. A handler's locked section is one atomic step, as the lock makes it;
  a getter's unlocked test of its dictionary is a step of its own.

  Doubles and clock values are of a type \<open>'f\<close>; \<open>time.time()\<close> is an argument. The type of
  a key is the one the protocol file declares: \<open>PutBytes\<close> takes a \<open>string\<close> key,
  \<open>GetBytes\<close> and \<open>RemoveBytes\<close> a \<open>bytes\<close> key, and the two never compare equal in Python.
\<close>

section \<open>State\<close>

datatype lock_id = MainLock | DoubleLock | IntLock | StringLock | BytesLock | JsonLock

datatype py_key = StrKey string | BytesKey string

datatype 'f reply =
    StatusReply int | RankReply int | HostNameReply string | DeviceInfoReply int int int
  | NcclIdReply string | IntValue int | DoubleValue 'f | StringValue string
  | MessageReply string

datatype 'f outcome = Waiting | Raised py_error | Done "'f reply"

record 'f server =
  held :: "lock_id list"
  worldsize :: int
  local_worldsizes :: "(string \<times> int) list"
  local_ranks :: "(string \<times> int) list"
  nodenames :: "string list"
  hostnames :: "(int \<times> string) list"
  num_hostnames :: int
  deviceinfos :: "(int \<times> (int \<times> int \<times> int)) list"
  num_deviceinfos :: int
  nccl_ids :: "(int list \<times> string) list"
  exit_nums :: int
  double_dict :: "(string \<times> 'f) list"
  int_dict :: "(string \<times> int) list"
  string_dict :: "(string \<times> string) list"
  bytes_dict :: "(py_key \<times> string) list"
  json_dict :: "(string \<times> string) list"
  arr :: int
  exit_arr :: "int list"
  last_heartbeat :: "'f list"

definition init_server :: "'f \<Rightarrow> 'f server" where
  "init_server z =
     \<lparr>held = [], worldsize = 0, local_worldsizes = [], local_ranks = [], nodenames = [],
      hostnames = [], num_hostnames = 0, deviceinfos = [], num_deviceinfos = 0,
      nccl_ids = [], exit_nums = 0, double_dict = [], int_dict = [], string_dict = [],
      bytes_dict = [], json_dict = [], arr = 0, exit_arr = replicate 32 0,
      last_heartbeat = replicate 32 z\<rparr>"

type_synonym 'f handler = "'f server \<Rightarrow> 'f outcome \<times> 'f server"

text \<open>\<open>acquire(); body; release()\<close>: an exception of the body keeps the lock.\<close>

definition with_lock :: "lock_id \<Rightarrow> 'f handler \<Rightarrow> 'f handler" where
  "with_lock l body s =
     (if l \<in> set (held s) then (Waiting, s)
      else case body s of
             (Raised e, s') \<Rightarrow> (Raised e, s'\<lparr>held := l # held s'\<rparr>)
           | (r, s') \<Rightarrow> (r, s'))"

text \<open>Assignment to an element of a shared array (negative indices count from the end).\<close>

definition py_set_nth :: "'a list \<Rightarrow> int \<Rightarrow> 'a \<Rightarrow> 'a list result" where
  "py_set_nth xs i v =
     (if 0 \<le> i then (if nat i < length xs then Inr (xs[nat i := v]) else Inl IndexError)
      else if nat (- i) \<le> length xs then Inr (xs[length xs - nat (- i) := v]) else Inl IndexError)"

section \<open>Membership\<close>

definition node_of :: "string \<Rightarrow> string" where
  "node_of h = ''node-'' @ h"

definition Connect :: "string \<Rightarrow> 'f handler" where
  "Connect hostname = with_lock MainLock (\<lambda>s.
     let nodename = node_of hostname;
         s1 = (if has_key (local_worldsizes s) nodename then s
               else s\<lparr>local_worldsizes := AList.update nodename 0 (local_worldsizes s),
                      nodenames := nodenames s @ [nodename]\<rparr>)
     in case py_lookup (local_worldsizes s1) nodename of
          Inl e \<Rightarrow> (Raised e, s1)
        | Inr n \<Rightarrow> (Done (StatusReply 1),
                   s1\<lparr>local_worldsizes := AList.update nodename (n + 1) (local_worldsizes s1),
                      worldsize := worldsize s1 + 1\<rparr>))"

text \<open>The loop of \<open>GetRank\<close> over the node names: the rank and the new \<open>local_ranks\<close>.\<close>

fun rank_loop ::
  "string \<Rightarrow> string list \<Rightarrow> (string \<times> int) list \<Rightarrow> (string \<times> int) list \<Rightarrow> int \<Rightarrow>
   (int \<times> (string \<times> int) list) result" where
  "rank_loop nodename [] sizes ranks local_rank = Inr (local_rank, ranks)"
| "rank_loop nodename (other # rest) sizes ranks local_rank =
     (if other = nodename then
        bindE (py_lookup ranks nodename) (\<lambda>r.
          Inr (local_rank + r, AList.update nodename (r + 1) ranks))
      else bindE (py_lookup sizes other) (\<lambda>w.
          rank_loop nodename rest sizes ranks (local_rank + w)))"

definition GetRank :: "'f \<Rightarrow> string \<Rightarrow> 'f handler" where
  "GetRank now name = with_lock MainLock (\<lambda>s.
     let nodename = node_of name;
         s1 = (if has_key (local_ranks s) nodename then s
               else s\<lparr>local_ranks := AList.update nodename 0 (local_ranks s)\<rparr>)
     in case rank_loop nodename (nodenames s1) (local_worldsizes s1) (local_ranks s1) 0 of
          Inl e \<Rightarrow> (Raised e, s1)
        | Inr (local_rank, ranks) \<Rightarrow>
            (let s2 = s1\<lparr>local_ranks := ranks\<rparr> in
             case py_set_nth (last_heartbeat s2) local_rank now of
               Inl e \<Rightarrow> (Raised e, s2)
             | Inr hb \<Rightarrow> (Done (RankReply local_rank),
                         s2\<lparr>last_heartbeat := hb, arr := arr s2 + 1\<rparr>)))"

section \<open>Host names, devices, NCCL identifiers\<close>

definition CommitHostName :: "int \<Rightarrow> string \<Rightarrow> 'f handler" where
  "CommitHostName rank hostname = with_lock MainLock (\<lambda>s.
     (Done (StatusReply 1),
      s\<lparr>num_hostnames := num_hostnames s + 1,
        hostnames := AList.update rank hostname (hostnames s)\<rparr>))"

text \<open>
  A getter spins until the key is there, then reads it under the lock. \<open>locked_read\<close> is
  the second section alone: it raises when the key has gone in between.
\<close>

definition locked_read ::
  "lock_id \<Rightarrow> ('f server \<Rightarrow> ('k \<times> 'v) list) \<Rightarrow> ('v \<Rightarrow> 'f reply) \<Rightarrow> 'k \<Rightarrow> 'f handler" where
  "locked_read l dict mk key = with_lock l (\<lambda>s.
     case py_lookup (dict s) key of
       Inl e \<Rightarrow> (Raised e, s)
     | Inr v \<Rightarrow> (Done (mk v), s))"

definition polling_get ::
  "lock_id \<Rightarrow> ('f server \<Rightarrow> ('k \<times> 'v) list) \<Rightarrow> ('v \<Rightarrow> 'f reply) \<Rightarrow> 'k \<Rightarrow> 'f handler" where
  "polling_get l dict mk key s =
     (if has_key (dict s) key then locked_read l dict mk key s else (Waiting, s))"

definition GetHostName :: "int \<Rightarrow> 'f handler" where
  "GetHostName rank = polling_get MainLock hostnames HostNameReply rank"

definition CommitDeviceInfo :: "int \<Rightarrow> int \<Rightarrow> int \<Rightarrow> int \<Rightarrow> 'f handler" where
  "CommitDeviceInfo rank type index multiplex = with_lock MainLock (\<lambda>s.
     (Done (StatusReply 1),
      s\<lparr>num_deviceinfos := num_deviceinfos s + 1,
        deviceinfos := AList.update rank (type, index, multiplex) (deviceinfos s)\<rparr>))"

definition GetDeviceInfo :: "int \<Rightarrow> 'f handler" where
  "GetDeviceInfo rank =
     polling_get MainLock deviceinfos (\<lambda>(t, i, m). DeviceInfoReply t i m) rank"

definition CommitNcclId :: "int list \<Rightarrow> int \<Rightarrow> string \<Rightarrow> 'f handler" where
  "CommitNcclId world_rank stream_id nccl_id = with_lock MainLock (\<lambda>s.
     (Done (StatusReply 1),
      s\<lparr>nccl_ids := AList.update (world_rank @ [stream_id]) nccl_id (nccl_ids s)\<rparr>))"

definition GetNcclId :: "int list \<Rightarrow> int \<Rightarrow> 'f handler" where
  "GetNcclId world_rank stream_id =
     polling_get MainLock nccl_ids NcclIdReply (world_rank @ [stream_id])"

definition Exit :: "int \<Rightarrow> 'f handler" where
  "Exit rank = with_lock MainLock (\<lambda>s.
     case py_set_nth (exit_arr s) rank 1 of
       Inl e \<Rightarrow> (Raised e, s)
     | Inr ea \<Rightarrow> (Done (StatusReply 1), s\<lparr>exit_arr := ea, exit_nums := exit_nums s + 1\<rparr>))"

definition HeartBeat :: "'f \<Rightarrow> int \<Rightarrow> 'f handler" where
  "HeartBeat now rank = with_lock MainLock (\<lambda>s.
     case py_set_nth (last_heartbeat s) rank now of
       Inl e \<Rightarrow> (Raised e, s)
     | Inr hb \<Rightarrow> (Done (StatusReply 1), s\<lparr>last_heartbeat := hb\<rparr>))"

section \<open>Typed stores\<close>

text \<open>
  A remover tries up to \<open>MAX_UNFOUND_TIMES\<close> times. Its key is absent in this state and
  stays absent for all the tries, or it is present: the two results of a call that no other
  call interleaves with.
\<close>

definition MAX_UNFOUND_TIMES :: nat where
  "MAX_UNFOUND_TIMES = 10000"

fun unfound_times :: "nat \<Rightarrow> ('k \<times> 'v) list \<Rightarrow> 'k \<Rightarrow> nat" where
  "unfound_times 0 d k = 0"
| "unfound_times (Suc n) d k = (if has_key d k then 0 else Suc (unfound_times n d k))"

definition polling_remove ::
  "('f server \<Rightarrow> (string \<times> 'v) list) \<Rightarrow> ((string \<times> 'v) list \<Rightarrow> 'f server \<Rightarrow> 'f server) \<Rightarrow>
   string \<Rightarrow> 'f handler" where
  "polling_remove dict upd key s =
     (if unfound_times MAX_UNFOUND_TIMES (dict s) key = MAX_UNFOUND_TIMES
      then (Done (MessageReply (''not found:'' @ key)), s)
      else case py_lookup (dict s) key of
             Inl e \<Rightarrow> (Raised e, s)
           | Inr v \<Rightarrow> (Done (MessageReply (''already remove:'' @ key)),
                      upd (AList.delete key (dict s)) s))"

definition PutDouble :: "string \<Rightarrow> 'f \<Rightarrow> 'f handler" where
  "PutDouble key v = with_lock DoubleLock (\<lambda>s.
     (Done (StatusReply 1), s\<lparr>double_dict := AList.update key v (double_dict s)\<rparr>))"

definition GetDouble :: "string \<Rightarrow> 'f handler" where
  "GetDouble key = polling_get IntLock int_dict IntValue key"

definition RemoveDouble :: "string \<Rightarrow> 'f handler" where
  "RemoveDouble key = polling_remove double_dict (\<lambda>d s. s\<lparr>double_dict := d\<rparr>) key"

definition PutInt :: "string \<Rightarrow> int \<Rightarrow> 'f handler" where
  "PutInt key v = with_lock IntLock (\<lambda>s.
     (Done (StatusReply 1), s\<lparr>int_dict := AList.update key v (int_dict s)\<rparr>))"

definition GetInt :: "string \<Rightarrow> 'f handler" where
  "GetInt key = polling_get DoubleLock double_dict DoubleValue key"

definition RemoveInt :: "string \<Rightarrow> 'f handler" where
  "RemoveInt key = polling_remove int_dict (\<lambda>d s. s\<lparr>int_dict := d\<rparr>) key"

definition PutString :: "string \<Rightarrow> string \<Rightarrow> 'f handler" where
  "PutString key v = with_lock StringLock (\<lambda>s.
     (Done (StatusReply 1), s\<lparr>string_dict := AList.update key v (string_dict s)\<rparr>))"

definition GetString :: "string \<Rightarrow> 'f handler" where
  "GetString key = polling_get StringLock string_dict StringValue key"

definition RemoveString :: "string \<Rightarrow> 'f handler" where
  "RemoveString key = polling_remove string_dict (\<lambda>d s. s\<lparr>string_dict := d\<rparr>) key"

definition PutBytes :: "string \<Rightarrow> string \<Rightarrow> 'f handler" where
  "PutBytes key v = with_lock BytesLock (\<lambda>s.
     (Done (StatusReply 1), s\<lparr>bytes_dict := AList.update (StrKey key) v (bytes_dict s)\<rparr>))"

definition GetBytes :: "string \<Rightarrow> 'f handler" where
  "GetBytes key = polling_get BytesLock bytes_dict StringValue (BytesKey key)"

text \<open>
  Both messages of \<open>RemoveBytes\<close> add a \<open>str\<close> and the \<open>bytes\<close> key, which raises.
\<close>

definition RemoveBytes :: "string \<Rightarrow> 'f handler" where
  "RemoveBytes key s =
     (if unfound_times MAX_UNFOUND_TIMES (bytes_dict s) (BytesKey key) = MAX_UNFOUND_TIMES
      then (Raised TypeError, s)
      else case py_lookup (bytes_dict s) (BytesKey key) of
             Inl e \<Rightarrow> (Raised e, s)
           | Inr v \<Rightarrow> (Raised TypeError,
                      s\<lparr>bytes_dict := AList.delete (BytesKey key) (bytes_dict s)\<rparr>))"

text \<open>
  \<open>PutJson\<close> stores first and then parses the value; \<open>json_ok\<close> tells the texts that
  \<open>json.loads\<close> accepts.
\<close>

definition PutJson :: "(string \<Rightarrow> bool) \<Rightarrow> string \<Rightarrow> string \<Rightarrow> 'f handler" where
  "PutJson json_ok key v = with_lock JsonLock (\<lambda>s.
     let s1 = s\<lparr>json_dict := AList.update key v (json_dict s)\<rparr>
     in if json_ok v then (Done (StatusReply 1), s1) else (Raised ValueError, s1))"

definition GetJson :: "string \<Rightarrow> 'f handler" where
  "GetJson key = polling_get JsonLock json_dict StringValue key"

definition RemoveJson :: "string \<Rightarrow> 'f handler" where
  "RemoveJson key = polling_remove json_dict (\<lambda>d s. s\<lparr>json_dict := d\<rparr>) key"

section \<open>The supervisor\<close>

text \<open>
  One turn of the loop of \<open>server_launch\<close>: \<open>None\<close> when it stops the server, else the
  exit flags after the heartbeat check of the ranks \<open>0\<close> to \<open>arr[0] - 1\<close>.
\<close>

definition launch_stop :: "int \<Rightarrow> int list \<Rightarrow> bool" where
  "launch_stop a exits \<longleftrightarrow> a \<noteq> 0 \<and> a \<le> sum_list exits"

fun check_heartbeats :: "'f::linordered_idom \<Rightarrow> 'f list \<Rightarrow> nat list \<Rightarrow> int list \<Rightarrow> int list result" where
  "check_heartbeats now hb [] exits = Inr exits"
| "check_heartbeats now hb (i # is) exits =
     bindE (py_nth hb (int i)) (\<lambda>t.
       bindE (if now - t > 10 then py_set_nth exits (int i) 1 else Inr exits)
         (check_heartbeats now hb is))"

definition launch_turn ::
  "'f::linordered_idom \<Rightarrow> 'f server \<Rightarrow> ('f server) option result" where
  "launch_turn now s =
     (if launch_stop (arr s) (exit_arr s) then Inr None
      else bindE (check_heartbeats now (last_heartbeat s) [0..<nat (arr s)] (exit_arr s))
             (\<lambda>ea. Inr (Some (s\<lparr>exit_arr := ea\<rparr>))))"

text \<open>The stop test of the same loop when the file is run as a script.\<close>

definition main_stop :: "int \<Rightarrow> int list \<Rightarrow> bool" where
  "main_stop a exits \<longleftrightarrow> a = 0 \<or> a \<le> sum_list exits"

section \<open>Rank assignment\<close>

fun run_calls :: "'f handler list \<Rightarrow> 'f server \<Rightarrow> 'f outcome list \<times> 'f server" where
  "run_calls [] s = ([], s)"
| "run_calls (h # hs) s =
     (let (r, s') = h s; (rs, s'') = run_calls hs s' in (r # rs, s''))"

lemma run_calls_append:
  "run_calls (hs @ gs) s =
     (let (rs, s') = run_calls hs s; (rs', s'') = run_calls gs s' in (rs @ rs', s''))"
  by (induction hs arbitrary: s) (auto simp: Let_def split: prod.splits)

text \<open>
  The abstract assignment: the nodes own consecutive blocks of ranks in the order in which
  they first connected, and \<open>node_base\<close> is where a node's block starts.
\<close>

fun node_base :: "string \<Rightarrow> (string \<times> int) list \<Rightarrow> int" where
  "node_base n [] = 0"
| "node_base n ((m, w) # r) = (if m = n then 0 else w + node_base n r)"

abbreviation calls_of :: "string list \<Rightarrow> string \<Rightarrow> int" where
  "calls_of hs h \<equiv> int (count_list hs h)"

definition connected :: "string list \<Rightarrow> 'f server \<Rightarrow> bool" where
  "connected hs s \<longleftrightarrow>
     held s = [] \<and> nodenames s = map fst (local_worldsizes s) \<and> distinct (nodenames s) \<and>
     set (nodenames s) = node_of ` set hs \<and>
     (\<forall>h \<in> set hs. map_of (local_worldsizes s) (node_of h) = Some (calls_of hs h)) \<and>
     worldsize s = int (length hs) \<and> sum_list (map snd (local_worldsizes s)) = int (length hs) \<and>
     length (last_heartbeat s) = 32"

definition ranked :: "string list \<Rightarrow> 'f server \<Rightarrow> bool" where
  "ranked gs s \<longleftrightarrow>
     (\<forall>h. dict_get (local_ranks s) (node_of h) 0 = calls_of gs h) \<and> arr s = int (length gs)"

lemma connectedD:
  assumes "connected hs s"
  shows "held s = []" and "nodenames s = map fst (local_worldsizes s)"
    and "distinct (map fst (local_worldsizes s))"
    and "fst ` set (local_worldsizes s) = node_of ` set hs"
    and "\<And>h. h \<in> set hs \<Longrightarrow> map_of (local_worldsizes s) (node_of h) = Some (calls_of hs h)"
    and "worldsize s = int (length hs)"
    and "sum_list (map snd (local_worldsizes s)) = int (length hs)"
    and "length (last_heartbeat s) = 32"
  using assms unfolding connected_def
  by (blast, blast, metis, metis set_map, blast, blast, blast, blast)

lemma node_of_eq [simp]: "node_of a = node_of b \<longleftrightarrow> a = b"
  by (simp add: node_of_def)

lemma connected_init: "connected [] (init_server z)"
  by (simp add: connected_def init_server_def)

lemma ranked_init: "ranked [] (init_server z)"
  by (simp add: ranked_def init_server_def)

lemma sum_snd_update:
  "distinct (map fst d) \<Longrightarrow>
   sum_list (map snd (AList.update k v d)) = sum_list (map snd d) - dict_get d k 0 + (v::int)"
proof (induction d)
  case (Cons a d)
  then show ?case by (cases a) (auto simp: dict_get_def)
qed (simp add: dict_get_def)

lemma keys_update: "map fst (AList.update k v d) = map fst d @ (if has_key d k then [] else [k])"
  by (induction d) auto

lemma Connect_step:
  assumes "connected hs s" and "ranked gs s"
  shows "\<exists>s'. Connect h s = (Done (StatusReply 1), s') \<and> connected (hs @ [h]) s' \<and> ranked gs s'"
proof -
  let ?n = "node_of h" and ?d = "local_worldsizes s"
  have keys: "fst ` set ?d = node_of ` set hs" by (rule connectedD(4) [OF assms(1)])
  then have old: "has_key ?d ?n \<longleftrightarrow> h \<in> set hs" by auto
  have dist: "distinct (map fst ?d)" by (rule connectedD(3) [OF assms(1)])
  have cnt: "dict_get ?d ?n 0 = calls_of hs h"
  proof (cases "h \<in> set hs")
    case True
    then show ?thesis using assms(1) by (simp add: connected_def dict_get_def)
  next
    case False
    then have "map_of ?d ?n = None" using old by (simp add: has_key_iff)
    then show ?thesis using False by (simp add: dict_get_def count_list_0_iff)
  qed
  let ?d' = "AList.update ?n (calls_of hs h + 1) ?d"
  let ?s' = "s\<lparr>local_worldsizes := ?d', nodenames := map fst ?d', worldsize := worldsize s + 1\<rparr>"
  have lookup: "map_of ?d' (node_of x) = Some (calls_of (hs @ [h]) x)" if "x \<in> set (hs @ [h])" for x
    using that assms(1) by (auto simp: connected_def update_conv')
  have *: "Connect h s = (Done (StatusReply 1), ?s')"
  proof (cases "h \<in> set hs")
    case True
    with assms(1) have "map_of ?d ?n = Some (calls_of hs h)" by (simp add: connected_def)
    with True old assms(1) show ?thesis
      by (simp add: Connect_def with_lock_def connected_def py_lookup_def Let_def keys_update)
  next
    case False
    then have "count_list hs h = 0" by (simp add: count_list_0_iff)
    with False old assms(1) show ?thesis
      by (simp add: Connect_def with_lock_def connected_def Let_def keys_update)
  qed
  have "connected (hs @ [h]) ?s'"
    unfolding connected_def
  proof (intro conjI)
    show "distinct (nodenames ?s')" using distinct_update [OF dist] by simp
    show "set (nodenames ?s') = node_of ` set (hs @ [h])"
      using keys by (auto simp: keys_update)
    show "\<forall>x\<in>set (hs @ [h]). map_of (local_worldsizes ?s') (node_of x) = Some (calls_of (hs @ [h]) x)"
      using lookup by simp
    show "sum_list (map snd (local_worldsizes ?s')) = int (length (hs @ [h]))"
      using assms(1) cnt by (simp add: sum_snd_update [OF dist] connected_def)
  qed (use assms(1) in \<open>simp_all add: connected_def\<close>)
  moreover have "ranked gs ?s'" using assms(2) by (simp add: ranked_def)
  ultimately show ?thesis using * by blast
qed

lemma Connect_run:
  "connected hs s \<Longrightarrow> ranked gs s \<Longrightarrow>
   \<exists>s'. run_calls (map Connect hs') s = (replicate (length hs') (Done (StatusReply 1)), s') \<and>
        connected (hs @ hs') s' \<and> ranked gs s'"
proof (induction hs' arbitrary: hs s)
  case (Cons h hs')
  from Connect_step [OF Cons.prems] obtain s1 where
    "Connect h s = (Done (StatusReply 1), s1)" and "connected (hs @ [h]) s1" and "ranked gs s1"
    by blast
  with Cons.IH [of "hs @ [h]" s1] show ?case by (auto simp: Let_def)
qed simp

lemma rank_loop_base:
  assumes "\<forall>p \<in> set zs. map_of sizes (fst p) = Some (snd p)"
    and "n \<in> fst ` set zs" and "py_lookup ranks n = Inr r"
  shows "rank_loop n (map fst zs) sizes ranks lr =
           Inr (lr + node_base n zs + r, AList.update n (r + 1) ranks)"
  using assms
proof (induction zs arbitrary: lr)
  case (Cons p zs)
  obtain m w where p: "p = (m, w)" by (cases p)
  show ?case
  proof (cases "m = n")
    case True
    with Cons.prems p show ?thesis by simp
  next
    case False
    with Cons.prems p have "n \<in> fst ` set zs" and "py_lookup sizes m = Inr w"
      by (auto simp: py_lookup_def)
    with False p Cons.prems show ?thesis by (simp add: Cons.IH add.assoc)
  qed
qed simp

lemma node_base_nonneg: "\<forall>p \<in> set zs. 0 \<le> snd p \<Longrightarrow> 0 \<le> node_base n zs"
  by (induction n zs rule: node_base.induct) auto

lemma node_base_bound:
  "distinct (map fst zs) \<Longrightarrow> \<forall>p \<in> set zs. 0 \<le> snd p \<Longrightarrow> map_of zs n = Some w \<Longrightarrow>
   node_base n zs + w \<le> sum_list (map snd zs)"
proof (induction n zs rule: node_base.induct)
  case (2 n m w' r)
  have "0 \<le> sum_list (map snd r)" using "2.prems"(2) by (auto intro!: sum_list_nonneg)
  with 2 show ?case by (auto split: if_splits)
qed simp

text \<open>The blocks of two different nodes do not overlap.\<close>

lemma node_base_disjoint:
  "\<forall>p \<in> set zs. 0 \<le> snd p \<Longrightarrow> map_of zs a = Some u \<Longrightarrow> map_of zs b = Some v \<Longrightarrow> a \<noteq> b \<Longrightarrow>
   node_base a zs + u \<le> node_base b zs \<or> node_base b zs + v \<le> node_base a zs"
proof (induction zs)
  case (Cons p zs)
  obtain m w where p: "p = (m, w)" by (cases p)
  consider "m = a" | "m = b" | "m \<noteq> a" "m \<noteq> b" by blast
  then show ?case
  proof cases
    case 1
    with Cons.prems p show ?thesis using node_base_nonneg [of zs b] by auto
  next
    case 2
    with Cons.prems p show ?thesis using node_base_nonneg [of zs a] by auto
  next
    case 3
    with Cons p show ?thesis by auto
  qed
qed simp

lemma py_set_nth_in: "0 \<le> i \<Longrightarrow> i < int (length xs) \<Longrightarrow> py_set_nth xs i v = Inr (xs[nat i := v])"
  by (simp add: py_set_nth_def)

lemma connected_sizes:
  assumes "connected hs s"
  shows "\<forall>p \<in> set (local_worldsizes s). 0 \<le> snd p"
    and "\<forall>p \<in> set (local_worldsizes s). map_of (local_worldsizes s) (fst p) = Some (snd p)"
proof -
  let ?d = "local_worldsizes s"
  note dist = connectedD(3) [OF assms] and keys = connectedD(4) [OF assms]
  show all: "\<forall>p \<in> set ?d. map_of ?d (fst p) = Some (snd p)"
    using dist by (simp add: map_of_is_SomeI)
  show "\<forall>p \<in> set ?d. 0 \<le> snd p"
  proof
    fix p assume p: "p \<in> set ?d"
    then have "fst p \<in> node_of ` set hs" using keys by blast
    then obtain h where "h \<in> set hs" "fst p = node_of h" by blast
    with connectedD(5) [OF assms] all p have "Some (snd p) = Some (calls_of hs h)"
      by metis
    then show "0 \<le> snd p" by simp
  qed
qed

lemma rank_in_block:
  assumes c: "connected hs s" and g: "g \<in> set hs" and "0 \<le> k" "k < calls_of hs g"
  shows "0 \<le> node_base (node_of g) (local_worldsizes s) + k"
    and "node_base (node_of g) (local_worldsizes s) + k < int (length hs)"
proof -
  let ?d = "local_worldsizes s"
  have "node_base (node_of g) ?d + calls_of hs g \<le> int (length hs)"
    using node_base_bound [OF connectedD(3) [OF c] connected_sizes(1) [OF c] connectedD(5) [OF c g]]
      connectedD(7) [OF c] by simp
  with assms(3,4) node_base_nonneg [OF connected_sizes(1) [OF c]]
  show "0 \<le> node_base (node_of g) ?d + k" "node_base (node_of g) ?d + k < int (length hs)"
    by (force, linarith)
qed

lemma GetRank_step:
  assumes c: "connected hs s" and r: "ranked gs s" and g: "g \<in> set hs"
    and room: "calls_of gs g < calls_of hs g" and small: "length hs \<le> 32"
  shows "\<exists>s'. GetRank now g s =
            (Done (RankReply (node_base (node_of g) (local_worldsizes s) + calls_of gs g)), s') \<and>
          connected hs s' \<and> ranked (gs @ [g]) s' \<and> local_worldsizes s' = local_worldsizes s"
proof -
  let ?n = "node_of g" and ?d = "local_worldsizes s"
  let ?lr = "if has_key (local_ranks s) ?n then local_ranks s
             else AList.update ?n 0 (local_ranks s)"
  let ?rank = "node_base ?n ?d + calls_of gs g"
  let ?ranks = "AList.update ?n (calls_of gs g + 1) ?lr"
  note nn = connectedD(2) [OF c] and keys = connectedD(4) [OF c]
    and held = connectedD(1) [OF c] and hb = connectedD(8) [OF c]
  have cnt: "dict_get (local_ranks s) (node_of x) 0 = calls_of gs x" for x
    using r by (simp add: ranked_def)
  have lookup: "py_lookup ?lr ?n = Inr (calls_of gs g)"
    using cnt [of g]
    by (auto simp: dict_get_def py_lookup_def has_key_iff update_conv' split: option.splits)
  have loop: "rank_loop ?n (nodenames s) ?d ?lr 0 = Inr (?rank, ?ranks)"
    using rank_loop_base [OF connected_sizes(2) [OF c], of ?n ?lr] keys g lookup nn by simp
  have bounds: "0 \<le> ?rank" "?rank < 32"
    using rank_in_block [OF c g, of "calls_of gs g"] room small by auto
  let ?s' = "s\<lparr>local_ranks := ?ranks, last_heartbeat := (last_heartbeat s)[nat ?rank := now],
              arr := arr s + 1\<rparr>"
  have "GetRank now g s = (Done (RankReply ?rank), ?s')"
    using held loop bounds hb
    by (cases "has_key (local_ranks s) ?n")
       (simp_all add: GetRank_def with_lock_def Let_def py_set_nth_in)
  moreover have "connected hs ?s'" using c unfolding connected_def by simp (metis set_map)
  moreover have "ranked (gs @ [g]) ?s'"
    using r cnt by (auto simp: ranked_def)
  ultimately show ?thesis by (intro exI [of _ ?s']) simp
qed

text \<open>The ranks that a sequence of \<open>GetRank\<close> calls returns, after the calls \<open>gs\<close>.\<close>

fun block_ranks :: "(string \<times> int) list \<Rightarrow> string list \<Rightarrow> string list \<Rightarrow> int list" where
  "block_ranks d gs [] = []"
| "block_ranks d gs (g # gs') =
     (node_base (node_of g) d + calls_of gs g) # block_ranks d (gs @ [g]) gs'"

lemma length_block_ranks [simp]: "length (block_ranks d gs gs') = length gs'"
  by (induction d gs gs' rule: block_ranks.induct) auto

lemma GetRank_run:
  assumes "connected hs s" and "ranked gs s" and "length hs \<le> 32"
    and "mset (gs @ gs') \<subseteq># mset hs"
  shows "\<exists>s'. run_calls (map (GetRank now) gs') s =
            (map (Done \<circ> RankReply) (block_ranks (local_worldsizes s) gs gs'), s') \<and>
          connected hs s' \<and> ranked (gs @ gs') s' \<and> local_worldsizes s' = local_worldsizes s"
  using assms
proof (induction gs' arbitrary: gs s)
  case (Cons g gs')
  have room: "calls_of gs g < calls_of hs g"
    using count_list_le_mset [OF Cons.prems(4), of g] by simp
  then have "g \<in> set hs" by (auto simp: count_list_0_iff intro: ccontr)
  from GetRank_step [OF Cons.prems(1,2) this room Cons.prems(3), of now] obtain s1 where
    s1: "GetRank now g s = (Done (RankReply (node_base (node_of g) (local_worldsizes s) + calls_of gs g)), s1)"
      "connected hs s1" "ranked (gs @ [g]) s1" "local_worldsizes s1 = local_worldsizes s"
    by blast
  have "mset ((gs @ [g]) @ gs') \<subseteq># mset hs" using Cons.prems(4) by simp
  from Cons.IH [OF s1(2,3) Cons.prems(3) this] s1 show ?case by (auto simp: Let_def)
qed simp

lemma block_ranks_range:
  "x \<in> set (block_ranks d gs gs') \<Longrightarrow>
   \<exists>h \<in> set gs'. node_base (node_of h) d + calls_of gs h \<le> x \<and>
                x < node_base (node_of h) d + calls_of (gs @ gs') h"
proof (induction d gs gs' rule: block_ranks.induct)
  case (2 d gs g gs')
  show ?case
  proof (cases "x = node_base (node_of g) d + calls_of gs g")
    case True
    then show ?thesis by (intro bexI [of _ g]) auto
  next
    case False
    with "2.prems" have "x \<in> set (block_ranks d (gs @ [g]) gs')" by simp
    from "2.IH" [OF this] obtain h where "h \<in> set gs'"
      "node_base (node_of h) d + calls_of (gs @ [g]) h \<le> x"
      "x < node_base (node_of h) d + calls_of ((gs @ [g]) @ gs') h" by blast
    then show ?thesis by (intro bexI [of _ h]) (auto split: if_splits)
  qed
qed simp

lemma block_ranks_distinct:
  assumes "connected hs s" and "mset (gs @ gs') \<subseteq># mset hs"
  shows "distinct (block_ranks (local_worldsizes s) gs gs')"
  using assms(2)
proof (induction gs' arbitrary: gs)
  case (Cons g gs')
  let ?d = "local_worldsizes s" and ?B = "\<lambda>h. node_base (node_of h) (local_worldsizes s)"
  have sub: "mset ((gs @ [g]) @ gs') \<subseteq># mset hs" using Cons.prems by simp
  have le: "calls_of (gs @ g # gs') h \<le> calls_of hs h" for h
    using count_list_le_mset [OF Cons.prems, of h] by simp
  have mem: "h \<in> set hs" if "h \<in> set (gs @ g # gs')" for h
    using set_mset_mono [OF Cons.prems] that by auto
  have "?B g + calls_of gs g \<notin> set (block_ranks ?d (gs @ [g]) gs')"
  proof
    assume "?B g + calls_of gs g \<in> set (block_ranks ?d (gs @ [g]) gs')"
    from block_ranks_range [OF this] obtain h where h: "h \<in> set gs'"
      "?B h + calls_of (gs @ [g]) h \<le> ?B g + calls_of gs g"
      "?B g + calls_of gs g < ?B h + calls_of ((gs @ [g]) @ gs') h" by blast
    show False
    proof (cases "h = g")
      case True
      with h show False by simp
    next
      case False
      have w: "map_of ?d (node_of x) = Some (calls_of hs x)" if "x \<in> {g, h}" for x
        using assms(1) mem [of x] that h(1) by (auto simp: connected_def)
      have "?B g + calls_of hs g \<le> ?B h \<or> ?B h + calls_of hs h \<le> ?B g"
        using node_base_disjoint [OF connected_sizes(1) [OF assms(1)] w w] False by auto
      with h le [of g] le [of h] False show False by auto
    qed
  qed
  then show ?case using Cons.IH [OF sub] by simp
qed simp

lemma distinct_ints_below:
  assumes "distinct (rs :: int list)" and "set rs \<subseteq> {0..<int (length rs)}"
  shows "mset rs = mset (map int [0..<length rs])"
proof -
  have "card (set rs) = card {0..<int (length rs)}"
    using assms(1) by (simp add: distinct_card)
  then have "set rs = {0..<int (length rs)}"
    using assms(2) by (simp add: card_subset_eq)
  also have "\<dots> = set (map int [0..<length rs])"
    by (auto simp: image_iff) (metis atLeastLessThan_iff int_nat_eq nat_less_iff zero_le)
  finally have "set rs = set (map int [0..<length rs])" .
  moreover have "distinct (map int [0..<length rs])" by (simp add: distinct_map)
  ultimately show ?thesis using assms(1) set_eq_iff_mset_eq_distinct by blast
qed

text \<open>C12: When every process of a job of at most 32 processes connects and each then asks for its
  rank (in any order of the calls), the ranks handed out are exactly \<open>0, ..., n - 1\<close>, each
  once, the server counts \<open>n\<close> live ranks and holds no lock.\<close>

theorem ranks_are_a_permutation:
  assumes "mset gs = mset hs" and "length hs \<le> 32"
  shows "\<exists>rs s. run_calls (map Connect hs @ map (GetRank now) gs) (init_server z) =
            (replicate (length hs) (Done (StatusReply 1)) @ map (Done \<circ> RankReply) rs, s) \<and>
          mset rs = mset (map int [0..<length hs]) \<and>
          arr s = int (length hs) \<and> worldsize s = int (length hs) \<and> held s = []"
proof -
  obtain s1 where s1: "run_calls (map Connect hs) (init_server z) =
      (replicate (length hs) (Done (StatusReply 1)), s1)" "connected hs s1" "ranked [] s1"
    using Connect_run [OF connected_init ranked_init] by force
  have sub: "mset ([] @ gs) \<subseteq># mset hs" using assms(1) by simp
  obtain s2 where s2: "run_calls (map (GetRank now) gs) s1 =
      (map (Done \<circ> RankReply) (block_ranks (local_worldsizes s1) [] gs), s2)"
      "connected hs s2" "ranked gs s2"
    using GetRank_run [OF s1(2,3) assms(2) sub] by force
  let ?rs = "block_ranks (local_worldsizes s1) [] gs"
  have len: "length gs = length hs" using assms(1) by (metis size_mset)
  have "x \<in> {0..<int (length ?rs)}" if "x \<in> set ?rs" for x
  proof -
    from block_ranks_range [OF that] obtain h where h: "h \<in> set gs"
      "node_base (node_of h) (local_worldsizes s1) \<le> x"
      "x < node_base (node_of h) (local_worldsizes s1) + calls_of gs h" by auto
    have "h \<in> set hs" "calls_of gs h = calls_of hs h"
      using h(1) assms(1) by (metis set_mset_mset, metis count_mset)
    with rank_in_block [OF s1(2), of h "x - node_base (node_of h) (local_worldsizes s1)"] h
    show ?thesis using len by simp
  qed
  then have "mset ?rs = mset (map int [0..<length ?rs])"
    using distinct_ints_below block_ranks_distinct [OF s1(2) sub] by blast
  then show ?thesis
    using s1 s2 len connectedD(1,6) [OF s2(2)]
    by (intro exI [of _ ?rs] exI [of _ s2]) (simp add: run_calls_append ranked_def)
qed

theorem ranks_are_a_permutation_witness:
  "\<exists>rs s. run_calls (map Connect [''a'', ''b'', ''a''] @ map (GetRank 5) [''a'', ''a'', ''b''])
            (init_server (0::int)) =
          (replicate (length [''a'', ''b'', ''a'']) (Done (StatusReply 1)) @
           map (Done \<circ> RankReply) rs, s) \<and>
        mset rs = mset (map int [0..<length [''a'', ''b'', ''a'']]) \<and>
        arr s = int (length [''a'', ''b'', ''a'']) \<and>
        worldsize s = int (length [''a'', ''b'', ''a'']) \<and> held s = []"
  by (rule ranks_are_a_permutation) simp_all

text \<open>The rank table has 32 places. A process whose rank would be 32 or more gets no rank: the
  call raises \<open>IndexError\<close> with the main lock held, and from then on every \<open>Connect\<close>,
  \<open>GetRank\<close>, \<open>Exit\<close> and \<open>HeartBeat\<close> waits forever.\<close>

theorem rank_overflow_wedges_server:
  assumes "connected hs s" and "ranked gs s" and "g \<in> set hs"
    and "node_base (node_of g) (local_worldsizes s) + calls_of gs g \<ge> 32"
  shows "\<exists>s'. GetRank now g s = (Raised IndexError, s') \<and>
          Connect h s' = (Waiting, s') \<and> GetRank now' h s' = (Waiting, s') \<and>
          Exit r s' = (Waiting, s') \<and> HeartBeat now' r s' = (Waiting, s')"
proof -
  let ?n = "node_of g" and ?d = "local_worldsizes s"
  let ?lr = "if has_key (local_ranks s) ?n then local_ranks s
             else AList.update ?n 0 (local_ranks s)"
  note c = connectedD [OF assms(1)]
  have cnt: "dict_get (local_ranks s) ?n 0 = calls_of gs g" using assms(2) by (simp add: ranked_def)
  then have "py_lookup ?lr ?n = Inr (calls_of gs g)"
    by (auto simp: dict_get_def py_lookup_def has_key_iff update_conv' split: option.splits)
  then have "rank_loop ?n (nodenames s) ?d ?lr 0 =
      Inr (node_base ?n ?d + calls_of gs g, AList.update ?n (calls_of gs g + 1) ?lr)"
    using rank_loop_base [OF connected_sizes(2) [OF assms(1)], of ?n ?lr] c(2,4) assms(3) by simp
  then show ?thesis
    using c(1,8) assms(4)
    by (cases "has_key (local_ranks s) ?n")
       (simp_all add: GetRank_def Connect_def Exit_def HeartBeat_def with_lock_def Let_def py_set_nth_def)
qed

definition crowded_server :: "int server" where
  "crowded_server = (init_server 0)
     \<lparr>worldsize := 33, local_worldsizes := [(''node-a'', 33)], nodenames := [''node-a''],
      local_ranks := [(''node-a'', 32)], arr := 32\<rparr>"

lemma count_list_const: "count_list (replicate n x) y = (if x = y then n else 0)"
  by (induction n) auto

theorem rank_overflow_wedges_server_witness:
  "\<exists>s'. GetRank 7 ''a'' crowded_server = (Raised IndexError, s') \<and>
        Connect ''b'' s' = (Waiting, s') \<and> GetRank 8 ''b'' s' = (Waiting, s') \<and>
        Exit 3 s' = (Waiting, s') \<and> HeartBeat 8 3 s' = (Waiting, s')"
proof (rule rank_overflow_wedges_server)
  show "connected (replicate 33 ''a'') crowded_server"
    by (simp add: connected_def crowded_server_def init_server_def node_of_def count_list_const)
  show "ranked (replicate 32 ''a'') crowded_server"
    by (simp add: ranked_def crowded_server_def init_server_def node_of_def count_list_const
        dict_get_def)
  show "''a'' \<in> set (replicate 33 ''a'')" by simp
  show "32 \<le> node_base (node_of ''a'') (local_worldsizes crowded_server) +
      calls_of (replicate 32 ''a'') ''a''"
    by (simp add: crowded_server_def init_server_def node_of_def count_list_const)
qed

section \<open>The typed stores\<close>

definition reply_of :: "'f outcome \<times> 'f server \<Rightarrow> 'f reply option" where
  "reply_of x = (case fst x of Done r \<Rightarrow> Some r | _ \<Rightarrow> None)"

lemma unfound_times_eq: "unfound_times n d k = (if has_key d k then 0 else n)"
  by (induction n) auto

lemma polling_remove_eq:
  "polling_remove dict upd key s =
     (if has_key (dict s) key
      then (Done (MessageReply (''already remove:'' @ key)), upd (AList.delete key (dict s)) s)
      else (Done (MessageReply (''not found:'' @ key)), s))"
  by (auto simp: polling_remove_def unfound_times_eq MAX_UNFOUND_TIMES_def py_lookup_def
      has_key_iff split: option.splits)

lemma polling_get_free:
  "l \<notin> set (held s) \<Longrightarrow>
   reply_of (polling_get l dict mk key s) = map_option mk (map_of (dict s) key)"
  by (auto simp: reply_of_def polling_get_def locked_read_def with_lock_def py_lookup_def
      has_key_iff split: option.splits)

interpretation string_store: kv_contract
  "\<lambda>s. StringLock \<notin> set (held s)" "\<lambda>k v s. snd (PutString k v s)"
  "\<lambda>k s. reply_of (GetString k s)" "\<lambda>k s. snd (RemoveString k s)" StringValue
  by unfold_locales
     (auto simp: PutString_def GetString_def RemoveString_def with_lock_def polling_remove_eq
       polling_get_free update_conv' delete_conv' has_key_iff)

interpretation json_store: kv_contract
  "\<lambda>s. JsonLock \<notin> set (held s)" "\<lambda>k v s. snd (PutJson (\<lambda>_. True) k v s)"
  "\<lambda>k s. reply_of (GetJson k s)" "\<lambda>k s. snd (RemoveJson k s)" StringValue
  by unfold_locales
     (auto simp: PutJson_def GetJson_def RemoveJson_def with_lock_def polling_remove_eq
       polling_get_free update_conv' delete_conv' has_key_iff Let_def)

text \<open>In the string store of the rendezvous server the last writer wins: with the store's lock
  free, after any sequence of \<open>PutString\<close> calls \<open>GetString\<close> returns the last value put under
  the key, or what it returned before when the key was not put.\<close>

theorem string_store_last_writer:
  assumes "StringLock \<notin> set (held s)"
  shows "reply_of (GetString k (fold (\<lambda>(k, v) s. snd (PutString k v s)) kvs s)) =
     (case map_of (rev kvs) k of Some v \<Rightarrow> Some (StringValue v) | None \<Rightarrow> reply_of (GetString k s))"
  using string_store.last_writer_wins [OF assms] by (simp add: case_prod_unfold)

theorem string_store_last_writer_witness:
  "reply_of (GetString ''k'' (fold (\<lambda>(k, v) s. snd (PutString k v s))
       [(''k'', ''1''), (''j'', ''2''), (''k'', ''3'')] (init_server (0::int)))) =
     Some (StringValue ''3'')"
  by (subst string_store_last_writer) (simp_all add: init_server_def)

text \<open>The double and the integer store are crossed: \<open>GetDouble\<close> spins on the integer dictionary
  and \<open>GetInt\<close> on the double one. A double that was put is never returned: however many
  doubles were put since the server started, \<open>GetDouble\<close> of any key still waits, and \<open>GetInt\<close>
  answers with the double.\<close>

theorem double_store_is_crossed:
  "GetDouble k (fold (\<lambda>(k, v) s. snd (PutDouble k v s)) kvs (init_server z)) =
     (Waiting, fold (\<lambda>(k, v) s. snd (PutDouble k v s)) kvs (init_server z)) \<and>
   reply_of (GetInt k (fold (\<lambda>(k, v) s. snd (PutDouble k v s)) kvs (init_server z))) =
     map_option DoubleValue (map_of (rev kvs) k)"
proof -
  have *: "held (fold (\<lambda>(k, v) s. snd (PutDouble k v s)) kvs s) = held s \<and>
     int_dict (fold (\<lambda>(k, v) s. snd (PutDouble k v s)) kvs s) = int_dict s \<and>
     map_of (double_dict (fold (\<lambda>(k, v) s. snd (PutDouble k v s)) kvs s)) k =
       (case map_of (rev kvs) k of None \<Rightarrow> map_of (double_dict s) k | Some v \<Rightarrow> Some v)"
    if "held s = []" for s :: "'a server"
    using that
  proof (induction kvs arbitrary: s)
    case (Cons p kvs)
    obtain k' v where p: "p = (k', v)" by (cases p)
    have "held (snd (PutDouble k' v s)) = []" using Cons.prems by (simp add: PutDouble_def with_lock_def)
    from Cons.IH [OF this] Cons.prems show ?case
      by (simp add: p PutDouble_def with_lock_def update_conv' map_add_def split: option.splits)
  qed simp
  define t where "t = fold (\<lambda>(k, v) s. snd (PutDouble k v s)) kvs (init_server z)"
  have t: "held t = []" "int_dict t = []" "map_of (double_dict t) k = map_of (rev kvs) k"
    using * [of "init_server z"] by (simp_all add: t_def init_server_def split: option.splits)
  have "GetDouble k t = (Waiting, t)"
    by (simp add: GetDouble_def polling_get_def t(2))
  moreover have "reply_of (GetInt k t) = map_option DoubleValue (map_of (rev kvs) k)"
    unfolding GetInt_def by (subst polling_get_free) (simp_all add: t(1,3))
  ultimately show ?thesis by (simp add: t_def)
qed

text \<open>A bytes value can be put but never read or removed: \<open>PutBytes\<close> files it under a \<open>str\<close> key
  and the other two look for a \<open>bytes\<close> key. As long as every key of the dictionary was filed by
  \<open>PutBytes\<close>, \<open>GetBytes\<close> of any key waits and \<open>RemoveBytes\<close> of any key raises \<open>TypeError\<close>
  and removes nothing.\<close>

theorem bytes_store_is_unreadable:
  assumes "bytes_dict s = []"
  shows "GetBytes k (fold (\<lambda>(k, v) s. snd (PutBytes k v s)) kvs s) =
     (Waiting, fold (\<lambda>(k, v) s. snd (PutBytes k v s)) kvs s) \<and>
   RemoveBytes k (fold (\<lambda>(k, v) s. snd (PutBytes k v s)) kvs s) =
     (Raised TypeError, fold (\<lambda>(k, v) s. snd (PutBytes k v s)) kvs s)"
proof -
  have *: "\<not> has_key (bytes_dict s) (BytesKey k) \<Longrightarrow>
    \<not> has_key (bytes_dict (fold (\<lambda>(k, v) s. snd (PutBytes k v s)) kvs s)) (BytesKey k)"
    for s :: "'a server"
  proof (induction kvs arbitrary: s)
    case (Cons p kvs)
    obtain k' v where p: "p = (k', v)" by (cases p)
    have "\<not> has_key (bytes_dict (snd (PutBytes k' v s))) (BytesKey k)"
      using Cons.prems by (simp add: PutBytes_def with_lock_def)
    from Cons.IH [OF this] show ?case by (simp add: p)
  qed simp
  then have "\<not> has_key (bytes_dict (fold (\<lambda>(k, v) s. snd (PutBytes k v s)) kvs s)) (BytesKey k)"
    using assms by simp
  then show ?thesis
    by (simp only: GetBytes_def RemoveBytes_def polling_get_def unfound_times_eq) simp
qed

theorem bytes_store_is_unreadable_witness:
  "GetBytes ''k'' (snd (PutBytes ''k'' ''v'' (init_server (0::int)))) =
     (Waiting, snd (PutBytes ''k'' ''v'' (init_server 0)))"
  using bytes_store_is_unreadable [of "init_server (0::int)" "''k''" "[(''k'', ''v'')]"]
  by (simp add: init_server_def)

text \<open>The getters test the key before they take the lock. If a \<open>RemoveString\<close> runs between the
  test and the locked read, the read raises \<open>KeyError\<close> while it holds the lock, and every
  later \<open>PutString\<close> and every locked read of the string store waits forever.\<close>

theorem get_remove_race_wedges_store:
  assumes "StringLock \<notin> set (held s)" and "has_key (string_dict s) k"
  shows "fst (GetString k s) = Done (StringValue (the (map_of (string_dict s) k))) \<and>
    (\<exists>s'. locked_read StringLock string_dict StringValue k (snd (RemoveString k s)) =
            (Raised KeyError, s') \<and>
          PutString k' v s' = (Waiting, s') \<and>
          locked_read StringLock string_dict StringValue k' s' = (Waiting, s'))"
  using assms
  by (auto simp: GetString_def polling_get_def locked_read_def RemoveString_def polling_remove_eq
      with_lock_def PutString_def py_lookup_def delete_conv' has_key_iff)

theorem get_remove_race_wedges_store_witness:
  "\<exists>s'. locked_read StringLock string_dict StringValue ''k''
          (snd (RemoveString ''k'' ((init_server (0::int))\<lparr>string_dict := [(''k'', ''v'')]\<rparr>))) =
          (Raised KeyError, s') \<and> PutString ''j'' ''w'' s' = (Waiting, s')"
  using get_remove_race_wedges_store
    [of "(init_server (0::int))\<lparr>string_dict := [(''k'', ''v'')]\<rparr>" "''k''" "''j''" "''w''"]
  by (auto simp: init_server_def)

section \<open>The supervisor\<close>

lemma check_heartbeats_eq:
  assumes "distinct is" and "\<forall>i \<in> set is. i < length hb \<and> i < length exits"
  shows "check_heartbeats now hb is exits =
     Inr (map (\<lambda>i. if i \<in> set is \<and> now - hb ! i > 10 then 1 else exits ! i) [0..<length exits])"
  using assms
proof (induction "is" arbitrary: exits)
  case Nil
  then show ?case by (simp add: map_nth)
next
  case (Cons j js)
  let ?e = "if now - hb ! j > 10 then exits[j := 1] else exits"
  have step: "check_heartbeats now hb (j # js) exits = check_heartbeats now hb js ?e"
    using Cons.prems by (simp add: py_set_nth_in)
  have "check_heartbeats now hb js ?e =
     Inr (map (\<lambda>i. if i \<in> set js \<and> now - hb ! i > 10 then 1 else ?e ! i) [0..<length ?e])"
    using Cons.prems by (intro Cons.IH) auto
  then show ?case
    unfolding step using Cons.prems by (auto simp: nth_list_update)
qed

text \<open>One turn of the supervisor of \<open>server_launch\<close> with at most 32 ranks: it stops exactly when
  some rank exists and at least that many exit flags are set; otherwise it sets the exit flag
  of exactly the ranks silent for more than ten seconds, and clears none.\<close>

theorem launch_turn_marks_silent_ranks:
  assumes "0 \<le> arr s" and "arr s \<le> 32"
    and "length (exit_arr s) = 32" and "length (last_heartbeat s) = 32"
  shows "launch_turn now s =
    (if arr s \<noteq> 0 \<and> arr s \<le> sum_list (exit_arr s) then Inr None
     else Inr (Some (s\<lparr>exit_arr := map (\<lambda>i. if int i < arr s \<and> now - last_heartbeat s ! i > 10
                                          then 1 else exit_arr s ! i) [0..<32]\<rparr>)))"
proof -
  have "\<forall>i \<in> set [0..<nat (arr s)]. i < length (last_heartbeat s) \<and> i < length (exit_arr s)"
    using assms by auto
  moreover have "map ((!) (exit_arr s)) [0..<32] = exit_arr s"
    using map_nth [of "exit_arr s"] assms by simp
  ultimately show ?thesis
    using check_heartbeats_eq [of "[0..<nat (arr s)]" "last_heartbeat s" "exit_arr s" now] assms
    by (simp add: launch_turn_def launch_stop_def zless_nat_eq_int_zless)
qed

theorem launch_turn_marks_silent_ranks_witness:
  "launch_turn (20::int) ((init_server 15)\<lparr>arr := 2, last_heartbeat := replicate 32 9\<rparr>) =
     Inr (Some (((init_server 15)\<lparr>arr := 2, last_heartbeat := replicate 32 9\<rparr>)
       \<lparr>exit_arr := map (\<lambda>i. if int i < 2 \<and> 20 - replicate 32 9 ! i > (10::int)
                            then 1 else replicate 32 0 ! i) [0..<32]\<rparr>))"
  by (subst launch_turn_marks_silent_ranks) (simp_all add: init_server_def sum_list_replicate)

text \<open>The stop test of the script entry point differs from the one of \<open>server_launch\<close>: on a
  freshly started server, before any process has connected, the script stops the server at
  once, while \<open>server_launch\<close> keeps it running.\<close>

theorem main_stops_before_any_rank:
  "main_stop (arr (init_server z)) (exit_arr (init_server z)) \<and>
   \<not> launch_stop (arr (init_server z)) (exit_arr (init_server z))"
  by (simp add: main_stop_def launch_stop_def init_server_def)

end
