(* ===== verification/BarrierProtocol.thy ===== *)
theory BarrierProtocol imports Prelude begin

text \<open>
  The handler \<open>Barrier\<close> of \<open>python/hetu/rpc/heturpc_polling_server.py\<close>, called by the
  members of one \<open>world_rank\<close> tuple and run by one server thread per call. The members are
  numbered by their position in the tuple; position 0 is \<open>world_rank[0]\<close>. Two groups use
  different keys of the server's dictionaries, so one group is one instance of this model.

  A call is cut at the points where another thread can run: the two locked sections, the
  first spin loop, the third locked section, the second spin loop, and the unlocked reset by
  position 0. A schedule is the list of the positions that move.
\<close>

section \<open>Program\<close>

datatype pc = Outside | Registered | Counted | Passed | Ended | Leaving

record barrier =
  barrier_nums :: "int option"
  barrier_end_nums :: "int option"
  pcs :: "pc list"
  rounds :: "nat list"

definition init_barrier :: "nat \<Rightarrow> barrier" where
  "init_barrier n = \<lparr>barrier_nums = None, barrier_end_nums = None,
     pcs = replicate n Outside, rounds = replicate n 0\<rparr>"

definition goto :: "nat \<Rightarrow> pc \<Rightarrow> barrier \<Rightarrow> barrier" where
  "goto i p s = s\<lparr>pcs := (pcs s)[i := p]\<rparr>"

text \<open>
  The next section of the call of member \<open>i\<close> of \<open>n\<close>: \<open>None\<close> when it spins or sleeps,
  \<open>Some (Inl KeyError)\<close> when it reads a missing counter.
\<close>

definition barrier_step :: "nat \<Rightarrow> nat \<Rightarrow> barrier \<Rightarrow> barrier result option" where
  "barrier_step n i s =
     (case pcs s ! i of
        Outside \<Rightarrow>
          Some (Inr (goto i Registered (s\<lparr>barrier_nums :=
             (case barrier_nums s of None \<Rightarrow> Some 0 | Some k \<Rightarrow> Some k)\<rparr>)))
      | Registered \<Rightarrow>
          (let s1 = (if i = 0 then s\<lparr>barrier_end_nums := Some 0\<rparr> else s) in
           case barrier_nums s1 of
             None \<Rightarrow> Some (Inl KeyError)
           | Some k \<Rightarrow> Some (Inr (goto i Counted (s1\<lparr>barrier_nums := Some (k + 1)\<rparr>))))
      | Counted \<Rightarrow>
          (case barrier_nums s of
             None \<Rightarrow> Some (Inl KeyError)
           | Some k \<Rightarrow> if k < int n then None else Some (Inr (goto i Passed s)))
      | Passed \<Rightarrow>
          (case barrier_end_nums s of
             None \<Rightarrow> Some (Inl KeyError)
           | Some e \<Rightarrow> Some (Inr (goto i Ended (s\<lparr>barrier_end_nums := Some (e + 1)\<rparr>))))
      | Ended \<Rightarrow>
          (case barrier_end_nums s of
             None \<Rightarrow> Some (Inl KeyError)
           | Some e \<Rightarrow> if e < int n then None else Some (Inr (goto i Leaving s)))
      | Leaving \<Rightarrow>
          Some (Inr (goto i Outside
            ((if i = 0 then s\<lparr>barrier_nums := Some 0\<rparr> else s)
               \<lparr>rounds := (rounds s)[i := Suc (rounds s ! i)]\<rparr>))))"

fun run_schedule :: "nat \<Rightarrow> nat list \<Rightarrow> barrier \<Rightarrow> barrier result option" where
  "run_schedule n [] s = Some (Inr s)"
| "run_schedule n (i # is) s =
     (case barrier_step n i s of
        None \<Rightarrow> None
      | Some (Inl e) \<Rightarrow> Some (Inl e)
      | Some (Inr t) \<Rightarrow> run_schedule n is t)"

section \<open>One use of the barrier\<close>

text \<open>
  The states of a first use: any interleaving in which no member calls the barrier a
  second time.
\<close>

inductive first_use :: "nat \<Rightarrow> barrier \<Rightarrow> bool" for n where
  start: "first_use n (init_barrier n)"
| move: "first_use n s \<Longrightarrow> i < n \<Longrightarrow> rounds s ! i = 0 \<Longrightarrow> barrier_step n i s = Some (Inr t) \<Longrightarrow>
     first_use n t"

text \<open>How far member \<open>i\<close> has come.\<close>

fun pc_phase :: "pc \<Rightarrow> nat" where
  "pc_phase Outside = 0"
| "pc_phase Registered = 1"
| "pc_phase Counted = 2"
| "pc_phase Passed = 3"
| "pc_phase Ended = 4"
| "pc_phase Leaving = 5"

definition phase :: "barrier \<Rightarrow> nat \<Rightarrow> nat" where
  "phase s i = (if rounds s ! i = 0 then pc_phase (pcs s ! i) else 6)"

definition num_at :: "nat \<Rightarrow> barrier \<Rightarrow> nat \<Rightarrow> nat" where
  "num_at n s k = card {i. i < n \<and> k \<le> phase s i}"

definition barrier_inv :: "nat \<Rightarrow> barrier \<Rightarrow> bool" where
  "barrier_inv n s \<longleftrightarrow>
     0 < n \<and> length (pcs s) = n \<and> length (rounds s) = n \<and>
     (\<forall>i<n. rounds s ! i \<le> 1 \<and> (rounds s ! i = 1 \<longrightarrow> pcs s ! i = Outside)) \<and>
     ((\<exists>i<n. 1 \<le> phase s i) \<longrightarrow> barrier_nums s \<noteq> None) \<and>
     (\<forall>k. barrier_nums s = Some k \<longrightarrow> phase s 0 < 6 \<longrightarrow> k = int (num_at n s 2)) \<and>
     (2 \<le> phase s 0 \<longrightarrow> barrier_end_nums s = Some (int (num_at n s 4))) \<and>
     ((\<exists>i<n. 3 \<le> phase s i) \<longrightarrow> (\<forall>j<n. 2 \<le> phase s j)) \<and>
     ((\<exists>i<n. 5 \<le> phase s i) \<longrightarrow> (\<forall>j<n. 4 \<le> phase s j))"

lemma num_at_full: "num_at n s k = n \<longleftrightarrow> (\<forall>i<n. k \<le> phase s i)"
proof
  assume "num_at n s k = n"
  then have "{i. i < n \<and> k \<le> phase s i} = {..<n}"
    by (intro card_subset_eq) (auto simp: num_at_def)
  then show "\<forall>i<n. k \<le> phase s i" by blast
next
  assume "\<forall>i<n. k \<le> phase s i"
  then have "{i. i < n \<and> k \<le> phase s i} = {..<n}" by auto
  then show "num_at n s k = n" by (simp add: num_at_def)
qed

lemma num_at_le: "num_at n s k \<le> n"
proof -
  have "{i. i < n \<and> k \<le> phase s i} \<subseteq> {..<n}" by auto
  from card_mono [OF _ this] show ?thesis by (simp add: num_at_def)
qed

text \<open>Moving one member forward by one phase changes one counter.\<close>

lemma num_at_move:
  assumes "i < n" and "\<forall>j<n. j \<noteq> i \<longrightarrow> phase t j = phase s j" and "phase t i = Suc (phase s i)"
  shows "num_at n t k = (if k = Suc (phase s i) then Suc (num_at n s k) else num_at n s k)"
proof (cases "k = Suc (phase s i)")
  case True
  have "{j. j < n \<and> k \<le> phase t j} = insert i {j. j < n \<and> k \<le> phase s j}"
    using assms True by auto
  moreover have "i \<notin> {j. j < n \<and> k \<le> phase s j}" using True by simp
  ultimately show ?thesis using True by (simp add: num_at_def)
next
  case False
  have "k \<le> phase t j \<longleftrightarrow> k \<le> phase s j" if "j < n" for j
    using assms(2,3) that False by (cases "j = i") auto
  then have "{j. j < n \<and> k \<le> phase t j} = {j. j < n \<and> k \<le> phase s j}" by blast
  with False show ?thesis by (simp add: num_at_def)
qed

lemma barrier_inv_init: "0 < n \<Longrightarrow> barrier_inv n (init_barrier n)"
proof -
  assume n: "0 < n"
  have "phase (init_barrier n) i = 0" if "i < n" for i
    using that by (simp add: phase_def init_barrier_def)
  with n show ?thesis
    by (auto simp: barrier_inv_def init_barrier_def)
qed

lemma step_effect:
  assumes "barrier_step n i s = Some (Inr t)"
  shows "if pcs s ! i = Leaving
         then pcs t = (pcs s)[i := Outside] \<and> rounds t = (rounds s)[i := Suc (rounds s ! i)]
         else rounds t = rounds s \<and>
              (\<exists>p. pcs t = (pcs s)[i := p] \<and> pc_phase p = Suc (pc_phase (pcs s ! i)))"
  using assms
  by (cases "pcs s ! i")
     (auto simp: barrier_step_def goto_def Let_def split: option.splits if_splits)

text \<open>A step moves exactly one member by exactly one phase.\<close>

lemma step_phase:
  assumes inv: "length (pcs s) = n" "length (rounds s) = n"
      "\<forall>i<n. rounds s ! i \<le> 1 \<and> (rounds s ! i = 1 \<longrightarrow> pcs s ! i = Outside)"
    and i: "i < n" "rounds s ! i = 0" and step: "barrier_step n i s = Some (Inr t)"
  shows "phase t i = Suc (phase s i)" and "\<forall>j<n. j \<noteq> i \<longrightarrow> phase t j = phase s j"
    and "length (pcs t) = n" and "length (rounds t) = n"
    and "\<forall>j<n. rounds t ! j \<le> 1 \<and> (rounds t ! j = 1 \<longrightarrow> pcs t ! j = Outside)"
proof -
  note eff = step_effect [OF step]
  show "phase t i = Suc (phase s i)" "\<forall>j<n. j \<noteq> i \<longrightarrow> phase t j = phase s j"
    "length (pcs t) = n" "length (rounds t) = n"
    using eff inv(1,2) i by (auto simp: phase_def split: if_splits)
  show "\<forall>j<n. rounds t ! j \<le> 1 \<and> (rounds t ! j = 1 \<longrightarrow> pcs t ! j = Outside)"
    using eff inv i by (auto simp: nth_list_update split: if_splits)
qed

text \<open>What each section does to the two counters, by the phase it starts from.\<close>

lemma step_counters:
  assumes "barrier_step n i s = Some (Inr t)" and "rounds s ! i = 0"
  shows "phase s i < 6"
    and "phase s i = 0 \<Longrightarrow> barrier_nums t = (case barrier_nums s of None \<Rightarrow> Some 0 | Some k \<Rightarrow> Some k)
                          \<and> barrier_end_nums t = barrier_end_nums s"
    and "phase s i = 1 \<Longrightarrow> barrier_nums t = map_option (\<lambda>k. k + 1) (barrier_nums s)
                          \<and> barrier_end_nums t = (if i = 0 then Some 0 else barrier_end_nums s)"
    and "phase s i = 2 \<Longrightarrow> barrier_nums t = barrier_nums s \<and> barrier_end_nums t = barrier_end_nums s
                          \<and> (\<exists>k. barrier_nums s = Some k \<and> int n \<le> k)"
    and "phase s i = 3 \<Longrightarrow> barrier_nums t = barrier_nums s
                          \<and> barrier_end_nums t = map_option (\<lambda>k. k + 1) (barrier_end_nums s)"
    and "phase s i = 4 \<Longrightarrow> barrier_nums t = barrier_nums s \<and> barrier_end_nums t = barrier_end_nums s
                          \<and> (\<exists>k. barrier_end_nums s = Some k \<and> int n \<le> k)"
    and "phase s i = 5 \<Longrightarrow> barrier_nums t = (if i = 0 then Some 0 else barrier_nums s)
                          \<and> barrier_end_nums t = barrier_end_nums s"
  using assms
  by (cases "pcs s ! i";
      auto simp: barrier_step_def goto_def Let_def phase_def split: option.splits if_splits)+


lemma num_at_zero: "(\<forall>i<n. phase s i < k) \<Longrightarrow> num_at n s k = 0"
proof -
  assume "\<forall>i<n. phase s i < k"
  then have "{i. i < n \<and> k \<le> phase s i} = {}" by auto
  then show "num_at n s k = 0" by (simp add: num_at_def)
qed

lemma barrier_inv_step:
  assumes inv: "barrier_inv n s" and i: "i < n" "rounds s ! i = 0"
    and step: "barrier_step n i s = Some (Inr t)"
  shows "barrier_inv n t"
proof -
  let ?p = "phase s i"
  have n: "0 < n" and len: "length (pcs s) = n" "length (rounds s) = n"
    and rnd: "\<forall>i<n. rounds s ! i \<le> 1 \<and> (rounds s ! i = 1 \<longrightarrow> pcs s ! i = Outside)"
    and some: "(\<exists>i<n. 1 \<le> phase s i) \<longrightarrow> barrier_nums s \<noteq> None"
    and nums: "\<forall>k. barrier_nums s = Some k \<longrightarrow> phase s 0 < 6 \<longrightarrow> k = int (num_at n s 2)"
    and ends: "2 \<le> phase s 0 \<longrightarrow> barrier_end_nums s = Some (int (num_at n s 4))"
    and g3: "(\<exists>i<n. 3 \<le> phase s i) \<longrightarrow> (\<forall>j<n. 2 \<le> phase s j)"
    and g5: "(\<exists>i<n. 5 \<le> phase s i) \<longrightarrow> (\<forall>j<n. 4 \<le> phase s j)"
    using inv by (simp_all add: barrier_inv_def)
  note mv = step_phase [OF len rnd i step]
  note cnt = step_counters [OF step i(2)]
  note num = num_at_move [OF i(1) mv(2) mv(1)]
  have ph: "phase t j = (if j = i then Suc ?p else phase s j)" if "j < n" for j
    using mv(1,2) that by simp
  have p6: "?p < 6" by (rule cnt(1))
  then consider "?p = 0" | "?p = 1" | "?p = 2" | "?p = 3" | "?p = 4" | "?p = 5" by linarith
  note pcases = this
  have low: "?p < 2 \<Longrightarrow> j < n \<Longrightarrow> phase s j < 3" for j
    using g3 i(1) by (meson leI le_less_trans not_less)
  have some': "(\<exists>i<n. 1 \<le> phase t i) \<longrightarrow> barrier_nums t \<noteq> None"
    by (cases rule: pcases) (use some cnt i in \<open>auto split: option.splits\<close>)
  have nums': "\<forall>k. barrier_nums t = Some k \<longrightarrow> phase t 0 < 6 \<longrightarrow> k = int (num_at n t 2)"
  proof (cases rule: pcases)
    case 1
    have "num_at n s 2 = 0" if "barrier_nums s = None"
      by (rule num_at_zero) (use some that in force)
    then show ?thesis
      using cnt(2) [OF 1] nums num [of 2] 1 n ph [of 0] by (auto split: option.splits if_splits)
  next
    case 6
    then show ?thesis
      using cnt(7) [OF 6] nums num [of 2] n ph [of 0] by (auto split: if_splits)
  qed (use cnt nums num [of 2] n ph [of 0] in \<open>auto split: if_splits\<close>)
  have ends': "2 \<le> phase t 0 \<longrightarrow> barrier_end_nums t = Some (int (num_at n t 4))"
  proof (cases rule: pcases)
    case 2
    have "num_at n s 4 = 0"
      by (rule num_at_zero) (use low 2 in force)
    then show ?thesis
      using cnt(3) [OF 2] ends num [of 4] 2 n ph [of 0] by (auto split: if_splits)
  next
    case 4
    have "2 \<le> phase s 0" using g3 i(1) 4 n by force
    then show ?thesis
      using cnt(5) [OF 4] ends num [of 4] 4 by auto
  qed (use cnt ends num [of 4] n ph [of 0] in \<open>auto split: if_splits\<close>)
  have g3': "(\<exists>i<n. 3 \<le> phase t i) \<longrightarrow> (\<forall>j<n. 2 \<le> phase t j)"
  proof (cases "?p = 2")
    case True
    obtain k where k: "barrier_nums s = Some k" "int n \<le> k" using cnt(4) [OF True] by blast
    have "phase s 0 < 6 \<Longrightarrow> \<forall>j<n. 2 \<le> phase s j"
      using nums k num_at_le [of n s 2] num_at_full [of n s 2] by auto
    moreover have "\<not> phase s 0 < 6 \<Longrightarrow> \<forall>j<n. 2 \<le> phase s j"
      using g3 n by force
    ultimately have "\<forall>j<n. 2 \<le> phase s j" by blast
    then show ?thesis using ph by force
  next
    case False
    have "(\<exists>j<n. 3 \<le> phase t j) \<Longrightarrow> (\<exists>j<n. 3 \<le> phase s j)"
      using ph False by (metis One_nat_def Suc_1 Suc_eq_numeral antisym eval_nat_numeral(3) le_SucE)
    then show ?thesis using g3 ph by force
  qed
  have g5': "(\<exists>i<n. 5 \<le> phase t i) \<longrightarrow> (\<forall>j<n. 4 \<le> phase t j)"
  proof (cases "?p = 4")
    case True
    have "2 \<le> phase s 0" using g3 i(1) True n by force
    then have "num_at n s 4 = n"
      using ends cnt(6) [OF True] num_at_le [of n s 4] by auto
    then have "\<forall>j<n. 4 \<le> phase s j" by (simp add: num_at_full)
    then show ?thesis using ph by force
  next
    case False
    have "5 \<le> phase t j \<Longrightarrow> j < n \<Longrightarrow> 5 \<le> phase s j" for j
      using ph [of j] False by (auto split: if_splits)
    then show ?thesis using g5 ph by force
  qed
  show ?thesis
    unfolding barrier_inv_def
    by (intro conjI n mv(3,4,5) some' nums' ends' g3' g5')
qed

lemma first_use_inv: "0 < n \<Longrightarrow> first_use n s \<Longrightarrow> barrier_inv n s"
  by (rotate_tac, induction rule: first_use.induct)
     (auto intro: barrier_inv_init barrier_inv_step)


lemma first_use_no_error:
  assumes "0 < n" and "first_use n s" and "i < n" and "rounds s ! i = 0"
  shows "barrier_step n i s \<noteq> Some (Inl e)"
proof -
  have inv: "barrier_inv n s" using assms first_use_inv by blast
  have "1 \<le> phase s i \<Longrightarrow> barrier_nums s \<noteq> None"
    using inv assms(3) by (auto simp: barrier_inv_def)
  moreover have "3 \<le> phase s i \<Longrightarrow> barrier_end_nums s \<noteq> None"
    using inv assms(1,3) by (force simp: barrier_inv_def)
  ultimately show ?thesis
    using assms(4)
    by (cases "pcs s ! i") (auto simp: barrier_step_def phase_def Let_def split: option.splits)
qed

lemma step_enabled:
  assumes "rounds s ! i = 0" and "\<And>e. barrier_step n i s \<noteq> Some (Inl e)"
    and "phase s i = 2 \<Longrightarrow> \<exists>k. barrier_nums s = Some k \<and> int n \<le> k"
    and "phase s i = 4 \<Longrightarrow> \<exists>k. barrier_end_nums s = Some k \<and> int n \<le> k"
  shows "\<exists>t. barrier_step n i s = Some (Inr t)"
  using assms(1,3,4) assms(2) [of KeyError]
  by (cases "pcs s ! i")
     (auto simp: barrier_step_def phase_def Let_def split: option.splits if_splits)

lemma exists_lagging_member:
  assumes "0 < (n::nat)" shows "\<exists>i<n. \<forall>j<n. f i \<le> (f j :: nat)"
proof -
  have "finite (f ` {..<n})" "f ` {..<n} \<noteq> {}" using assms by auto
  from Min_in [OF this] obtain i where "i < n" "f i = Min (f ` {..<n})" by auto
  then show ?thesis by (intro exI [of _ i]) (auto intro: Min_le)
qed

lemma phase_6: "rounds s ! i \<noteq> 0 \<longleftrightarrow> 6 \<le> phase s i"
  by (cases "pcs s ! i") (auto simp: phase_def)

text \<open>
  A schedule of a first use: every entry is a member that has not finished its call and can
  move.
\<close>

fun single_use :: "nat \<Rightarrow> nat list \<Rightarrow> barrier \<Rightarrow> bool" where
  "single_use n [] s = True"
| "single_use n (i # is) s =
     (i < n \<and> rounds s ! i = 0 \<and>
      (case barrier_step n i s of Some (Inr t) \<Rightarrow> single_use n is t | _ \<Rightarrow> False))"

definition all_left :: "nat \<Rightarrow> barrier \<Rightarrow> bool" where
  "all_left n s = list_all (\<lambda>r. r = 1) (rounds s)"

lemma phase_le_6: "phase s i \<le> 6"
  by (cases "pcs s ! i") (auto simp: phase_def)

lemma sum_phase_move:
  assumes "i < n" and "\<forall>j<n. j \<noteq> i \<longrightarrow> phase t j = phase s j" and "phase t i = Suc (phase s i)"
  shows "(\<Sum>j<n. phase t j) = Suc (\<Sum>j<n. phase s j)"
proof -
  have "(\<Sum>j\<in>{..<n} - {i}. phase t j) = (\<Sum>j\<in>{..<n} - {i}. phase s j)"
    using assms(2) by (intro sum.cong) auto
  with assms(1,3) show ?thesis
    by (simp add: sum.remove [where x = i and A = "{..<n}"])
qed

lemma single_use_run:
  assumes "single_use n is s" and "0 < n" and "first_use n s"
  obtains t where "run_schedule n is s = Some (Inr t)" and "first_use n t"
    and "(\<Sum>i<n. phase t i) = (\<Sum>i<n. phase s i) + length is"
  using assms
proof (induction "is" arbitrary: s thesis)
  case (Cons i "is")
  then obtain t where i: "i < n" "rounds s ! i = 0" and st: "barrier_step n i s = Some (Inr t)"
    and rest: "single_use n is t"
    by (auto split: option.splits sum.splits)
  have "barrier_inv n s" using first_use_inv [OF Cons.prems(3,4)] .
  then have len: "length (pcs s) = n" "length (rounds s) = n"
    and rnd: "\<forall>i<n. rounds s ! i \<le> 1 \<and> (rounds s ! i = 1 \<longrightarrow> pcs s ! i = Outside)"
    by (simp_all add: barrier_inv_def)
  note mv = step_phase [OF len rnd i st]
  have "first_use n t" using Cons.prems(4) i st by (rule first_use.move)
  from Cons.IH [OF _ rest Cons.prems(3) this] obtain u where
    "run_schedule n is t = Some (Inr u)" "first_use n u"
    "(\<Sum>i<n. phase u i) = (\<Sum>i<n. phase t i) + length is" by blast
  with st sum_phase_move [OF i(1) mv(2,1)] show ?case
    by (intro Cons.prems(1) [of u]) simp_all
qed simp

lemma sum_phase_init: "(\<Sum>i<n. phase (init_barrier n) i) = 0"
  by (simp add: phase_def init_barrier_def)

lemma all_left_iff:
  assumes "barrier_inv n s" shows "all_left n s \<longleftrightarrow> (\<Sum>i<n. phase s i) = 6 * n"
proof -
  have len: "length (rounds s) = n" and rnd: "\<forall>i<n. rounds s ! i \<le> 1"
    using assms by (auto simp: barrier_inv_def)
  have *: "rounds s ! i = 1 \<longleftrightarrow> phase s i = 6" if "i < n" for i
    using rnd that phase_6 [of s i] phase_le_6 [of s i] by force
  have "(\<Sum>i<n. phase s i) = 6 * n \<longleftrightarrow> (\<forall>i<n. phase s i = 6)"
  proof
    assume sum: "(\<Sum>i<n. phase s i) = 6 * n"
    show "\<forall>i<n. phase s i = 6"
    proof (rule ccontr)
      assume "\<not> (\<forall>i<n. phase s i = 6)"
      then obtain i where "i < n" "phase s i < 6" using phase_le_6 by (meson le_neq_implies_less)
      then have "(\<Sum>i<n. phase s i) < (\<Sum>i<n. 6)"
        using phase_le_6 by (intro sum_strict_mono_ex1) auto
      with sum show False by simp
    qed
  qed simp
  with len * show ?thesis by (auto simp: all_left_def list_all_length)
qed

section \<open>Properties\<close>

text \<open>C4: In a first use of the barrier by n members, in every interleaving: once one member
  is past the first wait every member has announced itself, and once one member has left
  every member is past the first wait; no member is released early.\<close>

theorem barrier_releases_together:
  assumes "0 < n" and "first_use n s" and "i < n" and "j < n"
  shows "(pcs s ! i \<in> {Passed, Ended, Leaving} \<or> rounds s ! i = 1 \<longrightarrow>
            rounds s ! j = 1 \<or> pcs s ! j \<in> {Counted, Passed, Ended, Leaving}) \<and>
         (rounds s ! i = 1 \<longrightarrow> rounds s ! j = 1 \<or> pcs s ! j \<in> {Ended, Leaving})"
proof -
  have inv: "barrier_inv n s" using assms first_use_inv by blast
  have "3 \<le> phase s i \<longrightarrow> 2 \<le> phase s j" "5 \<le> phase s i \<longrightarrow> 4 \<le> phase s j"
    and "rounds s ! j \<le> 1"
    using inv assms(3,4) unfolding barrier_inv_def by blast+
  then show ?thesis
    by (cases "pcs s ! j") (auto simp: phase_def split: if_splits)
qed

theorem barrier_releases_together_witness:
  "\<exists>s. first_use 1 s \<and> rounds s ! 0 = 1 \<and>
       ((pcs s ! 0 \<in> {Passed, Ended, Leaving} \<or> rounds s ! 0 = 1 \<longrightarrow>
            rounds s ! 0 = 1 \<or> pcs s ! 0 \<in> {Counted, Passed, Ended, Leaving}) \<and>
         (rounds s ! 0 = 1 \<longrightarrow> rounds s ! 0 = 1 \<or> pcs s ! 0 \<in> {Ended, Leaving}))"
proof -
  have "single_use 1 [0, 0, 0, 0, 0, 0] (init_barrier 1)" by code_simp
  from single_use_run [OF this _ first_use.start] obtain t where
    t: "run_schedule 1 [0, 0, 0, 0, 0, 0] (init_barrier 1) = Some (Inr t)" "first_use 1 t"
    by auto
  then have "rounds t ! 0 = 1"
    by (auto simp: barrier_step_def init_barrier_def goto_def numeral_eq_Suc)
  with t(2) barrier_releases_together [of 1 t 0 0] show ?thesis by auto
qed

text \<open>C37: A first use of the barrier by n members raises no KeyError and never deadlocks:
  as long as some member has not left, some member that has not left can move.\<close>

theorem barrier_no_deadlock:
  assumes "0 < n" and "first_use n s"
  shows "(\<forall>i<n. \<forall>e. rounds s ! i = 0 \<longrightarrow> barrier_step n i s \<noteq> Some (Inl e)) \<and>
         (all_left n s \<or> (\<exists>i<n. rounds s ! i = 0 \<and> (\<exists>t. barrier_step n i s = Some (Inr t))))"
proof -
  have inv: "barrier_inv n s" using assms first_use_inv by blast
  note noerr = first_use_no_error [OF assms]
  obtain i where i: "i < n" and low: "\<forall>j<n. phase s i \<le> phase s j"
    using exists_lagging_member [OF assms(1)] by blast
  show ?thesis
  proof (cases "rounds s ! i = 0")
    case True
    have "phase s i = 2 \<Longrightarrow> \<exists>k. barrier_nums s = Some k \<and> int n \<le> k"
    proof -
      assume 2: "phase s i = 2"
      then have "num_at n s 2 = n" using low by (simp add: num_at_full)
      moreover have "barrier_nums s \<noteq> None" using inv i 2 by (force simp: barrier_inv_def)
      moreover have "\<not> (\<exists>i<n. 5 \<le> phase s i)"
        using inv i 2 unfolding barrier_inv_def by force
      then have "phase s 0 < 6" using assms(1) by force
      ultimately show ?thesis using inv by (auto simp: barrier_inv_def)
    qed
    moreover have "phase s i = 4 \<Longrightarrow> \<exists>k. barrier_end_nums s = Some k \<and> int n \<le> k"
    proof -
      assume 4: "phase s i = 4"
      then have "num_at n s 4 = n" using low by (simp add: num_at_full)
      moreover have "2 \<le> phase s 0" using low 4 assms(1) by force
      ultimately show ?thesis using inv by (auto simp: barrier_inv_def)
    qed
    ultimately have "\<exists>t. barrier_step n i s = Some (Inr t)"
      using step_enabled [OF True noerr [OF i True]] by blast
    with True i noerr show ?thesis by blast
  next
    case False
    then have "\<forall>j<n. 6 \<le> phase s j" using low phase_6 [of s i] by force
    then have "\<forall>j<n. phase s j = 6" using phase_le_6 by (meson le_antisym)
    then have "all_left n s" by (simp add: all_left_iff [OF inv])
    then show ?thesis using noerr by blast
  qed
qed

theorem barrier_no_deadlock_witness:
  "barrier_step 2 0 (init_barrier 2) \<noteq> Some (Inl KeyError) \<and>
   (\<exists>i<2. rounds (init_barrier 2) ! i = 0 \<and>
       (\<exists>t. barrier_step 2 i (init_barrier 2) = Some (Inr t)))"
proof -
  have "\<not> all_left 2 (init_barrier 2)" by code_simp
  moreover have "rounds (init_barrier 2) ! 0 = 0" by code_simp
  ultimately show ?thesis
    using barrier_no_deadlock [OF _ first_use.start [of 2]] by auto
qed




end
