(* ===== verification/PyText.thy ===== *)
theory PyText imports Prelude "HOL-Library.Char_ord" begin

text \<open>
  Python's text of integers: \<open>str(n)\<close> and \<open>int(s)\<close> (blanks around the number, a sign, and
  single underscores between digits are accepted, anything else is a \<open>ValueError\<close>), with their
  round trip, and \<open>s.split(sep, 1)\<close> and \<open>s.startswith(p)\<close> for a separator of one character.
\<close>

section \<open>Decimal numbers\<close>

definition digit_char :: "nat \<Rightarrow> char" where
  "digit_char d = char_of (48 + d)"

definition digit_val :: "char \<Rightarrow> nat option" where
  "digit_val c = (let n = of_char c in if 48 \<le> n \<and> n < 58 then Some (n - 48) else None)"

fun str_nat :: "nat \<Rightarrow> string" where
  "str_nat n = (if n < 10 then [digit_char n] else str_nat (n div 10) @ [digit_char (n mod 10)])"

declare str_nat.simps [simp del]

definition str_int :: "int \<Rightarrow> string" where
  "str_int i = (if i < 0 then CHR ''-'' # str_nat (nat (- i)) else str_nat (nat i))"

text \<open>\<open>read_digits acc prev s\<close>: \<open>prev\<close> tells that the character before was a digit.\<close>

fun read_digits :: "nat \<Rightarrow> bool \<Rightarrow> string \<Rightarrow> nat option" where
  "read_digits acc prev [] = (if prev then Some acc else None)"
| "read_digits acc prev (c # cs) =
     (case digit_val c of
        Some d \<Rightarrow> read_digits (10 * acc + d) True cs
      | None \<Rightarrow> if c = CHR ''_'' \<and> prev then read_digits acc False cs else None)"

definition is_blank :: "char \<Rightarrow> bool" where
  "is_blank c = (let n = of_char c :: nat in n = 32 \<or> (9 \<le> n \<and> n \<le> 13) \<or> (28 \<le> n \<and> n \<le> 31))"

definition strip_blanks :: "string \<Rightarrow> string" where
  "strip_blanks s = rev (dropWhile is_blank (rev (dropWhile is_blank s)))"

definition int_of_str :: "string \<Rightarrow> int result" where
  "int_of_str s =
     (let t = strip_blanks s;
          r = (case t of
                 [] \<Rightarrow> None
               | c # cs \<Rightarrow>
                   if c = CHR ''-'' then map_option (\<lambda>n. - int n) (read_digits 0 False cs)
                   else if c = CHR ''+'' then map_option int (read_digits 0 False cs)
                   else map_option int (read_digits 0 False t))
      in case r of None \<Rightarrow> Inl ValueError | Some i \<Rightarrow> Inr i)"

lemma digit_val_char: "d < 10 \<Longrightarrow> digit_val (digit_char d) = Some d"
  by (simp add: digit_val_def digit_char_def)

lemma digit_char_noblank: "d < 10 \<Longrightarrow> \<not> is_blank (digit_char d)"
  by (simp add: is_blank_def digit_char_def)

lemma read_digits_append:
  "read_digits acc prev xs = Some n \<Longrightarrow> d < 10 \<Longrightarrow>
     read_digits acc prev (xs @ [digit_char d]) = Some (10 * n + d)"
  by (induction acc prev xs rule: read_digits.induct)
     (auto simp: digit_val_char split: option.splits if_splits)

lemma read_str_nat: "read_digits 0 False (str_nat n) = Some n"
proof (induction n rule: str_nat.induct)
  case (1 n)
  show ?case
  proof (cases "n < 10")
    case True
    then show ?thesis by (simp add: str_nat.simps [of n] digit_val_char)
  next
    case False
    from read_digits_append [OF 1 [OF False], of "n mod 10"] False
    show ?thesis by (simp add: str_nat.simps [of n])
  qed
qed

lemma str_nat_digits: "c \<in> set (str_nat n) \<Longrightarrow> \<exists>d<10. c = digit_char d"
proof (induction n rule: str_nat.induct)
  case (1 n)
  from 1(2) show ?case
    by (subst (asm) str_nat.simps)
       (use 1(1) in \<open>auto split: if_splits intro: exI [of _ "n mod 10"]\<close>)
qed

lemma str_nat_ne [simp]: "str_nat n \<noteq> []"
  by (subst str_nat.simps) simp

lemma strip_blanks_id: "(\<forall>c \<in> set s. \<not> is_blank c) \<Longrightarrow> strip_blanks s = s"
proof -
  assume *: "\<forall>c \<in> set s. \<not> is_blank c"
  have id: "dropWhile is_blank t = t" if "\<forall>c \<in> set t. \<not> is_blank c" for t
    using that by (cases t) auto
  show "strip_blanks s = s" by (simp add: strip_blanks_def id *)
qed

lemma str_int_noblank: "c \<in> set (str_int i) \<Longrightarrow> \<not> is_blank c"
  by (auto simp: str_int_def digit_char_noblank is_blank_def split: if_splits
           dest!: str_nat_digits)
     (simp_all add: digit_char_def)

lemma digit_char_sign: "d < 10 \<Longrightarrow> digit_char d \<noteq> CHR ''-'' \<and> digit_char d \<noteq> CHR ''+''"
proof -
  assume d: "d < 10"
  have "(of_char (digit_char d) :: nat) = 48 + d" using d by (simp add: digit_char_def)
  then show ?thesis by (intro conjI notI; simp)
qed

text \<open>\<open>int(str(i)) == i\<close>.\<close>

lemma int_of_str_int [simp]: "int_of_str (str_int i) = Inr i"
proof -
  have strip: "strip_blanks (str_int i) = str_int i"
    using str_int_noblank by (intro strip_blanks_id) blast
  show ?thesis
  proof (cases "i < 0")
    case True
    then show ?thesis
      unfolding int_of_str_def strip by (simp add: str_int_def read_str_nat)
  next
    case False
    obtain c cs where c: "str_nat (nat i) = c # cs" by (metis str_nat_ne list.exhaust)
    then obtain d where "d < 10" "c = digit_char d"
      using str_nat_digits [of c "nat i"] by auto
    then have "c \<noteq> CHR ''-''" "c \<noteq> CHR ''+''" using digit_char_sign [of d] by simp_all
    with False c read_str_nat [of "nat i"] show ?thesis
      unfolding int_of_str_def strip by (simp add: str_int_def)
  qed
qed

section \<open>Splitting and prefixes\<close>

fun split_once :: "char \<Rightarrow> string \<Rightarrow> string \<times> string option" where
  "split_once sep [] = ([], None)"
| "split_once sep (c # cs) =
     (if c = sep then ([], Some cs)
      else (let (a, b) = split_once sep cs in (c # a, b)))"

definition startswith :: "string \<Rightarrow> string \<Rightarrow> bool" where
  "startswith p s \<longleftrightarrow> take (length p) s = p"

lemma split_once_sep: "sep \<notin> set a \<Longrightarrow> split_once sep (a @ sep # b) = (a, Some b)"
  by (induction a) auto

lemma split_once_none: "sep \<notin> set a \<Longrightarrow> split_once sep a = (a, None)"
  by (induction a) auto

lemma startswith_append [simp]: "startswith p (p @ s)"
  by (simp add: startswith_def)

text \<open>\<open>s.split(c)\<close> and \<open>c.join(ss)\<close> for a separator of one character.\<close>

fun split_all :: "char \<Rightarrow> string \<Rightarrow> string list" where
  "split_all sep [] = [[]]"
| "split_all sep (c # cs) =
     (if c = sep then [] # split_all sep cs
      else case split_all sep cs of [] \<Rightarrow> [[c]] | p # ps \<Rightarrow> (c # p) # ps)"

fun join_with :: "char \<Rightarrow> string list \<Rightarrow> string" where
  "join_with sep [] = []"
| "join_with sep [s] = s"
| "join_with sep (s # ss) = s @ sep # join_with sep ss"

lemma split_all_none: "sep \<notin> set a \<Longrightarrow> split_all sep a = [a]"
  by (induction a) auto

lemma split_all_sep: "sep \<notin> set a \<Longrightarrow> split_all sep (a @ sep # b) = a # split_all sep b"
  by (induction a) auto

lemma split_all_join: "ss \<noteq> [] \<Longrightarrow> \<forall>s \<in> set ss. sep \<notin> set s \<Longrightarrow> split_all sep (join_with sep ss) = ss"
  by (induction sep ss rule: join_with.induct) (auto simp: split_all_none split_all_sep)

end
