(* ===== verification/KvStore.thy ===== *)
theory KvStore imports KvContract PyText begin

text \<open>
  The named dictionaries of the asynchronous rendezvous server and their client:
  \<open>python/hetu/rpc/kv_store/server.py\<close> (the class decorator that adds \<open>PutJson\<close>, \<open>GetJson\<close>
  and \<open>RemoveJson\<close>), \<open>client.py\<close> (\<open>serialize_keys\<close>, \<open>deserialize_keys\<close>, the JSON encoding,
  \<open>RemoteDict\<close>) and \<open>producer_consumer.py\<close>.

  A handler holds the condition variable of its dictionary from its first to its last
  action (\<open>GetJson\<close> gives it up while it waits), so a handler is one atomic step.
\<close>

section \<open>The server\<close>

record 't kv_server =
  json_dicts :: "(string \<times> (string \<times> 't) list) list"
  dict_locks :: "string list"

definition init_kv :: "'t kv_server" where
  "init_kv = \<lparr>json_dicts = [], dict_locks = []\<rparr>"

datatype 't kv_outcome = KvWaiting | KvRaised py_error | KvStatus int | KvValue 't | KvMessage string

definition DELIMITER :: char where
  "DELIMITER = CHR ''|''"

definition parse_key :: "string \<Rightarrow> (string \<times> string) result" where
  "parse_key combined_key =
     (case split_once DELIMITER combined_key of
        (a, Some b) \<Rightarrow> Inr (a, b)
      | (a, None) \<Rightarrow> Inl ValueError)"

definition get_dict_lock :: "string \<Rightarrow> 't kv_server \<Rightarrow> 't kv_server" where
  "get_dict_lock dict_name s =
     (if dict_name \<in> set (dict_locks s) then s
      else s\<lparr>json_dicts := AList.update dict_name [] (json_dicts s),
             dict_locks := dict_locks s @ [dict_name]\<rparr>)"

text \<open>The three handlers after the key has been parsed.\<close>

definition put_entry :: "string \<times> string \<Rightarrow> 't \<Rightarrow> 't kv_server \<Rightarrow> 't kv_outcome \<times> 't kv_server" where
  "put_entry dk v s =
     (case dk of (dict_name, key) \<Rightarrow>
       let s1 = get_dict_lock dict_name s in
       case py_lookup (json_dicts s1) dict_name of
         Inl e \<Rightarrow> (KvRaised e, s1)
       | Inr d \<Rightarrow> (KvStatus 1,
           s1\<lparr>json_dicts := AList.update dict_name (AList.update key v d) (json_dicts s1)\<rparr>))"

definition get_entry :: "string \<times> string \<Rightarrow> 't kv_server \<Rightarrow> 't kv_outcome \<times> 't kv_server" where
  "get_entry dk s =
     (case dk of (dict_name, key) \<Rightarrow>
       let s1 = get_dict_lock dict_name s in
       if \<not> has_key (dict_get (json_dicts s1) dict_name []) key then (KvWaiting, s1)
       else case py_lookup (json_dicts s1) dict_name of
              Inl e \<Rightarrow> (KvRaised e, s1)
            | Inr d \<Rightarrow> (case py_lookup d key of
                         Inl e \<Rightarrow> (KvRaised e, s1)
                       | Inr v \<Rightarrow> (KvValue v, s1)))"

definition remove_entry :: "string \<times> string \<Rightarrow> 't kv_server \<Rightarrow> 't kv_outcome \<times> 't kv_server" where
  "remove_entry dk s =
     (case dk of (dict_name, key) \<Rightarrow>
       let s1 = get_dict_lock dict_name s in
       if has_key (dict_get (json_dicts s1) dict_name []) key
       then case py_lookup (json_dicts s1) dict_name of
              Inl e \<Rightarrow> (KvRaised e, s1)
            | Inr d \<Rightarrow> (KvMessage ''removed'',
                s1\<lparr>json_dicts := AList.update dict_name (AList.delete key d) (json_dicts s1)\<rparr>)
       else (KvMessage ''key not found'', s1))"

definition with_parsed_key ::
  "(string \<times> string \<Rightarrow> 't kv_server \<Rightarrow> 't kv_outcome \<times> 't kv_server) \<Rightarrow> string \<Rightarrow>
   't kv_server \<Rightarrow> 't kv_outcome \<times> 't kv_server" where
  "with_parsed_key h combined_key s =
     (case parse_key combined_key of Inl e \<Rightarrow> (KvRaised e, s) | Inr dk \<Rightarrow> h dk s)"

definition PutJson :: "string \<Rightarrow> 't \<Rightarrow> 't kv_server \<Rightarrow> 't kv_outcome \<times> 't kv_server" where
  "PutJson key v = with_parsed_key (\<lambda>dk. put_entry dk v) key"

definition GetJson :: "string \<Rightarrow> 't kv_server \<Rightarrow> 't kv_outcome \<times> 't kv_server" where
  "GetJson = with_parsed_key get_entry"

definition RemoveJson :: "string \<Rightarrow> 't kv_server \<Rightarrow> 't kv_outcome \<times> 't kv_server" where
  "RemoveJson = with_parsed_key remove_entry"

section \<open>Values and their JSON form\<close>

text \<open>
  \<open>'f\<close> are the floats, \<open>'a\<close> the NumPy objects. A dictionary is the list of its items.
\<close>

datatype 'f pkey = KStr string | KInt int | KBool bool | KFloat 'f | KNone

datatype ('f, 'a) pyv =
    VNone | VBool bool | VInt int | VFloat 'f | VStr string
  | VList "('f, 'a) pyv list"
  | VDict "('f pkey \<times> ('f, 'a) pyv) list"
  | VArray 'a | VScalar 'a

datatype 'f json =
    JNull | JBool bool | JInt int | JFloat 'f | JString string
  | JList "'f json list" | JDict "(string \<times> 'f json) list"

text \<open>A stored text: one that \<open>json.dumps\<close> made from a tree, or a string put as it is.\<close>

datatype 'f jtext = Dumped "'f json" | Raw string

text \<open>
  The Python runtime's text of a float, NumPy's conversions and \<open>json.loads\<close> on a text that
  \<open>json.dumps\<close> did not make are parameters.
\<close>

record ('f, 'a) env =
  float_str :: "'f \<Rightarrow> string"
  dtype_of :: "'a \<Rightarrow> string"
  tolist :: "'a \<Rightarrow> 'f json"
  item :: "'a \<Rightarrow> 'f json"
  np_array :: "('f, 'a) pyv \<Rightarrow> ('f, 'a) pyv \<Rightarrow> 'a result"
  parse_raw :: "string \<Rightarrow> 'f json option"

definition bool_str :: "bool \<Rightarrow> string" where
  "bool_str b = (if b then ''True'' else ''False'')"

definition serialize_key :: "('f, 'a) env \<Rightarrow> 'f pkey \<Rightarrow> 'f pkey" where
  "serialize_key E k =
     (case k of
        KInt i \<Rightarrow> KStr (''__int__'' @ str_int i)
      | KBool b \<Rightarrow> KStr (''__int__'' @ bool_str b)
      | KFloat x \<Rightarrow> KStr (''__float__'' @ float_str E x)
      | _ \<Rightarrow> k)"

fun serialize_keys :: "('f, 'a) env \<Rightarrow> ('f, 'a) pyv \<Rightarrow> ('f, 'a) pyv" where
  "serialize_keys E (VDict d) =
     VDict (dict_of (map (\<lambda>(k, v). (serialize_key E k, serialize_keys E v)) d))"
| "serialize_keys E (VList xs) = VList (map (serialize_keys E) xs)"
| "serialize_keys E v = v"

definition deserialize_key :: "'f pkey \<Rightarrow> 'f pkey result" where
  "deserialize_key k =
     (case k of
        KStr s \<Rightarrow>
          if startswith ''__int__'' s then
            bindE (int_of_str (drop (length ''__int__'') s)) (\<lambda>i. Inr (KInt i))
          else if startswith ''__float__'' s then
            bindE (int_of_str (drop (length ''__float__'') s)) (\<lambda>i. Inr (KInt i))
          else Inr k
      | _ \<Rightarrow> Inr k)"

fun deserialize_keys :: "('f, 'a) pyv \<Rightarrow> ('f, 'a) pyv result" where
  "deserialize_keys (VDict d) =
     bindE (mapE (\<lambda>(k, v). bindE (deserialize_key k) (\<lambda>k'.
              bindE (deserialize_keys v) (\<lambda>v'. Inr (k', v')))) d)
       (\<lambda>d'. Inr (VDict (dict_of d')))"
| "deserialize_keys (VList xs) = bindE (mapE deserialize_keys xs) (\<lambda>ys. Inr (VList ys))"
| "deserialize_keys v = Inr v"

text \<open>\<open>json.dumps(value, cls=NumpyEncoder)\<close>.\<close>

definition key_text :: "('f, 'a) env \<Rightarrow> 'f pkey \<Rightarrow> string" where
  "key_text E k =
     (case k of
        KStr s \<Rightarrow> s
      | KInt i \<Rightarrow> str_int i
      | KBool b \<Rightarrow> (if b then ''true'' else ''false'')
      | KFloat x \<Rightarrow> float_str E x
      | KNone \<Rightarrow> ''null'')"

definition encoder_default :: "('f, 'a) env \<Rightarrow> 'a \<Rightarrow> 'f json" where
  "encoder_default E a =
     JDict [(''__type__'', JString ''ndarray''), (''dtype'', JString (dtype_of E a)),
            (''data'', tolist E a)]"

fun json_dumps :: "('f, 'a) env \<Rightarrow> ('f, 'a) pyv \<Rightarrow> 'f json" where
  "json_dumps E VNone = JNull"
| "json_dumps E (VBool b) = JBool b"
| "json_dumps E (VInt i) = JInt i"
| "json_dumps E (VFloat x) = JFloat x"
| "json_dumps E (VStr s) = JString s"
| "json_dumps E (VList xs) = JList (map (json_dumps E) xs)"
| "json_dumps E (VDict d) = JDict (map (\<lambda>(k, v). (key_text E k, json_dumps E v)) d)"
| "json_dumps E (VArray a) = encoder_default E a"
| "json_dumps E (VScalar a) = item E a"

text \<open>\<open>json.loads(text, object_hook=numpy_decoder)\<close>: the hook sees every object, inner ones first.\<close>

definition numpy_decoder ::
  "('f, 'a) env \<Rightarrow> ('f pkey \<times> ('f, 'a) pyv) list \<Rightarrow> ('f, 'a) pyv result" where
  "numpy_decoder E obj =
     (if map_of obj (KStr ''__type__'') = Some (VStr ''ndarray'')
      then bindE (py_lookup obj (KStr ''data'')) (\<lambda>data.
           bindE (py_lookup obj (KStr ''dtype'')) (\<lambda>dt.
           bindE (np_array E data dt) (\<lambda>a. Inr (VArray a))))
      else Inr (VDict obj))"

fun json_loads :: "('f, 'a) env \<Rightarrow> 'f json \<Rightarrow> ('f, 'a) pyv result" where
  "json_loads E JNull = Inr VNone"
| "json_loads E (JBool b) = Inr (VBool b)"
| "json_loads E (JInt i) = Inr (VInt i)"
| "json_loads E (JFloat x) = Inr (VFloat x)"
| "json_loads E (JString s) = Inr (VStr s)"
| "json_loads E (JList xs) = bindE (mapE (json_loads E) xs) (\<lambda>ys. Inr (VList ys))"
| "json_loads E (JDict d) =
     bindE (mapE (\<lambda>(k, j). bindE (json_loads E j) (\<lambda>v. Inr (KStr k, v))) d)
       (\<lambda>d'. numpy_decoder E (dict_of d'))"

section \<open>The client\<close>

definition full_key :: "string \<Rightarrow> string \<Rightarrow> string" where
  "full_key dict_name key = dict_name @ DELIMITER # key"

text \<open>\<open>RemoteDict.put\<close>: the text sent for a value, \<open>ValueError\<close> for an unsupported one.\<close>

definition put_text :: "('f, 'a) env \<Rightarrow> ('f, 'a) pyv \<Rightarrow> 'f jtext result" where
  "put_text E v =
     (case v of
        VNone \<Rightarrow> Inl ValueError
      | VStr t \<Rightarrow> Inr (Raw t)
      | _ \<Rightarrow> Inr (Dumped (json_dumps E (serialize_keys E v))))"

definition remote_put ::
  "('f, 'a) env \<Rightarrow> string \<Rightarrow> string \<Rightarrow> ('f, 'a) pyv \<Rightarrow> 'f jtext kv_server \<Rightarrow>
   py_error option \<times> 'f jtext kv_server" where
  "remote_put E dict_name key v s =
     (case put_text E v of
        Inl e \<Rightarrow> (Some e, s)
      | Inr t \<Rightarrow>
          (case PutJson (full_key dict_name key) t s of
             (KvRaised e, s') \<Rightarrow> (Some RuntimeError, s')
           | (_, s') \<Rightarrow> (None, s')))"

definition decode_text :: "('f, 'a) env \<Rightarrow> 'f jtext \<Rightarrow> ('f, 'a) pyv result" where
  "decode_text E t =
     bindE (case t of
              Dumped j \<Rightarrow> json_loads E j
            | Raw r \<Rightarrow> (case parse_raw E r of None \<Rightarrow> Inl ValueError | Some j \<Rightarrow> json_loads E j))
       deserialize_keys"

text \<open>\<open>None\<close> when the call blocks; a server-side exception reaches the client as an RPC error.\<close>

definition remote_get ::
  "('f, 'a) env \<Rightarrow> string \<Rightarrow> string \<Rightarrow> 'f jtext kv_server \<Rightarrow>
   ('f, 'a) pyv result option \<times> 'f jtext kv_server" where
  "remote_get E dict_name key s =
     (case GetJson (full_key dict_name key) s of
        (KvValue t, s') \<Rightarrow> (Some (decode_text E t), s')
      | (KvWaiting, s') \<Rightarrow> (None, s')
      | (_, s') \<Rightarrow> (Some (Inl RuntimeError), s'))"

definition remote_remove ::
  "string \<Rightarrow> string \<Rightarrow> 't kv_server \<Rightarrow> string result \<times> 't kv_server" where
  "remote_remove dict_name key s =
     (case RemoveJson (full_key dict_name key) s of
        (KvMessage m, s') \<Rightarrow> (Inr m, s')
      | (_, s') \<Rightarrow> (Inl RuntimeError, s'))"

text \<open>
  \<open>_producer_task\<close> with the result of the task, and \<open>ProducerConsumer.consume\<close>. An exception
  of the task, or of the put, is logged and returned, so the consumer sees no value.
\<close>

definition producer_task ::
  "('f, 'a) env \<Rightarrow> string \<Rightarrow> string \<Rightarrow> ('f, 'a) pyv result \<Rightarrow> 'f jtext kv_server \<Rightarrow>
   ('f, 'a) pyv result \<times> 'f jtext kv_server" where
  "producer_task E dict_name key res s =
     (case res of
        Inl e \<Rightarrow> (Inl e, s)
      | Inr v \<Rightarrow> (case remote_put E dict_name key v s of
                   (Some e, s') \<Rightarrow> (Inl e, s')
                 | (None, s') \<Rightarrow> (Inr v, s')))"

definition consume ::
  "('f, 'a) env \<Rightarrow> string \<Rightarrow> string \<Rightarrow> 'f jtext kv_server \<Rightarrow>
   ('f, 'a) pyv result option \<times> 'f jtext kv_server" where
  "consume E dict_name key s =
     (case remote_get E dict_name key s of
        (Some (Inr v), s1) \<Rightarrow>
          (case remote_remove dict_name key s1 of
             (Inl e, s2) \<Rightarrow> (Some (Inl e), s2)
           | (Inr m, s2) \<Rightarrow> (Some (Inr v), s2))
      | (r, s1) \<Rightarrow> (r, s1))"

section \<open>The server keeps the store contract\<close>

definition kv_ready :: "'t kv_server \<Rightarrow> bool" where
  "kv_ready s \<longleftrightarrow> set (dict_locks s) = fst ` set (json_dicts s)"

definition kv_value :: "string \<times> string \<Rightarrow> 't kv_server \<Rightarrow> 't option" where
  "kv_value dk s = (case fst (get_entry dk s) of KvValue v \<Rightarrow> Some v | _ \<Rightarrow> None)"

definition entry :: "'t kv_server \<Rightarrow> string \<times> string \<Rightarrow> 't option" where
  "entry s dk = map_of (dict_get (json_dicts s) (fst dk) []) (snd dk)"

lemma get_dict_lock_ready:
  "kv_ready s \<Longrightarrow> kv_ready (get_dict_lock d s) \<and> has_key (json_dicts (get_dict_lock d s)) d"
  by (auto simp: get_dict_lock_def kv_ready_def dom_update)

lemma get_dict_lock_entry: "kv_ready s \<Longrightarrow> entry (get_dict_lock d s) = entry s"
  by (rule ext) (auto simp: entry_def get_dict_lock_def kv_ready_def dict_get_absent)

lemma has_keyE:
  assumes "has_key d k" obtains v where "map_of d k = Some v"
  using assms by (cases "map_of d k") (auto simp: map_of_eq_None_iff)

lemma get_entry_ready:
  assumes "kv_ready s"
  shows "get_entry dk s =
     (case entry s dk of None \<Rightarrow> KvWaiting | Some v \<Rightarrow> KvValue v, get_dict_lock (fst dk) s)"
proof -
  obtain d k where dk: "dk = (d, k)" by (cases dk)
  let ?s = "get_dict_lock d s"
  have "has_key (json_dicts ?s) d" using get_dict_lock_ready [OF assms] by blast
  then obtain kv where kv: "map_of (json_dicts ?s) d = Some kv" by (rule has_keyE)
  have e: "entry s dk = map_of kv k"
    using get_dict_lock_entry [OF assms, of d, symmetric] kv by (simp add: dk entry_def dict_get_def)
  show ?thesis
  proof (cases "map_of kv k")
    case None
    then have "\<not> has_key kv k" by (simp add: map_of_eq_None_iff)
    with None kv e show ?thesis by (simp add: get_entry_def dk Let_def dict_get_def)
  next
    case (Some v)
    then have "has_key kv k" by (metis domI dom_map_of_conv_image_fst)
    with Some kv e show ?thesis by (simp add: get_entry_def dk Let_def dict_get_def py_lookup_def)
  qed
qed

lemma kv_value_ready: "kv_ready s \<Longrightarrow> kv_value dk s = entry s dk"
  by (simp add: kv_value_def get_entry_ready split: option.splits)

lemma put_entry_ready:
  assumes "kv_ready s"
  shows "fst (put_entry dk v s) = KvStatus 1" and "kv_ready (snd (put_entry dk v s))"
    and "entry (snd (put_entry dk v s)) dk' = (if dk' = dk then Some v else entry s dk')"
proof -
  obtain d k where dk: "dk = (d, k)" by (cases dk)
  let ?s = "get_dict_lock d s"
  note r = get_dict_lock_ready [OF assms, of d]
  then obtain kv where kv: "map_of (json_dicts ?s) d = Some kv" by (metis has_keyE)
  then have eq: "put_entry (d, k) v s =
      (KvStatus 1, ?s\<lparr>json_dicts := AList.update d (AList.update k v kv) (json_dicts ?s)\<rparr>)"
    by (simp add: put_entry_def Let_def py_lookup_def)
  show "fst (put_entry dk v s) = KvStatus 1" by (simp add: dk eq)
  show "kv_ready (snd (put_entry dk v s))" using r by (auto simp: dk eq kv_ready_def dom_update)
  show "entry (snd (put_entry dk v s)) dk' = (if dk' = dk then Some v else entry s dk')"
    using kv get_dict_lock_entry [OF assms, of d, symmetric]
    by (cases dk') (auto simp: dk eq entry_def update_conv' dict_get_def)
qed

lemma remove_entry_ready:
  assumes "kv_ready s"
  shows "fst (remove_entry dk s) =
           KvMessage (if entry s dk = None then ''key not found'' else ''removed'')"
    and "kv_ready (snd (remove_entry dk s))"
    and "entry (snd (remove_entry dk s)) dk' = (if dk' = dk then None else entry s dk')"
proof -
  obtain d k where dk: "dk = (d, k)" by (cases dk)
  let ?s = "get_dict_lock d s"
  note r = get_dict_lock_ready [OF assms, of d]
  then obtain kv where kv: "map_of (json_dicts ?s) d = Some kv" by (metis has_keyE)
  have e: "entry s dk = map_of kv k"
    using get_dict_lock_entry [OF assms, of d, symmetric] kv by (simp add: dk entry_def dict_get_def)
  have eq: "remove_entry (d, k) s =
      (if has_key kv k
       then (KvMessage ''removed'',
             ?s\<lparr>json_dicts := AList.update d (AList.delete k kv) (json_dicts ?s)\<rparr>)
       else (KvMessage ''key not found'', ?s))"
    using kv by (simp add: remove_entry_def Let_def py_lookup_def dict_get_def)
  have hk: "has_key kv k \<longleftrightarrow> map_of kv k \<noteq> None" by (rule has_key_iff)
  show "fst (remove_entry dk s) =
           KvMessage (if entry s dk = None then ''key not found'' else ''removed'')"
    using e by (simp add: dk eq hk)
  show "kv_ready (snd (remove_entry dk s))" using r by (auto simp: dk eq kv_ready_def dom_update)
  show "entry (snd (remove_entry dk s)) dk' = (if dk' = dk then None else entry s dk')"
    using kv e get_dict_lock_entry [OF assms, of d, symmetric] hk
    by (cases dk') (auto simp: dk eq entry_def update_conv' delete_conv' dict_get_def)
qed

lemma kv_ready_init: "kv_ready init_kv"
  by (simp add: kv_ready_def init_kv_def)

interpretation kv_store: kv_contract kv_ready "\<lambda>dk v s. snd (put_entry dk v s)" kv_value
    "\<lambda>dk s. snd (remove_entry dk s)" "\<lambda>v. v"
  by unfold_locales
     (simp_all add: put_entry_ready remove_entry_ready kv_value_ready)

lemma parse_full_key [simp]:
  "DELIMITER \<notin> set d \<Longrightarrow> parse_key (full_key d k) = Inr (d, k)"
  by (simp add: parse_key_def full_key_def split_once_sep)

end
