(* ===== verification/KvClient.thy ===== *)
theory KvClient imports KvStore begin

text \<open>
  What the client of the named dictionaries may rely on: a value put under a key is the value
  read from it, for the values whose JSON form keeps them, together with the values that do
  not survive (\<open>float\<close> and \<open>bool\<close> keys, plain strings), and the producer and consumer built
  on it.
\<close>

section \<open>Values that survive\<close>

definition plain_key :: "'f pkey \<Rightarrow> bool" where
  "plain_key k =
     (case k of
        KInt i \<Rightarrow> True
      | KStr s \<Rightarrow> \<not> startswith ''__int__'' s \<and> \<not> startswith ''__float__'' s
      | _ \<Rightarrow> False)"

text \<open>NumPy gives an array back from its data and type, as the encoder writes it.\<close>

definition array_ok :: "('f, 'a) env \<Rightarrow> 'a \<Rightarrow> bool" where
  "array_ok E a =
     (case json_loads E (tolist E a) of
        Inl e \<Rightarrow> False
      | Inr d \<Rightarrow> np_array E d (VStr (dtype_of E a)) = Inr a)"

fun plain :: "('f, 'a) env \<Rightarrow> ('f, 'a) pyv \<Rightarrow> bool" where
  "plain E (VDict d) \<longleftrightarrow>
     distinct (map fst d) \<and> map_of d (KStr ''__type__'') \<noteq> Some (VStr ''ndarray'') \<and>
     (\<forall>p \<in> set d. case p of (k, v) \<Rightarrow> plain_key k \<and> plain E v)"
| "plain E (VList xs) \<longleftrightarrow> (\<forall>x \<in> set xs. plain E x)"
| "plain E (VArray a) \<longleftrightarrow> array_ok E a"
| "plain E (VScalar a) \<longleftrightarrow> False"
| "plain E v \<longleftrightarrow> True"

lemma startswith_cases:
  "startswith ''__float__'' (''__int__'' @ s) = False"
  "startswith ''__int__'' (''__float__'' @ s) = False"
  by (simp_all add: startswith_def)

lemma deserialize_serialize_key: "plain_key k \<Longrightarrow> deserialize_key (serialize_key E k) = Inr k"
  by (cases k) (auto simp: plain_key_def deserialize_key_def serialize_key_def
    startswith_append [of "''__int__''", simplified])

lemma serialize_key_inj:
  "plain_key k \<Longrightarrow> plain_key k' \<Longrightarrow> serialize_key E k = serialize_key E k' \<Longrightarrow> k = k'"
  by (metis deserialize_serialize_key Inr_inject)

lemma serialize_key_str: "plain_key k \<Longrightarrow> \<exists>s. serialize_key E k = KStr s"
  by (cases k) (auto simp: plain_key_def serialize_key_def)

lemma distinct_serialized:
  "distinct (map fst d) \<Longrightarrow> (\<forall>p \<in> set d. plain_key (fst p)) \<Longrightarrow>
     distinct (map (\<lambda>p. serialize_key E (fst p)) d)"
  by (induction d) (auto dest: serialize_key_inj)

lemma fst_serialized:
  "map fst (map (\<lambda>(k, v). (serialize_key E k, serialize_keys E v)) d) =
     map (\<lambda>p. serialize_key E (fst p)) d"
  by (induction d) auto

text \<open>A plain dictionary is serialised item by item.\<close>

lemma serialize_dict:
  assumes "distinct (map fst d)" and "\<forall>p \<in> set d. plain_key (fst p)"
  shows "serialize_keys E (VDict d) =
     VDict (map (\<lambda>(k, v). (serialize_key E k, serialize_keys E v)) d)"
  unfolding serialize_keys.simps
  by (subst dict_of_distinct) (simp_all only: fst_serialized distinct_serialized [OF assms])

text \<open>A loop that undoes a mapping item by item gives the items back.\<close>

lemma mapE_map_inverse: "(\<And>x. x \<in> set xs \<Longrightarrow> f (g x) = Inr (h x)) \<Longrightarrow> mapE f (map g xs) = Inr (map h xs)"
  by (induction xs) auto

lemma deserialize_serialize: "plain E v \<Longrightarrow> deserialize_keys (serialize_keys E v) = Inr v"
proof (induction v rule: serialize_keys.induct)
  case (1 E d)
  then have keys: "distinct (map fst d)" "\<forall>p \<in> set d. plain_key (fst p)" by auto
  have "mapE (\<lambda>(k, v). bindE (deserialize_key k) (\<lambda>k'.
           bindE (deserialize_keys v) (\<lambda>v'. Inr (k', v'))))
         (map (\<lambda>(k, v). (serialize_key E k, serialize_keys E v)) d) = Inr (map (\<lambda>p. p) d)"
  proof (rule mapE_map_inverse)
    fix p assume p: "p \<in> set d"
    obtain k v where kv: "p = (k, v)" by (cases p)
    then have "plain_key k" "plain E v" using 1(2) p by auto
    with 1(1) [OF p kv [symmetric]] show "(case case p of (k, v) \<Rightarrow> (serialize_key E k, serialize_keys E v) of
        (k, v) \<Rightarrow> bindE (deserialize_key k) (\<lambda>k'. bindE (deserialize_keys v) (\<lambda>v'. Inr (k', v')))) = Inr p"
      by (simp add: kv deserialize_serialize_key)
  qed
  then show ?case
    by (simp only: serialize_dict [OF keys] deserialize_keys.simps map_ident bindE_simps
        dict_of_distinct [OF keys(1)])
next
  case (2 E xs)
  then have "mapE deserialize_keys (map (serialize_keys E) xs) = Inr (map (\<lambda>x. x) xs)"
    by (intro mapE_map_inverse) simp
  then show ?case by simp
qed simp_all

text \<open>What \<open>json.loads\<close> makes of the text of a serialised value.\<close>

lemma loads_array: "array_ok E a \<Longrightarrow> json_loads E (encoder_default E a) = Inr (VArray a)"
  by (auto simp: array_ok_def encoder_default_def numpy_decoder_def dict_of_def py_lookup_def
      split: sum.splits)

lemma map_of_serialized:
  assumes "\<forall>p \<in> set d. plain_key (fst p)"
  shows "map_of (map (\<lambda>(k, v). (serialize_key E k, serialize_keys E v)) d) (KStr s) =
     Some (VStr t) \<Longrightarrow> plain_key (KStr s :: 'f pkey) \<Longrightarrow> map_of (d :: ('f pkey \<times> _) list) (KStr s) = Some (VStr t)"
  using assms
proof (induction d)
  case (Cons p d)
  obtain k v where p: "p = (k, v)" by (cases p)
  have eq: "serialize_key E k = KStr s \<longleftrightarrow> k = KStr s"
  proof
    assume "serialize_key E k = KStr s"
    moreover have "serialize_key E (KStr s) = KStr s" by (simp add: serialize_key_def)
    ultimately show "k = KStr s" using Cons.prems(2,3) p
      by (intro serialize_key_inj [of k "KStr s" E]) simp_all
  qed (simp add: serialize_key_def)
  show ?case
    using Cons eq by (cases v) (auto simp: p split: if_splits)
qed simp

lemma loads_dumps: "plain E v \<Longrightarrow> json_loads E (json_dumps E (serialize_keys E v)) = Inr (serialize_keys E v)"
proof (induction v rule: serialize_keys.induct)
  case (1 E d)
  then have keys: "distinct (map fst d)" "\<forall>p \<in> set d. plain_key (fst p)" by auto
  let ?d = "map (\<lambda>(k, v). (serialize_key E k, serialize_keys E v)) d"
  have "mapE (\<lambda>(k, j). bindE (json_loads E j) (\<lambda>v. Inr (KStr k, v)))
          (map (\<lambda>p. case case p of (k, v) \<Rightarrow> (serialize_key E k, serialize_keys E v) of
             (k, v) \<Rightarrow> (key_text E k, json_dumps E v)) d) =
        Inr ?d"
  proof (rule mapE_map_inverse)
    fix p assume p: "p \<in> set d"
    obtain k v where kv: "p = (k, v)" by (cases p)
    then have k: "plain_key k" and v: "plain E v" using 1(2) p by auto
    from serialize_key_str [OF k, of E] obtain s where "serialize_key E k = KStr s" ..
    with 1(1) [OF p kv [symmetric] v]
    show "(case (case case p of (k, v) \<Rightarrow> (serialize_key E k, serialize_keys E v) of
             (k, v) \<Rightarrow> (key_text E k, json_dumps E v)) of
        (k, j) \<Rightarrow> bindE (json_loads E j) (\<lambda>v. Inr (KStr k, v))) =
        Inr (case p of (k, v) \<Rightarrow> (serialize_key E k, serialize_keys E v))"
      by (simp add: kv key_text_def)
  qed
  then have "mapE (\<lambda>(k, j). bindE (json_loads E j) (\<lambda>v. Inr (KStr k, v)))
          (map (\<lambda>(k, v). (key_text E k, json_dumps E v)) ?d) = Inr ?d"
    by (simp only: map_map comp_def)
  moreover have "distinct (map fst ?d)"
    by (simp only: fst_serialized distinct_serialized [OF keys])
  then have "dict_of ?d = ?d" by (rule dict_of_distinct)
  moreover have "numpy_decoder E ?d = Inr (VDict ?d)"
    using map_of_serialized [OF keys(2), of E "''__type__''" "''ndarray''"] 1(2)
    by (auto simp: numpy_decoder_def plain_key_def startswith_def)
  ultimately show ?case
    by (simp only: serialize_dict [OF keys] json_dumps.simps json_loads.simps bindE_simps)
next
  case (2 E xs)
  then have "mapE (json_loads E) (map (\<lambda>x. json_dumps E (serialize_keys E x)) xs) =
      Inr (map (serialize_keys E) xs)"
    by (intro mapE_map_inverse) simp
  then show ?case by (simp add: comp_def)
qed (simp_all add: loads_array)

section \<open>Properties\<close>

definition top_string :: "('f, 'a) pyv \<Rightarrow> bool" where
  "top_string v = (case v of VStr t \<Rightarrow> True | VNone \<Rightarrow> True | _ \<Rightarrow> False)"

lemma put_text_plain: "\<not> top_string v \<Longrightarrow> put_text E v = Inr (Dumped (json_dumps E (serialize_keys E v)))"
  by (cases v) (simp_all add: put_text_def top_string_def)

lemma remote_put_eq:
  assumes "kv_ready s" and "DELIMITER \<notin> set d" and "put_text E v = Inr t"
  shows "remote_put E d k v s = (None, snd (put_entry (d, k) t s))"
  using put_entry_ready(1) [OF assms(1), of "(d, k)" t] assms(2,3)
  by (cases "put_entry (d, k) t s") (simp add: remote_put_def PutJson_def with_parsed_key_def)

lemma remote_get_eq:
  assumes "kv_ready s" and "DELIMITER \<notin> set d"
  shows "remote_get E d k s =
    (map_option (decode_text E) (entry s (d, k)), get_dict_lock d s)"
  using assms
  by (simp add: remote_get_def GetJson_def with_parsed_key_def get_entry_ready split: option.splits)

lemma remote_remove_eq:
  assumes "kv_ready s" and "DELIMITER \<notin> set d"
  shows "remote_remove d k s =
    (Inr (if entry s (d, k) = None then ''key not found'' else ''removed''), snd (remove_entry (d, k) s))"
  using remove_entry_ready(1) [OF assms(1), of "(d, k)"] assms(2)
  by (cases "remove_entry (d, k) s") (simp add: remote_remove_def RemoveJson_def with_parsed_key_def)

lemma decode_plain:
  "plain E v \<Longrightarrow> decode_text E (Dumped (json_dumps E (serialize_keys E v))) = Inr v"
  by (simp add: decode_text_def loads_dumps deserialize_serialize)


text \<open>A concrete environment: no floats, arrays of integers.\<close>

fun unjson_ints :: "(unit, int list) pyv list \<Rightarrow> int list result" where
  "unjson_ints [] = Inr []"
| "unjson_ints (VInt i # vs) = bindE (unjson_ints vs) (\<lambda>is. Inr (i # is))"
| "unjson_ints (v # vs) = Inl ValueError"

definition int_env :: "(unit, int list) env" where
  "int_env = \<lparr>float_str = (\<lambda>_. ''1.5''), dtype_of = (\<lambda>_. ''int64''),
     tolist = (\<lambda>is. JList (map JInt is)), item = (\<lambda>is. JInt (hd is)),
     np_array = (\<lambda>v _. case v of VList vs \<Rightarrow> unjson_ints vs | _ \<Rightarrow> Inl ValueError),
     parse_raw = (\<lambda>_. None)\<rparr>"


text \<open>A plain string put into a remote dictionary is stored as it is and not as JSON, so the
  client that reads it gets a JSON error, or the value the string happens to spell, and never
  the string.\<close>

theorem remote_string_is_not_returned:
  assumes "kv_ready s" and "DELIMITER \<notin> set d"
  shows "fst (remote_get E d k (snd (remote_put E d k (VStr t) s))) =
     Some (case parse_raw E t of
             None \<Rightarrow> Inl ValueError
           | Some j \<Rightarrow> bindE (json_loads E j) deserialize_keys)"
proof -
  have "put_text E (VStr t) = Inr (Raw t)" by (simp add: put_text_def)
  then show ?thesis
    by (simp only: remote_put_eq [OF assms] remote_get_eq [OF put_entry_ready(2) [OF assms(1)] assms(2)]
        fst_conv snd_conv put_entry_ready(3) [OF assms(1)] option.map simp_thms if_True)
       (simp add: decode_text_def split: option.splits)
qed

theorem remote_string_is_not_returned_witness:
  "fst (remote_get int_env ''d'' ''k'' (snd (remote_put int_env ''d'' ''k'' (VStr ''hello'') init_kv))) =
     Some (Inl ValueError)"
  using remote_string_is_not_returned [OF kv_ready_init, of "''d''" int_env "''k''" "''hello''"]
  by (simp add: DELIMITER_def int_env_def)

text \<open>A dictionary with a float key (whose text is not an integer literal) or with a boolean
  key can be put but every read of it raises a \<open>ValueError\<close>: the marked key is read back
  with \<open>int\<close>.\<close>

theorem float_keys_are_unreadable:
  assumes "kv_ready s" and "DELIMITER \<notin> set d" and "plain E v"
    and "int_of_str (float_str E x) = Inl ValueError"
  shows "fst (remote_get E d k (snd (remote_put E d k (VDict [(KFloat x, v)]) s))) = Some (Inl ValueError) \<and>
     fst (remote_get E d k (snd (remote_put E d k (VDict [(KBool b, v)]) s))) = Some (Inl ValueError)"
proof -
  have bad: "fst (remote_get E d k (snd (remote_put E d k (VDict [(key, v)]) s))) = Some (Inl ValueError)"
    if "serialize_key E key = KStr t" and "deserialize_key (KStr t :: 'a pkey) = Inl ValueError"
      and "t \<noteq> ''__type__''" for key t
  proof -
    let ?v = "VDict [(key, v)]"
    have t: "put_text E ?v = Inr (Dumped (json_dumps E (serialize_keys E ?v)))"
      by (rule put_text_plain) (simp add: top_string_def)
    have "decode_text E (Dumped (json_dumps E (serialize_keys E ?v))) = Inl ValueError"
      using that by (simp add: decode_text_def dict_of_def key_text_def loads_dumps [OF assms(3)]
        numpy_decoder_def)
    then show ?thesis
      by (simp only: remote_put_eq [OF assms(1,2) t] fst_conv snd_conv
          remote_get_eq [OF put_entry_ready(2) [OF assms(1)] assms(2)]
          put_entry_ready(3) [OF assms(1)] option.map simp_thms if_True)
  qed
  have "fst (remote_get E d k (snd (remote_put E d k (VDict [(KFloat x, v)]) s))) = Some (Inl ValueError)"
    by (rule bad) (auto simp: serialize_key_def deserialize_key_def startswith_def assms(4))
  moreover have "int_of_str (bool_str b) = Inl ValueError"
    by (cases b) (simp_all add: bool_str_def int_of_str_def strip_blanks_def is_blank_def digit_val_def)
  then have "fst (remote_get E d k (snd (remote_put E d k (VDict [(KBool b, v)]) s))) = Some (Inl ValueError)"
    by (intro bad) (auto simp: serialize_key_def deserialize_key_def startswith_def)
  ultimately show ?thesis ..
qed

theorem float_keys_are_unreadable_witness:
  "fst (remote_get int_env ''d'' ''k'' (snd (remote_put int_env ''d'' ''k''
      (VDict [(KFloat (), VInt 1)]) init_kv))) = Some (Inl ValueError)"
  by (rule float_keys_are_unreadable [OF kv_ready_init, THEN conjunct1])
     (simp_all add: DELIMITER_def int_env_def int_of_str_def strip_blanks_def is_blank_def digit_val_def)

text \<open>A produced value is consumed once: after the producer's task has returned a value, a
  consumer returns that value and removes it, and the next consumer of the key waits. If the
  task raised, nothing is stored and the consumer of a fresh key waits for ever.\<close>

theorem produced_value_is_consumed_once:
  assumes "kv_ready s" and "DELIMITER \<notin> set d" and "plain E v" and "\<not> top_string v"
    and "entry s (d, k') = None"
  shows "(let s1 = snd (producer_task E d k (Inr v) s) in
            fst (consume E d k s1) = Some (Inr v) \<and>
            fst (consume E d k (snd (consume E d k s1))) = None) \<and>
         fst (consume E d k' (snd (producer_task E d k' (Inl e) s))) = None"
proof -
  let ?t = "Dumped (json_dumps E (serialize_keys E v))"
  let ?s1 = "snd (put_entry (d, k) ?t s)"
  note put = remote_put_eq [OF assms(1,2) put_text_plain [OF assms(4)], where E = E and k = k]
  have s1: "snd (producer_task E d k (Inr v) s) = ?s1" by (simp add: producer_task_def put)
  have r1: "kv_ready ?s1" using put_entry_ready(2) [OF assms(1)] .
  let ?s2 = "get_dict_lock d ?s1"
  have r2: "kv_ready ?s2" using get_dict_lock_ready [OF r1] by blast
  have c1: "consume E d k ?s1 = (Some (Inr v), snd (remove_entry (d, k) ?s2))"
    using remote_get_eq [OF r1 assms(2), of E k] put_entry_ready(3) [OF assms(1), of "(d, k)" ?t]
      decode_plain [OF assms(3)] remote_remove_eq [OF r2 assms(2), of k]
    by (simp add: consume_def)
  have "remote_get E d k (snd (remove_entry (d, k) ?s2)) =
      (None, get_dict_lock d (snd (remove_entry (d, k) ?s2)))"
    using remote_get_eq [OF remove_entry_ready(2) [OF r2] assms(2), of E k "(d, k)"]
      remove_entry_ready(3) [OF r2, of "(d, k)"] by simp
  then have "fst (consume E d k (snd (consume E d k ?s1))) = None"
    unfolding c1 by (simp add: consume_def)
  moreover have "fst (consume E d k' (snd (producer_task E d k' (Inl e) s))) = None"
    using remote_get_eq [OF assms(1,2), of E k'] assms(5)
    by (simp add: producer_task_def consume_def)
  ultimately show ?thesis by (simp add: s1 c1)
qed

theorem produced_value_is_consumed_once_witness:
  "let s1 = snd (producer_task int_env ''d'' ''k'' (Inr (VList [VInt 4])) init_kv) in
     fst (consume int_env ''d'' ''k'' s1) = Some (Inr (VList [VInt 4])) \<and>
     fst (consume int_env ''d'' ''k'' (snd (consume int_env ''d'' ''k'' s1))) = None"
  by (rule produced_value_is_consumed_once [OF kv_ready_init, where k' = "''z''", THEN conjunct1])
     (simp_all add: DELIMITER_def top_string_def entry_def init_kv_def)

end
