(* ===== verification/DeviceGroup.thy ===== *)
theory DeviceGroup imports PyText "HOL-Library.List_Lexorder" begin

text \<open>
  \<open>DeviceGroup\<close> and \<open>ContextStack\<close> of \<open>hetu/v1/python/hetu/context.py\<close>, over \<open>DLContext\<close> of
  \<open>ndarray.py\<close>: the parsing of device descriptions, the split into workers and servers, the
  position of a device in its group, and the peers that a pipeline stage exchanges data with.

  The name of the host (\<open>socket.gethostname()\<close>) is the parameter \<open>me\<close>. Contexts are compared
  by the tuple they hash.
\<close>

section \<open>Contexts\<close>

record ctx =
  device_id :: int
  device_type :: int
  hostname :: string
  local :: bool

definition DLContext :: "string \<Rightarrow> int \<Rightarrow> int \<Rightarrow> string \<Rightarrow> ctx" where
  "DLContext me did dtype host =
     (if host = ''localhost'' \<or> host = me
      then \<lparr>device_id = did, device_type = dtype, hostname = me, local = True\<rparr>
      else \<lparr>device_id = did, device_type = dtype, hostname = host, local = False\<rparr>)"

definition rcpu :: "string \<Rightarrow> string \<Rightarrow> int \<Rightarrow> ctx" where
  "rcpu me host did = DLContext me did 1 host"

definition rgpu :: "string \<Rightarrow> string \<Rightarrow> int \<Rightarrow> ctx" where
  "rgpu me host did = DLContext me did 2 host"

definition is_gpu_ctx :: "ctx \<Rightarrow> bool" where
  "is_gpu_ctx c \<longleftrightarrow> device_type c = 2"

definition relocalize_ctx :: "string \<Rightarrow> ctx \<Rightarrow> ctx" where
  "relocalize_ctx me c = c\<lparr>local := (hostname c = ''localhost'' \<or> hostname c = me)\<rparr>"

text \<open>What \<open>__hash__\<close> hashes: \<open>__eq__\<close> compares the hashes.\<close>

definition ctx_key :: "ctx \<Rightarrow> string option \<times> int \<times> int" where
  "ctx_key c = (if local c then None else Some (hostname c), device_type c, device_id c)"

definition ctx_eq :: "ctx \<Rightarrow> ctx \<Rightarrow> bool" where
  "ctx_eq a b \<longleftrightarrow> ctx_key a = ctx_key b"

text \<open>A worker is one device or a tuple of devices (model parallel).\<close>

datatype ctx_unit = One ctx | Tup "ctx list"

fun unit_eq :: "ctx_unit \<Rightarrow> ctx_unit \<Rightarrow> bool" where
  "unit_eq (One a) (One b) = ctx_eq a b"
| "unit_eq (Tup as) (Tup bs) = list_all2 ctx_eq as bs"
| "unit_eq _ _ = False"

section \<open>Parsing\<close>

datatype ctx_repr = RStr string | RCtx ctx
datatype unit_repr = ROne ctx_repr | RTup "ctx_repr list"

definition lower_char :: "char \<Rightarrow> char" where
  "lower_char c = (let n = of_char c :: nat in if 65 \<le> n \<and> n \<le> 90 then char_of (n + 32) else c)"

definition lower :: "string \<Rightarrow> string" where
  "lower s = map lower_char s"

text \<open>\<open>re.split(';|,| +', s)\<close>.\<close>

function re_split :: "string \<Rightarrow> string list" where
  "re_split [] = [[]]"
| "re_split (c # cs) =
     (if c = CHR '';'' \<or> c = CHR '','' then [] # re_split cs
      else if c = CHR '' '' then [] # re_split (dropWhile (\<lambda>d. d = CHR '' '') cs)
      else case re_split cs of [] \<Rightarrow> [[c]] | p # ps \<Rightarrow> (c # p) # ps)"
  by pat_completeness auto
termination
  by (relation "measure length") (auto simp: le_imp_less_Suc length_dropWhile_le)

definition str2ctx :: "string \<Rightarrow> ctx_repr \<Rightarrow> ctx result" where
  "str2ctx me c =
     (case c of
        RCtx d \<Rightarrow> Inr d
      | RStr s \<Rightarrow>
          (let parts = split_all (CHR '':'') (lower s) in
           bindE (py_nth parts (-2)) (\<lambda>kind.
           assertE (kind = ''cpu'' \<or> kind = ''gpu'')
             (bindE (if length parts = 2 then Inr ''localhost'' else py_nth parts 0) (\<lambda>host.
              bindE (py_nth parts (-1)) (\<lambda>last_part.
              bindE (int_of_str last_part) (\<lambda>idx.
                Inr (if kind = ''cpu'' then rcpu me host idx else rgpu me host idx))))))))"

definition parse_unit :: "string \<Rightarrow> unit_repr \<Rightarrow> ctx_unit result" where
  "parse_unit me u =
     (case u of
        ROne r \<Rightarrow> bindE (str2ctx me r) (\<lambda>c. Inr (One c))
      | RTup rs \<Rightarrow> bindE (mapE (str2ctx me) rs) (\<lambda>cs.
          Inr (case cs of [c] \<Rightarrow> One c | _ \<Rightarrow> Tup cs)))"

definition parse_contexts :: "string \<Rightarrow> unit_repr list \<Rightarrow> ctx_unit list result" where
  "parse_contexts me us = mapE (parse_unit me) us"

definition parse_context_text :: "string \<Rightarrow> string \<Rightarrow> ctx_unit list result" where
  "parse_context_text me s = parse_contexts me (map (\<lambda>p. ROne (RStr p)) (re_split (lower s)))"

section \<open>Groups\<close>

record device_group =
  contexts :: "ctx_unit list"
  workers :: "ctx_unit list"
  servers :: "ctx list"
  is_mp :: bool
  mp_dev_num :: "nat option"
  dp_index :: "int option"
  mp_index :: "int option"

definition is_worker :: "ctx_unit \<Rightarrow> bool" where
  "is_worker u = (case u of Tup cs \<Rightarrow> True | One c \<Rightarrow> is_gpu_ctx c)"

definition get_servers_n_workers :: "ctx_unit list \<Rightarrow> ctx_unit list \<times> ctx list" where
  "get_servers_n_workers us =
     (filter is_worker us,
      concat (map (\<lambda>u. case u of One c \<Rightarrow> if is_gpu_ctx c then [] else [c] | Tup cs \<Rightarrow> []) us))"

definition unit_size :: "ctx_unit \<Rightarrow> nat" where
  "unit_size u = (case u of One c \<Rightarrow> 1 | Tup cs \<Rightarrow> length cs)"

definition unit_is_tuple :: "ctx_unit \<Rightarrow> bool" where
  "unit_is_tuple u = (case u of One c \<Rightarrow> False | Tup cs \<Rightarrow> True)"

definition make_group :: "ctx_unit list \<Rightarrow> device_group result" where
  "make_group us =
     (let (ws, ss) = get_servers_n_workers us in
      case ws of
        [] \<Rightarrow> Inr \<lparr>contexts = us, workers = ws, servers = ss, is_mp = False,
                  mp_dev_num = None, dp_index = None, mp_index = None\<rparr>
      | w # rest \<Rightarrow>
          assertE (list_all (\<lambda>v. unit_is_tuple v = unit_is_tuple w \<and>
                                 (unit_is_tuple w \<longrightarrow> unit_size v = unit_size w)) rest)
            (Inr \<lparr>contexts = us, workers = ws, servers = ss, is_mp = unit_is_tuple w,
                  mp_dev_num = Some (unit_size w), dp_index = None, mp_index = None\<rparr>))"

definition device_group_of :: "string \<Rightarrow> unit_repr list \<Rightarrow> device_group result" where
  "device_group_of me us = bindE (parse_contexts me us) make_group"

definition index_of :: "('a \<Rightarrow> bool) \<Rightarrow> 'a list \<Rightarrow> nat option" where
  "index_of p xs = (case filter (\<lambda>i. p (xs ! i)) [0..<length xs] of [] \<Rightarrow> None | i # _ \<Rightarrow> Some i)"

definition group_index :: "device_group \<Rightarrow> ctx_unit \<Rightarrow> nat result" where
  "group_index g u =
     (case index_of (unit_eq u) (contexts g) of None \<Rightarrow> Inl ValueError | Some i \<Rightarrow> Inr i)"

text \<open>The loop of \<open>set_index\<close>: the last match wins.\<close>

fun set_index_loop :: "ctx \<Rightarrow> nat \<Rightarrow> ctx_unit list \<Rightarrow> int \<times> int \<Rightarrow> int \<times> int" where
  "set_index_loop c i [] (mp, dp) = (mp, dp)"
| "set_index_loop c i (Tup cs # ws) (mp, dp) =
     set_index_loop c (Suc i) ws
       (case index_of (ctx_eq c) cs of None \<Rightarrow> (mp, dp) | Some j \<Rightarrow> (int j, int i))"
| "set_index_loop c i (One d # ws) (mp, dp) =
     set_index_loop c (Suc i) ws (if ctx_eq c d then (mp, int i) else (mp, dp))"

definition set_index :: "ctx \<Rightarrow> device_group \<Rightarrow> device_group" where
  "set_index c g =
     (case set_index_loop c 0 (workers g) (-1, -1) of
        (mp, dp) \<Rightarrow> g\<lparr>mp_index := Some mp, dp_index := Some dp\<rparr>)"

definition local_mp :: "device_group \<Rightarrow> bool" where
  "local_mp g \<longleftrightarrow> (case mp_index g of None \<Rightarrow> False | Some i \<Rightarrow> 0 \<le> i)"

definition local_dp :: "device_group \<Rightarrow> bool" where
  "local_dp g \<longleftrightarrow> (case dp_index g of None \<Rightarrow> False | Some i \<Rightarrow> 0 \<le> i)"

definition relocalize :: "string \<Rightarrow> device_group \<Rightarrow> device_group" where
  "relocalize me g =
     (let f = (\<lambda>u. case u of One c \<Rightarrow> One (relocalize_ctx me c)
                            | Tup cs \<Rightarrow> Tup (map (relocalize_ctx me) cs))
      in g\<lparr>contexts := map f (contexts g), workers := map f (workers g),
           servers := map (relocalize_ctx me) (servers g)\<rparr>)"

definition worker_num :: "device_group \<Rightarrow> nat" where
  "worker_num g = length (workers g)"

definition server_num :: "device_group \<Rightarrow> nat" where
  "server_num g = length (servers g)"

definition check_mp_num :: "device_group \<Rightarrow> nat \<Rightarrow> unit result" where
  "check_mp_num g n = assertE (mp_dev_num g = Some n) (Inr ())"

definition get_only :: "device_group \<Rightarrow> ctx result" where
  "get_only g =
     assertE (server_num g + worker_num g = 1)
       (if server_num g = 1 then Inr (hd (servers g))
        else case hd (workers g) of
               One c \<Rightarrow> Inr c
             | Tup cs \<Rightarrow> assertE (length cs = 1) (Inr (hd cs)))"

text \<open>\<open>cur_worker\<close> as it is written, with its test for a non-zero \<open>dp_index\<close>.\<close>

definition cur_worker :: "device_group \<Rightarrow> ctx_unit option result" where
  "cur_worker g =
     (case dp_index g of
        None \<Rightarrow> Inl AttributeError
      | Some i \<Rightarrow> if i \<noteq> 0 then Inr None else bindE (py_nth (contexts g) i) (\<lambda>u. Inr (Some u)))"

definition sort_text :: "ctx \<Rightarrow> string" where
  "sort_text c = hostname c @ '':'' @ str_int (device_type c) @ '':'' @ str_int (device_id c)"

definition get_sorted :: "device_group \<Rightarrow> device_group result" where
  "get_sorted g =
     bindE (mapE (\<lambda>u. case u of One c \<Rightarrow> Inr c | Tup cs \<Rightarrow> Inl AttributeError) (contexts g)) (\<lambda>cs.
       make_group (map One (sort_key sort_text cs)))"

section \<open>Peers of a pipeline stage\<close>

function gcd_loop :: "nat \<Rightarrow> nat \<Rightarrow> nat" where
  "gcd_loop num1 num2 = (if num2 = 0 then num1 else gcd_loop num2 (num1 mod num2))"
  by pat_completeness auto
termination
  by (relation "measure snd") auto

declare gcd_loop.simps [simp del]

text \<open>\<open>target_ranks k wn nrank index\<close>: the next \<open>k\<close> indices of the traversal.\<close>

fun target_ranks :: "nat \<Rightarrow> nat \<Rightarrow> nat \<Rightarrow> nat \<Rightarrow> nat list" where
  "target_ranks 0 wn nrank index = []"
| "target_ranks (Suc k) wn nrank index = index # target_ranks k wn nrank ((index + nrank) mod wn)"

definition num_cycle :: "nat \<Rightarrow> nat \<Rightarrow> nat" where
  "num_cycle wn nrank = wn div gcd_loop (max nrank wn) (min nrank wn)"

definition pick_worker :: "int option \<Rightarrow> ctx_unit \<Rightarrow> ctx_unit result" where
  "pick_worker mp u =
     (case mp of
        None \<Rightarrow> Inr u
      | Some j \<Rightarrow> (case u of One c \<Rightarrow> Inl TypeError
                           | Tup cs \<Rightarrow> bindE (py_nth cs j) (\<lambda>c. Inr (One c))))"

definition get_target_workers ::
  "device_group \<Rightarrow> device_group \<Rightarrow> int option \<Rightarrow> ctx_unit list result" where
  "get_target_workers self other mp =
     (case dp_index other of
        None \<Rightarrow> Inl AttributeError
      | Some rank \<Rightarrow>
          (let wn = worker_num self; nrank = worker_num other in
           if wn = 0 then Inl ZeroDivisionError
           else mapE (\<lambda>i. bindE (py_nth (workers self) (int i)) (pick_worker mp))
                  (target_ranks (num_cycle wn nrank) wn nrank (nat (rank mod int wn)))))"

section \<open>The context stack\<close>

type_synonym context_stack = "device_group list"

definition stack_peek :: "context_stack \<Rightarrow> device_group option" where
  "stack_peek st = (if st = [] then None else Some (last st))"

definition stack_push :: "device_group \<Rightarrow> context_stack \<Rightarrow> context_stack" where
  "stack_push g st = st @ [g]"

definition stack_pop :: "context_stack \<Rightarrow> context_stack result" where
  "stack_pop st = (if st = [] then Inl IndexError else Inr (butlast st))"

text \<open>
  \<open>with context(ctx): body\<close>: the pop of the \<open>finally\<close> clause runs also when the device
  description does not parse, and then no push has happened.
\<close>

definition with_context ::
  "string \<Rightarrow> unit_repr list \<Rightarrow> (device_group \<Rightarrow> context_stack \<Rightarrow> 'a result \<times> context_stack) \<Rightarrow>
   context_stack \<Rightarrow> 'a result \<times> context_stack" where
  "with_context me us body st =
     (case device_group_of me us of
        Inl e \<Rightarrow> (case stack_pop st of Inl e' \<Rightarrow> (Inl e', st) | Inr st' \<Rightarrow> (Inl e, st'))
      | Inr g \<Rightarrow>
          (case body g (stack_push g st) of
             (r, st1) \<Rightarrow> (case stack_pop st1 of Inl e' \<Rightarrow> (Inl e', st1) | Inr st' \<Rightarrow> (r, st'))))"

section \<open>Routing of micro-batches\<close>

lemma gcd_loop_gcd: "gcd_loop a b = gcd a b"
  by (induction a b rule: gcd_loop.induct)
     (subst gcd_loop.simps, simp add: gcd_non_0_nat)

lemma num_cycle_eq: "num_cycle wn nrank = wn div gcd wn nrank"
  by (cases "wn \<le> nrank") (auto simp: num_cycle_def gcd_loop_gcd max_def min_def gcd.commute)

lemma length_target_ranks [simp]: "length (target_ranks k wn nrank i) = k"
  by (induction k arbitrary: i) auto

lemma nth_target_ranks:
  "t < k \<Longrightarrow> i < wn \<Longrightarrow> target_ranks k wn nrank i ! t = (i + t * nrank) mod wn"
proof (induction k arbitrary: i t)
  case (Suc k)
  show ?case
  proof (cases t)
    case (Suc u)
    have "(i + nrank) mod wn < wn" using Suc.prems(2) by simp
    moreover have "((i + nrank) mod wn + u * nrank) mod wn = (i + (nrank + u * nrank)) mod wn"
      by (simp add: mod_add_left_eq add.assoc)
    ultimately show ?thesis
      using Suc.IH [of u "(i + nrank) mod wn"] Suc Suc.prems by simp
  qed (use Suc.prems in simp)
qed simp

text \<open>A cycle of the traversal brings it back to its start.\<close>

lemma cycle_returns:
  assumes "0 < (wn::nat)" shows "wn dvd (wn div gcd wn n) * n"
proof -
  have "gcd wn n dvd wn" "gcd wn n dvd n" by simp_all
  then obtain a b where a: "wn = gcd wn n * a" and b: "n = gcd wn n * b" by (meson dvdE)
  have "gcd wn n \<noteq> 0" using assms by simp
  have "(wn div gcd wn n) * n = a * (gcd wn n * b)"
    using a b \<open>gcd wn n \<noteq> 0\<close> by (metis nonzero_mult_div_cancel_left)
  also have "\<dots> = wn * b" using a by (metis mult.assoc mult.commute)
  finally show ?thesis by simp
qed

lemma num_cycle_pos: "0 < wn \<Longrightarrow> 0 < num_cycle wn nrank"
  by (simp add: num_cycle_eq div_greater_zero_iff)

lemma target_of_batch:
  assumes "0 < nA" and "0 < nB"
  shows "target_ranks (num_cycle nB nA) nB nA (m mod nA mod nB) ! (m div nA mod num_cycle nB nA) = m mod nB"
proof -
  let ?c = "num_cycle nB nA" and ?q = "m div nA"
  have c: "0 < ?c" using assms(2) by (rule num_cycle_pos)
  obtain z where z: "?c * nA = nB * z"
    using cycle_returns [OF assms(2), of nA] by (auto simp: num_cycle_eq dvd_def)
  have "?q * nA = (?q div ?c * ?c + ?q mod ?c) * nA" by (simp only: div_mult_mod_eq)
  also have "\<dots> = ?q mod ?c * nA + ?q div ?c * (?c * nA)"
    by (simp only: distrib_right mult.assoc add.commute)
  also have "\<dots> = ?q mod ?c * nA + nB * (?q div ?c * z)"
    by (simp only: z mult.left_commute)
  finally have split: "?q * nA = ?q mod ?c * nA + nB * (?q div ?c * z)" .
  have "target_ranks ?c nB nA (m mod nA mod nB) ! (?q mod ?c) =
      (m mod nA mod nB + (?q mod ?c) * nA) mod nB"
    using c assms(2) by (intro nth_target_ranks) simp_all
  also have "\<dots> = (m mod nA + (?q mod ?c) * nA) mod nB" by (simp add: mod_add_left_eq)
  also have "\<dots> = (m mod nA + ?q mod ?c * nA + nB * (?q div ?c * z)) mod nB"
    by (simp only: mod_mult_self2)
  also have "\<dots> = (m mod nA + ?q * nA) mod nB" by (simp only: split add.assoc)
  also have "m mod nA + ?q * nA = m" by simp
  finally show ?thesis .
qed

lemma target_ranks_below:
  assumes "0 < wn" and "i < wn" shows "\<forall>j \<in> set (target_ranks k wn nrank i). j < wn"
  using assms(2)
proof (induction k arbitrary: i)
  case (Suc k)
  have "(i + nrank) mod wn < wn" using assms(1) by simp
  from Suc.IH [OF this] Suc.prems show ?case by simp
qed simp

lemma get_target_workers_eq:
  assumes "dp_index other = Some (int r)" and "0 < worker_num self"
  shows "get_target_workers self other None =
     Inr (map (\<lambda>i. workers self ! i)
       (target_ranks (num_cycle (worker_num self) (worker_num other)) (worker_num self)
          (worker_num other) (r mod worker_num self)))"
proof -
  let ?ts = "target_ranks (num_cycle (worker_num self) (worker_num other))
      (worker_num self) (worker_num other) (r mod worker_num self)"
  have "nat (int r mod int (worker_num self)) = r mod worker_num self"
    by (simp add: nat_mod_distrib)
  moreover have "mapE (\<lambda>i. bindE (py_nth (workers self) (int i)) (pick_worker None)) ?ts =
      Inr (map (\<lambda>i. workers self ! i) ?ts)"
  proof (rule mapE_all_Inr)
    fix i assume "i \<in> set ?ts"
    then have "i < worker_num self"
      by (rule bspec [OF target_ranks_below [OF assms(2) mod_less_divisor [OF assms(2)]]])
    then show "bindE (py_nth (workers self) (int i)) (pick_worker None) = Inr (workers self ! i)"
      by (simp add: pick_worker_def worker_num_def)
  qed
  moreover have "worker_num self \<noteq> 0" using assms(2) by simp
  ultimately show ?thesis
    by (simp only: get_target_workers_def assms(1) option.case Let_def if_False)
qed

text \<open>C24: Micro-batch \<open>m\<close> is handled by worker \<open>m mod n\<close> of a stage with \<open>n\<close> data-parallel workers,
  as its \<open>m div n\<close>-th. Each side cycles through the peers that \<open>get_target_workers\<close> gives
  it: then the sender of \<open>m\<close> addresses exactly the worker that handles \<open>m\<close> in the next stage,
  and that worker expects it from exactly this sender, whatever the two degrees are.\<close>

theorem pipeline_peers_route_microbatches:
  assumes "0 < worker_num snd_g" and "0 < worker_num rcv_g"
    and "dp_index snd_g = Some (int (m mod worker_num snd_g))"
    and "dp_index rcv_g = Some (int (m mod worker_num rcv_g))"
  shows "\<exists>ts rs. get_target_workers rcv_g snd_g None = Inr ts \<and>
           get_target_workers snd_g rcv_g None = Inr rs \<and> ts \<noteq> [] \<and> rs \<noteq> [] \<and>
           ts ! (m div worker_num snd_g mod length ts) = workers rcv_g ! (m mod worker_num rcv_g) \<and>
           rs ! (m div worker_num rcv_g mod length rs) = workers snd_g ! (m mod worker_num snd_g)"
proof -
  let ?nA = "worker_num snd_g" and ?nB = "worker_num rcv_g"
  have "0 < num_cycle ?nB ?nA" "0 < num_cycle ?nA ?nB" using assms(1,2) num_cycle_pos by blast+
  then show ?thesis
    using get_target_workers_eq [OF assms(3,2)] get_target_workers_eq [OF assms(4,1)]
      target_of_batch [OF assms(1,2), of m] target_of_batch [OF assms(2,1), of m]
    by (auto simp flip: length_greater_0_conv)
qed

text \<open>Groups of \<open>n\<close> devices of one host, at the worker that handles micro-batch \<open>m\<close>.\<close>

definition gpu_group :: "nat \<Rightarrow> nat \<Rightarrow> device_group" where
  "gpu_group n m =
     \<lparr>contexts = map (\<lambda>i. One (rgpu ''h'' ''h'' (int i))) [0..<n],
      workers = map (\<lambda>i. One (rgpu ''h'' ''h'' (int i))) [0..<n], servers = [], is_mp = False,
      mp_dev_num = Some 1, dp_index = Some (int (m mod n)), mp_index = None\<rparr>"

theorem pipeline_peers_route_microbatches_witness:
  "\<exists>ts rs. get_target_workers (gpu_group 3 7) (gpu_group 2 7) None = Inr ts \<and>
     get_target_workers (gpu_group 2 7) (gpu_group 3 7) None = Inr rs \<and> ts \<noteq> [] \<and> rs \<noteq> [] \<and>
     ts ! (7 div worker_num (gpu_group 2 7) mod length ts) =
       workers (gpu_group 3 7) ! (7 mod worker_num (gpu_group 3 7)) \<and>
     rs ! (7 div worker_num (gpu_group 3 7) mod length rs) =
       workers (gpu_group 2 7) ! (7 mod worker_num (gpu_group 2 7))"
  by (rule pipeline_peers_route_microbatches) (simp_all add: gpu_group_def worker_num_def)

text \<open>A device description that does not parse, inside an active \<open>with context(...)\<close> block,
  takes the enclosing context off the stack, although nothing was pushed; when the stack then
  is empty the enclosing block ends with an \<open>IndexError\<close> in place of the real error.\<close>

theorem failed_context_pops_enclosing_one:
  assumes "device_group_of me us = Inr g" and "device_group_of me bad = Inl e"
  shows "with_context me bad body [g] = (Inl e, []) \<and>
         with_context me us (\<lambda>g. with_context me bad body) [] = (Inl IndexError, [])"
  using assms by (simp add: with_context_def stack_pop_def stack_push_def)

theorem failed_context_pops_enclosing_one_witness:
  "\<exists>g. device_group_of ''h'' [ROne (RStr ''gpu:0'')] = Inr g \<and>
     with_context ''h'' [ROne (RStr ''tpu:0'')] (\<lambda>g st. (Inr (), st)) [g] = (Inl AssertionError, []) \<and>
     with_context ''h'' [ROne (RStr ''gpu:0'')]
       (\<lambda>g. with_context ''h'' [ROne (RStr ''tpu:0'')] (\<lambda>g st. (Inr (), st))) [] = (Inl IndexError, [])"
proof -
  have good: "\<exists>g. device_group_of ''h'' [ROne (RStr ''gpu:0'')] = Inr g"
    by (simp add: device_group_of_def parse_contexts_def parse_unit_def str2ctx_def lower_def
        lower_char_def py_nth_def Let_def int_of_str_def strip_blanks_def is_blank_def digit_val_def
        make_group_def get_servers_n_workers_def is_worker_def is_gpu_ctx_def rgpu_def DLContext_def)
  have bad: "device_group_of ''h'' [ROne (RStr ''tpu:0'')] = Inl AssertionError"
    by (simp add: device_group_of_def parse_contexts_def parse_unit_def str2ctx_def lower_def
        lower_char_def py_nth_def Let_def)
  from good obtain g where "device_group_of ''h'' [ROne (RStr ''gpu:0'')] = Inr g" ..
  with failed_context_pops_enclosing_one [OF this bad, of "\<lambda>g st. (Inr (), st)"] show ?thesis
    by blast
qed

end
