(* ===== verification/NodeStatus.thy ===== *)
theory NodeStatus imports DeviceGroup begin

text \<open>
  \<open>NodeStatus\<close> of \<open>hetu/v1/python/hetu/context.py\<close>: how the value of a graph node is laid out
  on the devices of a group. \<open>state\<close> says into how many parts each tensor dimension is split,
  \<open>duplicate\<close> (dimension -1) how many copies of a part exist, \<open>partial\<close> (dimension -2) how many
  partial sums a value consists of, \<open>order\<close> which of these loops is the outer one when the
  devices are numbered.

  \<open>numpy.prod\<close> over the parts is the product of integers. A dictionary that is compared with
  \<open>==\<close> is compared as a set of items.
\<close>

section \<open>The record\<close>

type_synonym parts = "(int \<times> int) list"
type_synonym layout = "parts option \<times> int option \<times> int option"
type_synonym src2dst = "int list \<times> int"

record node_status =
  dev_num :: int
  enable_partial :: bool
  state :: "parts option"
  duplicate :: "int option"
  partial :: "int option"
  order :: "int list option"
  valid_state_flag :: bool
  valid_all_flag :: bool

datatype state_arg = DictState parts | TupleState "int list"

definition norm_state :: "state_arg \<Rightarrow> parts" where
  "norm_state a = filter (\<lambda>(i, v). v \<noteq> 1)
     (case a of DictState d \<Rightarrow> sort_key fst d | TupleState vs \<Rightarrow> zip (map int [0..<length vs]) vs)"

definition dict_eq :: "parts \<Rightarrow> parts \<Rightarrow> bool" where
  "dict_eq d e \<longleftrightarrow> length d = length e \<and> list_all (\<lambda>(k, v). map_of e k = Some v) d"

definition opt_dict_eq :: "parts option \<Rightarrow> parts option \<Rightarrow> bool" where
  "opt_dict_eq a b = (case (a, b) of (Some d, Some e) \<Rightarrow> dict_eq d e | (None, None) \<Rightarrow> True | _ \<Rightarrow> False)"

definition num_parts :: "parts \<Rightarrow> int" where
  "num_parts d = prod_list (map snd d)"

definition is_dist :: "node_status \<Rightarrow> bool" where
  "is_dist s \<longleftrightarrow> 1 < dev_num s"

text \<open>\<open>get_dim\<close>; a duplicate or partial that is not known is \<open>None\<close>.\<close>

definition get_dim :: "node_status \<Rightarrow> int \<Rightarrow> int option result" where
  "get_dim s ind =
     (if ind = -1 then Inr (duplicate s)
      else if ind = -2 then Inr (partial s)
      else case state s of None \<Rightarrow> Inl AttributeError | Some d \<Rightarrow> Inr (Some (dict_get d ind 1)))"

definition get_dim_int :: "node_status \<Rightarrow> int \<Rightarrow> int result" where
  "get_dim_int s ind =
     bindE (get_dim s ind) (\<lambda>v. case v of None \<Rightarrow> Inl TypeError | Some n \<Rightarrow> Inr n)"

section \<open>Deducing the missing counts\<close>

definition try_set_duplicate :: "int \<Rightarrow> node_status \<Rightarrow> node_status result" where
  "try_set_duplicate d s =
     assertE (duplicate s \<in> {None, Some d}) (Inr (s\<lparr>duplicate := Some d, valid_state_flag := True\<rparr>))"

definition try_set_partial :: "int \<Rightarrow> node_status \<Rightarrow> node_status result" where
  "try_set_partial p s =
     assertE (partial s \<in> {None, Some p})
       (assertE (enable_partial s \<or> p = 1)
          (Inr (s\<lparr>partial := Some p, valid_state_flag := True\<rparr>)))"

definition floordiv :: "int \<Rightarrow> int \<Rightarrow> int result" where
  "floordiv a b = (if b = 0 then Inl ZeroDivisionError else Inr (a div b))"

definition try_get_duplicate :: "node_status \<Rightarrow> node_status result" where
  "try_get_duplicate s =
     (if valid_state_flag s then Inr s
      else case state s of
        None \<Rightarrow> Inr s
      | Some d \<Rightarrow>
          (let temp = num_parts d in
           bindE (floordiv (dev_num s) temp) (\<lambda>temp_duplicate.
           assertE (dev_num s mod temp = 0)
             (if \<not> enable_partial s then try_set_duplicate temp_duplicate s
              else case partial s of
                Some p \<Rightarrow> bindE (floordiv temp_duplicate p) (\<lambda>n. try_set_duplicate n s)
              | None \<Rightarrow>
                  (case duplicate s of
                     Some n \<Rightarrow> bindE (floordiv temp_duplicate n) (\<lambda>p. try_set_partial p s)
                   | None \<Rightarrow>
                       if temp_duplicate = 1
                       then bindE (try_set_partial 1 s) (try_set_duplicate 1)
                       else Inr s)))))"

definition set_one :: "node_status \<Rightarrow> node_status result" where
  "set_one s =
     assertE (case state s of None \<Rightarrow> True | Some d \<Rightarrow> list_all (\<lambda>v. v = 1) (map snd d))
     (assertE (duplicate s \<in> {None, Some 1})
     (assertE (order s \<in> {None, Some []})
       (Inr (s\<lparr>state := Some [], duplicate := Some 1, order := Some [],
              partial := (if enable_partial s then Some 1 else partial s),
              valid_state_flag := True, valid_all_flag := True\<rparr>))))"

definition node_status_of :: "int \<Rightarrow> state_arg option \<Rightarrow> bool \<Rightarrow> node_status result" where
  "node_status_of n arg en =
     bindE (try_get_duplicate
       \<lparr>dev_num = n, enable_partial = en, state = map_option norm_state arg, duplicate = None,
        partial = None, order = None, valid_state_flag = False, valid_all_flag = False\<rparr>) (\<lambda>s.
       if n = 1 then set_one s else Inr s)"

section \<open>Setters\<close>

definition set_duplicate :: "int option \<Rightarrow> node_status \<Rightarrow> node_status result" where
  "set_duplicate arg s =
     (case arg of
        None \<Rightarrow> Inr s
      | Some d \<Rightarrow>
          assertE (duplicate s \<in> {None, Some d})
            (let s1 = s\<lparr>duplicate := Some d\<rparr> in
             if enable_partial s then try_get_duplicate s1 else Inr s1))"

definition set_partial :: "int option \<Rightarrow> node_status \<Rightarrow> node_status result" where
  "set_partial arg s =
     (if \<not> enable_partial s then assertE (arg = Some 1) (Inr s)
      else case arg of
        None \<Rightarrow> Inr s
      | Some p \<Rightarrow>
          assertE (partial s \<in> {None, Some p}) (try_get_duplicate (s\<lparr>partial := Some p\<rparr>)))"

definition set_state ::
  "state_arg option \<Rightarrow> int option \<Rightarrow> int option \<Rightarrow> node_status \<Rightarrow> node_status result" where
  "set_state arg dup par s =
     bindE (case arg of
              None \<Rightarrow> Inr s
            | Some a \<Rightarrow>
                (let d = norm_state a in
                 assertE (state s \<in> {Some d, None})
                   (Inr (if state s = None then s\<lparr>state := Some d\<rparr> else s)))) (\<lambda>s1.
     bindE (if dup \<noteq> None then set_duplicate dup s1 else Inr s1) (\<lambda>s2.
     bindE (if par \<noteq> None then set_partial par s2 else Inr s2) (\<lambda>s3.
       if dup = None \<and> par = None then try_get_duplicate s3 else Inr s3)))"

definition set_layout :: "layout \<Rightarrow> node_status \<Rightarrow> node_status result" where
  "set_layout l s = (case l of (st, d, p) \<Rightarrow> set_state (map_option DictState st) d p s)"

text \<open>The loop of \<open>set_order\<close> drops the dimensions that are not split.\<close>

fun split_dims :: "node_status \<Rightarrow> int list \<Rightarrow> int list result" where
  "split_dims s [] = Inr []"
| "split_dims s (o' # os) =
     bindE (split_dims s os) (\<lambda>rest.
       bindE (get_dim s o') (\<lambda>v. Inr (if v \<in> {Some 1, None} then rest else o' # rest)))"

definition set_order :: "int list option \<Rightarrow> node_status \<Rightarrow> node_status result" where
  "set_order arg s =
     (case arg of
        None \<Rightarrow> Inr s
      | Some os \<Rightarrow>
          bindE (split_dims s os) (\<lambda>os'.
            assertE (order s \<in> {Some os', None}) (Inr (s\<lparr>order := Some os'\<rparr>))))"

definition copy_state_from :: "node_status \<Rightarrow> node_status \<Rightarrow> node_status result" where
  "copy_state_from other s =
     bindE (set_state (map_option DictState (state other)) None None s) (\<lambda>s1.
     bindE (set_duplicate (duplicate other) s1) (\<lambda>s2.
       if enable_partial s2 then set_partial (partial other) s2 else Inr s2))"

definition copy_order_from :: "node_status \<Rightarrow> node_status \<Rightarrow> node_status result" where
  "copy_order_from other s = set_order (order other) s"

definition copy_from :: "node_status \<Rightarrow> bool \<Rightarrow> node_status \<Rightarrow> node_status result" where
  "copy_from other copy_order s =
     (if copy_order then copy_order_from other s else copy_state_from other s)"

section \<open>Validity\<close>

definition valid_state :: "node_status \<Rightarrow> bool \<times> node_status" where
  "valid_state s =
     (let s1 = (if enable_partial s then s else s\<lparr>partial := Some 1\<rparr>) in
      if valid_state_flag s1 then (True, s1)
      else if state s1 = None \<or> duplicate s1 = None \<or> (enable_partial s1 \<and> partial s1 = None)
      then (False, s1)
      else (True, s1\<lparr>valid_state_flag := True\<rparr>))"

definition more_than_one :: "int option \<Rightarrow> bool result" where
  "more_than_one v = (case v of None \<Rightarrow> Inl TypeError | Some n \<Rightarrow> Inr (1 < n))"

definition has_par :: "node_status \<Rightarrow> bool result" where
  "has_par s = (if enable_partial s then more_than_one (partial s) else Inr False)"

definition valid_all :: "node_status \<Rightarrow> (bool \<times> node_status) result" where
  "valid_all s =
     (if valid_all_flag s then Inr (True, s)
      else case valid_state s of
        (False, s1) \<Rightarrow> Inr (False, s1)
      | (True, s1) \<Rightarrow>
          bindE (more_than_one (duplicate s1)) (\<lambda>dup.
          bindE (has_par s1) (\<lambda>hp.
          case state s1 of
            None \<Rightarrow> Inl TypeError
          | Some d \<Rightarrow>
              (let dims = length d + (if dup then 1 else 0) + (if hp then 1 else 0) in
               case order s1 of
                 None \<Rightarrow>
                   if dims = 0 then Inr (True, s1\<lparr>order := Some []\<rparr>)
                   else if dims = 1
                   then Inr (True, s1\<lparr>order := Some (map fst d @ (if dup then [-1] else [])
                                                      @ (if hp then [-2] else []))\<rparr>)
                   else Inr (False, s1)
               | Some os \<Rightarrow>
                   assertE (length os = dims)
                   (assertE (list_all (\<lambda>k. k \<in> set os) (map fst d))
                   (assertE (dup \<longrightarrow> -1 \<in> set os)
                   (assertE (hp \<longrightarrow> -2 \<in> set os)
                     (Inr (True, s1\<lparr>valid_all_flag := True\<rparr>)))))))))"

definition valid :: "bool \<Rightarrow> node_status \<Rightarrow> (bool \<times> node_status) result" where
  "valid include_order s = (if include_order then valid_all s else Inr (valid_state s))"

definition get_default_order :: "node_status \<Rightarrow> node_status result" where
  "get_default_order s =
     (case state s of
        None \<Rightarrow> Inl AttributeError
      | Some d \<Rightarrow>
          bindE (more_than_one (duplicate s)) (\<lambda>dup.
          bindE (has_par s) (\<lambda>hp.
            Inr (s\<lparr>order := Some ((if hp then [-2] else []) @ (if dup then [-1] else [])
                                   @ sort (map fst d))\<rparr>))))"

definition check_state :: "int \<Rightarrow> bool \<Rightarrow> node_status \<Rightarrow> unit result" where
  "check_state max_dim check_order s =
     (if check_order
      then if dev_num s = 1 \<and> order s = Some [] then Inr ()
           else (case order s of None \<Rightarrow> Inl TypeError
                 | Some os \<Rightarrow> assertE (list_all (\<lambda>k. k < max_dim) os) (Inr ()))
      else if dev_num s = 1 \<and> state s = Some [] then Inr ()
           else (case state s of None \<Rightarrow> Inl TypeError
                 | Some d \<Rightarrow> assertE (list_all (\<lambda>k. k < max_dim) (map fst d)) (Inr ())))"

section \<open>Device numbers and loop indices\<close>

fun map_dev_loop ::
  "node_status \<Rightarrow> bool \<Rightarrow> int list \<Rightarrow> int \<Rightarrow> parts \<Rightarrow> parts result" where
  "map_dev_loop s cd [] g acc = Inr acc"
| "map_dev_loop s cd (cur # os) g acc =
     bindE (get_dim_int s cur) (\<lambda>ts.
     bindE (floordiv g ts) (\<lambda>q.
       map_dev_loop s cd os q (if 0 \<le> cur \<or> cd then AList.update cur (g mod ts) acc else acc)))"

definition map_dev_to_index :: "node_status \<Rightarrow> int \<Rightarrow> bool \<Rightarrow> parts result" where
  "map_dev_to_index s global_index containing_duplicate =
     (case order s of
        None \<Rightarrow> Inl TypeError
      | Some os \<Rightarrow> map_dev_loop s containing_duplicate (rev os) global_index [])"

fun loop_sizes_step :: "node_status \<Rightarrow> int list \<Rightarrow> int \<Rightarrow> int list result" where
  "loop_sizes_step s sizes rord =
     bindE (get_dim_int s rord) (\<lambda>n. bindE (py_nth sizes 0) (\<lambda>h. Inr (h * n # sizes)))"

definition get_loop_sizes :: "node_status \<Rightarrow> int list result" where
  "get_loop_sizes s =
     (case order s of
        None \<Rightarrow> Inl TypeError
      | Some os \<Rightarrow> bindE (foldE (loop_sizes_step s) [1] (rev os)) (\<lambda>sizes. Inr (tl sizes)))"

section \<open>Layout algebra\<close>

definition layout_of :: "node_status \<Rightarrow> layout" where
  "layout_of s = (state s, duplicate s, partial s)"

definition state_pop :: "parts option \<Rightarrow> int \<Rightarrow> (int \<times> parts option) result" where
  "state_pop st k =
     (case st of
        None \<Rightarrow> Inl AttributeError
      | Some d \<Rightarrow> Inr (dict_get d k 1, Some (AList.delete k d)))"

definition state_put :: "parts option \<Rightarrow> int \<Rightarrow> int option \<Rightarrow> parts option result" where
  "state_put st k v =
     (case v of
        None \<Rightarrow> Inl TypeError
      | Some n \<Rightarrow> Inr (if 1 < n then map_option (AList.update k n) st else st))"

definition exchange_state :: "node_status \<Rightarrow> int \<Rightarrow> int \<Rightarrow> layout result" where
  "exchange_state s n1 n2 =
     (let st = state s; dup = duplicate s; par = partial s in
      bindE (if n1 = -1 then Inr (dup, st, Some 1, par)
             else if n1 = -2 then
               (case par of None \<Rightarrow> Inr (Some 1, st, dup, None) | Some p \<Rightarrow> Inr (Some p, st, dup, Some 1))
             else bindE (state_pop st n1) (\<lambda>(v, st'). Inr (Some v, st', dup, par)))
        (\<lambda>(v1, st, dup, par).
      bindE (if n2 = -1 then Inr (dup, st, v1, par)
             else if n2 = -2 then
               (case par of None \<Rightarrow> Inr (Some 1, st, dup, None) | Some p \<Rightarrow> Inr (Some p, st, dup, v1))
             else bindE (state_pop st n2) (\<lambda>(v, st').
                  bindE (state_put st' n2 v1) (\<lambda>st''. Inr (Some v, st'', dup, par))))
        (\<lambda>(v2, st, dup, par).
      if n1 = -1 then Inr (st, v2, par)
      else if n1 = -2 then Inr (st, dup, v2)
      else bindE (state_put st n1 v2) (\<lambda>st'. Inr (st', dup, par)))))"

definition exchange_order :: "node_status \<Rightarrow> int \<Rightarrow> int \<Rightarrow> int list result" where
  "exchange_order s n1 n2 =
     (case order s of
        None \<Rightarrow> Inl TypeError
      | Some os \<Rightarrow>
          (let a = (case index_of (\<lambda>k. k = n1) os of None \<Rightarrow> os | Some i \<Rightarrow> os[i := n2]) in
           Inr (case index_of (\<lambda>k. k = n2) os of None \<Rightarrow> a | Some i \<Rightarrow> a[i := n1])))"

text \<open>Removing dimension \<open>s\<close> renumbers the later ones, in ascending order.\<close>

definition shift_keys :: "int \<Rightarrow> parts \<Rightarrow> parts" where
  "shift_keys s d =
     fold (\<lambda>k d. if s < k then AList.update (k - 1) (dict_get d k 0) (AList.delete k d) else d)
       (sort (map fst d)) d"

fun combine_src :: "int \<Rightarrow> layout \<times> int \<Rightarrow> int \<Rightarrow> (layout \<times> int) result" where
  "combine_src dst ((st, dup, par), v) s =
     assertE (s \<noteq> dst)
       (if s = -2 then Inr ((st, dup, None), case par of None \<Rightarrow> v | Some p \<Rightarrow> v * p)
        else if s = -1 then
          (case dup of None \<Rightarrow> Inl TypeError | Some d \<Rightarrow> Inr ((st, Some 1, par), v * d))
        else case st of
          None \<Rightarrow> Inl AttributeError
        | Some d \<Rightarrow> Inr ((Some (shift_keys s (AList.delete s d)), dup, par), v * dict_get d s 1))"

definition shift_dst :: "int list \<Rightarrow> int \<Rightarrow> int" where
  "shift_dst src dst = foldl (\<lambda>d s. if 0 \<le> s \<and> s < d then d - 1 else d) dst src"

definition combine_dst :: "int list \<Rightarrow> int \<Rightarrow> layout \<times> int \<Rightarrow> layout result" where
  "combine_dst src dst lv =
     (case lv of ((st, dup, par), v) \<Rightarrow>
        if dst = -2 then Inr (st, dup, case par of None \<Rightarrow> Some v | Some p \<Rightarrow> Some (p * v))
        else if dst = -1 then
          (case dup of None \<Rightarrow> Inl TypeError | Some d \<Rightarrow> Inr (st, Some (d * v), par))
        else case st of
          None \<Rightarrow> Inl TypeError
        | Some d \<Rightarrow>
            (let k = shift_dst src dst in
             Inr (Some (AList.update k (if has_key d k then dict_get d k 1 * v else v) d), dup, par)))"

definition combine_pair :: "layout \<Rightarrow> src2dst \<Rightarrow> layout result" where
  "combine_pair l sd =
     bindE (foldE (combine_src (snd sd)) (l, 1) (fst sd)) (combine_dst (fst sd) (snd sd))"

definition static_combine_state :: "layout \<Rightarrow> src2dst list \<Rightarrow> layout result" where
  "static_combine_state l sds = foldE combine_pair l sds"

definition combine_state :: "node_status \<Rightarrow> src2dst list \<Rightarrow> layout result" where
  "combine_state s sds = static_combine_state (layout_of s) sds"

definition remove_at :: "nat \<Rightarrow> 'a list \<Rightarrow> 'a list" where
  "remove_at i xs = take i xs @ drop (Suc i) xs"

definition combine_order_pair :: "int list \<Rightarrow> src2dst \<Rightarrow> int list result" where
  "combine_order_pair os sd =
     (let (src, dst) = sd;
          inds = sort (concat (map (\<lambda>k. case index_of (\<lambda>x. x = k) os of None \<Rightarrow> [] | Some i \<Rightarrow> [i])
                   (src @ [dst])))
      in case inds of
           [] \<Rightarrow> Inr os
         | i0 # rest \<Rightarrow>
             assertE (rest = map (\<lambda>i. i0 + i + 1) [0..<length rest])
               (let os1 = fold remove_at (rev rest) os; os2 = os1[i0 := dst]
                in Inr (map (\<lambda>k. if 0 < k then shift_dst src k else k) os2)))"

definition static_combine_order :: "int list \<Rightarrow> src2dst list \<Rightarrow> int list result" where
  "static_combine_order os sds = foldE combine_order_pair os sds"

definition combine_order :: "node_status \<Rightarrow> src2dst list \<Rightarrow> int list result" where
  "combine_order s sds =
     (case order s of None \<Rightarrow> Inl TypeError | Some os \<Rightarrow> static_combine_order os sds)"

definition reduce_state :: "node_status \<Rightarrow> int \<Rightarrow> layout result" where
  "reduce_state s dim =
     (if dim = -1 then Inr (state s, Some 1, partial s)
      else if dim = -2 then Inr (state s, duplicate s, map_option (\<lambda>_. 1) (partial s))
      else bindE (state_pop (state s) dim) (\<lambda>(v, st). Inr (st, duplicate s, partial s)))"

definition reduce_order :: "node_status \<Rightarrow> int \<Rightarrow> int list result" where
  "reduce_order s dim =
     (case order s of None \<Rightarrow> Inl TypeError | Some os \<Rightarrow> Inr (remove1 dim os))"

definition set_from_combine ::
  "node_status \<Rightarrow> bool \<Rightarrow> src2dst list \<Rightarrow> node_status \<Rightarrow> node_status result" where
  "set_from_combine other deduce_order sds s =
     (if deduce_order then bindE (combine_order other sds) (\<lambda>os. set_order (Some os) s)
      else bindE (combine_state other sds) (\<lambda>l. set_layout l s))"

text \<open>\<open>get_combine_from\<close> also settles the validity flags of the source.\<close>

definition get_combine_from ::
  "node_status \<Rightarrow> bool \<Rightarrow> src2dst list \<Rightarrow> node_status \<Rightarrow> (node_status \<times> node_status) result" where
  "get_combine_from status deduce_order sds s =
     (if deduce_order then
        bindE (valid_all status) (\<lambda>(ok, status').
          if ok then bindE (combine_order status' sds) (\<lambda>os.
                     bindE (set_order (Some os) s) (\<lambda>s'. Inr (status', s')))
          else Inr (status', s))
      else
        (case valid_state status of (ok, status') \<Rightarrow>
          if ok then bindE (combine_state status' sds) (\<lambda>l.
                     bindE (set_layout l s) (\<lambda>s'. Inr (status', s')))
          else Inr (status', s)))"

definition remove_partial :: "node_status \<Rightarrow> (node_status \<times> node_status) result" where
  "remove_partial s =
     (if \<not> enable_partial s then Inr (s, s)
      else bindE (node_status_of (dev_num s) None False) (\<lambda>new.
        case valid_state s of (ok_state, s1) \<Rightarrow>
        bindE (valid_all s1) (\<lambda>(ok_order, s2).
        if \<not> ok_state then Inr (s2, new)
        else bindE (combine_state s2 [([-2], -1)]) (\<lambda>l.
             bindE (set_layout l new) (\<lambda>new1.
             if \<not> ok_order then Inr (s2, new1)
             else bindE (combine_order s2 [([-2], -1)]) (\<lambda>os.
                  bindE (set_order (Some os) new1) (\<lambda>new2. Inr (s2, new2))))))))"

section \<open>Comparisons\<close>

definition partial_agrees :: "int option \<Rightarrow> int option \<Rightarrow> bool" where
  "partial_agrees a b \<longleftrightarrow> a = b \<or> {a, b} = {Some 1, None}"

definition value_equal :: "node_status \<Rightarrow> layout \<Rightarrow> int list \<Rightarrow> bool" where
  "value_equal s l os =
     (case l of (st, d, p) \<Rightarrow>
        opt_dict_eq (state s) st \<and> duplicate s = d \<and> partial_agrees (partial s) p \<and> order s = Some os)"

definition both_valid :: "node_status \<Rightarrow> node_status \<Rightarrow> (node_status \<times> node_status) result" where
  "both_valid s other =
     bindE (valid_all s) (\<lambda>(ok, s'). assertE ok
       (bindE (valid_all other) (\<lambda>(ok', other'). assertE ok' (Inr (s', other')))))"

definition status_eq :: "node_status \<Rightarrow> node_status \<Rightarrow> bool result" where
  "status_eq s other =
     bindE (both_valid s other) (\<lambda>(a, b).
       Inr (enable_partial a = enable_partial b \<and> opt_dict_eq (state a) (state b) \<and>
            duplicate a = duplicate b \<and> (\<not> enable_partial a \<or> partial a = partial b) \<and>
            order a = order b))"

definition effect_equal :: "node_status \<Rightarrow> node_status option \<Rightarrow> bool result" where
  "effect_equal s arg =
     (case arg of
        None \<Rightarrow> Inr False
      | Some other \<Rightarrow>
          bindE (both_valid s other) (\<lambda>(a, b).
            Inr (opt_dict_eq (state a) (state b) \<and> duplicate a = duplicate b \<and>
                 partial_agrees (partial a) (partial b) \<and> order a = order b)))"

definition check_combine :: "node_status \<Rightarrow> node_status \<Rightarrow> src2dst list \<Rightarrow> bool result" where
  "check_combine s other sds =
     bindE (combine_state s sds) (\<lambda>l. bindE (combine_order s sds) (\<lambda>os. Inr (value_equal other l os)))"

definition check_reduce_dim :: "node_status \<Rightarrow> node_status \<Rightarrow> int \<Rightarrow> bool result" where
  "check_reduce_dim s other dim =
     bindE (reduce_state s dim) (\<lambda>l. bindE (reduce_order s dim) (\<lambda>os. Inr (value_equal other l os)))"

definition guarded :: "node_status \<Rightarrow> int \<Rightarrow> bool result \<Rightarrow> bool result" where
  "guarded s dim rest =
     bindE (get_dim_int s dim) (\<lambda>n. if 1 < n then rest else Inr False)"

definition check_allreduce :: "node_status \<Rightarrow> node_status \<Rightarrow> bool result" where
  "check_allreduce s other = guarded s (-2) (check_combine s other [([-2], -1)])"

definition check_allgather :: "node_status \<Rightarrow> node_status \<Rightarrow> bool result" where
  "check_allgather s other = guarded s 0 (check_combine s other [([0], -1)])"

definition check_reducescatter :: "node_status \<Rightarrow> node_status \<Rightarrow> bool result" where
  "check_reducescatter s other = guarded s (-2) (check_combine s other [([-2], 0)])"

definition check_broadcast :: "node_status \<Rightarrow> node_status \<Rightarrow> bool result" where
  "check_broadcast s other = guarded other (-1) (check_reduce_dim other s (-1))"

definition check_reduce :: "node_status \<Rightarrow> node_status \<Rightarrow> bool result" where
  "check_reduce s other = guarded s (-2) (check_reduce_dim s other (-2))"

section \<open>The devices along one dimension\<close>

definition unit_item :: "ctx_unit \<Rightarrow> int \<Rightarrow> ctx result" where
  "unit_item u i = (case u of One c \<Rightarrow> Inl TypeError | Tup cs \<Rightarrow> py_nth cs i)"

fun dims_product :: "node_status \<Rightarrow> int list \<Rightarrow> int result" where
  "dims_product s [] = Inr 1"
| "dims_product s (o' # os) =
     bindE (get_dim_int s o') (\<lambda>n. bindE (dims_product s os) (\<lambda>m. Inr (n * m)))"

text \<open>\<open>range(start, stop, step)\<close> for a positive step.\<close>

definition range_step :: "int \<Rightarrow> int \<Rightarrow> int \<Rightarrow> int list" where
  "range_step start stop step =
     map (\<lambda>i. start + int i * step) [0..<nat ((stop - start + step - 1) div step)]"

text \<open>
  With a group to reduce on and a dimension that is not split, the source returns a variable it
  never assigned: \<open>RuntimeError\<close> stands for the \<open>UnboundLocalError\<close>.

  The positions of the peers of \<open>mp_index\<close> along \<open>dim\<close>, with the two intervals.\<close>

definition peer_positions :: "node_status \<Rightarrow> int \<Rightarrow> int \<Rightarrow> (int list \<times> int) result" where
  "peer_positions s dim mp =
     (case order s of
        None \<Rightarrow> Inl TypeError
      | Some os \<Rightarrow>
          bindE (dims_product s (tl (dropWhile (\<lambda>k. k \<noteq> dim) os))) (\<lambda>interval.
          bindE (get_dim_int s dim) (\<lambda>n.
            let macro_interval = interval * n in
            if macro_interval = 0 \<or> interval = 0 then Inl ZeroDivisionError
            else (let start = mp - mp mod macro_interval + mp mod interval
                  in Inr (range_step start (start + macro_interval) interval, macro_interval)))))"

definition get_devices_by_dim ::
  "node_status \<Rightarrow> device_group \<Rightarrow> int \<Rightarrow> int \<Rightarrow> int \<Rightarrow> device_group option \<Rightarrow>
   (ctx list option \<times> ctx option) result" where
  "get_devices_by_dim s context dim dp mp rdc_ctx =
     (case order s of
        None \<Rightarrow> Inl TypeError
      | Some os \<Rightarrow>
          if dim \<notin> set os
          then (if rdc_ctx = None then Inr (None, None) else Inl RuntimeError)
          else
            bindE (peer_positions s dim mp) (\<lambda>(inds, macro_interval).
            bindE (py_nth (workers context) dp) (\<lambda>worker.
            bindE (mapE (unit_item worker) inds) (\<lambda>devices.
            let res = (if length devices \<le> 1 then None else Some devices) in
            case rdc_ctx of
              None \<Rightarrow> Inr (res, None)
            | Some rdc \<Rightarrow>
                bindE (py_nth (workers rdc) dp) (\<lambda>rdc_worker.
                case rdc_worker of
                  One c \<Rightarrow> assertE (mp div macro_interval = 0) (Inr (res, Some c))
                | Tup cs \<Rightarrow> bindE (py_nth cs (mp div macro_interval)) (\<lambda>c. Inr (res, Some c)))))))"

end
