(* ===== verification/LayoutAlgebra.thy ===== *)
theory LayoutAlgebra imports NodeStatus begin

text \<open>
  The algebra of layouts of \<open>NodeStatus\<close>: combining, exchanging and dropping dimensions keeps
  the number of devices that a layout occupies, removing a dimension renumbers the later ones,
  and what the checks of the source do not rule out.
\<close>

section \<open>Products over dictionaries\<close>

lemma num_parts_simps [simp]:
  "num_parts [] = 1" "num_parts ((k, v) # d) = v * num_parts d" "num_parts (d @ e) = num_parts d * num_parts e"
  by (simp_all add: num_parts_def)

lemma num_parts_update_new: "\<not> has_key d k \<Longrightarrow> num_parts (AList.update k v d) = num_parts d * v"
  by (simp add: update_absent)

lemma num_parts_delete:
  "distinct (map fst d) \<Longrightarrow> dict_get d k 1 * num_parts (AList.delete k d) = num_parts d"
proof (induction d)
  case (Cons p d)
  obtain a b where p: "p = (a, b)" by (cases p)
  show ?case
  proof (cases "a = k")
    case True
    with Cons.prems p have "\<not> has_key d k" by (auto simp: image_iff)
    then have "AList.delete k d = d" by (simp add: delete_notin_dom)
    with True p show ?thesis by (simp add: dict_get_def)
  next
    case False
    with Cons p show ?thesis by (simp add: dict_get_def mult.left_commute)
  qed
qed simp

lemma update_delete_mset:
  "distinct (map fst d) \<Longrightarrow> num_parts (AList.update k v d) = v * num_parts (AList.delete k d)"
proof (induction d)
  case (Cons p d)
  obtain a b where p: "p = (a, b)" by (cases p)
  show ?case
  proof (cases "a = k")
    case True
    with Cons.prems p have "\<not> has_key d k" by (auto simp: image_iff)
    then have "AList.delete k d = d" by (simp add: delete_notin_dom)
    with True p show ?thesis by simp
  next
    case False
    with Cons p show ?thesis by (simp add: mult.left_commute)
  qed
qed simp

lemma num_parts_scale:
  assumes "distinct (map fst d)"
  shows "num_parts (AList.update k (dict_get d k 1 * v) d) = num_parts d * v"
  using num_parts_delete [OF assms, of k] update_delete_mset [OF assms, of k]
  by (simp add: mult.assoc mult.left_commute mult.commute)

section \<open>Renumbering\<close>

definition shift_step :: "int \<Rightarrow> int \<Rightarrow> parts \<Rightarrow> parts" where
  "shift_step s k d =
     (if s < k then AList.update (k - 1) (dict_get d k 0) (AList.delete k d) else d)"

lemma shift_keys_fold: "shift_keys s d = fold (shift_step s) (sort (map fst d)) d"
  unfolding shift_keys_def by (rule arg_cong [where f = "\<lambda>f. fold f _ _"]) (simp add: fun_eq_iff shift_step_def)

lemma keys_delete: "fst ` set (AList.delete k d) = fst ` set d - {k}"
  by (metis delete_keys set_map set_removeAll)

lemma map_of_has_key: "has_key d k \<Longrightarrow> map_of d k = Some (dict_get d k v)"
  by (auto simp: dict_get_def has_key_iff)

lemma shift_step_facts:
  assumes "distinct (map fst d)" and "has_key d k" and "s < k" and "\<not> has_key d (k - 1)"
  shows "distinct (map fst (shift_step s k d))"
    and "num_parts (shift_step s k d) = num_parts d"
    and "map_of (shift_step s k d) x =
           (if x = k - 1 then map_of d k else if x = k then None else map_of d x)"
    and "fst ` set (shift_step s k d) = insert (k - 1) (fst ` set d - {k})"
proof -
  let ?v = "dict_get d k 0"
  have v: "?v = dict_get d k 1" "map_of d k = Some ?v"
    using map_of_has_key [OF assms(2), of 0] map_of_has_key [OF assms(2), of 1] by simp_all
  have nk: "\<not> has_key (AList.delete k d) (k - 1)" using assms(4) by (simp add: keys_delete)
  show "distinct (map fst (shift_step s k d))"
    using assms(1,3) by (simp add: shift_step_def distinct_update distinct_delete)
  have "num_parts (AList.update (k - 1) ?v (AList.delete k d)) = num_parts (AList.delete k d) * ?v"
    by (rule num_parts_update_new [OF nk])
  also have "\<dots> = num_parts d"
    using num_parts_delete [OF assms(1), of k] v(1) by (simp add: mult.commute)
  finally show "num_parts (shift_step s k d) = num_parts d" using assms(3) by (simp add: shift_step_def)
  show "map_of (shift_step s k d) x =
           (if x = k - 1 then map_of d k else if x = k then None else map_of d x)"
    using assms(3) v(2) by (simp add: shift_step_def update_conv' delete_conv')
  show "fst ` set (shift_step s k d) = insert (k - 1) (fst ` set d - {k})"
    using assms(3) by (auto simp: shift_step_def dom_update keys_delete)
qed

lemma shift_fold:
  assumes "sorted ks" and "distinct ks" and "set ks \<subseteq> fst ` set d" and "distinct (map fst d)"
    and "s \<notin> set ks"
    and "\<forall>x \<in> fst ` set d - set ks. \<forall>k \<in> set ks. s < k \<longrightarrow> x < k - 1"
  shows "distinct (map fst (fold (shift_step s) ks d)) \<and>
     num_parts (fold (shift_step s) ks d) = num_parts d \<and>
     map_of (fold (shift_step s) ks d) x =
       (if s \<le> x \<and> x + 1 \<in> set ks then map_of d (x + 1)
        else if s < x \<and> x \<in> set ks then None else map_of d x)"
  using assms
proof (induction ks arbitrary: d)
  case (Cons k ks)
  have ks: "sorted ks" "distinct ks" "s \<notin> set ks" "\<forall>k' \<in> set ks. k < k'" "s \<noteq> k" "has_key d k"
    using Cons.prems(1,2,3,5) by (auto simp: less_le)
  show ?case
  proof (cases "s < k")
    case False
    then have [simp]: "shift_step s k d = d" by (simp add: shift_step_def)
    have "distinct (map fst (fold (shift_step s) ks d)) \<and>
       num_parts (fold (shift_step s) ks d) = num_parts d \<and>
       map_of (fold (shift_step s) ks d) x =
         (if s \<le> x \<and> x + 1 \<in> set ks then map_of d (x + 1)
          else if s < x \<and> x \<in> set ks then None else map_of d x)"
    proof (rule Cons.IH [OF ks(1,2) _ Cons.prems(4) ks(3)])
      show "set ks \<subseteq> fst ` set d" using Cons.prems(3) by simp
      show "\<forall>x \<in> fst ` set d - set ks. \<forall>k \<in> set ks. s < k \<longrightarrow> x < k - 1"
        using Cons.prems(6) ks(4,5) False by force
    qed
    then show ?thesis using False by auto
  next
    case True
    let ?d = "shift_step s k d"
    have "\<not> has_key d (k - 1)"
    proof
      assume "has_key d (k - 1)"
      moreover have "k - 1 \<notin> set (k # ks)" using ks(4) by force
      ultimately show False using Cons.prems(6) True by force
    qed
    note f = shift_step_facts [OF Cons.prems(4) ks(6) True this]
    have "distinct (map fst (fold (shift_step s) ks ?d)) \<and>
       num_parts (fold (shift_step s) ks ?d) = num_parts ?d \<and>
       map_of (fold (shift_step s) ks ?d) x =
         (if s \<le> x \<and> x + 1 \<in> set ks then map_of ?d (x + 1)
          else if s < x \<and> x \<in> set ks then None else map_of ?d x)"
    proof (rule Cons.IH [OF ks(1,2) _ f(1) ks(3)])
      show "set ks \<subseteq> fst ` set ?d" using Cons.prems(3) ks(4) f(4) by force
      show "\<forall>x \<in> fst ` set ?d - set ks. \<forall>k \<in> set ks. s < k \<longrightarrow> x < k - 1"
        using Cons.prems(6) ks(4) f(4) True by auto
    qed
    moreover have "x + 1 \<in> set ks \<Longrightarrow> x + 1 \<noteq> k - 1 \<and> x + 1 \<noteq> k" using ks(4) by force
    moreover have "x \<in> set ks \<Longrightarrow> x \<noteq> k - 1" using ks(4) by force
    moreover have "x + 1 = k \<Longrightarrow> x \<notin> set ks \<and> x + 1 \<notin> set ks" using ks(4) by force
    ultimately show ?thesis
      using f(2,3) True ks(4) by (auto simp: f(3))
  qed
qed simp

lemma shift_keys_facts:
  assumes "distinct (map fst d)" and "\<not> has_key d s"
  shows "distinct (map fst (shift_keys s d))" and "num_parts (shift_keys s d) = num_parts d"
    and "map_of (shift_keys s d) x = (if s \<le> x then map_of d (x + 1) else map_of d x)"
proof -
  let ?ks = "sort (map fst d)"
  have k: "set ?ks = fst ` set d" by simp
  have "distinct (map fst (fold (shift_step s) ?ks d)) \<and>
     num_parts (fold (shift_step s) ?ks d) = num_parts d \<and>
     map_of (fold (shift_step s) ?ks d) x =
       (if s \<le> x \<and> x + 1 \<in> set ?ks then map_of d (x + 1)
        else if s < x \<and> x \<in> set ?ks then None else map_of d x)"
    using assms by (intro shift_fold) simp_all
  then show "distinct (map fst (shift_keys s d))" and "num_parts (shift_keys s d) = num_parts d"
    and "map_of (shift_keys s d) x = (if s \<le> x then map_of d (x + 1) else map_of d x)"
    using assms(2) unfolding shift_keys_fold k
    by (auto simp: map_of_eq_None_iff [THEN iffD2] less_le split: if_splits)
qed

section \<open>Combining dimensions\<close>

definition layout_size :: "layout \<Rightarrow> int" where
  "layout_size l =
     (case l of (st, d, p) \<Rightarrow>
        num_parts (case st of None \<Rightarrow> [] | Some x \<Rightarrow> x) * (case d of None \<Rightarrow> 1 | Some x \<Rightarrow> x)
          * (case p of None \<Rightarrow> 1 | Some x \<Rightarrow> x))"

definition layout_ok :: "layout \<Rightarrow> bool" where
  "layout_ok l =
     (case l of (st, d, p) \<Rightarrow> d \<noteq> None \<and> (case st of None \<Rightarrow> False | Some x \<Rightarrow> distinct (map fst x)))"

lemma layout_okE:
  assumes "layout_ok l" obtains d n p where "l = (Some d, Some n, p)" and "distinct (map fst d)"
  using assms by (cases l) (auto simp: layout_ok_def split: option.splits)

lemma combine_src_size:
  assumes "layout_ok l" and "combine_src dst (l, v) s = Inr (l', v')"
  shows "layout_ok l' \<and> layout_size l' * v' = layout_size l * v"
proof -
  obtain d n p where l: "l = (Some d, Some n, p)" "distinct (map fst d)"
    using assms(1) by (rule layout_okE)
  show ?thesis
  proof (cases "s = -1 \<or> s = -2")
    case True
    then show ?thesis
      using assms(2) l
      by (auto simp: assertE_Inr_iff layout_ok_def layout_size_def split: option.splits)
  next
    case False
    have d': "distinct (map fst (AList.delete s d))" "\<not> has_key (AList.delete s d) s"
      using l(2) by (simp_all add: distinct_delete keys_delete)
    note f = shift_keys_facts [OF d']
    have "v' = v * dict_get d s 1" "l' = (Some (shift_keys s (AList.delete s d)), Some n, p)"
      using False assms(2) l(1) by (auto simp: assertE_Inr_iff)
    then show ?thesis
      using f(1,2) num_parts_delete [OF l(2), of s] l(1)
      by (simp add: layout_ok_def layout_size_def mult.commute mult.left_commute)
  qed
qed

lemma combine_srcs_size:
  assumes "layout_ok l" and "foldE (combine_src dst) (l, v) src = Inr (l', v')"
  shows "layout_ok l' \<and> layout_size l' * v' = layout_size l * v"
  using assms
proof (induction src arbitrary: l v)
  case (Cons s src)
  then obtain l1 v1 where st: "combine_src dst (l, v) s = Inr (l1, v1)"
    and rest: "foldE (combine_src dst) (l1, v1) src = Inr (l', v')"
    by (auto simp: bindE_Inr_iff)
  from combine_src_size [OF Cons.prems(1) st] Cons.IH [OF _ rest] show ?case by simp
qed simp

lemma combine_dst_size:
  assumes "layout_ok l" and "combine_dst src dst (l, v) = Inr l'"
  shows "layout_ok l' \<and> layout_size l' = layout_size l * v"
proof -
  obtain d n p where l: "l = (Some d, Some n, p)" "distinct (map fst d)"
    using assms(1) by (rule layout_okE)
  show ?thesis
  proof (cases "dst = -1 \<or> dst = -2")
    case True
    then show ?thesis
      using assms(2) l
      by (auto simp: combine_dst_def layout_ok_def layout_size_def split: option.splits)
  next
    case False
    let ?k = "shift_dst src dst"
    let ?d = "AList.update ?k (if has_key d ?k then dict_get d ?k 1 * v else v) d"
    have "l' = (Some ?d, Some n, p)"
      using False assms(2) l(1) by (simp add: combine_dst_def Let_def)
    moreover have "num_parts ?d = num_parts d * v"
      using num_parts_scale [OF l(2), of ?k v] num_parts_update_new [where d = d and k = ?k] by simp
    ultimately show ?thesis
      using l by (simp add: layout_ok_def layout_size_def distinct_update)
  qed
qed

lemma combine_pair_size:
  assumes "layout_ok l" and "combine_pair l sd = Inr l'"
  shows "layout_ok l' \<and> layout_size l' = layout_size l"
proof -
  obtain l1 v where "foldE (combine_src (snd sd)) (l, 1) (fst sd) = Inr (l1, v)"
    and "combine_dst (fst sd) (snd sd) (l1, v) = Inr l'"
    using assms(2) by (auto simp: combine_pair_def bindE_Inr_iff)
  with combine_srcs_size [OF assms(1)] combine_dst_size show ?thesis by fastforce
qed

lemma combine_size:
  assumes "layout_ok l" and "static_combine_state l sds = Inr l'"
  shows "layout_ok l' \<and> layout_size l' = layout_size l"
  using assms
proof (induction sds arbitrary: l)
  case (Cons sd sds)
  then obtain l1 where l1: "combine_pair l sd = Inr l1" "static_combine_state l1 sds = Inr l'"
    by (auto simp: static_combine_state_def bindE_Inr_iff)
  from combine_pair_size [OF Cons.prems(1) l1(1)] Cons.IH [OF _ l1(2)] show ?case by simp
qed (simp add: static_combine_state_def)

section \<open>What a layout assigns to a dimension\<close>

definition layout_dim :: "layout \<Rightarrow> int \<Rightarrow> int option" where
  "layout_dim l ind =
     (case l of (st, d, p) \<Rightarrow>
        if ind = -1 then d else if ind = -2 then p else map_option (\<lambda>x. dict_get x ind 1) st)"

definition positive_layout :: "layout \<Rightarrow> bool" where
  "positive_layout l =
     (case l of (st, d, p) \<Rightarrow>
        (case st of None \<Rightarrow> False | Some x \<Rightarrow> distinct (map fst x) \<and> list_all (\<lambda>v. 1 \<le> v) (map snd x)) \<and>
        (case d of None \<Rightarrow> False | Some n \<Rightarrow> 1 \<le> n) \<and> (case p of None \<Rightarrow> True | Some n \<Rightarrow> 1 \<le> n))"

lemma positive_layoutE:
  assumes "positive_layout l"
  obtains d n p where "l = (Some d, Some n, p)" and "distinct (map fst d)"
    and "\<And>k. 1 \<le> dict_get d k 1" and "1 \<le> n" and "p \<noteq> None \<Longrightarrow> 1 \<le> the p"
proof -
  from assms obtain d n p where l: "l = (Some d, Some n, p)" "distinct (map fst d)"
      "list_all (\<lambda>v. 1 \<le> v) (map snd d)" "1 \<le> n" "p \<noteq> None \<Longrightarrow> 1 \<le> the p"
    by (cases l) (auto simp: positive_layout_def split: option.splits)
  have "1 \<le> dict_get d k 1" for k
    using l(3) by (auto simp: dict_get_def list_all_iff dest!: map_of_SomeD split: option.splits)
  with l that show ?thesis by blast
qed

lemma dict_get_delete: "dict_get (AList.delete k d) x v = (if x = k then v else dict_get d x v)"
  by (simp add: dict_get_def delete_conv')

lemma state_put_get:
  assumes "1 \<le> n"
  shows "\<exists>e. state_put (Some (AList.delete k d)) k (Some n) = Inr (Some e) \<and>
     (\<forall>x. dict_get e x 1 = (if x = k then n else dict_get d x 1))"
  using assms by (auto simp: state_put_def dict_get_delete)

lemma dict_get_shift_keys:
  "distinct (map fst d) \<Longrightarrow> \<not> has_key d s \<Longrightarrow>
     dict_get (shift_keys s d) x v = dict_get d (if s \<le> x then x + 1 else x) v"
  by (simp add: dict_get_def shift_keys_facts)

section \<open>Properties\<close>

text \<open>C36: Combining dimensions never changes the number of devices a layout occupies: the product of
  the parts, the duplicates and the partial sums is the same before and after every sequence
  of combinations that succeeds.\<close>

theorem combine_keeps_device_count:
  assumes "state s = Some d" and "distinct (map fst d)" and "duplicate s = Some n"
    and "combine_state s sds = Inr l"
  shows "layout_size l = num_parts d * n * (case partial s of None \<Rightarrow> 1 | Some p \<Rightarrow> p)"
  using combine_size [of "layout_of s" sds l] assms
  by (simp add: combine_state_def layout_of_def layout_ok_def layout_size_def)

definition sample_status :: node_status where
  "sample_status = \<lparr>dev_num = 24, enable_partial = True, state = Some [(0, 2), (1, 3)],
     duplicate = Some 2, partial = Some 2, order = Some [0, -1, 1, -2],
     valid_state_flag = True, valid_all_flag = False\<rparr>"

theorem combine_keeps_device_count_witness:
  "\<exists>l. combine_state sample_status [([0, -2], -1), ([1], 0)] = Inr l \<and> layout_size l = 24"
proof -
  have "case combine_state sample_status [([0, -2], -1), ([1], 0)] of Inl e \<Rightarrow> False | Inr l \<Rightarrow> True"
    by code_simp
  then have "\<exists>l. combine_state sample_status [([0, -2], -1), ([1], 0)] = Inr l"
    by (rule result_ok)
  with combine_keeps_device_count [of sample_status "[(0, 2), (1, 3)]" 2 "[([0, -2], -1), ([1], 0)]"]
  show ?thesis by (auto simp: sample_status_def)
qed

text \<open>Combining tensor dimension \<open>i\<close> into dimension \<open>j\<close> removes dimension \<open>i\<close>: the dimensions
  before it keep their parts, the later ones move down by one, and the target (moved down
  itself when it lies behind \<open>i\<close>) gains the parts of \<open>i\<close> as a factor.\<close>

theorem combine_renumbers_dimensions:
  assumes "state s = Some d" and "distinct (map fst d)" and "0 \<le> i" and "0 \<le> j" and "i \<noteq> j"
  shows "\<exists>e. combine_state s [([i], j)] = Inr (Some e, duplicate s, partial s) \<and>
     (\<forall>k. dict_get e k 1 =
        dict_get d (if i \<le> k then k + 1 else k) 1
          * (if k = (if i < j then j - 1 else j) then dict_get d i 1 else 1))"
proof -
  let ?d = "shift_keys i (AList.delete i d)" and ?j = "if i < j then j - 1 else j"
  have "distinct (map fst (AList.delete i d))" "\<not> has_key (AList.delete i d) i"
    using assms(2) by (simp_all add: distinct_delete keys_delete)
  note get = dict_get_shift_keys [OF this]
  let ?e = "AList.update ?j (if has_key ?d ?j then dict_get ?d ?j 1 * dict_get d i 1 else dict_get d i 1) ?d"
  have "combine_state s [([i], j)] = Inr (Some ?e, duplicate s, partial s)"
    using assms
    by (simp add: combine_state_def static_combine_state_def combine_pair_def combine_dst_def
        shift_dst_def layout_of_def Let_def)
  moreover have "dict_get ?d ?j 1 = 1" if "\<not> has_key ?d ?j"
    using that by (rule dict_get_absent)
  ultimately show ?thesis by (auto simp: get dict_get_delete)
qed

theorem combine_renumbers_dimensions_witness:
  "\<exists>e. combine_state sample_status [([0], 1)] =
         Inr (Some e, duplicate sample_status, partial sample_status) \<and>
     (\<forall>k. dict_get e k 1 =
        dict_get [(0, 2), (1, 3)] (if 0 \<le> k then k + 1 else k) 1
          * (if k = (if (0::int) < 1 then 1 - 1 else 1) then dict_get [(0, 2), (1, 3)] (0::int) 1 else 1))"
  by (rule combine_renumbers_dimensions) (simp_all add: sample_status_def)

text \<open>\<open>exchange_state\<close> swaps the parts of two different dimensions (tensor dimensions, the
  duplicate or the partial) and leaves every other dimension as it is, when the number of
  partial sums is known.\<close>

theorem exchange_swaps_dimensions:
  assumes "positive_layout (layout_of s)" and "partial s = Some q" and "a \<noteq> b"
  shows "\<exists>l. exchange_state s a b = Inr l \<and>
     (\<forall>k. layout_dim l k =
        layout_dim (layout_of s) (if k = a then b else if k = b then a else k))"
proof -
  from assms(1) obtain d n p where l: "layout_of s = (Some d, Some n, p)" "\<And>k. 1 \<le> dict_get d k 1"
      "1 \<le> n" "p \<noteq> None \<Longrightarrow> 1 \<le> the p"
    by (elim positive_layoutE) blast
  moreover from l(1) assms(2) have "p = Some q" by (simp add: layout_of_def)
  ultimately have s: "state s = Some d" "duplicate s = Some n" "partial s = Some q" "1 \<le> q"
    by (simp_all add: layout_of_def)
  consider (neg) "a \<in> {-1, -2}" "b \<in> {-1, -2}" | (left) "a \<in> {-1, -2}" "b \<notin> {-1, -2}"
    | (right) "a \<notin> {-1, -2}" "b \<in> {-1, -2}" | (pos) "a \<notin> {-1, -2}" "b \<notin> {-1, -2}" by blast
  then show ?thesis
  proof cases
    case neg
    then show ?thesis
      using s assms(3) by (auto simp: exchange_state_def layout_dim_def layout_of_def)
  next
    case left
    have "1 \<le> (if a = -1 then n else q)" using l(3) s(4) by simp
    from state_put_get [OF this, of b d] obtain e where
      "state_put (Some (AList.delete b d)) b (Some (if a = -1 then n else q)) = Inr (Some e)"
      "\<forall>x. dict_get e x 1 = (if x = b then (if a = -1 then n else q) else dict_get d x 1)"
      by blast
    with left show ?thesis
      using s assms(3)
      by (auto simp: exchange_state_def layout_dim_def layout_of_def state_pop_def)
  next
    case right
    have "1 \<le> (if b = -1 then n else q)" using l(3) s(4) by simp
    from state_put_get [OF this, of a d] obtain e where
      "state_put (Some (AList.delete a d)) a (Some (if b = -1 then n else q)) = Inr (Some e)"
      "\<forall>x. dict_get e x 1 = (if x = a then (if b = -1 then n else q) else dict_get d x 1)"
      by blast
    with right show ?thesis
      using s assms(3)
      by (auto simp: exchange_state_def layout_dim_def layout_of_def state_pop_def)
  next
    case pos
    let ?d = "AList.delete a d"
    obtain e where e: "state_put (Some (AList.delete b ?d)) b (Some (dict_get d a 1)) = Inr (Some e)"
      "\<forall>x. dict_get e x 1 = (if x = b then dict_get d a 1 else dict_get ?d x 1)"
      using state_put_get [OF l(2)] by blast
    have "state_put (Some e) a (Some (dict_get d b 1)) =
        Inr (Some (if 1 < dict_get d b 1 then AList.update a (dict_get d b 1) e else e))"
      by (simp add: state_put_def)
    moreover have "\<not> 1 < dict_get d b 1 \<Longrightarrow> dict_get d b 1 = 1" using l(2) [of b] by simp
    ultimately show ?thesis
      using pos s assms(3) e
      by (auto simp: exchange_state_def layout_dim_def layout_of_def state_pop_def dict_get_delete)
  qed
qed

theorem exchange_swaps_dimensions_witness:
  "\<exists>l. exchange_state sample_status 0 (-1) = Inr l \<and>
     (\<forall>k. layout_dim l k =
        layout_dim (layout_of sample_status) (if k = 0 then -1 else if k = -1 then 0 else k))"
  by (rule exchange_swaps_dimensions [where q = 2])
     (simp_all add: sample_status_def layout_of_def positive_layout_def)

text \<open>When the number of partial sums is not known, exchanging the duplicates with the partial
  sums depends on the order of the two arguments: \<open>(-2, -1)\<close> moves the duplicates,
  \<open>(-1, -2)\<close> loses them. Exchanging the duplicates with themselves loses them too.\<close>

theorem exchange_loses_duplicates:
  assumes "state s = Some d" and "duplicate s = Some n" and "partial s = None"
  shows "exchange_state s (-2) (-1) = Inr (Some d, Some 1, Some n) \<and>
         exchange_state s (-1) (-2) = Inr (Some d, Some 1, None) \<and>
         exchange_state s (-1) (-1) = Inr (Some d, Some 1, None)"
  using assms by (simp add: exchange_state_def)

theorem exchange_loses_duplicates_witness:
  "exchange_state (sample_status\<lparr>partial := None\<rparr>) (-1) (-2) = Inr (Some [(0, 2), (1, 3)], Some 1, None)"
  using exchange_loses_duplicates [of "sample_status\<lparr>partial := None\<rparr>" "[(0, 2), (1, 3)]" 2]
  by (simp add: sample_status_def)

text \<open>A status without partial sums that is created for \<open>n\<close> devices, is given a number of
  duplicates or none, and then its split, either fails or accounts for exactly \<open>n\<close> devices,
  with the duplicates it was given.\<close>

theorem layout_counts_its_devices:
  assumes "node_status_of n None False = Inr s0" and "set_duplicate dup s0 = Inr s1"
    and "set_state (Some a) None None s1 = Inr s2"
  shows "valid_state_flag s2 \<and> state s2 = Some (norm_state a) \<and>
     (case duplicate s2 of None \<Rightarrow> False | Some q \<Rightarrow> num_parts (norm_state a) * q = n) \<and>
     (dup \<noteq> None \<longrightarrow> duplicate s2 = dup)"
proof (cases "n = 1")
  case True
  then have s0: "s0 = \<lparr>dev_num = 1, enable_partial = False, state = Some [], duplicate = Some 1,
        partial = None, order = Some [], valid_state_flag = True, valid_all_flag = True\<rparr>"
    using assms(1) by (simp add: node_status_of_def try_get_duplicate_def set_one_def)
  then have s1: "s1 = s0 \<and> (dup = None \<or> dup = Some 1)"
    using assms(2) by (auto simp: set_duplicate_def assertE_Inr_iff Let_def split: option.splits)
  then have "s2 = s0 \<and> norm_state a = []"
    using assms(3) s0
    by (auto simp: set_state_def try_get_duplicate_def assertE_Inr_iff Let_def bindE_Inr_iff)
  then show ?thesis using s0 s1 True by auto
next
  case False
  then have s0: "s0 = \<lparr>dev_num = n, enable_partial = False, state = None, duplicate = None,
        partial = None, order = None, valid_state_flag = False, valid_all_flag = False\<rparr>"
    using assms(1) by (simp add: node_status_of_def try_get_duplicate_def)
  then have s1: "s1 = s0\<lparr>duplicate := dup\<rparr>"
    using assms(2) by (auto simp: set_duplicate_def assertE_Inr_iff Let_def split: option.splits)
  show ?thesis
    using assms(3) s0 s1
    by (auto simp: set_state_def try_get_duplicate_def try_set_duplicate_def floordiv_def
        assertE_Inr_iff Let_def bindE_Inr_iff split: option.splits if_splits)
qed

theorem layout_counts_its_devices_witness:
  "case bindE (node_status_of 12 None False) (\<lambda>s0. bindE (set_duplicate (Some 2) s0)
           (set_state (Some (TupleState [2, 1, 3])) None None)) of
     Inl e \<Rightarrow> False
   | Inr s2 \<Rightarrow> valid_state_flag s2 \<and> state s2 = Some (norm_state (TupleState [2, 1, 3])) \<and>
       (case duplicate s2 of None \<Rightarrow> False | Some q \<Rightarrow> num_parts (norm_state (TupleState [2, 1, 3])) * q = 12) \<and>
       duplicate s2 = Some 2"
proof -
  have "case bindE (node_status_of 12 None False) (\<lambda>s0. bindE (set_duplicate (Some 2) s0)
           (set_state (Some (TupleState [2, 1, 3])) None None)) of Inl e \<Rightarrow> False | Inr s2 \<Rightarrow> True"
    by code_simp
  then obtain s0 s1 s2 where st: "node_status_of 12 None False = Inr s0"
      "set_duplicate (Some 2) s0 = Inr s1" "set_state (Some (TupleState [2, 1, 3])) None None s1 = Inr s2"
    by (auto simp: bindE_def split: sum.splits)
  from layout_counts_its_devices [OF st] show ?thesis by (auto simp: st split: option.splits)
qed

text \<open>The number of partial sums is not checked against the number of devices: four devices
  accept three partial sums, and the deduced layout then accounts for three devices. A split
  given together with its duplicates is not checked at all.\<close>

theorem partial_is_not_checked:
  "(case bindE (node_status_of 4 (Some (TupleState [])) True) (set_partial (Some 3)) of
      Inl e \<Rightarrow> False
    | Inr s \<Rightarrow> fst (valid_state s) \<and> dev_num s = 4 \<and> layout_size (layout_of s) = 3) \<and>
   (case bindE (node_status_of 4 None False) (set_state (Some (TupleState [2])) (Some 5) None) of
      Inl e \<Rightarrow> False
    | Inr s \<Rightarrow> fst (valid_state s) \<and> dev_num s = 4 \<and> layout_size (layout_of s) = 10)"
  by code_simp

end
