(* ===== verification/DeviceIndex.thy ===== *)
theory DeviceIndex imports LayoutAlgebra begin

text \<open>
  Device numbers as mixed-radix numbers: \<open>map_dev_to_index\<close> and \<open>get_loop_sizes\<close> of
  \<open>NodeStatus\<close> convert between the number of a device and its index in every loop of the
  order, and \<open>get_devices_by_dim\<close> collects the devices that differ along one dimension only,
  which are the members of one communication group.
\<close>

section \<open>Mixed radix\<close>

fun radix :: "int list \<Rightarrow> int \<Rightarrow> int list" where
  "radix [] g = []"
| "radix (n # ns) g = (g div prod_list ns) mod n # radix ns g"

fun radix_value :: "int list \<Rightarrow> int list \<Rightarrow> int" where
  "radix_value (n # ns) (x # xs) = x * prod_list ns + radix_value ns xs"
| "radix_value _ _ = 0"

definition all_pos :: "int list \<Rightarrow> bool" where
  "all_pos ns \<longleftrightarrow> (\<forall>n \<in> set ns. 0 < n)"

lemma all_pos_simps [simp]: "all_pos []" "all_pos (n # ns) \<longleftrightarrow> 0 < n \<and> all_pos ns"
  "all_pos (ms @ ns) \<longleftrightarrow> all_pos ms \<and> all_pos ns" "all_pos (rev ns) = all_pos ns"
  by (auto simp: all_pos_def)

lemma all_pos_prod: "all_pos ns \<Longrightarrow> 0 < prod_list ns"
  by (induction ns) auto

lemma length_radix [simp]: "length (radix ns g) = length ns"
  by (induction ns) auto

lemma radix_value_radix: "all_pos ns \<Longrightarrow> radix_value ns (radix ns g) = g mod prod_list ns"
proof (induction ns)
  case (Cons n ns)
  have pos: "0 < n" "0 < prod_list ns" using Cons.prems all_pos_prod by simp_all
  have "g mod (prod_list ns * n) = prod_list ns * (g div prod_list ns mod n) + g mod prod_list ns"
    using pos by (simp add: zmod_zmult2_eq)
  with Cons show ?case by (simp add: mult.commute)
qed simp

lemma radix_nth_bounds:
  "all_pos ns \<Longrightarrow> i < length ns \<Longrightarrow> 0 \<le> radix ns g ! i \<and> radix ns g ! i < ns ! i"
  by (induction ns arbitrary: i) (auto simp: nth_Cons split: nat.splits)

lemma radix_inj:
  assumes "all_pos ns" and "radix ns g = radix ns h"
  shows "g mod prod_list ns = h mod prod_list ns"
  using radix_value_radix [OF assms(1), of g] radix_value_radix [OF assms(1), of h] assms(2) by simp

lemma radix_append:
  "all_pos ms \<Longrightarrow> all_pos ns \<Longrightarrow> radix (ms @ ns) g = radix ms (g div prod_list ns) @ radix ns g"
proof (induction ms)
  case (Cons m ms)
  have "0 < prod_list ns" "0 < prod_list ms" using Cons.prems all_pos_prod by simp_all
  then have "g div (prod_list ns * prod_list ms) = g div prod_list ns div prod_list ms"
    by (intro zdiv_zmult2_eq) simp
  with Cons show ?case by (simp add: mult.commute)
qed simp

lemma radix_mod: "all_pos ns \<Longrightarrow> radix ns (g mod prod_list ns) = radix ns g"
proof (induction ns arbitrary: g)
  case (Cons n ns)
  have pos: "0 < n" "0 < prod_list ns" using Cons.prems all_pos_prod by simp_all
  have "g mod (prod_list ns * n) = prod_list ns * (g div prod_list ns mod n) + g mod prod_list ns"
    using pos by (intro zmod_zmult2_eq) simp
  then have "g mod (n * prod_list ns) div prod_list ns = g div prod_list ns mod n"
    using pos by (simp add: mult.commute)
  moreover have "radix ns (g mod (n * prod_list ns)) = radix ns g"
    using Cons.IH [of "g mod (n * prod_list ns)"] Cons.IH [of g] Cons.prems
    by (simp add: mod_mod_cancel)
  ultimately show ?case by simp
qed simp

section \<open>The loops of \<open>NodeStatus\<close>\<close>

definition dims_of :: "node_status \<Rightarrow> int list \<Rightarrow> int list result" where
  "dims_of s os = mapE (get_dim_int s) os"

text \<open>Every loop of the order has a known, positive size, and no loop occurs twice.\<close>

definition laid_out :: "node_status \<Rightarrow> int list \<Rightarrow> int list \<Rightarrow> bool" where
  "laid_out s os ds \<longleftrightarrow> order s = Some os \<and> distinct os \<and> dims_of s os = Inr ds \<and> all_pos ds"

lemma mapE_append: "mapE f (xs @ ys) = bindE (mapE f xs) (\<lambda>as. bindE (mapE f ys) (\<lambda>bs. Inr (as @ bs)))"
  by (induction xs) (auto simp: bindE_def split: sum.splits)

lemma dims_of_length: "dims_of s os = Inr ds \<Longrightarrow> length ds = length os"
  by (auto simp: dims_of_def mapE_Inr_iff list_all2_lengthD)

lemma dims_of_nth: "dims_of s os = Inr ds \<Longrightarrow> i < length os \<Longrightarrow> get_dim_int s (os ! i) = Inr (ds ! i)"
  by (auto simp: dims_of_def mapE_Inr_iff list_all2_conv_all_nth)

lemma map_dev_loop_eq:
  assumes "dims_of s os = Inr ds" and "all_pos ds" and "distinct os" and "set os \<inter> fst ` set acc = {}"
  shows "map_dev_loop s True (rev os) g acc = Inr (acc @ zip (rev os) (rev (radix ds g)))"
  using assms
proof (induction os arbitrary: ds g acc rule: rev_induct)
  case (snoc cur os)
  obtain ds' n where ds: "ds = ds' @ [n]" "dims_of s os = Inr ds'" "get_dim_int s cur = Inr n"
    using snoc.prems(1) by (auto simp: dims_of_def mapE_append bindE_Inr_iff)
  have n: "0 < n" "all_pos ds'" using snoc.prems(2) ds(1) by simp_all
  have upd: "AList.update cur (g mod n) acc = acc @ [(cur, g mod n)]"
    using snoc.prems(4) by (intro update_absent) simp
  have "map_dev_loop s True (rev os) (g div n) (acc @ [(cur, g mod n)]) =
      Inr ((acc @ [(cur, g mod n)]) @ zip (rev os) (rev (radix ds' (g div n))))"
    using snoc.prems(3,4) ds(2) n(2) by (intro snoc.IH) auto
  moreover have "radix ds g = radix ds' (g div n) @ [g mod n]"
    using n by (simp add: ds(1) radix_append)
  ultimately show ?case using ds(3) n(1) upd by (simp add: floordiv_def)
qed simp

lemma map_dev_to_index_eq:
  assumes "laid_out s os ds"
  shows "map_dev_to_index s g True = Inr (zip (rev os) (rev (radix ds g)))"
  using assms map_dev_loop_eq [of s os ds "[]" g]
  by (simp add: laid_out_def map_dev_to_index_def)

lemma map_of_rev_zip:
  assumes "distinct os" and "length xs = length os" and "i < length os"
  shows "map_of (zip (rev os) (rev xs)) (os ! i) = Some (xs ! i)"
proof -
  have "(os ! i, xs ! i) \<in> set (zip os xs)"
    using assms(2,3) by (metis length_zip min.idem nth_mem nth_zip)
  then have "(os ! i, xs ! i) \<in> set (zip (rev os) (rev xs))"
    using assms(2) by (simp add: zip_rev)
  then show ?thesis using assms(1,2) by (intro map_of_is_SomeI) simp_all
qed

text \<open>The loop sizes are the products of the inner sizes.\<close>

fun suffix_products :: "int list \<Rightarrow> int list" where
  "suffix_products [] = [1]"
| "suffix_products (n # ns) = n * hd (suffix_products ns) # suffix_products ns"

lemma suffix_products_hd [simp]: "hd (suffix_products ns) = prod_list ns"
  by (induction ns) auto

lemma suffix_products_ne [simp]: "suffix_products ns \<noteq> []"
  by (cases ns) auto

lemma length_suffix_products [simp]: "length (suffix_products ns) = Suc (length ns)"
  by (induction ns) auto

lemma loop_sizes_fold:
  assumes "dims_of s os = Inr ds"
  shows "foldE (loop_sizes_step s) [1] (rev os) = Inr (suffix_products ds)"
  using assms
proof (induction os arbitrary: ds)
  case (Cons cur os)
  then obtain n ds' where ds: "ds = n # ds'" "get_dim_int s cur = Inr n" "dims_of s os = Inr ds'"
    by (auto simp: dims_of_def bindE_Inr_iff)
  obtain h t where ht: "suffix_products ds' = h # t" by (cases "suffix_products ds'") auto
  with Cons.IH [OF ds(3)] ds(1,2) show ?case
    by (simp add: foldE_append py_nth_def mult.commute)
qed (simp add: dims_of_def)

lemma get_loop_sizes_eq:
  "laid_out s os ds \<Longrightarrow> get_loop_sizes s = Inr (tl (suffix_products ds))"
  by (simp add: laid_out_def get_loop_sizes_def loop_sizes_fold)

lemma radix_value_sum:
  "length xs = length ns \<Longrightarrow>
     radix_value ns xs = sum_list (map2 (*) xs (tl (suffix_products ns)))"
proof (induction ns arbitrary: xs)
  case (Cons n ns)
  then obtain x ys where xs: "xs = x # ys" "length ys = length ns" by (cases xs) auto
  obtain h t where ht: "suffix_products ns = h # t" by (cases "suffix_products ns") auto
  then have "h = prod_list ns" using suffix_products_hd [of ns] by simp
  with Cons.IH [OF xs(2)] ht xs(1) show ?case by simp
qed simp

section \<open>Peers\<close>

lemma mult_right_less_imp_less_pos: "a * c < b * (c::int) \<Longrightarrow> 0 < c \<Longrightarrow> a < b"
  by (simp add: mult_less_cancel_right)

lemma range_step_count:
  assumes "0 < I" and "0 < n"
  shows "range_step a (a + I * n) I = map (\<lambda>i. a + int i * I) [0..<nat n]"
proof -
  have "(a + I * n - a + I - 1) div I = (I * n + (I - 1)) div I" by (simp add: algebra_simps)
  also have "\<dots> = n + (I - 1) div I" using assms(1) by simp
  also have "\<dots> = n" using assms(1) by simp
  finally show ?thesis by (simp add: range_step_def)
qed

lemma peers_arith:
  assumes "0 < I" and "0 < (n::int)"
  shows "p \<in> set (map (\<lambda>i. mp - mp mod (I * n) + mp mod I + int i * I) [0..<nat n]) \<longleftrightarrow>
     p div (I * n) = mp div (I * n) \<and> p mod I = mp mod I"
proof
  assume "p \<in> set (map (\<lambda>i. mp - mp mod (I * n) + mp mod I + int i * I) [0..<nat n])"
  then obtain i where i: "i < nat n" and "p = mp - mp mod (I * n) + mp mod I + int i * I" by auto
  then have p: "p = (mp mod I + int i * I) + (I * n) * (mp div (I * n))"
    by (simp add: minus_mod_eq_mult_div algebra_simps)
  have r: "0 \<le> mp mod I" "mp mod I < I" using assms(1) by simp_all
  have "mp mod I + int i * I < I + int i * I" using r by simp
  also have "\<dots> = I * (int i + 1)" by (simp add: algebra_simps)
  also have "\<dots> \<le> I * n" using i assms by (intro mult_left_mono) auto
  finally have "(mp mod I + int i * I) div (I * n) = 0"
    using r(1) assms by (intro div_pos_pos_trivial) auto
  then have "p div (I * n) = mp div (I * n)" using assms unfolding p by simp
  moreover have "p mod I = (mp mod I + I * (int i + n * (mp div (I * n)))) mod I"
    unfolding p by (simp add: algebra_simps)
  then have "p mod I = mp mod I" by simp
  ultimately show "p div (I * n) = mp div (I * n) \<and> p mod I = mp mod I" ..
next
  assume *: "p div (I * n) = mp div (I * n) \<and> p mod I = mp mod I"
  have "p = (I * n) * (p div (I * n)) + p mod (I * n)" by simp
  also have "p mod (I * n) = I * (p div I mod n) + p mod I"
    using assms by (intro zmod_zmult2_eq) simp
  finally have "p = (I * n) * (mp div (I * n)) + (I * (p div I mod n) + mp mod I)" using * by simp
  then have "p = mp - mp mod (I * n) + mp mod I + int (nat (p div I mod n)) * I"
    using assms by (simp add: minus_mod_eq_mult_div mult.commute)
  moreover have "nat (p div I mod n) < nat n" using assms by (simp add: nat_less_eq_zless)
  ultimately show "p \<in> set (map (\<lambda>i. mp - mp mod (I * n) + mp mod I + int i * I) [0..<nat n])"
    by (simp only: set_map set_upt) (rule image_eqI, assumption, simp)
qed

text \<open>Cutting the order at the dimension.\<close>

lemma laid_out_split:
  assumes "laid_out s os ds" and "dim \<in> set os"
  obtains as bs xs n ys where "os = as @ dim # bs" and "dim \<notin> set as" and "dim \<notin> set bs"
    and "ds = xs @ n # ys" and "length xs = length as" and "get_dim_int s dim = Inr n"
    and "dims_of s bs = Inr ys" and "0 < n" and "all_pos xs" and "all_pos ys"
proof -
  from split_list_first [OF assms(2)] obtain as bs where os: "os = as @ dim # bs" "dim \<notin> set as" by blast
  obtain xs n ys where "dims_of s as = Inr xs" "get_dim_int s dim = Inr n" "dims_of s bs = Inr ys"
      "ds = xs @ n # ys"
    using assms(1) os(1) by (auto simp: laid_out_def dims_of_def mapE_append bindE_Inr_iff)
  with os that [of as bs xs n ys] assms(1) show ?thesis
    by (simp add: laid_out_def dims_of_length)
qed

lemma dims_product_eq: "dims_of s os = Inr ds \<Longrightarrow> dims_product s os = Inr (prod_list ds)"
  by (induction os arbitrary: ds) (auto simp: dims_of_def bindE_Inr_iff)

lemma peer_positions_eq:
  assumes "laid_out s os ds" and "os = as @ dim # bs" and "dim \<notin> set as"
    and "get_dim_int s dim = Inr n" and "dims_of s bs = Inr ys" and "0 < n" and "all_pos ys"
  shows "peer_positions s dim mp =
     Inr (map (\<lambda>i. mp - mp mod (prod_list ys * n) + mp mod prod_list ys + int i * prod_list ys)
            [0..<nat n], prod_list ys * n)"
proof -
  have "dropWhile (\<lambda>k. k \<noteq> dim) (as @ dim # bs) = dropWhile (\<lambda>k. k \<noteq> dim) (dim # bs)"
    using assms(3) by (intro dropWhile_append2) auto
  then have "tl (dropWhile (\<lambda>k. k \<noteq> dim) os) = bs" by (simp add: assms(2))
  moreover have "0 < prod_list ys" using assms(7) by (rule all_pos_prod)
  ultimately show ?thesis
    using assms range_step_count [OF \<open>0 < prod_list ys\<close> assms(6)]
    by (simp add: peer_positions_def laid_out_def dims_product_eq Let_def)
qed

section \<open>Properties\<close>

definition loop_index :: "node_status \<Rightarrow> int \<Rightarrow> int \<Rightarrow> int option" where
  "loop_index s g k = (case map_dev_to_index s g True of Inl e \<Rightarrow> None | Inr d \<Rightarrow> map_of d k)"

lemma loop_index_nth:
  assumes "laid_out s os ds" and "i < length os"
  shows "loop_index s g (os ! i) = Some (radix ds g ! i)"
proof -
  have "distinct os" "length ds = length os"
    using assms(1) dims_of_length by (auto simp: laid_out_def)
  with map_of_rev_zip [of os "radix ds g" i] assms(2) show ?thesis
    by (simp add: loop_index_def map_dev_to_index_eq [OF assms(1)])
qed

text \<open>On a layout whose loops have known positive sizes, the index that \<open>map_dev_to_index\<close>
  gives a device in each loop lies within that loop, and the indices weighted with the loop
  sizes of \<open>get_loop_sizes\<close> add up to the device number again: the numbering of the devices
  by their indices is a bijection.\<close>

theorem device_index_roundtrip:
  assumes "laid_out s os ds" and "0 \<le> g" and "g < prod_list ds"
  shows "\<exists>idx sizes. map_dev_to_index s g True = Inr idx \<and> get_loop_sizes s = Inr sizes \<and>
     length sizes = length os \<and>
     (\<forall>i<length os. 0 \<le> dict_get idx (os ! i) 0 \<and> dict_get idx (os ! i) 0 < ds ! i) \<and>
     (\<Sum>i<length os. dict_get idx (os ! i) 0 * sizes ! i) = g"
proof -
  let ?x = "radix ds g" and ?sz = "tl (suffix_products ds)"
  let ?idx = "zip (rev os) (rev ?x)"
  have len: "length ds = length os" and d: "distinct os" and pos: "all_pos ds"
    using assms(1) dims_of_length by (auto simp: laid_out_def)
  have sz: "length ?sz = length os"
    using len by simp
  have get: "dict_get ?idx (os ! i) 0 = ?x ! i" if "i < length os" for i
    using that d len map_of_rev_zip [of os ?x i] by (simp add: dict_get_def)
  have "g = radix_value ds ?x"
    using radix_value_radix [OF pos, of g] assms(2,3) by simp
  also have "\<dots> = (\<Sum>i<length os. ?x ! i * ?sz ! i)"
    using radix_value_sum [of ?x ds] len sz by (simp add: sum_list_sum_nth atLeast0LessThan)
  also have "\<dots> = (\<Sum>i<length os. dict_get ?idx (os ! i) 0 * ?sz ! i)"
    by (intro sum.cong) (simp_all add: get)
  finally show ?thesis
    using map_dev_to_index_eq [OF assms(1)] get_loop_sizes_eq [OF assms(1)] sz get
      radix_nth_bounds [OF pos] len
    by (intro exI [of _ ?idx] exI [of _ ?sz]) simp
qed

lemma sample_laid_out: "laid_out sample_status [0, -1, 1, -2] [2, 2, 3, 2]"
  by (simp add: laid_out_def dims_of_def sample_status_def get_dim_int_def get_dim_def dict_get_def)

theorem device_index_roundtrip_witness:
  "\<exists>idx sizes. map_dev_to_index sample_status 17 True = Inr idx \<and>
     get_loop_sizes sample_status = Inr sizes \<and> length sizes = length [0, -1, 1, -2 :: int] \<and>
     (\<forall>i<length [0, -1, 1, -2 :: int]. 0 \<le> dict_get idx ([0, -1, 1, -2] ! i) 0 \<and>
        dict_get idx ([0, -1, 1, -2] ! i) 0 < [2, 2, 3, 2] ! i) \<and>
     (\<Sum>i<length [0, -1, 1, -2 :: int]. dict_get idx ([0, -1, 1, -2] ! i) 0 * sizes ! i) = 17"
  by (rule device_index_roundtrip [OF sample_laid_out]) simp_all

lemma quotient_in_range:
  assumes "0 < (w::int)" and "0 \<le> q" and "q < N * w"
  shows "q div w mod N = q div w"
proof -
  have "q div w * w \<le> q"
    using assms(1) by (metis add.commute div_mult_mod_eq le_add_same_cancel2 pos_mod_sign)
  with assms(3) have "q div w * w < N * w" by simp
  with assms(1) have "q div w < N" by (rule mult_right_less_imp_less_pos [rotated])
  moreover have "0 \<le> q div w" using assms(1,2) by (simp add: pos_imp_zdiv_nonneg_iff)
  ultimately show ?thesis by simp
qed

text \<open>Two devices agree on all loops but one when the digits before and after it agree.\<close>

lemma loops_agree:
  assumes "laid_out s os ds" and "os = as @ dim # bs" and "dim \<notin> set as" and "dim \<notin> set bs"
    and "length xs = length as" and "length bs = length ys"
    and "radix ds p = radix xs a @ b # radix ys p" and "radix ds q = radix xs a' @ b' # radix ys q"
  shows "(\<forall>k \<in> set os. k \<noteq> dim \<longrightarrow> loop_index s p k = loop_index s q k) \<longleftrightarrow>
    radix xs a = radix xs a' \<and> radix ys p = radix ys q"
proof -
  have at: "loop_index s r (os ! i) = Some (radix ds r ! i)" if "i < length os" for i r
    using loop_index_nth [OF assms(1) that] .
  have as_i: "loop_index s p (as ! i) = Some (radix xs a ! i)" "loop_index s q (as ! i) = Some (radix xs a' ! i)"
    if "i < length as" for i
    using at [of i] that assms(2,5) by (simp_all add: assms(7,8) nth_append)
  have bs_i: "loop_index s p (bs ! i) = Some (radix ys p ! i)" "loop_index s q (bs ! i) = Some (radix ys q ! i)"
    if "i < length bs" for i
    using at [of "Suc (length as + i)"] that assms(2,5) by (simp_all add: assms(7,8) nth_append)
  have "(\<forall>k \<in> set os. k \<noteq> dim \<longrightarrow> loop_index s p k = loop_index s q k) \<longleftrightarrow>
      (\<forall>i<length as. loop_index s p (as ! i) = loop_index s q (as ! i)) \<and>
      (\<forall>i<length bs. loop_index s p (bs ! i) = loop_index s q (bs ! i))"
    unfolding assms(2) using assms(3,4) by (fastforce simp: in_set_conv_nth)
  then show ?thesis
    using assms(5,6) by (auto simp: as_i bs_i list_eq_iff_nth_eq)
qed

text \<open>C10: The positions that \<open>get_devices_by_dim\<close> collects for a device and a split dimension are
  exactly the devices whose index agrees with that device's in every other loop, each once, as
  many as the dimension has parts, and the device itself is among them. So every member of a
  communication group computes the same group.\<close>

theorem communication_group_is_a_fibre:
  assumes "laid_out s os ds" and "dim \<in> set os" and "0 \<le> mp" and "mp < prod_list ds"
  shows "\<exists>ps macro n. peer_positions s dim mp = Inr (ps, macro) \<and>
     get_dim_int s dim = Inr n \<and> length ps = nat n \<and> distinct ps \<and> mp \<in> set ps \<and>
     (\<forall>p. 0 \<le> p \<and> p < prod_list ds \<longrightarrow>
        (p \<in> set ps \<longleftrightarrow> (\<forall>k \<in> set os. k \<noteq> dim \<longrightarrow> loop_index s p k = loop_index s mp k)))"
proof -
  obtain as bs xs n ys where c: "os = as @ dim # bs" "dim \<notin> set as" "dim \<notin> set bs"
      "ds = xs @ n # ys" "length xs = length as" "get_dim_int s dim = Inr n"
      "dims_of s bs = Inr ys" "0 < n" "all_pos xs" "all_pos ys"
    using laid_out_split [OF assms(1,2)] by blast
  let ?I = "prod_list ys"
  let ?ps = "map (\<lambda>i. mp - mp mod (?I * n) + mp mod ?I + int i * ?I) [0..<nat n]"
  have I: "0 < ?I" using c(10) by (rule all_pos_prod)
  note mem = peers_arith [OF I c(8)]
  have rad: "radix ds p = radix xs (p div (?I * n)) @ (p div ?I) mod n # radix ys p" for p
    using c(8,9,10) by (simp add: c(4) radix_append mult.commute)
  have fibre: "(\<forall>k \<in> set os. k \<noteq> dim \<longrightarrow> loop_index s p k = loop_index s mp k) \<longleftrightarrow>
      radix xs (p div (?I * n)) = radix xs (mp div (?I * n)) \<and> radix ys p = radix ys mp" for p
    by (rule loops_agree [OF assms(1) c(1,2,3,5) dims_of_length [OF c(7), symmetric] rad rad])
  have xs_eq: "radix xs (p div (?I * n)) = radix xs (mp div (?I * n)) \<longleftrightarrow> p div (?I * n) = mp div (?I * n)"
    if "0 \<le> p" and "p < prod_list ds" for p
  proof -
    have "q div (?I * n) mod prod_list xs = q div (?I * n)" if "0 \<le> q" "q < prod_list ds" for q
      using that I c(8) by (intro quotient_in_range) (simp_all add: c(4) mult.commute)
    with that assms(3,4) radix_inj [OF c(9)] show ?thesis by metis
  qed
  have ys_eq: "radix ys p = radix ys mp \<longleftrightarrow> p mod ?I = mp mod ?I" for p
    using radix_inj [OF c(10)] radix_mod [OF c(10)] by metis
  have "distinct ?ps" using I by (simp add: distinct_map inj_on_def)
  moreover have "mp \<in> set ?ps" by (simp only: mem simp_thms)
  moreover have "\<forall>p. 0 \<le> p \<and> p < prod_list ds \<longrightarrow>
        (p \<in> set ?ps \<longleftrightarrow> (\<forall>k \<in> set os. k \<noteq> dim \<longrightarrow> loop_index s p k = loop_index s mp k))"
    unfolding mem fibre ys_eq using xs_eq by blast
  ultimately show ?thesis
    using peer_positions_eq [OF assms(1) c(1,2,6,7,8,10), of mp] c(6)
    by (intro exI [of _ ?ps] exI [of _ "?I * n"] exI [of _ n]) simp
qed

theorem communication_group_is_a_fibre_witness:
  "\<exists>ps macro n. peer_positions sample_status 1 7 = Inr (ps, macro) \<and>
     get_dim_int sample_status 1 = Inr n \<and> length ps = nat n \<and> distinct ps \<and> 7 \<in> set ps \<and>
     (\<forall>p. 0 \<le> p \<and> p < prod_list [2, 2, 3, 2] \<longrightarrow>
        (p \<in> set ps \<longleftrightarrow> (\<forall>k \<in> set [0, -1, 1, -2]. k \<noteq> 1 \<longrightarrow>
            loop_index sample_status p k = loop_index sample_status 7 k)))"
  by (rule communication_group_is_a_fibre [OF sample_laid_out]) simp_all

end
