(* ===== verification/ShapeMoves.thy ===== *)
theory ShapeMoves imports Prelude begin

text \<open>
  Shape inference of the operators of \<open>hetu/v1/python/hetu/gpu_ops\<close> that cut, join, pad,
  permute, repeat, reshape, reduce or broadcast their input: the method \<open>infer_shape\<close> of each
  class, with the attributes it reads as arguments and the attributes it writes (the shape
  and position that the gradient operator needs, the buffers handed to the GPU kernels) as
  further results.

  A shape is the list of its dimensions. An assertion on the number of inputs is a pattern.
\<close>

type_synonym shape = "int list"

section \<open>Shared loops\<close>

definition shape_size :: "shape \<Rightarrow> int" where
  "shape_size s = prod_list s"

text \<open>The strides that several classes compute from the last dimension to the first.\<close>

fun row_strides :: "shape \<Rightarrow> int list" where
  "row_strides [] = []"
| "row_strides (n # ns) = prod_list ns # row_strides ns"

text \<open>\<open>a[i] = v\<close> on a list, with Python's index rules.\<close>

definition py_update :: "'a list \<Rightarrow> int \<Rightarrow> 'a \<Rightarrow> 'a list result" where
  "py_update xs i v = bindE (py_nth xs i) (\<lambda>_.
     Inr (xs[(if 0 \<le> i then nat i else length xs - nat (- i)) := v]))"

section \<open>Slice and split\<close>

text \<open>
  \<open>slice_dims\<close> is the loop of \<open>SliceOp\<close>; \<open>gpu_slice_buffer\<close> the buffer of begin positions,
  input dimensions and output dimensions.
\<close>

definition gpu_slice_buffer :: "int list \<Rightarrow> shape \<Rightarrow> shape \<Rightarrow> int list" where
  "gpu_slice_buffer begin_pos ori_shape output_shape = begin_pos @ ori_shape @ output_shape"

fun slice_dims :: "int list \<Rightarrow> int list \<Rightarrow> shape \<Rightarrow> shape result" where
  "slice_dims (b # bs) (w # ws) (n # ns) =
     (let out = (if w = -1 then n - b else w) in
      assertE (0 < out) (assertE (b + out \<le> n)
        (bindE (slice_dims bs ws ns) (\<lambda>rest. Inr (out # rest)))))"
| "slice_dims bs ws [] = Inr []"
| "slice_dims bs ws (n # ns) = Inl IndexError"

definition SliceOp_init :: "int list \<Rightarrow> int list \<Rightarrow> unit result" where
  "SliceOp_init begin_pos output_shape =
     assertE (length begin_pos = length output_shape) (assertE (list_all (\<lambda>b. 0 \<le> b) begin_pos) (Inr ()))"

definition SliceOp_infer_shape :: "int list \<Rightarrow> int list \<Rightarrow> shape list \<Rightarrow> (shape \<times> shape \<times> int list) result" where
  "SliceOp_infer_shape begin_pos ori_output_shape shapes =
     (case shapes of
        [ori_shape] \<Rightarrow>
          assertE (length ori_shape = length begin_pos)
            (bindE (slice_dims begin_pos ori_output_shape ori_shape) (\<lambda>out.
               Inr (out, ori_shape, gpu_slice_buffer begin_pos ori_shape out)))
      | _ \<Rightarrow> Inl AssertionError)"

text \<open>The gradient operator got its output shape from the forward operator.\<close>

fun fits_within :: "int list \<Rightarrow> shape \<Rightarrow> shape \<Rightarrow> unit result" where
  "fits_within (b # bs) (n # ns) (m # ms) = assertE (b + n \<le> m) (fits_within bs ns ms)"
| "fits_within bs [] ms = Inr ()"
| "fits_within bs (n # ns) ms = Inl IndexError"

definition SliceGradientOp_infer_shape ::
  "int list \<Rightarrow> shape option \<Rightarrow> shape list \<Rightarrow> (shape \<times> int list) result" where
  "SliceGradientOp_infer_shape begin_pos output_shape shapes =
     (case (output_shape, shapes) of
        (Some out, [ori_shape]) \<Rightarrow>
          assertE (length ori_shape = length begin_pos)
            (bindE (fits_within begin_pos ori_shape out) (\<lambda>_.
               Inr (out, gpu_slice_buffer begin_pos ori_shape out)))
      | _ \<Rightarrow> Inl AssertionError)"

text \<open>\<open>SplitOp\<close>: one step per axis; the last part takes the rest of the division.\<close>

definition split_step :: "shape \<Rightarrow> int list \<times> shape \<Rightarrow> int \<times> int \<times> int \<Rightarrow> (int list \<times> shape) result" where
  "split_step ori_shape acc a =
     (case (acc, a) of ((begin_pos, out), (axe, ind, spl)) \<Rightarrow>
        bindE (py_nth ori_shape axe) (\<lambda>n.
        if spl = 0 then Inl ZeroDivisionError
        else
          let part_size = n div spl; b = ind * part_size in
          bindE (py_update begin_pos axe b) (\<lambda>begin_pos'.
          bindE (py_update out axe (if ind \<noteq> spl - 1 then part_size else n - b)) (\<lambda>out'.
            Inr (begin_pos', out')))))"

definition SplitOp_init :: "int list \<Rightarrow> int list \<Rightarrow> int list \<Rightarrow> unit result" where
  "SplitOp_init axes indices splits =
     assertE (length axes = length splits)
     (assertE (list_all (\<lambda>x. 0 \<le> x) axes)
     (assertE (list_all (\<lambda>x. 1 \<le> x) splits)
     (if length splits < length indices then Inl IndexError
      else assertE (list_all2 (\<lambda>x n. 0 \<le> x \<and> x < n) indices (take (length indices) splits)) (Inr ()))))"

definition SplitOp_infer_shape ::
  "int list \<Rightarrow> int list \<Rightarrow> int list \<Rightarrow> shape list \<Rightarrow> (shape \<times> int list \<times> int list) result" where
  "SplitOp_infer_shape axes indices splits shapes =
     (case shapes of
        [ori_shape] \<Rightarrow>
          bindE (foldE (split_step ori_shape) (replicate (length ori_shape) 0, ori_shape)
                   (zip axes (zip indices splits))) (\<lambda>(begin_pos, out).
            Inr (out, begin_pos, gpu_slice_buffer begin_pos ori_shape out))
      | _ \<Rightarrow> Inl AssertionError)"

definition SplitGradientOp_infer_shape ::
  "int list option \<Rightarrow> shape option \<Rightarrow> shape list \<Rightarrow> (shape \<times> int list) result" where
  "SplitGradientOp_infer_shape begin_pos output_shape shapes =
     (case (begin_pos, output_shape, shapes) of
        (Some bs, Some out, [ori_shape]) \<Rightarrow>
          bindE (fits_within bs ori_shape out) (\<lambda>_. Inr (out, gpu_slice_buffer bs ori_shape out))
      | _ \<Rightarrow> Inl AssertionError)"

text \<open>\<open>SliceAssignOp\<close> and \<open>SliceAssignMatrixOp\<close>: the end positions of the assigned region.\<close>

fun assign_ends :: "int list \<Rightarrow> int list \<Rightarrow> shape \<Rightarrow> int list result" where
  "assign_ends (b # bs) (w # ws) (n # ns) =
     (let e = (if w = -1 then n else b + w) in
      assertE (e \<le> n) (bindE (assign_ends bs ws ns) (\<lambda>es. Inr (e # es))))"
| "assign_ends bs ws [] = Inr []"
| "assign_ends bs ws (n # ns) = Inl IndexError"

definition SliceAssignOp_infer_shape ::
  "int list \<Rightarrow> int list \<Rightarrow> shape list \<Rightarrow> (shape \<times> int list) result" where
  "SliceAssignOp_infer_shape begin_pos output_shape shapes =
     (case shapes of
        [s] \<Rightarrow> bindE (assign_ends begin_pos output_shape s) (\<lambda>es. Inr (s, es))
      | _ \<Rightarrow> Inl AssertionError)"

definition SliceAssignMatrixOp_infer_shape ::
  "int list \<Rightarrow> int list \<Rightarrow> int list \<Rightarrow> int list \<Rightarrow> shape list \<Rightarrow> (shape \<times> int list \<times> int list) result" where
  "SliceAssignMatrixOp_infer_shape begin_A out_A begin_B out_B shapes =
     (case shapes of
        [a, b] \<Rightarrow>
          assertE (length a = length b)
            (bindE (assign_ends begin_A out_A a) (\<lambda>ea.
             bindE (assign_ends begin_B out_B b) (\<lambda>eb.
             assertE (list_all2 (=) (map2 (-) ea begin_A) (map2 (-) eb begin_B))
               (Inr (a, ea, eb)))))
      | _ \<Rightarrow> Inl AssertionError)"

section \<open>Padding\<close>

text \<open>Both loops run over the four dimensions of an image batch, whatever the input is.\<close>

definition pad_step :: "int \<Rightarrow> (int \<times> int) list \<Rightarrow> shape \<Rightarrow> nat \<Rightarrow> shape result" where
  "pad_step sign paddings out i =
     (let k = int i - (4 - int (length paddings)) in
      if 0 \<le> k then
        bindE (py_nth out (int i)) (\<lambda>n.
        bindE (py_nth paddings k) (\<lambda>(lo, hi).
          py_update out (int i) (n + sign * lo + sign * hi)))
      else Inr out)"

definition PadOp_infer_shape :: "(int \<times> int) list \<Rightarrow> shape list \<Rightarrow> shape result" where
  "PadOp_infer_shape paddings shapes =
     (case shapes of [s] \<Rightarrow> foldE (pad_step 1 paddings) s [0..<4] | _ \<Rightarrow> Inl AssertionError)"

definition Pad_GradientOp_infer_shape :: "(int \<times> int) list \<Rightarrow> shape list \<Rightarrow> shape result" where
  "Pad_GradientOp_infer_shape paddings shapes =
     (case shapes of [s] \<Rightarrow> foldE (pad_step (-1) paddings) s [0..<4] | _ \<Rightarrow> Inl AssertionError)"

section \<open>Concatenation\<close>

text \<open>
  \<open>ConcatenateOp\<close>: the result is the output shape, the axis (made non-negative) and the
  offsets that the gradient nodes of the inputs get.
\<close>

definition same_but :: "int \<Rightarrow> shape \<Rightarrow> shape \<Rightarrow> bool" where
  "same_but axis s t \<longleftrightarrow>
     length s = length t \<and> list_all (\<lambda>i. int i = axis \<or> s ! i = t ! i) [0..<length t]"

fun concat_loop :: "int \<Rightarrow> shape \<Rightarrow> int \<Rightarrow> shape list \<Rightarrow> (int list \<times> int) result" where
  "concat_loop axis out_shape out_dim [] = Inr ([], out_dim)"
| "concat_loop axis out_shape out_dim (s # ss) =
     assertE (same_but axis s out_shape)
       (bindE (py_nth s axis) (\<lambda>d.
        bindE (concat_loop axis out_shape (out_dim + d) ss) (\<lambda>(offsets, total).
          Inr (out_dim # offsets, total))))"

definition ConcatenateOp_infer_shape ::
  "nat \<Rightarrow> int \<Rightarrow> shape list \<Rightarrow> (shape \<times> int \<times> int list) result" where
  "ConcatenateOp_infer_shape n_inputs axis shapes =
     assertE (length shapes = n_inputs)
       (case shapes of
          [] \<Rightarrow> Inl IndexError
        | s # ss \<Rightarrow>
            if axis < 0 \<and> s = [] then Inl ZeroDivisionError
            else
              let ax = (if axis < 0 then axis mod int (length s) else axis) in
              bindE (py_nth s ax) (\<lambda>d.
              bindE (concat_loop ax s d ss) (\<lambda>(offsets, total).
              bindE (py_update s ax total) (\<lambda>out.
                Inr (out, ax, 0 # offsets)))))"

definition Concatenate_gradientOP_infer_shape :: "int option \<Rightarrow> shape list \<Rightarrow> shape result" where
  "Concatenate_gradientOP_infer_shape offset shapes =
     assertE (offset \<noteq> None) (case shapes of [g, s] \<Rightarrow> Inr s | _ \<Rightarrow> Inl AssertionError)"

text \<open>\<open>ConcatOp\<close>, the older form for two inputs.\<close>

definition ConcatOp_infer_shape :: "int \<Rightarrow> shape list \<Rightarrow> shape result" where
  "ConcatOp_infer_shape axis shapes =
     (case shapes of
        [a, b] \<Rightarrow>
          assertE (length a = length b)
            (bindE (mapE (\<lambda>i. bindE (py_nth a i) (\<lambda>x. bindE (py_nth b i) (\<lambda>y. assertE (x = y) (Inr ()))))
                      ([0..axis - 1] @ [axis + 1..int (length a) - 1])) (\<lambda>_.
             bindE (py_nth a axis) (\<lambda>x. bindE (py_nth b axis) (\<lambda>y. py_update a axis (x + y)))))
      | _ \<Rightarrow> Inl AssertionError)"

section \<open>Transposition\<close>

definition TransposeOp_infer_shape ::
  "nat list option \<Rightarrow> shape list \<Rightarrow> (shape \<times> nat list) result" where
  "TransposeOp_infer_shape perm shapes =
     (case shapes of
        [s] \<Rightarrow>
          (case perm of
             None \<Rightarrow> Inr (rev s, rev [0..<length s])
           | Some p \<Rightarrow>
               assertE (length p = length s \<and> set p = set [0..<length p])
                 (Inr (map (\<lambda>i. s ! (p ! i)) [0..<length s], p)))
      | _ \<Rightarrow> Inl AssertionError)"

text \<open>The buffer for the kernel: strides of the input, strides of the output, permutation.\<close>

definition transpose_buffer :: "shape \<Rightarrow> shape \<Rightarrow> nat list \<Rightarrow> int list" where
  "transpose_buffer ori_shape res_shape perm =
     row_strides ori_shape @ row_strides res_shape @ map int perm"

text \<open>The permutation that \<open>TransposeOp.gradient\<close> gives the gradient node.\<close>

definition grad_perm :: "nat list option \<Rightarrow> nat list option" where
  "grad_perm perm =
     (case perm of
        None \<Rightarrow> None
      | Some [] \<Rightarrow> None
      | Some p \<Rightarrow> Some (fold (\<lambda>i g. g[p ! i := i]) [0..<length p] (replicate (length p) 0)))"

end
