(* ===== verification/ShapeReduce.thy ===== *)
theory ShapeReduce imports ShapeMoves begin

text \<open>
  Shape inference of the operators that reduce, broadcast, tile, repeat or reshape, and of the
  triangle lookup, from \<open>hetu/v1/python/hetu/gpu_ops\<close>. A reduction tells its gradient node
  (a \<open>BroadcastShapeOp\<close>) the shape to restore and the axes to add.
\<close>

section \<open>Reductions\<close>

text \<open>Negative axes are made positive, every axis is checked.\<close>

fun norm_axes :: "nat \<Rightarrow> int list \<Rightarrow> int list result" where
  "norm_axes n [] = Inr []"
| "norm_axes n (a # as) =
     (let b = (if a < 0 then a + int n else a) in
      assertE (0 \<le> b \<and> b < int n) (bindE (norm_axes n as) (\<lambda>bs. Inr (b # bs))))"

text \<open>Reduced dimensions become 1 or, to be dropped below, 0; an empty shape becomes \<open>(1,)\<close>.\<close>

definition mark_axes :: "int list \<Rightarrow> bool list \<Rightarrow> shape \<Rightarrow> shape" where
  "mark_axes axes keepdims s =
     fold (\<lambda>(a, k) t. t[nat a := (if k then 1 else 0)]) (zip axes keepdims) s"

definition drop_marked :: "shape \<Rightarrow> shape" where
  "drop_marked s = (case filter (\<lambda>x. 0 < x) s of [] \<Rightarrow> [1] | t \<Rightarrow> t)"

definition reduce_shape :: "int list \<Rightarrow> bool list \<Rightarrow> shape \<Rightarrow> (int list \<times> shape) result" where
  "reduce_shape axes keepdims s =
     bindE (norm_axes (length s) axes) (\<lambda>as. Inr (as, drop_marked (mark_axes as keepdims s)))"

definition dropped_axes :: "int list \<Rightarrow> bool list \<Rightarrow> int list" where
  "dropped_axes axes keepdims = map fst (filter (\<lambda>(a, k). \<not> k) (zip axes keepdims))"

record reduce_result =
  red_shape :: shape
  red_axes :: "int list"
  red_naive_copy :: bool
  red_grad_target :: shape
  red_grad_add_axes :: "int list"

definition reduce_infer :: "int list option \<Rightarrow> bool list option \<Rightarrow> shape list \<Rightarrow> reduce_result result" where
  "reduce_infer axes keepdims shapes =
     (case (axes, keepdims, shapes) of
        (Some as, Some ks, [s]) \<Rightarrow>
          bindE (reduce_shape as ks s) (\<lambda>(as', t).
            Inr \<lparr>red_shape = t, red_axes = as', red_naive_copy = (shape_size s = shape_size t),
                 red_grad_target = s, red_grad_add_axes = dropped_axes as' ks\<rparr>)
      | _ \<Rightarrow> Inl AssertionError)"

definition ReduceSumOp_infer_shape where "ReduceSumOp_infer_shape = reduce_infer"
definition ReduceMulOp_infer_shape where "ReduceMulOp_infer_shape = reduce_infer"
definition ReduceNorm1Op_infer_shape where "ReduceNorm1Op_infer_shape = reduce_infer"
definition ReduceNorm2Op_infer_shape where "ReduceNorm2Op_infer_shape = reduce_infer"

text \<open>
  \<open>ReduceMinOp\<close> marks the dimensions in the loop that checks the axes; it has no gradient.
\<close>

definition ReduceMinOp_infer_shape ::
  "int list option \<Rightarrow> bool list option \<Rightarrow> shape list \<Rightarrow> (shape \<times> bool) result" where
  "ReduceMinOp_infer_shape axes keepdims shapes =
     bindE (reduce_infer axes keepdims shapes) (\<lambda>r. Inr (red_shape r, red_naive_copy r))"

text \<open>
  \<open>ReduceMeanOp\<close> multiplies the sizes of the reduced dimensions as it marks them, so a
  dimension that is listed twice counts with its mark the second time. The gradient is scaled
  by the reciprocal.
\<close>

fun mean_loop :: "shape \<Rightarrow> int \<Rightarrow> (int \<times> bool) list \<Rightarrow> int" where
  "mean_loop s m [] = m"
| "mean_loop s m ((a, k) # aks) =
     mean_loop (s[nat a := (if k then 1 else 0)]) (m * s ! nat a) aks"

definition ReduceMeanOp_infer_shape ::
  "bool \<Rightarrow> int list option \<Rightarrow> bool list option \<Rightarrow> shape list \<Rightarrow> (reduce_result \<times> int) result" where
  "ReduceMeanOp_infer_shape has_grad axes keepdims shapes =
     bindE (reduce_infer axes keepdims shapes) (\<lambda>r.
       let mult = mean_loop (red_grad_target r) 1 (zip (red_axes r) (case keepdims of None \<Rightarrow> [] | Some ks \<Rightarrow> ks))
       in if has_grad \<and> mult = 0 then Inl ZeroDivisionError else Inr (r, mult))"

definition ReduceSumAxisZeroOp_infer_shape :: "shape list \<Rightarrow> shape result" where
  "ReduceSumAxisZeroOp_infer_shape shapes =
     (case shapes of [s] \<Rightarrow> Inr (if length s = 1 then [1] else drop 1 s) | _ \<Rightarrow> Inl AssertionError)"

section \<open>Broadcasts\<close>

text \<open>
  The loop that compares the padded input with the output: the axes that are broadcast along,
  with \<open>keepdims\<close> for those the input has.
\<close>

fun broadcast_loop :: "nat \<Rightarrow> nat \<Rightarrow> shape \<Rightarrow> shape \<Rightarrow> (nat list) result" where
  "broadcast_loop i diff (a # as) (b # bs) =
     assertE (0 < b) (assertE (a = 1 \<or> a = b)
       (bindE (broadcast_loop (Suc i) diff as bs) (\<lambda>rest.
          Inr (if diff \<le> i \<and> a = 1 \<and> 1 < b then i # rest else rest))))"
| "broadcast_loop i diff as bs = Inr []"

definition broadcast_axes :: "shape \<Rightarrow> shape \<Rightarrow> (nat list \<times> bool list) result" where
  "broadcast_axes s out =
     assertE (length s \<le> length out)
       (let diff = length out - length s in
        bindE (broadcast_loop 0 diff (replicate diff 1 @ s) out) (\<lambda>kept.
          Inr ([0..<diff] @ kept, replicate diff False @ replicate (length kept) True)))"

record broadcast_result =
  bc_shape :: shape
  bc_grad_axes :: "int list"
  bc_grad_keepdims :: "bool list"
  bc_out_strides :: "int list"
  bc_in_dims :: "int list"

definition BroadcastToOp_infer_shape :: "shape list \<Rightarrow> broadcast_result result" where
  "BroadcastToOp_infer_shape shapes =
     (case shapes of
        [s, out] \<Rightarrow>
          bindE (broadcast_axes s out) (\<lambda>(axes, keepdims).
            Inr \<lparr>bc_shape = out, bc_grad_axes = map int axes, bc_grad_keepdims = keepdims,
                 bc_out_strides = row_strides out,
                 bc_in_dims = replicate (length out - length s) 1 @ s\<rparr>)
      | _ \<Rightarrow> Inl AssertionError)"

text \<open>
  \<open>BroadcastShapeOp\<close> with axes to add: the other output dimensions are the input's in order.
\<close>

fun match_other_axes :: "nat \<Rightarrow> int list \<Rightarrow> shape \<Rightarrow> shape \<Rightarrow> unit result" where
  "match_other_axes i add_axes s [] = Inr ()"
| "match_other_axes i add_axes s (b # bs) =
     (if int i \<in> set add_axes then match_other_axes (Suc i) add_axes s bs
      else case s of
             [] \<Rightarrow> Inl IndexError
           | a # as \<Rightarrow> assertE (a = b) (match_other_axes (Suc i) add_axes as bs))"

definition fill_unknown :: "shape \<Rightarrow> shape \<Rightarrow> shape" where
  "fill_unknown s out = map2 (\<lambda>a b. if b = -1 then a else b) s out"

text \<open>Placing the input's dimensions between the added ones, which are marked with 1.\<close>

fun place_dims :: "shape \<Rightarrow> shape \<Rightarrow> shape" where
  "place_dims [] dims = []"
| "place_dims (d # ds) [] = d # ds"
| "place_dims (d # ds) (x # xs) = (if d = 1 then d # place_dims ds (x # xs) else x # place_dims ds xs)"

definition BroadcastShapeOp_infer_shape ::
  "shape option \<Rightarrow> int list option \<Rightarrow> shape list \<Rightarrow> broadcast_result result" where
  "BroadcastShapeOp_infer_shape target_shape add_axes shapes =
     (case (target_shape, add_axes, shapes) of
        (Some out, Some adds, [s]) \<Rightarrow>
          assertE (length s \<le> length out)
            (let diff = length out - length s in
             if adds \<noteq> [] then
               assertE (diff = length adds \<or> s = [1])
               (assertE (list_all (\<lambda>a. a < int (length out)) adds)
               (bindE (match_other_axes 0 adds s out) (\<lambda>_.
                  Inr \<lparr>bc_shape = out, bc_grad_axes = adds,
                       bc_grad_keepdims = replicate (length adds) False,
                       bc_out_strides = row_strides out,
                       bc_in_dims = place_dims (fold (\<lambda>a t. t[nat a := 1]) (take diff adds)
                                                  (replicate (length out) 0)) s\<rparr>)))
             else
               let padded = replicate diff 1 @ s; out' = fill_unknown padded out in
               bindE (broadcast_axes s out') (\<lambda>(axes, keepdims).
                 Inr \<lparr>bc_shape = out', bc_grad_axes = map int axes, bc_grad_keepdims = keepdims,
                      bc_out_strides = row_strides out', bc_in_dims = padded\<rparr>))
      | _ \<Rightarrow> Inl AssertionError)"

section \<open>Tiling and repeating\<close>

text \<open>
  One step of the loop of \<open>TileOp\<close>, from the last repetition to the first, on the output
  shape, the shape with the repetitions as dimensions of their own, the kernel's input
  dimensions and the labels of the added axes.
\<close>

type_synonym tile_state = "shape \<times> shape \<times> shape \<times> bool list"

definition insert_at :: "nat \<Rightarrow> 'a \<Rightarrow> 'a list \<Rightarrow> 'a list" where
  "insert_at i x xs = take i xs @ x # drop i xs"

definition tile_step :: "nat \<Rightarrow> nat \<times> int \<Rightarrow> tile_state \<Rightarrow> tile_state" where
  "tile_step diff ir st =
     (case (ir, st) of ((i, r), (new_shape, as_shape, in_dims, labels)) \<Rightarrow>
        (let new_shape' = new_shape[i := new_shape ! i * r] in
         if 1 < r then
           if i < diff then (new_shape', as_shape[i := r], in_dims, labels)
           else (new_shape', insert_at i r as_shape, insert_at i 1 in_dims, insert_at i True labels)
         else (new_shape', as_shape, in_dims, labels)))"

record tile_result =
  tile_shape :: shape
  tile_as_shape :: shape
  tile_add_axes :: "int list"
  tile_out_strides :: "int list"
  tile_in_dims :: "int list"

definition label_axes :: "bool list \<Rightarrow> int list" where
  "label_axes ls = map int (filter (\<lambda>i. ls ! i) [0..<length ls])"

definition TileOp_infer_shape :: "int list \<Rightarrow> shape list \<Rightarrow> tile_result result" where
  "TileOp_infer_shape reps shapes =
     (case shapes of
        [s] \<Rightarrow>
          (let diff = length reps - length s;
               reps' = replicate (length s - length reps) 1 @ reps;
               padded = replicate diff 1 @ s;
               (new_shape, as_shape, in_dims, labels) =
                 fold (tile_step diff) (rev (zip [0..<length reps'] reps'))
                   (padded, padded, padded, replicate diff True @ replicate (length s) False)
           in Inr \<lparr>tile_shape = new_shape, tile_as_shape = as_shape, tile_add_axes = label_axes labels,
                   tile_out_strides = row_strides as_shape, tile_in_dims = in_dims\<rparr>)
      | _ \<Rightarrow> Inl AssertionError)"

text \<open>
  \<open>RepeatOp\<close>: the repetitions are one number or a tuple. With more repetitions than dimensions
  the code names an undefined variable (\<open>RuntimeError\<close> stands for the \<open>NameError\<close>); a number
  cannot be indexed.
\<close>

datatype reps = RepInt int | RepTuple "int list"

definition reps_item :: "reps \<Rightarrow> nat \<Rightarrow> int result" where
  "reps_item r i = (case r of RepInt n \<Rightarrow> Inl TypeError | RepTuple ns \<Rightarrow> py_nth ns (int i))"

definition RepeatOp_infer_shape :: "reps \<Rightarrow> shape list \<Rightarrow> shape result" where
  "RepeatOp_infer_shape reps shapes =
     (case shapes of
        [s] \<Rightarrow>
          (let ndim = length s; nrep = (case reps of RepInt n \<Rightarrow> 1 | RepTuple ns \<Rightarrow> length ns) in
           if ndim < nrep then
             (if ndim = 0 then mapE (\<lambda>i. bindE (reps_item reps i) (\<lambda>r. Inr (1 * r))) [0..<nrep]
              else Inl RuntimeError)
           else if nrep < ndim then
             bindE (mapE (reps_item reps) [0..<nrep]) (\<lambda>rs.
               Inr (map2 (*) s (replicate (ndim - nrep) 1 @ rs)))
           else mapE (\<lambda>i. bindE (reps_item reps i) (\<lambda>r. Inr (s ! i * r))) [0..<ndim])
      | _ \<Rightarrow> Inl AssertionError)"

section \<open>Reshape\<close>

text \<open>\<open>get_output_shape\<close>: in a model-parallel context the splits divide the target.\<close>

definition get_output_shape :: "bool \<Rightarrow> (int \<times> int) list option \<Rightarrow> shape \<Rightarrow> shape result" where
  "get_output_shape in_mp splits output_shape =
     (case splits of
        None \<Rightarrow> Inr output_shape
      | Some sp \<Rightarrow>
          if \<not> in_mp then Inr output_shape
          else foldE (\<lambda>out (k, v). bindE (py_nth out k) (\<lambda>n.
                 if 0 < n then (if v = 0 then Inl ZeroDivisionError else py_update out k (n div v))
                 else Inr out)) output_shape sp)"

text \<open>The loop over the target: position of the last -1 and product; a second -1 is refused.\<close>

fun reshape_loop :: "nat \<Rightarrow> int \<times> nat \<times> int \<Rightarrow> shape \<Rightarrow> (int \<times> nat \<times> int) result" where
  "reshape_loop i acc [] = Inr acc"
| "reshape_loop i (idx, cnt, sz) (n # ns) =
     (if n = -1 then assertE (cnt + 1 \<noteq> 2) (reshape_loop (Suc i) (int i, cnt + 1, sz * n) ns)
      else reshape_loop (Suc i) (idx, cnt, sz * n) ns)"

definition reshape_to :: "shape \<Rightarrow> shape \<Rightarrow> shape result" where
  "reshape_to input_shape target =
     bindE (reshape_loop 0 (-1, 0, 1) target) (\<lambda>(idx, cnt, sz).
       if idx = -1 then assertE (shape_size input_shape = sz) (Inr target)
       else if - sz = 0 then Inl ZeroDivisionError
       else assertE (shape_size input_shape mod (- sz) = 0)
              (Inr (target[nat idx := shape_size input_shape div (- sz)])))"

definition Array_ReshapeOp_infer_shape ::
  "bool \<Rightarrow> (int \<times> int) list option \<Rightarrow> shape \<Rightarrow> shape list \<Rightarrow> (shape \<times> shape) result" where
  "Array_ReshapeOp_infer_shape in_mp splits output_shape shapes =
     (case shapes of
        [s] \<Rightarrow>
          bindE (get_output_shape in_mp splits output_shape) (\<lambda>target.
          bindE (reshape_to s target) (\<lambda>out. Inr (out, s)))
      | _ \<Rightarrow> Inl AssertionError)"

definition Array_Reshape_GradientOp_infer_shape :: "shape \<Rightarrow> shape list \<Rightarrow> shape result" where
  "Array_Reshape_GradientOp_infer_shape saved_input_shape shapes = Inr saved_input_shape"

definition ReshapeToOp_infer_shape :: "shape list \<Rightarrow> (shape \<times> shape) result" where
  "ReshapeToOp_infer_shape shapes = (case shapes of [a, b] \<Rightarrow> Inr (b, a) | _ \<Rightarrow> Inl AssertionError)"

section \<open>The lower triangle\<close>

text \<open>Each loop of \<open>TrilLookupOp\<close> adds or removes diagonals, from the longest on.\<close>

fun add_diagonals :: "nat \<Rightarrow> int \<Rightarrow> int \<Rightarrow> int" where
  "add_diagonals 0 sz cur_dim = cur_dim"
| "add_diagonals (Suc k) sz cur_dim = add_diagonals k (sz - 1) (cur_dim + sz)"

fun remove_diagonals :: "nat \<Rightarrow> int \<Rightarrow> int \<Rightarrow> int" where
  "remove_diagonals 0 sz cur_dim = cur_dim"
| "remove_diagonals (Suc k) sz cur_dim = remove_diagonals k (sz - 1) (cur_dim - sz)"

definition TrilLookupOp_infer_shape :: "int \<Rightarrow> shape list \<Rightarrow> shape result" where
  "TrilLookupOp_infer_shape offset shapes =
     (case shapes of
        [s] \<Rightarrow>
          assertE (2 \<le> length s \<and> last s = last (butlast s))
            (let ori_dim = last s; border = ori_dim - 1; cur = ori_dim * (ori_dim + 1) div 2 in
             assertE (- border \<le> offset \<and> offset \<le> border)
               (Inr (butlast (butlast s) @
                     [if 0 < offset then add_diagonals (nat offset) border cur
                      else if offset < 0 then remove_diagonals (nat (- offset)) ori_dim cur
                      else cur])))
      | _ \<Rightarrow> Inl AssertionError)"

text \<open>
  \<open>half_root z\<close> stands for \<open>round(sqrt(z + 0.25) - 0.5)\<close>, NumPy's square root and Python's
  rounding; integers are subtracted after the rounding here and before it in the source.
\<close>

definition get_prev_dim :: "(int \<Rightarrow> int) \<Rightarrow> int \<Rightarrow> int \<Rightarrow> int" where
  "get_prev_dim half_root offset x =
     (if 0 < offset then half_root (2 * offset * (offset + 1) + 2 * x) - offset
      else half_root (2 * x) - offset)"

definition TrilLookupGradientOp_infer_shape :: "(int \<Rightarrow> int) \<Rightarrow> int \<Rightarrow> shape list \<Rightarrow> shape result" where
  "TrilLookupGradientOp_infer_shape half_root offset shapes =
     (case shapes of
        [s] \<Rightarrow>
          assertE (1 \<le> length s)
            (let cur = get_prev_dim half_root offset (last s) in Inr (butlast s @ [cur, cur]))
      | _ \<Rightarrow> Inl AssertionError)"

end
