(* ===== verification/ShapeGrad.thy ===== *)
theory ShapeGrad imports Complex_Main ShapeReduce begin

text \<open>
  The contract between an operator and its gradient on shapes: the gradient operator, given
  the shape of the output and what the forward inference told it, infers the shape of the
  input. The locale states it for one operator and proves it once for whole chains; the
  operators that cut, pad, permute, reduce and reshape are shown to keep it. Further: the
  parts of a split tile the axis, and the inputs of a concatenation do.
\<close>

section \<open>The contract\<close>

fun forward_pass ::
  "('a \<Rightarrow> shape \<Rightarrow> (shape \<times> 'b) result) \<Rightarrow> 'a list \<Rightarrow> shape \<Rightarrow> (shape \<times> ('a \<times> 'b \<times> shape) list) result" where
  "forward_pass fwd [] s = Inr (s, [])"
| "forward_pass fwd (a # as) s =
     bindE (fwd a s) (\<lambda>(t, b).
     bindE (forward_pass fwd as t) (\<lambda>(out, trace). Inr (out, trace @ [(a, b, s)])))"

fun backward_pass ::
  "('a \<Rightarrow> 'b \<Rightarrow> shape \<Rightarrow> shape result) \<Rightarrow> ('a \<times> 'b \<times> shape) list \<Rightarrow> shape \<Rightarrow> shape result" where
  "backward_pass bwd [] t = Inr t"
| "backward_pass bwd ((a, b, s) # trace) t = bindE (bwd a b t) (backward_pass bwd trace)"

locale grad_shape =
  fixes wf :: "'a \<Rightarrow> bool"
    and good :: "shape \<Rightarrow> bool"
    and fwd :: "'a \<Rightarrow> shape \<Rightarrow> (shape \<times> 'b) result"
    and bwd :: "'a \<Rightarrow> 'b \<Rightarrow> shape \<Rightarrow> shape result"
  assumes restores: "wf a \<Longrightarrow> good s \<Longrightarrow> good t \<Longrightarrow> fwd a s = Inr (t, b) \<Longrightarrow> bwd a b t = Inr s"
begin

lemma backward_append:
  "backward_pass bwd (xs @ ys) t = bindE (backward_pass bwd xs t) (backward_pass bwd ys)"
  by (induction xs arbitrary: t) (auto simp: bindE_def split: sum.splits)

lemma chain_restores:
  assumes "forward_pass fwd as s = Inr (out, trace)" and "\<forall>a \<in> set as. wf a" and "good out"
    and "\<forall>x \<in> set trace. good (snd (snd x))"
  shows "backward_pass bwd trace out = Inr s"
  using assms
proof (induction as arbitrary: s trace)
  case (Cons a as)
  then obtain t b trace' where f: "fwd a s = Inr (t, b)" "forward_pass fwd as t = Inr (out, trace')"
    and tr: "trace = trace' @ [(a, b, s)]"
    by (auto simp: bindE_Inr_iff)
  have "backward_pass bwd trace' out = Inr t"
    using Cons.IH [OF f(2)] Cons.prems tr by auto
  moreover have "good t"
  proof (cases as)
    case Nil
    then show ?thesis using f(2) Cons.prems(3) by simp
  next
    case (Cons a' as')
    then have "\<exists>x \<in> set trace'. snd (snd x) = t"
      using f(2) by (auto simp: bindE_Inr_iff)
    then show ?thesis using Cons.prems(4) tr by auto
  qed
  then have "bwd a b t = Inr s"
    using restores Cons.prems(2,4) f(1) tr by auto
  ultimately show ?case by (simp add: tr backward_append)
qed simp

end

section \<open>Slice\<close>

lemma slice_dims_fits:
  "slice_dims bs ws ns = Inr out \<Longrightarrow> fits_within bs out ns = Inr () \<and> length out = length ns"
  by (induction bs ws ns arbitrary: out rule: slice_dims.induct)
     (auto simp: Let_def assertE_Inr_iff bindE_Inr_iff)

lemma slice_restores:
  assumes "SliceOp_infer_shape bs ws [s] = Inr (t, g, buf)"
  shows "\<exists>buf'. SliceGradientOp_infer_shape bs (Some g) [t] = Inr (s, buf')"
  using assms slice_dims_fits
  by (fastforce simp: SliceOp_infer_shape_def SliceGradientOp_infer_shape_def assertE_Inr_iff bindE_Inr_iff)

section \<open>Padding\<close>

lemma py_update_nat: "i < length xs \<Longrightarrow> py_update xs (int i) v = Inr (xs[i := v])"
  by (simp add: py_update_def)

lemma py_nth_int: "py_nth xs (int i) = (if i < length xs then Inr (xs ! i) else Inl IndexError)"
  by (simp add: py_nth_def)

lemma pad_step_back:
  assumes "pad_step 1 ps s i = Inr t"
  shows "length t = length s \<and> (\<forall>j. j \<noteq> i \<longrightarrow> t ! j = s ! j) \<and>
     (\<exists>d. (i < length s \<and> t = s[i := s ! i + d] \<or> t = s \<and> d = 0) \<and>
       (\<forall>u. length u = length s \<longrightarrow> pad_step (-1) ps u i = Inr (if d = 0 then u else u[i := u ! i - d])))"
proof (cases "0 \<le> int i - (4 - int (length ps))")
  case True
  then obtain lo hi where i: "i < length s" and p: "py_nth ps (int i - (4 - int (length ps))) = Inr (lo, hi)"
    and t: "t = s[i := s ! i + lo + hi]"
    using assms
    by (auto simp: pad_step_def Let_def py_nth_int py_update_nat bindE_Inr_iff split: if_splits)
  then show ?thesis using True
    by (intro conjI exI [of _ "lo + hi"])
       (auto simp: pad_step_def Let_def py_nth_int py_update_nat algebra_simps list_update_same_conv)
next
  case False
  then show ?thesis using assms by (intro conjI exI [of _ 0]) (auto simp: pad_step_def Let_def)
qed

text \<open>
  The steps act on different positions, so the backward loop may undo them in the same order.
\<close>

lemma pad_loop_back:
  assumes "foldE (pad_step 1 ps) s ks = Inr t" and "distinct ks"
  shows "\<exists>ds. length ds = length s \<and> t = map2 (+) s ds \<and>
     (\<forall>k<length s. k \<notin> set ks \<longrightarrow> ds ! k = 0) \<and>
     (\<forall>u. length u = length s \<longrightarrow> foldE (pad_step (-1) ps) u ks = Inr (map2 (-) u ds))"
  using assms
proof (induction ks arbitrary: s)
  case Nil
  show ?case
    using Nil by (intro exI [of _ "replicate (length s) 0"]) (auto simp: list_eq_iff_nth_eq)
next
  case (Cons i ks)
  then obtain s1 where s1: "pad_step 1 ps s i = Inr s1" "foldE (pad_step 1 ps) s1 ks = Inr t"
    by (auto simp: bindE_Inr_iff)
  obtain d where len: "length s1 = length s"
    and d: "i < length s \<and> s1 = s[i := s ! i + d] \<or> s1 = s \<and> d = 0"
    and bk: "\<And>u. length u = length s \<Longrightarrow>
        pad_step (-1) ps u i = Inr (if d = 0 then u else u[i := u ! i - d])"
    using pad_step_back [OF s1(1)] by blast
  obtain ds where ds: "length ds = length s1" "t = map2 (+) s1 ds"
      "\<forall>k<length s1. k \<notin> set ks \<longrightarrow> ds ! k = 0"
      "\<And>u. length u = length s1 \<Longrightarrow> foldE (pad_step (-1) ps) u ks = Inr (map2 (-) u ds)"
    using Cons.IH [OF s1(2)] Cons.prems(2) by auto
  show ?case
  proof (cases "d = 0")
    case True
    then have "s1 = s" using d by (auto simp: list_update_same_conv)
    with ds True bk show ?thesis by (intro exI [of _ ds]) auto
  next
    case False
    then have i: "i < length s" "s1 = s[i := s ! i + d]" using d by auto
    let ?ds = "ds[i := d]"
    have "ds ! i = 0" using ds(3) i(1) len Cons.prems(2) by simp
    then have "t = map2 (+) s ?ds"
      using ds(1,2) i len by (auto simp: list_eq_iff_nth_eq nth_list_update)
    moreover have "map2 (-) (u[i := u ! i - d]) ds = map2 (-) u ?ds" if "length u = length s" for u
      using that ds(1) len \<open>ds ! i = 0\<close> i(1) by (auto simp: list_eq_iff_nth_eq nth_list_update)
    ultimately show ?thesis
      using ds(1,3,4) len False bk i by (intro exI [of _ ?ds]) (auto simp: nth_list_update)
  qed
qed

lemma pad_restores:
  assumes "PadOp_infer_shape ps [s] = Inr t" shows "Pad_GradientOp_infer_shape ps [t] = Inr s"
proof -
  have "foldE (pad_step 1 ps) s [0..<4] = Inr t" using assms by (simp add: PadOp_infer_shape_def)
  from pad_loop_back [OF this] obtain ds where ds: "length ds = length s" "t = map2 (+) s ds"
    and bk: "\<And>u. length u = length s \<Longrightarrow> foldE (pad_step (-1) ps) u [0..<4] = Inr (map2 (-) u ds)"
    by auto
  have "map2 (-) t ds = s" using ds by (auto simp: list_eq_iff_nth_eq)
  with bk [of t] ds show ?thesis by (simp add: Pad_GradientOp_infer_shape_def)
qed

section \<open>Split\<close>

lemma fits_within_iff:
  "length bs = length ns \<Longrightarrow> length ms = length ns \<Longrightarrow>
     fits_within bs ns ms = Inr () \<longleftrightarrow> (\<forall>k<length ns. bs ! k + ns ! k \<le> ms ! k)"
proof (induction bs ns ms rule: fits_within.induct)
  case (1 b bs n ns m ms)
  then show ?case by (auto simp: assertE_Inr_iff All_less_Suc2)
qed auto

lemma part_fits:
  assumes "0 \<le> n" and "0 \<le> ind" and "ind < spl"
  shows "ind * (n div spl) + (if ind \<noteq> spl - 1 then n div spl else n - ind * (n div spl)) \<le> (n::int)"
proof -
  have "0 \<le> n div spl" using assms by (simp add: pos_imp_zdiv_nonneg_iff)
  then have "(ind + 1) * (n div spl) \<le> spl * (n div spl)" using assms by (intro mult_right_mono) auto
  also have "\<dots> \<le> n" using assms by (metis mult_div_mod_eq le_add_same_cancel1 pos_mod_sign order_le_less_trans)
  finally show ?thesis by (simp add: algebra_simps)
qed

lemma split_step_fits:
  assumes "split_step s (bs, out) (axe, ind, spl) = Inr (bs', out')" and "0 \<le> axe" and "0 \<le> ind" and "ind < spl"
    and "\<forall>n \<in> set s. 0 \<le> n" and "length bs = length s" and "length out = length s"
    and "\<forall>k<length s. bs ! k + out ! k \<le> s ! k"
  shows "length bs' = length s \<and> length out' = length s \<and> (\<forall>k<length s. bs' ! k + out' ! k \<le> s ! k)"
proof -
  obtain k where axe: "axe = int k" using assms(2) nonneg_int_cases by blast
  have k: "k < length s"
    and bs': "bs' = bs[k := ind * (s ! k div spl)]"
    and out': "out' = out[k := (if ind \<noteq> spl - 1 then s ! k div spl else s ! k - ind * (s ! k div spl))]"
    using assms(1,6,7)
    by (auto simp: split_step_def axe py_nth_int py_update_nat bindE_Inr_iff Let_def split: if_splits)
  have "0 \<le> s ! k" using assms(5) k by simp
  from part_fits [OF this assms(3,4)] show ?thesis
    using assms(6,7,8) k by (auto simp: bs' out' nth_list_update)
qed

lemma split_loop_fits:
  assumes "foldE (split_step s) (bs, out) acs = Inr (bs', out')"
    and "\<forall>(axe, ind, spl) \<in> set acs. 0 \<le> axe \<and> 0 \<le> ind \<and> ind < spl"
    and "\<forall>n \<in> set s. 0 \<le> n" and "length bs = length s" and "length out = length s"
    and "\<forall>k<length s. bs ! k + out ! k \<le> s ! k"
  shows "length bs' = length s \<and> length out' = length s \<and> (\<forall>k<length s. bs' ! k + out' ! k \<le> s ! k)"
  using assms
proof (induction acs arbitrary: bs out)
  case (Cons a acs)
  obtain axe ind spl where a: "a = (axe, ind, spl)" by (cases a)
  from Cons.prems(1) obtain bs1 out1 where st: "split_step s (bs, out) (axe, ind, spl) = Inr (bs1, out1)"
    and rest: "foldE (split_step s) (bs1, out1) acs = Inr (bs', out')"
    by (auto simp: bindE_Inr_iff a)
  have "0 \<le> axe" "0 \<le> ind" "ind < spl" using Cons.prems(2) a by auto
  from split_step_fits [OF st this Cons.prems(3-6)] Cons.IH [OF rest _ Cons.prems(3)] Cons.prems(2)
  show ?case by simp
qed simp

lemma SplitOp_init_parts:
  assumes "SplitOp_init axes indices splits = Inr ()"
  shows "\<forall>(axe, ind, spl) \<in> set (zip axes (zip indices splits)). 0 \<le> axe \<and> 0 \<le> ind \<and> ind < spl"
proof -
  have a: "list_all (\<lambda>x. 0 \<le> x) axes"
    and i: "list_all2 (\<lambda>x n. 0 \<le> x \<and> x < n) indices (take (length indices) splits)"
    using assms by (auto simp: SplitOp_init_def assertE_Inr_iff split: if_splits)
  have "0 \<le> ind \<and> ind < spl" if "(ind, spl) \<in> set (zip indices splits)" for ind spl
    using that i by (auto simp: in_set_zip list_all2_conv_all_nth)
  moreover have "0 \<le> axe" if "(axe, x) \<in> set (zip axes (zip indices splits))" for axe x
    using a set_zip_leftD [OF that] by (simp add: list_all_iff)
  ultimately show ?thesis by (auto dest: set_zip_rightD)
qed

lemma split_restores:
  assumes "SplitOp_init axes indices splits = Inr ()" and "\<forall>n \<in> set s. 0 \<le> n"
    and "SplitOp_infer_shape axes indices splits [s] = Inr (t, b, buf)"
  shows "\<exists>buf'. SplitGradientOp_infer_shape (Some b) (Some s) [t] = Inr (s, buf')"
proof -
  have "foldE (split_step s) (replicate (length s) 0, s) (zip axes (zip indices splits)) = Inr (b, t)"
    using assms(3) by (auto simp: SplitOp_infer_shape_def bindE_Inr_iff)
  from split_loop_fits [OF this SplitOp_init_parts [OF assms(1)] assms(2)]
  have "fits_within b t s = Inr ()" by (simp add: fits_within_iff)
  then show ?thesis by (simp add: SplitGradientOp_infer_shape_def)
qed

section \<open>Transposition\<close>

lemma fold_inverse:
  "distinct (map (\<lambda>i. p ! i) js) \<Longrightarrow> \<forall>j \<in> set js. p ! j < length g \<Longrightarrow>
     length (fold (\<lambda>i g. g[p ! i := i]) js g) = length g \<and>
     (\<forall>j \<in> set js. fold (\<lambda>i g. g[p ! i := i]) js g ! (p ! j) = j)"
proof (induction js rule: rev_induct)
  case (snoc k js)
  then show ?case by (auto simp: nth_list_update)
qed simp

lemma inverse_perm:
  assumes "set p = {0..<length p}"
  defines "g \<equiv> fold (\<lambda>i g. g[p ! i := i]) [0..<length p] (replicate (length p) 0)"
  shows "length g = length p" and "\<And>i. i < length p \<Longrightarrow> g ! (p ! i) = i" and "set g = {0..<length p}"
proof -
  have "distinct p" using assms(1) by (metis card_atLeastLessThan card_distinct minus_nat.diff_0)
  have lt: "i < length p \<Longrightarrow> p ! i < length p" for i
    using assms(1) by (metis atLeastLessThan_iff nth_mem)
  have "map (\<lambda>i. p ! i) [0..<length p] = p" by (rule map_nth)
  then have f: "length g = length p" "\<forall>j \<in> set [0..<length p]. g ! (p ! j) = j"
    using fold_inverse [of p "[0..<length p]" "replicate (length p) 0"] \<open>distinct p\<close> lt
    by (simp_all add: g_def)
  then show "length g = length p" and inv: "\<And>i. i < length p \<Longrightarrow> g ! (p ! i) = i" by simp_all
  have "j \<in> set g" if "j < length p" for j
    using inv [OF that] lt [OF that] f(1) by (metis nth_mem)
  then have "{0..<length p} \<subseteq> set g" by auto
  moreover have "g ! k < length p" if "k < length p" for k
  proof -
    have "k \<in> set p" using that assms(1) by simp
    then obtain i where "i < length p" "k = p ! i" by (auto simp: in_set_conv_nth)
    then show ?thesis using inv by simp
  qed
  then have "set g \<subseteq> {0..<length p}" using f(1) by (auto simp: in_set_conv_nth)
  ultimately show "set g = {0..<length p}" by simp
qed

lemma transpose_restores:
  assumes "TransposeOp_infer_shape perm [s] = Inr (t, p)"
  shows "\<exists>q. TransposeOp_infer_shape (grad_perm perm) [t] = Inr (s, q)"
proof (cases "perm = None \<or> perm = Some []")
  case True
  then show ?thesis
    using assms by (auto simp: TransposeOp_infer_shape_def grad_perm_def assertE_Inr_iff)
next
  case False
  then obtain r where r: "perm = Some r" "r \<noteq> []" by auto
  then have len: "length r = length s" and rng: "set r = {0..<length r}"
    and t: "t = map (\<lambda>i. s ! (r ! i)) [0..<length s]"
    using assms by (auto simp: TransposeOp_infer_shape_def assertE_Inr_iff)
  let ?g = "fold (\<lambda>i g. g[r ! i := i]) [0..<length r] (replicate (length r) 0)"
  note inv = inverse_perm [OF rng]
  have gp: "grad_perm perm = Some ?g" using r by (cases r) (simp_all add: grad_perm_def)
  have "map (\<lambda>i. t ! (?g ! i)) [0..<length t] = s"
  proof (rule nth_equalityI)
    fix k assume "k < length (map (\<lambda>i. t ! (?g ! i)) [0..<length t])"
    then have k: "k < length r" by (simp add: t len)
    then have "k \<in> set r" using rng by simp
    then obtain i where i: "i < length r" "k = r ! i" by (auto simp: in_set_conv_nth)
    then show "map (\<lambda>i. t ! (?g ! i)) [0..<length t] ! k = s ! k"
      using inv(2) k by (simp add: t len)
  qed (simp add: t)
  then show ?thesis
    using inv(1,3) by (simp add: gp TransposeOp_infer_shape_def t len)
qed

section \<open>Reductions and their broadcasts\<close>

definition good_shape :: "shape \<Rightarrow> bool" where
  "good_shape s \<longleftrightarrow> s \<noteq> [] \<and> (\<forall>n \<in> set s. 0 < n)"

lemma norm_axes_id:
  "\<forall>a \<in> set as. 0 \<le> a \<Longrightarrow> norm_axes n as = Inr bs \<Longrightarrow> bs = as \<and> (\<forall>a \<in> set as. a < int n)"
  by (induction as arbitrary: bs) (auto simp: Let_def assertE_Inr_iff bindE_Inr_iff)

lemma mark_axes_length [simp]: "length (mark_axes as ks s) = length s"
proof -
  have "length (fold (\<lambda>(a, k) t. t[nat a := (if k then 1 else 0)]) xs s) = length s" for xs
    by (induction xs arbitrary: s) auto
  then show ?thesis by (simp add: mark_axes_def)
qed

lemma mark_axes_nth:
  "\<forall>a \<in> set as. 0 \<le> a \<Longrightarrow> length ks = length as \<Longrightarrow> set ks \<subseteq> {k} \<Longrightarrow> j < length s \<Longrightarrow>
     mark_axes as ks s ! j = (if int j \<in> set as then (if k then 1 else 0) else s ! j)"
proof (induction as arbitrary: ks s)
  case (Cons a as)
  then obtain ks' where ks: "ks = k # ks'" by (cases ks) auto
  have "mark_axes (a # as) ks s = mark_axes as ks' (s[nat a := (if k then 1 else 0)])"
    by (simp add: mark_axes_def ks)
  moreover have "mark_axes as ks' (s[nat a := (if k then 1 else 0)]) ! j =
      (if int j \<in> set as then (if k then 1 else 0) else s[nat a := (if k then 1 else 0)] ! j)"
    using Cons.prems ks by (intro Cons.IH) auto
  ultimately show ?case using Cons.prems(1,4) by (auto simp: nth_list_update)
qed (simp add: mark_axes_def)

text \<open>The dimensions that are not dropped match the target in order.\<close>

lemma match_dropped:
  assumes "\<forall>n \<in> set ns. 0 < n"
  shows "match_other_axes i adds
     (filter (\<lambda>x. 0 < x) (map (\<lambda>j. if int (i + j) \<in> set adds then 0 else ns ! j) [0..<length ns])) ns = Inr ()"
  using assms
proof (induction ns arbitrary: i)
  case (Cons n ns)
  then have "match_other_axes (Suc i) adds
     (filter (\<lambda>x. 0 < x) (map (\<lambda>j. if int (Suc i + j) \<in> set adds then 0 else ns ! j) [0..<length ns])) ns = Inr ()"
    using Cons.IH [of "Suc i"] by (metis list.set_intros(2))
  with Cons.prems show ?case by (simp add: map_upt_Suc add.left_commute cong: if_cong del: upt_Suc)
qed simp

lemma count_marked:
  assumes "distinct as" and "\<forall>a \<in> set as. 0 \<le> a \<and> a < int n"
  shows "length (filter (\<lambda>j. int j \<in> set as) [0..<n]) = length as"
proof -
  have "int ` set (filter (\<lambda>j. int j \<in> set as) [0..<n]) = set as"
    using assms(2) by (auto simp: image_iff) (metis nonneg_int_cases of_nat_less_iff)
  then have "card (set (filter (\<lambda>j. int j \<in> set as) [0..<n])) = card (set as)"
    by (metis card_image inj_on_of_nat)
  moreover have "length (filter (\<lambda>j. int j \<in> set as) [0..<n]) =
      card (set (filter (\<lambda>j. int j \<in> set as) [0..<n]))"
    by (metis distinct_card distinct_filter distinct_upt)
  ultimately show ?thesis using assms(1) by (metis distinct_card)
qed

lemma dropped_axes_uniform:
  "length ks = length as \<Longrightarrow> set ks \<subseteq> {k} \<Longrightarrow> dropped_axes as ks = (if k then [] else as)"
proof (induction as arbitrary: ks)
  case (Cons a as)
  then obtain ks' where "ks = k # ks'" by (cases ks) auto
  with Cons show ?case by (auto simp: dropped_axes_def)
qed (simp add: dropped_axes_def)

lemma broadcast_loop_ok:
  "length as = length bs \<Longrightarrow> \<forall>b \<in> set bs. 0 < b \<Longrightarrow> \<forall>k<length as. as ! k = 1 \<or> as ! k = bs ! k \<Longrightarrow>
     \<exists>r. broadcast_loop i diff as bs = Inr r"
proof (induction i diff as bs rule: broadcast_loop.induct)
  case (1 i diff a as b bs)
  then have "\<exists>r. broadcast_loop (Suc i) diff as bs = Inr r" by (auto simp: All_less_Suc2)
  moreover have "a = 1 \<or> a = b" using "1.prems"(3) by (metis length_greater_0_conv list.discI nth_Cons_0)
  ultimately show ?case using "1.prems"(2) by auto
qed auto

lemma reduce_infer_eq:
  assumes "\<forall>a \<in> set as. 0 \<le> a" and "reduce_infer (Some as) (Some ks) [s] = Inr r"
  shows "red_shape r = drop_marked (mark_axes as ks s) \<and> red_grad_target r = s \<and>
     red_grad_add_axes r = dropped_axes as ks \<and> (\<forall>a \<in> set as. a < int (length s))"
proof -
  obtain bs where bs: "norm_axes (length s) as = Inr bs"
    and r: "r = \<lparr>red_shape = drop_marked (mark_axes bs ks s), red_axes = bs,
              red_naive_copy = (shape_size s = shape_size (drop_marked (mark_axes bs ks s))),
              red_grad_target = s, red_grad_add_axes = dropped_axes bs ks\<rparr>"
    using assms(2) by (auto simp: reduce_infer_def reduce_shape_def bindE_Inr_iff)
  from norm_axes_id [OF assms(1) bs] r show ?thesis by simp
qed

lemma reduce_kept_restores:
  assumes "good_shape s" and "\<forall>a \<in> set as. 0 \<le> a" and "set ks \<subseteq> {True}" and "length ks = length as"
    and "reduce_infer (Some as) (Some ks) [s] = Inr r"
  shows "\<exists>b. BroadcastShapeOp_infer_shape (Some (red_grad_target r)) (Some (red_grad_add_axes r)) [red_shape r] =
     Inr b \<and> bc_shape b = s"
proof -
  have s: "s \<noteq> []" "\<forall>n \<in> set s. 0 < n" using assms(1) by (simp_all add: good_shape_def)
  let ?m = "mark_axes as ks s"
  have m: "?m ! j = 1 \<or> ?m ! j = s ! j" if "j < length s" for j
    using mark_axes_nth [OF assms(2,4,3) that] by auto
  then have pos: "\<forall>n \<in> set ?m. 0 < n" using s(2) by (force simp: in_set_conv_nth)
  then have "drop_marked ?m = ?m"
    using s(1) by (cases ?m) (auto simp: drop_marked_def filter_id_conv, metis length_0_conv list.distinct(1) mark_axes_length)
  then have r: "red_shape r = ?m" "red_grad_target r = s" "red_grad_add_axes r = []"
    using reduce_infer_eq [OF assms(2,5)] dropped_axes_uniform [OF assms(4,3)] by simp_all
  have "s ! i \<noteq> -1" if "i < length s" for i
    using bspec [OF s(2) nth_mem [OF that]] by simp
  then have "fill_unknown ?m s = s" by (auto simp: fill_unknown_def list_eq_iff_nth_eq)
  moreover obtain q where "broadcast_loop 0 0 ?m s = Inr q"
    using broadcast_loop_ok [of ?m s 0 0] s(2) m by auto
  ultimately show ?thesis by (simp add: r BroadcastShapeOp_infer_shape_def broadcast_axes_def)
qed

lemma reduce_dropped_restores:
  assumes "good_shape s" and "\<forall>a \<in> set as. 0 \<le> a" and "distinct as" and "as \<noteq> []"
    and "set ks \<subseteq> {False}" and "length ks = length as"
    and "reduce_infer (Some as) (Some ks) [s] = Inr r"
  shows "\<exists>b. BroadcastShapeOp_infer_shape (Some (red_grad_target r)) (Some (red_grad_add_axes r)) [red_shape r] =
     Inr b \<and> bc_shape b = s"
proof -
  have s: "s \<noteq> []" "\<forall>n \<in> set s. 0 < n" using assms(1) by (simp_all add: good_shape_def)
  let ?m = "mark_axes as ks s" and ?f = "\<lambda>j. if int j \<in> set as then 0 else s ! j"
  have m: "?m = map ?f [0..<length s]"
    by (rule nth_equalityI) (simp_all add: mark_axes_nth [OF assms(2,6,5)])
  have range: "\<forall>a \<in> set as. 0 \<le> a \<and> a < int (length s)"
    and r: "red_shape r = drop_marked ?m" "red_grad_target r = s" "red_grad_add_axes r = as"
    using assms(2) reduce_infer_eq [OF assms(2,7)] dropped_axes_uniform [OF assms(6,5)] by simp_all
  let ?t = "filter (\<lambda>x. 0 < x) ?m"
  have "filter (\<lambda>j. 0 < ?f j) [0..<length s] = filter (\<lambda>j. int j \<notin> set as) [0..<length s]"
    using s(2) by (intro filter_cong) auto
  then have "length ?t = length (filter (\<lambda>j. int j \<notin> set as) [0..<length s])"
    by (simp add: m filter_map comp_def)
  moreover have "length (filter (\<lambda>j. int j \<in> set as) [0..<length s]) = length as"
    using count_marked [OF assms(3) range] .
  moreover have "length (filter (\<lambda>j. int j \<in> set as) [0..<length s]) +
      length (filter (\<lambda>j. int j \<notin> set as) [0..<length s]) = length s"
    by (metis length_upt minus_nat.diff_0 sum_length_filter_compl)
  ultimately have len: "length ?t + length as = length s" by simp
  have match: "match_other_axes 0 as ?t s = Inr ()"
    unfolding m using match_dropped [OF s(2), of 0 as] by (simp only: add_0)
  show ?thesis
  proof (cases "?t = []")
    case True
    then have "match_other_axes 0 as [1] s = Inr ()"
      using match
    proof -
      have "match_other_axes i as [] ns = Inr () \<Longrightarrow> match_other_axes i as [1] ns = Inr ()" for i ns
        by (induction ns arbitrary: i) (auto split: if_splits)
      then show ?thesis using match True by simp
    qed
    moreover have "drop_marked ?m = [1]" by (simp add: drop_marked_def True)
    ultimately show ?thesis
      using s(1) assms(4) range
      by (simp add: r BroadcastShapeOp_infer_shape_def Let_def list_all_iff Suc_leI)
  next
    case False
    then have "drop_marked ?m = ?t" by (simp add: drop_marked_def split: list.splits)
    moreover have "length s - length ?t = length as" "length ?t \<le> length s" using len by simp_all
    ultimately show ?thesis
      using match assms(4) range
      by (simp add: r BroadcastShapeOp_infer_shape_def Let_def list_all_iff)
  qed
qed

section \<open>Chains of operators\<close>

datatype layer =
    LSlice "int list" "int list"
  | LSplit "int list" "int list" "int list"
  | LPad "(int \<times> int) list"
  | LTranspose "nat list option"
  | LReduce "int list" bool
  | LReshape shape

text \<open>What the forward inference leaves for the gradient operator.\<close>

datatype grad_info = GShape shape | GSplit "int list" shape | GBroadcast shape "int list" | GNone

definition layer_forward :: "layer \<Rightarrow> shape \<Rightarrow> (shape \<times> grad_info) result" where
  "layer_forward l s =
     (case l of
        LSlice b w \<Rightarrow> bindE (SliceOp_infer_shape b w [s]) (\<lambda>(t, g, buf). Inr (t, GShape g))
      | LSplit axes indices splits \<Rightarrow>
          bindE (SplitOp_init axes indices splits) (\<lambda>_.
          bindE (SplitOp_infer_shape axes indices splits [s]) (\<lambda>(t, b, buf). Inr (t, GSplit b s)))
      | LPad ps \<Rightarrow> bindE (PadOp_infer_shape ps [s]) (\<lambda>t. Inr (t, GNone))
      | LTranspose p \<Rightarrow> bindE (TransposeOp_infer_shape p [s]) (\<lambda>(t, q). Inr (t, GNone))
      | LReduce axes k \<Rightarrow>
          bindE (ReduceSumOp_infer_shape (Some axes) (Some (replicate (length axes) k)) [s]) (\<lambda>r.
            Inr (red_shape r, GBroadcast (red_grad_target r) (red_grad_add_axes r)))
      | LReshape target \<Rightarrow>
          bindE (Array_ReshapeOp_infer_shape False None target [s]) (\<lambda>(t, saved). Inr (t, GShape saved)))"

definition layer_backward :: "layer \<Rightarrow> grad_info \<Rightarrow> shape \<Rightarrow> shape result" where
  "layer_backward l g t =
     (case (l, g) of
        (LSlice b w, GShape ori) \<Rightarrow>
          bindE (SliceGradientOp_infer_shape b (Some ori) [t]) (\<lambda>(s, buf). Inr s)
      | (LSplit axes indices splits, GSplit b ori) \<Rightarrow>
          bindE (SplitGradientOp_infer_shape (Some b) (Some ori) [t]) (\<lambda>(s, buf). Inr s)
      | (LPad ps, GNone) \<Rightarrow> Pad_GradientOp_infer_shape ps [t]
      | (LTranspose p, GNone) \<Rightarrow> bindE (TransposeOp_infer_shape (grad_perm p) [t]) (\<lambda>(s, q). Inr s)
      | (LReduce axes k, GBroadcast target adds) \<Rightarrow>
          bindE (BroadcastShapeOp_infer_shape (Some target) (Some adds) [t]) (\<lambda>b. Inr (bc_shape b))
      | (LReshape target, GShape saved) \<Rightarrow> Array_Reshape_GradientOp_infer_shape saved [t]
      | _ \<Rightarrow> Inl AssertionError)"

definition layer_wf :: "layer \<Rightarrow> bool" where
  "layer_wf l = (case l of LReduce axes k \<Rightarrow> (\<forall>a \<in> set axes. 0 \<le> a) \<and> distinct axes | _ \<Rightarrow> True)"

lemma layer_restores:
  assumes "layer_wf l" and "good_shape s" and "layer_forward l s = Inr (t, g)"
  shows "layer_backward l g t = Inr s"
proof (cases l)
  case (LSlice b w)
  then show ?thesis
    using assms(3) slice_restores [of b w s]
    by (fastforce simp: layer_forward_def layer_backward_def bindE_Inr_iff)
next
  case (LSplit axes indices splits)
  then obtain b buf where "SplitOp_init axes indices splits = Inr ()"
      "SplitOp_infer_shape axes indices splits [s] = Inr (t, b, buf)" "g = GSplit b s"
    using assms(3) by (auto simp: layer_forward_def bindE_Inr_iff)
  moreover have "\<forall>n \<in> set s. 0 \<le> n" using assms(2) by (auto simp: good_shape_def)
  ultimately show ?thesis
    using split_restores [of axes indices splits s t b buf] LSplit by (auto simp: layer_backward_def)
next
  case (LPad ps)
  then show ?thesis
    using assms(3) pad_restores [of ps s]
    by (auto simp: layer_forward_def layer_backward_def bindE_Inr_iff)
next
  case (LTranspose p)
  then obtain q where "TransposeOp_infer_shape p [s] = Inr (t, q)" "g = GNone"
    using assms(3) by (auto simp: layer_forward_def bindE_Inr_iff)
  with transpose_restores [of p s t q] LTranspose show ?thesis by (auto simp: layer_backward_def)
next
  case (LReduce axes k)
  then obtain r where r: "reduce_infer (Some axes) (Some (replicate (length axes) k)) [s] = Inr r"
    and t: "t = red_shape r" "g = GBroadcast (red_grad_target r) (red_grad_add_axes r)"
    using assms(3) by (auto simp: layer_forward_def ReduceSumOp_infer_shape_def bindE_Inr_iff)
  have wf: "\<forall>a \<in> set axes. 0 \<le> a" "distinct axes" using assms(1) LReduce by (simp_all add: layer_wf_def)
  have "\<exists>b. BroadcastShapeOp_infer_shape (Some (red_grad_target r)) (Some (red_grad_add_axes r))
          [red_shape r] = Inr b \<and> bc_shape b = s"
  proof (cases "k \<or> axes = []")
    case True
    then show ?thesis by (intro reduce_kept_restores [OF assms(2) wf(1) _ _ r]) auto
  next
    case False
    then show ?thesis by (intro reduce_dropped_restores [OF assms(2) wf _ _ _ r]) auto
  qed
  then show ?thesis using t LReduce by (auto simp: layer_backward_def)
next
  case (LReshape target)
  then show ?thesis
    using assms(3)
    by (auto simp: layer_forward_def layer_backward_def Array_ReshapeOp_infer_shape_def
        Array_Reshape_GradientOp_infer_shape_def bindE_Inr_iff)
qed

interpretation shape_layers: grad_shape layer_wf good_shape layer_forward layer_backward
  by unfold_locales (rule layer_restores)

section \<open>Properties\<close>


definition sample_layers :: "layer list" where
  "sample_layers = [LPad [(1, 1), (0, 2)], LTranspose (Some [2, 0, 3, 1]), LSlice [1, 0, 0, 0] [-1, 4, 2, 3],
     LSplit [1] [2] [3], LReduce [0, 3] False, LReshape [2, -1], LReduce [1] True]"


definition split_part :: "nat \<Rightarrow> int \<Rightarrow> shape \<Rightarrow> int \<Rightarrow> (shape \<times> int list) result" where
  "split_part axis spl s ind =
     bindE (SplitOp_infer_shape [int axis] [ind] [spl] [s]) (\<lambda>(out, b, buf). Inr (out, b))"

lemma split_part_eq:
  assumes "axis < length s" and "1 \<le> spl"
  shows "split_part axis spl s ind =
     Inr (s[axis := (if ind \<noteq> spl - 1 then s ! axis div spl else s ! axis - ind * (s ! axis div spl))],
          (replicate (length s) 0)[axis := ind * (s ! axis div spl)])"
  using assms
  by (simp add: split_part_def SplitOp_infer_shape_def split_step_def py_nth_int py_update_nat Let_def)

text \<open>The parts that \<open>SplitOp\<close> cuts along one axis tile it: the first part begins at 0, every
  part ends where the next begins, the last one ends with the axis, also when the axis is not
  divisible, and the other dimensions are whole.\<close>

theorem split_parts_tile_axis:
  assumes "axis < length s" and "1 \<le> spl"
  shows "\<exists>b out. (\<forall>ind. 0 \<le> ind \<and> ind < spl \<longrightarrow> split_part axis spl s ind = Inr (out ind, b ind)) \<and>
     b 0 ! axis = 0 \<and>
     (\<forall>ind. 0 \<le> ind \<and> ind < spl - 1 \<longrightarrow> b ind ! axis + out ind ! axis = b (ind + 1) ! axis) \<and>
     b (spl - 1) ! axis + out (spl - 1) ! axis = s ! axis \<and>
     (\<forall>ind k. k < length s \<and> k \<noteq> axis \<longrightarrow> b ind ! k = 0 \<and> out ind ! k = s ! k)"
  by (intro exI [of _ "\<lambda>ind. (replicate (length s) 0)[axis := ind * (s ! axis div spl)]"]
            exI [of _ "\<lambda>ind. s[axis := (if ind \<noteq> spl - 1 then s ! axis div spl
                                        else s ! axis - ind * (s ! axis div spl))]"])
     (use assms split_part_eq [OF assms] in \<open>auto simp: algebra_simps\<close>)

theorem split_parts_tile_axis_witness:
  "\<exists>(b :: int \<Rightarrow> int list) (out :: int \<Rightarrow> int list). split_part 1 3 [4, 10] 2 = Inr (out 2, b 2) \<and> b 0 ! 1 = 0 \<and>
     b 2 ! 1 + out 2 ! 1 = 10"
proof -
  obtain b out where "\<forall>ind. 0 \<le> ind \<and> ind < 3 \<longrightarrow> split_part 1 3 [4, 10] ind = Inr (out ind, b ind)"
      "b (0 :: int) ! 1 = 0" "b (3 - 1) ! 1 + out (3 - 1) ! 1 = [4, 10 :: int] ! 1"
    using split_parts_tile_axis [of 1 "[4, 10]" 3] by auto
  then show ?thesis by (intro exI [of _ b] exI [of _ out]) simp
qed

text \<open>A reduction that keeps some of its axes and drops others leaves a gradient that cannot be
  inferred: the broadcast compares the kept axis, of size 1 now, with the dimension it had.\<close>

theorem mixed_keepdims_gradient_fails:
  assumes "1 < n" and "0 < m" and "0 < q"
  shows "\<exists>r. ReduceSumOp_infer_shape (Some [0, 1]) (Some [True, False]) [[n, m, q]] = Inr r \<and>
     red_shape r = [1, q] \<and>
     BroadcastShapeOp_infer_shape (Some (red_grad_target r)) (Some (red_grad_add_axes r)) [red_shape r] =
       Inl AssertionError"
  using assms
  by (simp add: ReduceSumOp_infer_shape_def reduce_infer_def reduce_shape_def mark_axes_def
      drop_marked_def dropped_axes_def BroadcastShapeOp_infer_shape_def)

theorem mixed_keepdims_gradient_fails_witness:
  "\<exists>r. ReduceSumOp_infer_shape (Some [0, 1]) (Some [True, False]) [[2, 3, 4]] = Inr r \<and>
     red_shape r = [1, 4] \<and>
     BroadcastShapeOp_infer_shape (Some (red_grad_target r)) (Some (red_grad_add_axes r)) [red_shape r] =
       Inl AssertionError"
  by (rule mixed_keepdims_gradient_fails) simp_all

lemma add_diagonals_eq: "2 * add_diagonals k b c = 2 * c + 2 * int k * b - int k * (int k - 1)"
  by (induction k arbitrary: b c) (auto simp: algebra_simps)

lemma remove_diagonals_eq: "2 * remove_diagonals k b c = 2 * c - 2 * int k * b + int k * (int k - 1)"
proof (induction k arbitrary: b c)
  case (Suc k)
  from Suc.IH [of "b - 1" "c - b"] show ?case by (simp add: algebra_simps)
qed simp

text \<open>The triangle lookup and its gradient agree on shapes for every diagonal offset: from the
  number of looked-up entries the gradient recovers the side of the square, provided the
  rounded square root is exact on the numbers \<open>m * (m + 1)\<close>.\<close>

theorem tril_gradient_restores_shape:
  assumes "\<And>m. 0 \<le> m \<Longrightarrow> half_root (m * (m + 1)) = m" and "0 < n"
    and "TrilLookupOp_infer_shape offset [pre @ [n, n]] = Inr t"
  shows "TrilLookupGradientOp_infer_shape half_root offset [t] = Inr (pre @ [n, n])"
proof -
  let ?c = "n * (n + 1) div 2"
  have c: "2 * ?c = n * (n + 1)" by simp
  have off: "- (n - 1) \<le> offset" "offset \<le> n - 1" and t: "t = pre @
      [if 0 < offset then add_diagonals (nat offset) (n - 1) ?c
       else if offset < 0 then remove_diagonals (nat (- offset)) n ?c else ?c]"
    using assms(3) by (simp_all add: TrilLookupOp_infer_shape_def Let_def assertE_Inr_iff butlast_append)
  have "get_prev_dim half_root offset (last t) = n"
  proof (cases "0 < offset")
    case True
    have "2 * offset * (offset + 1) + 2 * add_diagonals (nat offset) (n - 1) ?c = (n + offset) * (n + offset + 1)"
      unfolding add_diagonals_eq c using True by (simp add: algebra_simps)
    with True assms(1) [of "n + offset"] assms(2) show ?thesis by (simp add: get_prev_dim_def t)
  next
    case False
    have "2 * (if offset < 0 then remove_diagonals (nat (- offset)) n ?c else ?c) = (n + offset) * (n + offset + 1)"
      using False c by (auto simp: remove_diagonals_eq algebra_simps)
    with False assms(1) [of "n + offset"] off show ?thesis by (simp add: get_prev_dim_def t)
  qed
  then show ?thesis by (simp add: TrilLookupGradientOp_infer_shape_def t)
qed

definition real_half_root :: "int \<Rightarrow> int" where
  "real_half_root z = round (sqrt (of_int z + 1 / 4) - 1 / 2)"

lemma real_half_root_exact: "0 \<le> m \<Longrightarrow> real_half_root (m * (m + 1)) = m"
proof -
  assume m: "0 \<le> m"
  have "of_int (m * (m + 1)) + 1 / 4 = (of_int m + 1 / 2 :: real)\<^sup>2"
    by (simp add: power2_eq_square algebra_simps)
  then have "sqrt (of_int (m * (m + 1)) + 1 / 4) = of_int m + 1 / 2"
    using m by (simp add: real_sqrt_unique)
  then show ?thesis by (simp add: real_half_root_def)
qed

theorem tril_gradient_restores_shape_witness:
  "TrilLookupOp_infer_shape 1 [[5, 4, 4]] = Inr [5, 13] \<and>
   TrilLookupGradientOp_infer_shape real_half_root 1 [[5, 13]] = Inr ([5] @ [4, 4])"
proof -
  have "TrilLookupOp_infer_shape 1 [[5] @ [4, 4]] = Inr [5, 13]" by code_simp
  with tril_gradient_restores_shape [OF real_half_root_exact _ this] show ?thesis by simp
qed

end
