(* ===== verification/ShapeAlgebra.thy ===== *)
theory ShapeAlgebra imports ShapeMoves begin

text \<open>
  Shape inference of the arithmetic operators of \<open>hetu/v1/python/hetu/gpu_ops\<close>: elementwise
  operators and their broadcasting, matrix products, convolutions and pooling, lookups,
  losses, selections and the operators of the mixture-of-experts layers, with the gradients of
  the matrix products.
\<close>

section \<open>Elementwise operators\<close>

definition inp :: "shape list \<Rightarrow> nat \<Rightarrow> shape result" where
  "inp shapes i = py_nth shapes (int i)"

text \<open>Exactly \<open>k\<close> inputs; the output has the shape of input \<open>i\<close>.\<close>

definition same_shape :: "nat \<Rightarrow> nat \<Rightarrow> shape list \<Rightarrow> shape result" where
  "same_shape k i shapes = assertE (length shapes = k) (inp shapes i)"

definition equal_shapes :: "shape list \<Rightarrow> shape result" where
  "equal_shapes shapes = (case shapes of [a, b] \<Rightarrow> assertE (a = b) (Inr a) | _ \<Rightarrow> Inl AssertionError)"

datatype add_kernel = AddConst | AddLazy | AddSimple | BroadcastTo0 | BroadcastTo1

text \<open>
  The comparison loop of \<open>AddOp\<close>. The index into the longer shape may be negative and then
  counts from its end, as in the source.
\<close>

definition add_compatible :: "shape \<Rightarrow> shape \<Rightarrow> unit result" where
  "add_compatible short long =
     bindE (mapE (\<lambda>i. if short ! i = 1 then Inr ()
                     else bindE (py_nth long (int (length long) - int (length short) + int i)) (\<lambda>n.
                            assertE (short ! i = n) (Inr ())))
              [0..<length short]) (\<lambda>_. Inr ())"

definition AddOp_infer_shape :: "bool \<Rightarrow> bool \<Rightarrow> shape list \<Rightarrow> (shape \<times> add_kernel) result" where
  "AddOp_infer_shape inplace0 inplace1 shapes =
     (case shapes of
        [a, b] \<Rightarrow>
          (let no_broadcast = (a = b); has_const = (a = [1] \<or> b = [1]) in
           if no_broadcast then
             Inr (a, if has_const then AddConst else if inplace0 \<or> inplace1 then AddLazy else AddSimple)
           else if \<not> has_const then
             (if shape_size b < shape_size a
              then bindE (add_compatible b a) (\<lambda>_. Inr (a, BroadcastTo0))
              else bindE (add_compatible a b) (\<lambda>_. Inr (b, BroadcastTo1)))
           else Inl AssertionError)
      | _ \<Rightarrow> Inl AssertionError)"

text \<open>\<open>AddOp.gradient\<close>: both inputs get the gradient of the output, of the output's shape.\<close>

definition AddOp_gradient_shapes :: "shape \<Rightarrow> shape list" where
  "AddOp_gradient_shapes output_grad = [output_grad, output_grad]"

definition MulOp_infer_shape :: "shape list \<Rightarrow> shape result" where
  "MulOp_infer_shape shapes =
     (case shapes of
        [a, b] \<Rightarrow> if a = b then Inr a else if a = [1] then Inr b else if b = [1] then Inr a
                  else Inl AssertionError
      | _ \<Rightarrow> Inl AssertionError)"

definition DivOp_infer_shape where "DivOp_infer_shape = equal_shapes"
definition DivHandleZeroOp_infer_shape where "DivHandleZeroOp_infer_shape = equal_shapes"
definition MinusOp_infer_shape where "MinusOp_infer_shape = equal_shapes"
definition MaskedFillOp_infer_shape where "MaskedFillOp_infer_shape = equal_shapes"
definition BinaryCrossEntropyWithLogitsOp_infer_shape where
  "BinaryCrossEntropyWithLogitsOp_infer_shape = equal_shapes"
definition WhereConstOp_infer_shape where "WhereConstOp_infer_shape = equal_shapes"

definition equal_shapes3 :: "shape list \<Rightarrow> shape result" where
  "equal_shapes3 shapes =
     (case shapes of [a, b, c] \<Rightarrow> assertE (a = b \<and> b = c) (Inr a) | _ \<Rightarrow> Inl AssertionError)"

definition BinaryCrossEntropyWithLogitsGradientOp_infer_shape where
  "BinaryCrossEntropyWithLogitsGradientOp_infer_shape = equal_shapes3"
definition WhereOp_infer_shape where "WhereOp_infer_shape = equal_shapes3"

text \<open>
  \<open>SumOp\<close> aligns shapes at their last dimension and takes the larger size in each place.
\<close>

fun max_aligned :: "shape \<Rightarrow> shape \<Rightarrow> shape" where
  "max_aligned (a # as) (b # bs) = max a b # max_aligned as bs"
| "max_aligned as [] = as"
| "max_aligned [] bs = bs"

definition sum_step :: "shape \<Rightarrow> shape \<Rightarrow> shape" where
  "sum_step res s =
     (if s = res then res else if res = [1] then s else if s = [1] then res
      else rev (max_aligned (rev res) (rev s)))"

definition sum_shapes :: "nat \<Rightarrow> shape list \<Rightarrow> shape result" where
  "sum_shapes n_inputs shapes =
     assertE (length shapes = n_inputs)
       (case shapes of [] \<Rightarrow> Inl IndexError | s # ss \<Rightarrow> Inr (foldl sum_step s ss))"

datatype sum_callback = ConstCallback | BroadcastCallback | LazyCallback | SimpleCallback | Undecided

definition sum_callback_of :: "shape \<Rightarrow> bool \<Rightarrow> bool \<Rightarrow> shape \<Rightarrow> sum_callback" where
  "sum_callback_of result need_deduce inplace s =
     (if \<not> need_deduce then Undecided
      else if s = [1] then ConstCallback
      else if s \<noteq> result then BroadcastCallback
      else if inplace then LazyCallback else SimpleCallback)"

definition SumOp_infer_shape ::
  "bool list option \<Rightarrow> bool list \<Rightarrow> shape list \<Rightarrow> (shape \<times> sum_callback list) result" where
  "SumOp_infer_shape need_deduce inplace shapes =
     bindE (sum_shapes (length inplace) shapes) (\<lambda>r.
       Inr (r, case need_deduce of
                 None \<Rightarrow> replicate (length inplace) SimpleCallback
               | Some nd \<Rightarrow> map (\<lambda>(s, d, i). sum_callback_of r d i s) (zip shapes (zip nd inplace))))"

definition SparseSumOp_infer_shape :: "nat \<Rightarrow> shape list \<Rightarrow> shape result" where
  "SparseSumOp_infer_shape = sum_shapes"

definition BoolMatrixOp_infer_shape :: "shape list \<Rightarrow> shape result" where
  "BoolMatrixOp_infer_shape shapes =
     (case shapes of
        [a, b] \<Rightarrow>
          if length a = length b then assertE (a = b) (Inr a)
          else assertE (length a = 1) (assertE (length b = 2)
                 (assertE (b ! 1 = 1) (assertE (a ! 0 = b ! 0) (Inr [a ! 0, a ! 0]))))
      | _ \<Rightarrow> Inl AssertionError)"

section \<open>Matrix products\<close>

definition bit :: "bool \<Rightarrow> int" where
  "bit b = (if b then 1 else 0)"

definition MatMulOp_infer_shape :: "bool \<Rightarrow> bool \<Rightarrow> shape list \<Rightarrow> shape result" where
  "MatMulOp_infer_shape tA tB shapes =
     (case shapes of
        [A, B] \<Rightarrow>
          bindE (py_nth A (1 - bit tA)) (\<lambda>x. bindE (py_nth B (bit tB)) (\<lambda>y.
          assertE (x = y)
            (bindE (py_nth A (bit tA)) (\<lambda>m. bindE (py_nth B (1 - bit tB)) (\<lambda>n. Inr [m, n])))))
      | _ \<Rightarrow> Inl AssertionError)"

text \<open>The gradients of a product: transposition flags and operands of the two new products.\<close>

datatype operand = OutGrad | InA | InB

definition MatMulOp_gradient ::
  "bool \<Rightarrow> bool \<Rightarrow> (bool \<times> bool \<times> operand \<times> operand) \<times> (bool \<times> bool \<times> operand \<times> operand)" where
  "MatMulOp_gradient tA tB =
     (if \<not> tA \<and> \<not> tB then ((False, True, OutGrad, InB), (True, False, InA, OutGrad))
      else if tA \<and> \<not> tB then ((False, True, InB, OutGrad), (False, False, InA, OutGrad))
      else if \<not> tA \<and> tB then ((False, False, OutGrad, InB), (True, False, OutGrad, InA))
      else ((True, True, InB, OutGrad), (True, True, OutGrad, InA)))"

definition BatchMatMulOp_gradient where "BatchMatMulOp_gradient = MatMulOp_gradient"

fun operand_shape :: "shape \<Rightarrow> shape \<Rightarrow> shape \<Rightarrow> operand \<Rightarrow> shape" where
  "operand_shape Y A B OutGrad = Y"
| "operand_shape Y A B InA = A"
| "operand_shape Y A B InB = B"

definition BatchMatMulOp_infer_shape :: "bool \<Rightarrow> bool \<Rightarrow> shape list \<Rightarrow> shape result" where
  "BatchMatMulOp_infer_shape tA tB shapes =
     (case shapes of
        [A, B] \<Rightarrow>
          assertE (length A = length B) (assertE (2 \<le> length A)
            (let n = length A; pre = take (n - 2) A in
             assertE (pre = take (n - 2) B)
               (assertE ((if tA then A ! (n - 2) else A ! (n - 1)) = (if tB then B ! (n - 1) else B ! (n - 2)))
                 (Inr (pre @ [if tA then A ! (n - 1) else A ! (n - 2),
                              if tB then B ! (n - 2) else B ! (n - 1)])))))
      | _ \<Rightarrow> Inl AssertionError)"

definition LinearOp_infer_shape :: "bool \<Rightarrow> bool \<Rightarrow> shape list \<Rightarrow> shape result" where
  "LinearOp_infer_shape tA tB shapes =
     (case shapes of
        [A, B, bias] \<Rightarrow>
          assertE (length A = 2 \<and> length B = 2) (assertE (length bias = 1)
            (let m = (if tA then A ! 1 else A ! 0); n = (if tB then B ! 0 else B ! 1) in
             assertE (bias = [n]) (Inr [m, n])))
      | _ \<Rightarrow> Inl AssertionError)"

text \<open>\<open>AddmmOp\<close>: the output shape, and the strides and dimensions for a vector addend.\<close>

definition AddmmOp_infer_shape :: "shape list \<Rightarrow> (shape \<times> (int list \<times> int list) option) result" where
  "AddmmOp_infer_shape shapes =
     (case shapes of
        [a, b, c] \<Rightarrow>
          assertE (length b = 2) (assertE (length c = 2) (assertE (b ! 1 = c ! 0)
            (let out = [b ! 0, c ! 1] in
             if length a = 1 then assertE (a ! 0 = c ! 1) (Inr (out, Some ([c ! 1, 1], [1, c ! 1])))
             else assertE (length a = 2) (assertE (a ! 0 = b ! 0) (assertE (a ! 1 = c ! 1) (Inr (out, None)))))))
      | _ \<Rightarrow> Inl AssertionError)"

definition AddmmGradientOp_infer_shape :: "shape list \<Rightarrow> (shape \<times> bool) result" where
  "AddmmGradientOp_infer_shape shapes =
     (case shapes of
        [a, g] \<Rightarrow>
          assertE (length g = 2)
            (if length a = 1 then assertE (a ! 0 = g ! 1) (Inr (a, True))
             else assertE (length a = 2) (assertE (a ! 0 = g ! 0) (assertE (a ! 1 = g ! 1) (Inr (a, False)))))
      | _ \<Rightarrow> Inl AssertionError)"

definition CsrmvOp_infer_shape :: "bool \<Rightarrow> shape list \<Rightarrow> shape result" where
  "CsrmvOp_infer_shape tA shapes =
     (case shapes of
        [A, B] \<Rightarrow>
          assertE (length A = 2 \<and> length B = 1)
            (assertE ((if tA then A ! 0 else A ! 1) = B ! 0) (Inr [if tA then A ! 1 else A ! 0]))
      | _ \<Rightarrow> Inl AssertionError)"

definition CsrmmOp_infer_shape :: "bool \<Rightarrow> bool \<Rightarrow> shape list \<Rightarrow> shape result" where
  "CsrmmOp_infer_shape tA tB shapes =
     (case shapes of
        [A, B] \<Rightarrow>
          assertE (length A = 2 \<and> length B = 2)
            (assertE ((if tA then A ! 0 else A ! 1) = (if tB then B ! 1 else B ! 0))
              (Inr [if tA then A ! 1 else A ! 0, if tB then B ! 0 else B ! 1]))
      | _ \<Rightarrow> Inl AssertionError)"

definition DistGCN_15dOp_infer_shape :: "int \<Rightarrow> bool \<Rightarrow> shape list \<Rightarrow> shape result" where
  "DistGCN_15dOp_infer_shape node_count need_W shapes =
     (case shapes of
        [A, H, W] \<Rightarrow>
          bindE (py_nth H 1) (\<lambda>h. bindE (py_nth W 1) (\<lambda>w. Inr [node_count, if need_W then w else h]))
      | _ \<Rightarrow> Inl AssertionError)"

section \<open>Convolution and pooling\<close>

definition window_count :: "int \<Rightarrow> int \<Rightarrow> int \<Rightarrow> int \<Rightarrow> int result" where
  "window_count extent padding win stride =
     (if stride = 0 then Inl ZeroDivisionError
      else Inr ((extent + 2 * padding - win) div stride + 1))"

definition conv_out ::
  "int \<times> int \<Rightarrow> int \<times> int \<Rightarrow> shape \<Rightarrow> shape \<Rightarrow> shape result" where
  "conv_out padding stride x f =
     (case (x, f) of
        ([N, c, H, W], [O', c', fH, fW]) \<Rightarrow>
          bindE (window_count H (fst padding) fH (fst stride)) (\<lambda>h.
          bindE (window_count W (snd padding) fW (snd stride)) (\<lambda>w. Inr [N, O', h, w]))
      | _ \<Rightarrow> Inl ValueError)"

definition Conv2dOp_infer_shape :: "int \<times> int \<Rightarrow> int \<times> int \<Rightarrow> shape list \<Rightarrow> shape result" where
  "Conv2dOp_infer_shape padding stride shapes =
     (case shapes of [x, f] \<Rightarrow> conv_out padding stride x f | _ \<Rightarrow> Inl AssertionError)"

definition Conv2dAddBiasOp_infer_shape :: "int \<times> int \<Rightarrow> int \<times> int \<Rightarrow> shape list \<Rightarrow> shape result" where
  "Conv2dAddBiasOp_infer_shape padding stride shapes =
     (case shapes of
        [x, f, b] \<Rightarrow>
          if length x \<noteq> 4 \<or> length f \<noteq> 4 then Inl ValueError
          else assertE (length b = 1 \<and> b ! 0 = f ! 0) (conv_out padding stride x f)
      | _ \<Rightarrow> Inl AssertionError)"

text \<open>The extent of the data that \<open>Conv2d_Gradient_of_DataOp\<close> computes on the CPU.\<close>

definition conv_data_extent :: "int \<Rightarrow> int \<Rightarrow> int \<Rightarrow> int \<Rightarrow> int" where
  "conv_data_extent out stride win padding = (out - 1) * stride + win - 2 * padding"

definition pool_out :: "int \<Rightarrow> int \<Rightarrow> int \<Rightarrow> int \<Rightarrow> shape list \<Rightarrow> shape result" where
  "pool_out padding kernel_H kernel_W stride shapes =
     (case shapes of
        [[N, C, H, W]] \<Rightarrow>
          bindE (window_count H padding kernel_H stride) (\<lambda>h.
          bindE (window_count W padding kernel_W stride) (\<lambda>w. Inr [N, C, h, w]))
      | [s] \<Rightarrow> Inl ValueError
      | _ \<Rightarrow> Inl AssertionError)"

definition Avg_Pool2dOp_infer_shape where "Avg_Pool2dOp_infer_shape = pool_out"
definition Max_Pool2dOp_infer_shape where "Max_Pool2dOp_infer_shape = pool_out"

definition Conv2d_ReduceSumOp_infer_shape :: "shape list \<Rightarrow> shape result" where
  "Conv2d_ReduceSumOp_infer_shape shapes =
     (case shapes of [s] \<Rightarrow> bindE (py_nth s 1) (\<lambda>c. Inr [c]) | _ \<Rightarrow> Inl AssertionError)"

text \<open>
  \<open>InterpolateOp\<close>: \<open>scale f n\<close> stands for \<open>int(n * f)\<close>. With a pair of factors the source
  scales both extents with the first.
\<close>

datatype 'f scale_factor = Uniform 'f | PerAxis "'f list"

definition InterpolateOp_infer_shape ::
  "('f \<Rightarrow> int \<Rightarrow> int) \<Rightarrow> shape option \<Rightarrow> 'f scale_factor \<Rightarrow> shape list \<Rightarrow> shape result" where
  "InterpolateOp_infer_shape scale sz factor shapes =
     bindE (inp shapes 0) (\<lambda>s.
       case s of
         [N, C, H, W] \<Rightarrow>
           (case sz of
              Some hw \<Rightarrow> assertE (length hw = 2) (Inr ([N, C] @ hw))
            | None \<Rightarrow>
                (case factor of
                   PerAxis fs \<Rightarrow> assertE (length fs = 2) (Inr [N, C, scale (fs ! 0) H, scale (fs ! 0) W])
                 | Uniform f \<Rightarrow> Inr [N, C, scale f H, scale f W]))
       | _ \<Rightarrow> Inl ValueError)"

section \<open>Lookups, losses and selections\<close>

definition lookup_out :: "shape \<Rightarrow> shape \<Rightarrow> (shape \<times> shape) result" where
  "lookup_out table ids = bindE (py_nth table 1) (\<lambda>w. Inr (ids @ [w], table))"

text \<open>The second component is the table's shape, which the gradient node gets.\<close>

definition EmbeddingLookUp_infer_shape :: "shape list \<Rightarrow> (shape \<times> shape) result" where
  "EmbeddingLookUp_infer_shape shapes =
     (case shapes of [t, i] \<Rightarrow> lookup_out t i | _ \<Rightarrow> Inl AssertionError)"

definition UnifiedQuantizedEmbeddingLookUpOp_infer_shape where
  "UnifiedQuantizedEmbeddingLookUpOp_infer_shape = EmbeddingLookUp_infer_shape"

definition lookup3 :: "shape list \<Rightarrow> (shape \<times> shape) result" where
  "lookup3 shapes = (case shapes of [t, i, q] \<Rightarrow> lookup_out t i | _ \<Rightarrow> Inl AssertionError)"

definition ALPTEmbeddingLookUpOp_infer_shape where "ALPTEmbeddingLookUpOp_infer_shape = lookup3"
definition QuantizedEmbeddingLookUpOp_infer_shape where "QuantizedEmbeddingLookUpOp_infer_shape = lookup3"

definition SparseEmbeddingLookUp_infer_shape :: "shape list \<Rightarrow> shape result" where
  "SparseEmbeddingLookUp_infer_shape shapes = bindE (EmbeddingLookUp_infer_shape shapes) (\<lambda>r. Inr (fst r))"

text \<open>The workspace of the lookup's gradient: \<open>workspace\<close> is the size the GPU library asks for.\<close>

definition EmbeddingLookUp_Gradient_infer_shape ::
  "(int \<Rightarrow> int) \<Rightarrow> bool \<Rightarrow> shape option \<Rightarrow> shape option \<Rightarrow> shape list \<Rightarrow> (shape \<times> (int \<times> int) option) result" where
  "EmbeddingLookUp_Gradient_infer_shape workspace on_gpu embed_shape index_shape shapes =
     (case embed_shape of
        None \<Rightarrow> Inl AssertionError
      | Some [] \<Rightarrow> Inl AssertionError
      | Some e \<Rightarrow>
          if \<not> on_gpu then Inr (e, None)
          else bindE (case index_shape of None \<Rightarrow> inp shapes 1 | Some s \<Rightarrow> Inr s) (\<lambda>ind.
                 let ind_size = shape_size ind; ws = workspace ind_size
                 in Inr (e, Some (2 * ind_size + 2 + (ws + 3) div 4, ws))))"

definition OneHotOp_infer_shape :: "int \<Rightarrow> shape list \<Rightarrow> shape result" where
  "OneHotOp_infer_shape num_classes shapes =
     (case shapes of [s] \<Rightarrow> Inr (s @ [num_classes]) | _ \<Rightarrow> Inl AssertionError)"

definition CompoHashOp_infer_shape where "CompoHashOp_infer_shape = OneHotOp_infer_shape"

definition RobeHashOp_infer_shape :: "int \<Rightarrow> shape list \<Rightarrow> shape result" where
  "RobeHashOp_infer_shape dim shapes =
     (case shapes of [a, b] \<Rightarrow> assertE (length a = 2) (Inr (a @ [dim])) | _ \<Rightarrow> Inl AssertionError)"

definition RobeSignOp_infer_shape where "RobeSignOp_infer_shape = RobeHashOp_infer_shape"

definition LearnHashOp_infer_shape :: "shape list \<Rightarrow> shape result" where
  "LearnHashOp_infer_shape shapes =
     (case shapes of
        [a, b, c, d] \<Rightarrow> assertE (b = c \<and> c = d) (bindE (py_nth b 0) (\<lambda>n. Inr (a @ [n])))
      | _ \<Rightarrow> Inl AssertionError)"

definition CrossEntropyOp_infer_shape :: "shape list \<Rightarrow> shape result" where
  "CrossEntropyOp_infer_shape shapes =
     (case shapes of [a, b] \<Rightarrow> assertE (2 \<le> length a) (Inr (butlast a)) | _ \<Rightarrow> Inl AssertionError)"

definition SoftmaxCrossEntropyOp_infer_shape where
  "SoftmaxCrossEntropyOp_infer_shape = CrossEntropyOp_infer_shape"

definition CrossEntropySparseOp_infer_shape :: "shape list \<Rightarrow> shape result" where
  "CrossEntropySparseOp_infer_shape shapes =
     (case shapes of
        [a, b] \<Rightarrow> assertE (2 \<le> length a) (assertE (butlast a = b) (Inr (butlast a)))
      | _ \<Rightarrow> Inl AssertionError)"

definition SoftmaxCrossEntropySparseOp_infer_shape where
  "SoftmaxCrossEntropySparseOp_infer_shape = CrossEntropySparseOp_infer_shape"

definition BinaryCrossEntropyOp_infer_shape :: "shape list \<Rightarrow> shape result" where
  "BinaryCrossEntropyOp_infer_shape shapes =
     (case shapes of [a, b] \<Rightarrow> assertE (2 \<le> length a) (Inr a) | _ \<Rightarrow> Inl AssertionError)"

definition Layer_NormalizationOp_infer_shape :: "shape list \<Rightarrow> shape result" where
  "Layer_NormalizationOp_infer_shape shapes =
     (case shapes of
        [x, scale, bias] \<Rightarrow>
          assertE (length scale = 1 \<and> length bias = 1)
            (bindE (py_nth x (-1)) (\<lambda>n. assertE (n = scale ! 0 \<and> scale ! 0 = bias ! 0) (Inr x)))
      | _ \<Rightarrow> Inl AssertionError)"

definition drop_dim :: "int \<Rightarrow> shape \<Rightarrow> shape" where
  "drop_dim dim s = map (\<lambda>i. s ! i) (filter (\<lambda>i. int i \<noteq> dim) [0..<length s])"

definition ArgmaxOp_infer_shape :: "int \<Rightarrow> shape list \<Rightarrow> shape result" where
  "ArgmaxOp_infer_shape dim shapes =
     (case shapes of
        [s] \<Rightarrow> Inr (if length s = 1 then [1] else drop_dim dim s)
      | _ \<Rightarrow> Inl AssertionError)"

definition ArgmaxPartialOp_infer_shape :: "int \<Rightarrow> int \<Rightarrow> shape list \<Rightarrow> shape result" where
  "ArgmaxPartialOp_infer_shape dim topk shapes =
     (case shapes of
        [s, m] \<Rightarrow>
          assertE (length m = 1)
            (bindE (py_nth s 0) (\<lambda>n. assertE (n = m ! 0)
               (if length s = 1 then Inr [1]
                else assertE (list_all (\<lambda>i. int i = dim \<longrightarrow> topk < s ! i) [0..<length s]) (Inr (drop_dim dim s)))))
      | _ \<Rightarrow> Inl AssertionError)"

definition max_out :: "nat \<Rightarrow> int \<Rightarrow> shape list \<Rightarrow> shape result" where
  "max_out n_inputs dim shapes =
     bindE (inp shapes 0) (\<lambda>s. Inr (if n_inputs = 2 then s else drop_dim dim s))"

definition MaxOp_infer_shape where "MaxOp_infer_shape = max_out"
definition MinOp_infer_shape where "MinOp_infer_shape = max_out"

text \<open>\<open>NormOp\<close> and \<open>GatherOp\<close> make a negative axis positive for later calls.\<close>

definition NormOp_infer_shape :: "int \<Rightarrow> bool \<Rightarrow> shape list \<Rightarrow> (shape \<times> int) result" where
  "NormOp_infer_shape axis keepdims shapes =
     (case shapes of
        [s] \<Rightarrow>
          (let ax = (if axis < 0 then axis + int (length s) else axis) in
           assertE (0 \<le> ax \<and> ax < int (length s))
             (Inr (if keepdims then s[nat ax := 1] else drop_dim ax s, ax)))
      | _ \<Rightarrow> Inl AssertionError)"

definition NormGradientOp_infer_shape :: "int \<Rightarrow> shape list \<Rightarrow> (shape \<times> int) result" where
  "NormGradientOp_infer_shape axis shapes =
     (case shapes of
        [s, a, b] \<Rightarrow> Inr (s, if axis < 0 then axis + int (length s) else axis)
      | _ \<Rightarrow> Inl AssertionError)"

definition GatherOp_infer_shape :: "int \<Rightarrow> shape list \<Rightarrow> (shape \<times> int) result" where
  "GatherOp_infer_shape dim shapes =
     (case shapes of
        [a, b] \<Rightarrow>
          assertE (length a = length b)
            (assertE (dim < int (length a) \<and> - int (length a) \<le> dim)
              (Inr (b, if dim < 0 then dim + int (length a) else dim)))
      | _ \<Rightarrow> Inl AssertionError)"

definition GatherGradientOp_infer_shape :: "int \<Rightarrow> shape list \<Rightarrow> (shape \<times> int) result" where
  "GatherGradientOp_infer_shape dim shapes =
     (case shapes of
        [a, b, c] \<Rightarrow>
          assertE (length a = length b) (assertE (length a = length c)
            (assertE (dim < int (length b) \<and> - int (length b) \<le> dim)
              (Inr (a, if dim < 0 then dim + int (length b) else dim))))
      | _ \<Rightarrow> Inl AssertionError)"

definition SliceByMatrixOp_infer_shape :: "shape list \<Rightarrow> shape result" where
  "SliceByMatrixOp_infer_shape shapes =
     (case shapes of
        [x, a, b] \<Rightarrow>
          bindE (py_nth a 0) (\<lambda>m. bindE (py_nth b 0) (\<lambda>n.
            assertE (m = n) (bindE (py_nth x 2) (\<lambda>w. Inr [m, w]))))
      | _ \<Rightarrow> Inl AssertionError)"

definition TopKIdxOp_infer_shape :: "int \<Rightarrow> shape list \<Rightarrow> shape result" where
  "TopKIdxOp_infer_shape k shapes =
     (case shapes of [s] \<Rightarrow> bindE (py_nth s 0) (\<lambda>n. Inr [n, k]) | _ \<Rightarrow> Inl AssertionError)"

definition SamGroupSumOp_infer_shape where "SamGroupSumOp_infer_shape = TopKIdxOp_infer_shape"

definition GroupTopKIdxOp_infer_shape :: "int \<Rightarrow> shape list \<Rightarrow> shape result" where
  "GroupTopKIdxOp_infer_shape k shapes =
     (case shapes of [s, t] \<Rightarrow> bindE (py_nth s 0) (\<lambda>n. Inr [n, k]) | _ \<Rightarrow> Inl AssertionError)"

definition BalanceAssignmentOp_infer_shape :: "shape list \<Rightarrow> shape result" where
  "BalanceAssignmentOp_infer_shape shapes =
     (case shapes of [s] \<Rightarrow> bindE (py_nth s 0) (\<lambda>n. Inr [n]) | _ \<Rightarrow> Inl AssertionError)"

definition UniqueIndicesOffsetsOp_infer_shape :: "shape list \<Rightarrow> shape result" where
  "UniqueIndicesOffsetsOp_infer_shape shapes =
     (case shapes of [s] \<Rightarrow> Inr [2 * shape_size s + 2] | _ \<Rightarrow> Inl AssertionError)"

definition UniqueIndicesOp_infer_shape ::
  "(int \<Rightarrow> int) \<Rightarrow> bool \<Rightarrow> shape list \<Rightarrow> (shape \<times> (int \<times> int) option) result" where
  "UniqueIndicesOp_infer_shape workspace on_gpu shapes =
     (case shapes of
        [s] \<Rightarrow> (let ws = workspace (shape_size s) in
                Inr (s, if on_gpu then Some ((ws + 3) div 4, ws) else None))
      | _ \<Rightarrow> Inl AssertionError)"

definition dedup_out :: "shape list \<Rightarrow> shape result" where
  "dedup_out shapes = (case shapes of [a, b] \<Rightarrow> assertE (length b = 1) (Inr a) | _ \<Rightarrow> Inl AssertionError)"

definition DedupLookupOp_infer_shape where "DedupLookupOp_infer_shape = dedup_out"
definition DedupGradOp_infer_shape where "DedupGradOp_infer_shape = dedup_out"

section \<open>Collectives and experts\<close>

definition AllGatherCommunicateOp_infer_shape :: "int \<Rightarrow> shape list \<Rightarrow> shape result" where
  "AllGatherCommunicateOp_infer_shape nrank shapes =
     bindE (inp shapes 0) (\<lambda>s. bindE (py_nth s 0) (\<lambda>n. py_update s 0 (n * nrank)))"

definition ReduceScatterCommunicateOp_infer_shape :: "int \<Rightarrow> shape list \<Rightarrow> shape result" where
  "ReduceScatterCommunicateOp_infer_shape nrank shapes =
     bindE (inp shapes 0) (\<lambda>s. bindE (py_nth s 0) (\<lambda>n.
       if nrank = 0 then Inl ZeroDivisionError else py_update s 0 (n div nrank)))"

definition ReduceCommunicateOp_infer_shape :: "int \<Rightarrow> int \<Rightarrow> shape list \<Rightarrow> shape option result" where
  "ReduceCommunicateOp_infer_shape root rank shapes =
     (if root = rank then bindE (inp shapes 0) (\<lambda>s. Inr (Some s)) else Inr None)"

text \<open>
  \<open>BroadcastCommunicateOp\<close> sends the root's shape as four numbers, padded with zeros in
  front; the receivers drop the zeros.
\<close>

definition encode_bcast_shape :: "shape \<Rightarrow> int list" where
  "encode_bcast_shape s = replicate (4 - length s) 0 @ s"

definition BroadcastCommunicateOp_infer_shape :: "shape \<Rightarrow> shape" where
  "BroadcastCommunicateOp_infer_shape root_shape = filter (\<lambda>x. 0 < x) (encode_bcast_shape root_shape)"

definition LayoutTransformOp_infer_shape :: "nat \<Rightarrow> int \<Rightarrow> shape list \<Rightarrow> shape result" where
  "LayoutTransformOp_infer_shape topK slots shapes =
     (if topK = 1 \<or> topK = 2
      then bindE (inp shapes 0) (\<lambda>s. bindE (py_nth s (-1)) (\<lambda>d. Inr [slots, d]))
      else Inl AssertionError)"

definition rows_cols :: "shape list \<Rightarrow> shape result" where
  "rows_cols shapes =
     bindE (inp shapes 0) (\<lambda>s. bindE (py_nth s (-1)) (\<lambda>d.
     bindE (inp shapes 1) (\<lambda>t. bindE (py_nth t 0) (\<lambda>n. Inr [n, d]))))"

definition LayoutTransformGradientOp_infer_shape where "LayoutTransformGradientOp_infer_shape = rows_cols"

definition ReverseLayoutTransformOp_infer_shape :: "nat \<Rightarrow> shape list \<Rightarrow> shape result" where
  "ReverseLayoutTransformOp_infer_shape topK shapes =
     (if topK = 1 \<or> topK = 2 then rows_cols shapes else Inl AssertionError)"

definition ReverseLayoutTransformNoGateOp_infer_shape where
  "ReverseLayoutTransformNoGateOp_infer_shape = rows_cols"

definition ReverseLayoutTransformGradientDataOp_infer_shape :: "int \<Rightarrow> shape list \<Rightarrow> shape result" where
  "ReverseLayoutTransformGradientDataOp_infer_shape slots shapes =
     bindE (inp shapes 0) (\<lambda>s. bindE (py_nth s (-1)) (\<lambda>d. Inr [slots, d]))"

definition ReverseLayoutTransformNoGateGradientOp_infer_shape where
  "ReverseLayoutTransformNoGateGradientOp_infer_shape = ReverseLayoutTransformGradientDataOp_infer_shape"

definition PlaceholderOp_infer_shape :: "shape option \<Rightarrow> shape list \<Rightarrow> shape result" where
  "PlaceholderOp_infer_shape sh shapes =
     (case sh of None \<Rightarrow> Inl AssertionError | Some [] \<Rightarrow> Inl AssertionError | Some s \<Rightarrow> Inr s)"

section \<open>The gradients of products\<close>

lemma batch_shape_split:
  "BatchMatMulOp_infer_shape tA tB [pre @ [a0, a1], pre @ [b0, b1]] =
     assertE ((if tA then a0 else a1) = (if tB then b1 else b0))
       (Inr (pre @ [if tA then a1 else a0, if tB then b0 else b1]))"
proof -
  have n: "Suc (Suc (length pre)) - 2 = length pre" "Suc (Suc (length pre)) - 1 = Suc (length pre)"
    by simp_all
  have at: "(pre @ [x, y]) ! length pre = x" "(pre @ [x, y]) ! Suc (length pre) = y" for x y :: int
    by (simp_all add: nth_append)
  show ?thesis
    by (simp add: BatchMatMulOp_infer_shape_def n at del: diff_Suc_1)
qed

lemma length_two: "length xs = 2 \<longleftrightarrow> (\<exists>a b. xs = [a, b])"
  by (auto simp: numeral_2_eq_2 length_Suc_conv)

lemma split_last_two:
  assumes "2 \<le> length xs"
  obtains a b where "xs = take (length xs - 2) xs @ [a, b]"
proof -
  have "length (drop (length xs - 2) xs) = 2" using assms by simp
  then obtain a b where "drop (length xs - 2) xs = [a, b]"
    unfolding length_two by blast
  then show thesis using that append_take_drop_id [of "length xs - 2" xs] by metis
qed

lemma batch_shape_elim:
  assumes "BatchMatMulOp_infer_shape tA tB [A, B] = Inr Y"
  obtains pre a0 a1 b0 b1 where "A = pre @ [a0, a1]" and "B = pre @ [b0, b1]"
    and "(if tA then a0 else a1) = (if tB then b1 else b0)"
    and "Y = pre @ [if tA then a1 else a0, if tB then b0 else b1]"
proof -
  from assms have len: "length A = length B" "2 \<le> length A"
    and pre: "take (length A - 2) A = take (length A - 2) B"
    by (auto simp: BatchMatMulOp_infer_shape_def assertE_Inr_iff Let_def)
  let ?p = "take (length A - 2) A"
  obtain a0 a1 where A: "A = ?p @ [a0, a1]" using split_last_two len(2) by blast
  obtain b0 b1 where B: "B = ?p @ [b0, b1]" using split_last_two [of B] len pre by metis
  have "BatchMatMulOp_infer_shape tA tB [?p @ [a0, a1], ?p @ [b0, b1]] = Inr Y"
    using assms A B by simp
  then show thesis
    using that [OF A B] by (simp only: batch_shape_split assertE_Inr_iff sum.inject)
qed

definition product_gradient_shape ::
  "shape \<Rightarrow> shape \<Rightarrow> shape \<Rightarrow> bool \<times> bool \<times> operand \<times> operand \<Rightarrow> shape result" where
  "product_gradient_shape Y A B g =
     (case g of (ta, tb, l, r) \<Rightarrow>
        BatchMatMulOp_infer_shape ta tb [operand_shape Y A B l, operand_shape Y A B r])"

text \<open>C34: the two gradient products of a (batched) matrix product are themselves well-shaped and
  have the shapes of the first and of the second operand, for all four transposition flags.
\<close>

theorem product_gradients_have_operand_shapes:
  assumes "BatchMatMulOp_infer_shape tA tB [A, B] = Inr Y"
  shows "(product_gradient_shape Y A B (fst (BatchMatMulOp_gradient tA tB)),
          product_gradient_shape Y A B (snd (BatchMatMulOp_gradient tA tB))) = (Inr A, Inr B)"
  using assms
  by (rule batch_shape_elim, cases tA; cases tB)
     (simp_all add: product_gradient_shape_def BatchMatMulOp_gradient_def MatMulOp_gradient_def
       batch_shape_split)

theorem product_gradients_have_operand_shapes_witness:
  "(product_gradient_shape [7, 3, 5] [7, 4, 3] [7, 5, 4] (fst (BatchMatMulOp_gradient True True)),
    product_gradient_shape [7, 3, 5] [7, 4, 3] [7, 5, 4] (snd (BatchMatMulOp_gradient True True)))
   = (Inr [7, 4, 3], Inr [7, 5, 4])"
  by (rule product_gradients_have_operand_shapes) code_simp

text \<open>The plain product is the batched one without a batch, on matrices.\<close>

lemma matmul_is_batch:
  assumes "length A = 2" and "length B = 2"
  shows "MatMulOp_infer_shape tA tB [A, B] = BatchMatMulOp_infer_shape tA tB [A, B]"
proof -
  obtain a b c d where "A = [a, b]" "B = [c, d]"
    using assms unfolding length_two by blast
  then show ?thesis
    by (cases tA; cases tB)
       (simp_all add: MatMulOp_infer_shape_def BatchMatMulOp_infer_shape_def py_nth_def bit_def)
qed

section \<open>Broadcasting additions\<close>

lemma max_aligned_absorbs:
  assumes "length s \<le> length l" and "\<forall>x\<in>set l. 1 \<le> x"
    and "\<forall>i<length s. s ! i = 1 \<or> s ! i = l ! i"
  shows "max_aligned s l = l" and "max_aligned l s = l"
proof -
  have "max_aligned s l = l \<and> max_aligned l s = l"
    using assms
  proof (induction s arbitrary: l)
    case Nil then show ?case by (cases l) simp_all
  next
    case (Cons a s)
    then obtain b m where l: "l = b # m" by (cases l) auto
    have "a = 1 \<or> a = b" using Cons.prems(3) l by force
    moreover have "1 \<le> b" using Cons.prems(2) l by simp
    moreover have "max_aligned s m = m \<and> max_aligned m s = m"
      using Cons.prems l by (intro Cons.IH) force+
    ultimately show ?case using l by auto
  qed
  then show "max_aligned s l = l" and "max_aligned l s = l" by simp_all
qed

lemma add_compatible_nth:
  assumes "add_compatible s l = Inr ()" and "length s \<le> length l" and "i < length s"
  shows "rev s ! i = 1 \<or> rev s ! i = rev l ! i"
proof -
  let ?j = "length s - 1 - i"
  have j: "?j < length s" and e: "nat (int (length l) - int (length s) + int ?j) = length l - 1 - i"
    using assms(2,3) by auto
  from assms(1) j have "(if s ! ?j = 1 then Inr () else bindE (py_nth l (int (length l) - int (length s) + int ?j))
      (\<lambda>n. assertE (s ! ?j = n) (Inr ()))) = Inr ()"
    by (auto simp: add_compatible_def bindE_Inr_iff mapE_Inr_iff list_all2_conv_all_nth simp del: bindE_simps)
  then have "s ! ?j = 1 \<or> s ! ?j = l ! (length l - 1 - i)"
    using e assms(2,3) by (auto simp: bindE_Inr_iff assertE_Inr_iff py_nth_def split: if_splits)
  then show ?thesis using assms(2,3) by (simp add: rev_nth)
qed

lemma sum_step_broadcast:
  assumes "add_compatible s l = Inr ()" and "length s \<le> length l" and "\<forall>x\<in>set l. 1 \<le> x"
    and "s \<noteq> [1]" and "l \<noteq> [1]"
  shows "sum_step l s = l" and "sum_step s l = l"
proof -
  have "\<forall>i<length (rev s). rev s ! i = 1 \<or> rev s ! i = rev l ! i"
    using add_compatible_nth [OF assms(1,2)] by simp
  then have "max_aligned (rev s) (rev l) = rev l" "max_aligned (rev l) (rev s) = rev l"
    using max_aligned_absorbs [of "rev s" "rev l"] assms(2,3) by simp_all
  then show "sum_step l s = l" and "sum_step s l = l"
    using assms(4,5) by (simp_all add: sum_step_def)
qed

lemma add_shape_cases:
  assumes "AddOp_infer_shape i j [a, b] = Inr (r, k)"
  shows "a = b \<and> r = a
    \<or> a \<noteq> [1] \<and> b \<noteq> [1] \<and> r = a \<and> shape_size b < shape_size a \<and> add_compatible b a = Inr ()
    \<or> a \<noteq> [1] \<and> b \<noteq> [1] \<and> r = b \<and> shape_size a \<le> shape_size b \<and> add_compatible a b = Inr ()"
  using assms
  by (auto simp: AddOp_infer_shape_def Let_def bindE_Inr_iff split: if_splits)

text \<open>where \<open>AddOp\<close> accepts two operands and the one with more elements has at least as many
  dimensions, its output shape is the one \<open>SumOp\<close> computes for the same operands.
\<close>

theorem add_agrees_with_sum:
  assumes "AddOp_infer_shape i j [a, b] = Inr (r, k)"
    and "\<forall>x\<in>set a. 1 \<le> x" and "\<forall>x\<in>set b. 1 \<le> x"
    and "shape_size b < shape_size a \<longrightarrow> length b \<le> length a"
    and "shape_size a \<le> shape_size b \<longrightarrow> length a \<le> length b"
  shows "sum_shapes 2 [a, b] = Inr r"
proof -
  have "sum_step a b = r"
    using add_shape_cases [OF assms(1)]
  proof (elim disjE conjE)
    assume "a = b" "r = a" then show ?thesis by (simp add: sum_step_def)
  next
    assume "a \<noteq> [1]" "b \<noteq> [1]" "r = a" "shape_size b < shape_size a" "add_compatible b a = Inr ()"
    then show ?thesis using sum_step_broadcast(1) [of b a] assms(2,4) by simp
  next
    assume "a \<noteq> [1]" "b \<noteq> [1]" "r = b" "shape_size a \<le> shape_size b" "add_compatible a b = Inr ()"
    then show ?thesis using sum_step_broadcast(2) [of a b] assms(3,5) by simp
  qed
  then show ?thesis by (simp add: sum_shapes_def)
qed

theorem add_agrees_with_sum_witness:
  "sum_shapes 2 [[3, 1], [2, 3, 4]] = Inr [2, 3, 4]"
  by (rule add_agrees_with_sum [of False False _ _ _ BroadcastTo1]) (code_simp)+

text \<open>the index of the comparison in \<open>AddOp\<close> may be negative, so a single-element operand with
  three dimensions is accepted next to a vector and the output loses two dimensions, while
  \<open>SumOp\<close> keeps them.
\<close>

theorem add_loses_leading_dimensions:
  "map_sum id fst (AddOp_infer_shape False False [[1, 1, 1], [2]]) \<noteq> sum_shapes 2 [[1, 1, 1], [2]]"
  by code_simp

end
