(* ===== verification/GraphOrder.thy ===== *)
theory GraphOrder imports Complex_Main Prelude begin

text \<open>
  The computation graph of \<open>hetu/v1/python/hetu/gpu_ops/Node.py\<close> and the traversals of
  \<open>gpu_ops/executor.py\<close>: the depth-first topological sort, the traversal that runs the hooks,
  the order for inference with a parameter server, the sum of gradient contributions and the
  reordering of pipeline operators. A node is the number it got when it was created. The
  traversals take the depth of the recursion as fuel; the number of nodes is enough.
\<close>

section \<open>Graphs\<close>

datatype op_kind =
    PlaceholderOp | EmbeddingLookUp | EmbeddingLookUp_Gradient | SparseSumOp | SumOp | AddOp
  | AddByConstOp | MinusOp | ReduceMeanOp | NormalizationOp | DivConstOp | DivOp | SplitOp
  | ConcatenateOp | OptimizerOp | PipelineSendOp | PipelineReceiveOp | AllReduceCommunicateOp
  | DataH2DOp | DataD2HOp | DataD2HSparseOp | DataH2DSparseOp | ParameterServerSparsePullOp
  | DispatchOp | DispatchGradientOp | DropoutOp | StopGradientOp | DataloaderOp | MulOp | MulByConstOp | OppositeOp | PowerOp | OtherOp

record op =
  kind :: op_kind
  inputs :: "nat list"
  inplace :: bool
  use_indexed_slices :: bool

type_synonym graph = "nat \<Rightarrow> op"

definition plain_op :: "op_kind \<Rightarrow> nat list \<Rightarrow> op" where
  "plain_op k ins = \<lparr>kind = k, inputs = ins, inplace = False, use_indexed_slices = False\<rparr>"

section \<open>The depth-first topological sort\<close>

fun topo_sort_dfs :: "graph \<Rightarrow> nat \<Rightarrow> nat \<Rightarrow> nat list \<times> nat list \<Rightarrow> (nat list \<times> nat list) option"
  and topo_sort_loop :: "graph \<Rightarrow> nat \<Rightarrow> nat list \<Rightarrow> nat list \<times> nat list \<Rightarrow> (nat list \<times> nat list) option"
where
  "topo_sort_dfs g k node (visited, topo_order) =
     (if node \<in> set visited then Some (visited, topo_order)
      else case k of
             0 \<Rightarrow> None
           | Suc k' \<Rightarrow>
               (case topo_sort_loop g k' (inputs (g node)) (node # visited, topo_order) of
                  None \<Rightarrow> None
                | Some (v, t) \<Rightarrow> Some (v, t @ [node])))"
| "topo_sort_loop g k [] st = Some st"
| "topo_sort_loop g k (n # ns) st =
     (case topo_sort_dfs g k n st of None \<Rightarrow> None | Some st' \<Rightarrow> topo_sort_loop g k ns st')"

definition find_topo_sort :: "graph \<Rightarrow> nat \<Rightarrow> nat list \<Rightarrow> nat list option" where
  "find_topo_sort g fuel node_list = map_option snd (topo_sort_loop g fuel node_list ([], []))"

definition closed_graph :: "graph \<Rightarrow> nat set \<Rightarrow> bool" where
  "closed_graph g S \<longleftrightarrow> (\<forall>n \<in> S. set (inputs (g n)) \<subseteq> S)"

inductive reaches :: "graph \<Rightarrow> nat \<Rightarrow> nat \<Rightarrow> bool" for g where
  reaches_refl: "reaches g n n"
| reaches_step: "m \<in> set (inputs (g n)) \<Longrightarrow> reaches g m l \<Longrightarrow> reaches g n l"

lemma reaches_trans: "reaches g a b \<Longrightarrow> reaches g b c \<Longrightarrow> reaches g a c"
  by (induction rule: reaches.induct) (auto intro: reaches_step)

definition reached_from :: "graph \<Rightarrow> nat set \<Rightarrow> nat set" where
  "reached_from g N = {x. \<exists>n \<in> N. reaches g n x}"

lemma reached_closed:
  assumes "\<forall>x \<in> K. set (inputs (g x)) \<subseteq> K" and "N \<subseteq> K"
  shows "reached_from g N \<subseteq> K"
proof -
  have "reaches g n x \<Longrightarrow> n \<in> K \<Longrightarrow> x \<in> K" for n x
    by (induction rule: reaches.induct) (use assms(1) in auto)
  with assms(2) show ?thesis by (auto simp: reached_from_def)
qed

definition acyclic_graph :: "graph \<Rightarrow> bool" where
  "acyclic_graph g \<longleftrightarrow> (\<forall>n m. m \<in> set (inputs (g n)) \<longrightarrow> \<not> reaches g m n)"

lemma dfs_visited: "node \<in> set v \<Longrightarrow> topo_sort_dfs g k node (v, t) = Some (v, t)"
  by simp

lemma dfs_new_Some_iff:
  "node \<notin> set v \<Longrightarrow> topo_sort_dfs g k node (v, t) = Some (v', t') \<longleftrightarrow>
     (\<exists>k' u. k = Suc k' \<and> topo_sort_loop g k' (inputs (g node)) (node # v, t) = Some (v', u) \<and> t' = u @ [node])"
  by (auto split: nat.splits option.splits)

lemma dfs_new_Suc:
  "node \<notin> set v \<Longrightarrow> topo_sort_loop g k (inputs (g node)) (node # v, t) = Some r \<Longrightarrow>
   topo_sort_dfs g (Suc k) node (v, t) = Some (fst r, snd r @ [node])"
  by (cases r) simp

lemma loop_Cons_Some_iff:
  "topo_sort_loop g k (n # ns) st = Some r \<longleftrightarrow>
     (\<exists>u s. topo_sort_dfs g k n st = Some (u, s) \<and> topo_sort_loop g k ns (u, s) = Some r)"
  by (auto split: option.splits)

declare topo_sort_dfs.simps [simp del]
declare topo_sort_loop.simps(2) [simp del]

text \<open>Every visited node stays visited, and whatever is new is reachable.\<close>

lemma topo_sort_visited:
  shows "topo_sort_dfs g k node (v, t) = Some (v', t') \<Longrightarrow>
      node \<in> set v' \<and> set v \<subseteq> set v' \<and> (\<forall>x \<in> set v' - set v. reaches g node x)"
    and "topo_sort_loop g k ns (v, t) = Some (v', t') \<Longrightarrow>
      set ns \<subseteq> set v' \<and> set v \<subseteq> set v' \<and> (\<forall>x \<in> set v' - set v. \<exists>n \<in> set ns. reaches g n x)"
proof (induction g k node "(v, t)" and g k ns "(v, t)" arbitrary: v t v' t' and v t v' t'
    rule: topo_sort_dfs_topo_sort_loop.induct)
  case (1 g k node v t)
  show ?case
  proof (cases "node \<in> set v")
    case True then show ?thesis using "1.prems" by (simp add: dfs_visited)
  next
    case False
    with "1.prems" obtain k' w where k: "k = Suc k'"
      and l: "topo_sort_loop g k' (inputs (g node)) (node # v, t) = Some (v', w)"
      unfolding dfs_new_Some_iff [OF False] by blast
    from "1.hyps" [OF False k l] show ?thesis
      by (auto intro: reaches_refl reaches_step)
  qed
next
  case 2 then show ?case by simp
next
  case (3 g k n ns v t)
  then obtain u s where d: "topo_sort_dfs g k n (v, t) = Some (u, s)"
    and l: "topo_sort_loop g k ns (u, s) = Some (v', t')"
    unfolding loop_Cons_Some_iff by blast
  from "3.hyps"(1) [OF d] "3.hyps"(2) [OF d l] show ?case by auto
qed

text \<open>Fuel: the unvisited nodes of a closed set bound the depth of the recursion.\<close>

lemma topo_sort_enough_fuel:
  assumes "finite S" and "closed_graph g S"
  shows "node \<in> S \<Longrightarrow> card (S - set v) \<le> k \<Longrightarrow> \<exists>r. topo_sort_dfs g k node (v, t) = Some r"
    and "set ns \<subseteq> S \<Longrightarrow> card (S - set v) \<le> k \<Longrightarrow> \<exists>r. topo_sort_loop g k ns (v, t) = Some r"
  using assms
proof (induction g k node "(v, t)" and g k ns "(v, t)" arbitrary: v t and v t
    rule: topo_sort_dfs_topo_sort_loop.induct)
  case (1 g k node v t)
  show ?case
  proof (cases "node \<in> set v")
    case True then show ?thesis by (simp add: dfs_visited)
  next
    case False
    have "S - set (node # v) = (S - set v) - {node}" by auto
    then have c: "card (S - set v) = Suc (card (S - set (node # v)))"
      using False "1.prems"(1,3) card_Suc_Diff1 [of "S - set v" node] by simp
    with "1.prems"(2) obtain k' where k: "k = Suc k'" by (cases k) auto
    have "set (inputs (g node)) \<subseteq> S" using "1.prems"(1,4) by (auto simp: closed_graph_def)
    moreover have "card (S - set (node # v)) \<le> k'" using c k "1.prems"(2) by simp
    ultimately obtain r where "topo_sort_loop g k' (inputs (g node)) (node # v, t) = Some r"
      using "1.hyps" [OF False k] "1.prems"(3,4) by blast
    then show ?thesis using dfs_new_Suc [OF False] k by blast
  qed
next
  case 2 then show ?case by simp
next
  case (3 g k n ns v t)
  obtain u s where d: "topo_sort_dfs g k n (v, t) = Some (u, s)"
    using "3.hyps"(1) "3.prems" by auto
  have "card (S - set u) \<le> card (S - set v)"
    using topo_sort_visited(1) [OF d] "3.prems"(3) by (intro card_mono) auto
  then obtain r where "topo_sort_loop g k ns (u, s) = Some r"
    using "3.hyps"(2) [OF d] "3.prems" by auto
  with d show ?case unfolding loop_Cons_Some_iff by blast
qed

section \<open>The order is topological\<close>

definition inputs_first :: "graph \<Rightarrow> nat list \<Rightarrow> bool" where
  "inputs_first g t \<longleftrightarrow> (\<forall>i < length t. set (inputs (g (t ! i))) \<subseteq> set (take i t))"

lemma inputs_first_Nil [simp]: "inputs_first g []"
  by (simp add: inputs_first_def)

lemma inputs_first_snoc:
  "inputs_first g (t @ [n]) \<longleftrightarrow> inputs_first g t \<and> set (inputs (g n)) \<subseteq> set t"
  by (auto simp: inputs_first_def less_Suc_eq nth_append)

definition order_inv :: "graph \<Rightarrow> nat list \<Rightarrow> nat list \<Rightarrow> bool" where
  "order_inv g v t \<longleftrightarrow> set t \<subseteq> set v \<and> distinct t \<and> inputs_first g t"

text \<open>
  The visited nodes that are not in the order yet are the ones on the stack. When none of them
  can be reached, the traversal keeps the invariant, leaves the stack as it was and puts its
  nodes into the order.
\<close>

lemma topo_sort_order:
  shows "topo_sort_dfs g k node (v, t) = Some (v', t') \<Longrightarrow> acyclic_graph g \<Longrightarrow> order_inv g v t \<Longrightarrow>
      \<forall>x \<in> set v - set t. \<not> reaches g node x \<Longrightarrow>
      order_inv g v' t' \<and> set v' - set t' = set v - set t \<and> node \<in> set t' \<and> set t \<subseteq> set t'"
    and "topo_sort_loop g k ns (v, t) = Some (v', t') \<Longrightarrow> acyclic_graph g \<Longrightarrow> order_inv g v t \<Longrightarrow>
      \<forall>n \<in> set ns. \<forall>x \<in> set v - set t. \<not> reaches g n x \<Longrightarrow>
      order_inv g v' t' \<and> set v' - set t' = set v - set t \<and> set ns \<subseteq> set t' \<and> set t \<subseteq> set t'"
proof (induction g k node "(v, t)" and g k ns "(v, t)" arbitrary: v t v' t' and v t v' t'
    rule: topo_sort_dfs_topo_sort_loop.induct)
  case (1 g k node v t)
  show ?case
  proof (cases "node \<in> set v")
    case True
    then have "node \<in> set t" using "1.prems"(4) reaches_refl by blast
    with True "1.prems"(1,3) show ?thesis by (simp add: dfs_visited)
  next
    case False
    with "1.prems"(1) obtain k' u where k: "k = Suc k'" and t': "t' = u @ [node]"
      and l: "topo_sort_loop g k' (inputs (g node)) (node # v, t) = Some (v', u)"
      unfolding dfs_new_Some_iff [OF False] by blast
    have nt: "node \<notin> set t" using False "1.prems"(3) by (auto simp: order_inv_def)
    have inv: "order_inv g (node # v) t" using "1.prems"(3) by (auto simp: order_inv_def)
    have stack: "\<forall>n \<in> set (inputs (g node)). \<forall>x \<in> set (node # v) - set t. \<not> reaches g n x"
    proof (intro ballI notI)
      fix n x assume n: "n \<in> set (inputs (g node))" and x: "x \<in> set (node # v) - set t" and "reaches g n x"
      show False
      proof (cases "x = node")
        case True
        with \<open>reaches g n x\<close> have "reaches g n node" by simp
        with "1.prems"(2) n show False unfolding acyclic_graph_def by blast
      next
        case False
        then have "x \<in> set v - set t" using x by simp
        then show False using "1.prems"(4) reaches_step [OF n \<open>reaches g n x\<close>] by blast
      qed
    qed
    from "1.hyps" [OF False k l "1.prems"(2) inv stack]
    have r: "order_inv g v' u" "set v' - set u = set (node # v) - set t"
      "set (inputs (g node)) \<subseteq> set u" "set t \<subseteq> set u" by blast+
    have "node \<notin> set u" and "node \<in> set v'" using r(2) nt by auto
    moreover have "set v' - set (u @ [node]) = set v - set t" using r(2) False by auto
    ultimately show ?thesis
      using r t' by (auto simp: order_inv_def inputs_first_snoc)
  qed
next
  case 2 then show ?case by simp
next
  case (3 g k n ns v t)
  from "3.prems"(1) obtain u s where d: "topo_sort_dfs g k n (v, t) = Some (u, s)"
    and l: "topo_sort_loop g k ns (u, s) = Some (v', t')"
    unfolding loop_Cons_Some_iff by blast
  have one: "order_inv g u s" "set u - set s = set v - set t" "n \<in> set s" "set t \<subseteq> set s"
    using "3.hyps"(1) [OF d "3.prems"(2,3)] "3.prems"(4) by auto
  have "\<forall>n \<in> set ns. \<forall>x \<in> set u - set s. \<not> reaches g n x"
    using one(2) "3.prems"(4) by auto
  from "3.hyps"(2) [OF d l "3.prems"(2) one(1) this] one show ?case by auto
qed

lemma find_topo_sort_set:
  assumes "find_topo_sort g k node_list = Some t" and "acyclic_graph g"
  shows "order_inv g t t \<and> set node_list \<subseteq> set t \<and> (\<forall>x \<in> set t. \<exists>n \<in> set node_list. reaches g n x)"
proof -
  from assms(1) obtain v where l: "topo_sort_loop g k node_list ([], []) = Some (v, t)"
    by (auto simp: find_topo_sort_def)
  have "order_inv g [] []" by (simp add: order_inv_def)
  from topo_sort_order(2) [OF l assms(2) this] have r: "order_inv g v t" "set v - set t = {}"
      "set node_list \<subseteq> set t" by auto
  have "\<forall>x \<in> set t. \<exists>n \<in> set node_list. reaches g n x"
    using topo_sort_visited(2) [OF l] r(1) unfolding order_inv_def by auto
  with r show ?thesis by (auto simp: order_inv_def)
qed

lemma inputs_first_closed:
  assumes "inputs_first g t" and "n \<in> set t" and "reaches g n x"
  shows "x \<in> set t"
  using assms(3,2)
proof (induction rule: reaches.induct)
  case (reaches_step m n l)
  then obtain i where "i < length t" "t ! i = n" by (auto simp: in_set_conv_nth)
  with assms(1) reaches_step.hyps(1) have "m \<in> set t"
    by (auto simp: inputs_first_def dest: in_set_takeD)
  then show ?case by (rule reaches_step.IH)
qed

lemma find_topo_sort_total:
  assumes "finite S" and "closed_graph g S" and "set node_list \<subseteq> S" and "card S \<le> k"
  shows "\<exists>t. find_topo_sort g k node_list = Some t"
  using topo_sort_enough_fuel(2) [OF assms(1,2,3), of "[]" k "[]"] assms(4)
  by (auto simp: find_topo_sort_def)

text \<open>C3: On an acyclic graph, the depth-first sort returns every node reachable from the requested
  ones exactly once and each after all of its inputs; the number of nodes is enough fuel.\<close>

theorem topo_sort_is_topological:
  assumes "finite S" and "closed_graph g S" and "set node_list \<subseteq> S" and "acyclic_graph g"
  shows "\<exists>t. find_topo_sort g (card S) node_list = Some t \<and> distinct t \<and> inputs_first g t \<and>
     set t = {x. \<exists>n \<in> set node_list. reaches g n x}"
proof -
  obtain t where t: "find_topo_sort g (card S) node_list = Some t"
    using find_topo_sort_total [OF assms(1-3)] by blast
  from find_topo_sort_set [OF t assms(4)] have "order_inv g t t" "set node_list \<subseteq> set t"
    and "\<forall>x \<in> set t. \<exists>n \<in> set node_list. reaches g n x" by blast+
  with inputs_first_closed [of g t] t show ?thesis by (fastforce simp: order_inv_def)
qed

definition diamond :: graph where
  "diamond n = (if n = 3 then plain_op OtherOp [1, 2] else if n = 1 \<or> n = 2 then plain_op OtherOp [0]
                else plain_op PlaceholderOp [])"

lemma ranked_acyclic:
  assumes "\<And>n m. m \<in> set (inputs (g n)) \<Longrightarrow> (r m :: nat) < r n"
  shows "acyclic_graph g"
proof -
  have "reaches g a b \<Longrightarrow> r b \<le> r a" for a b
    by (induction rule: reaches.induct) (use assms in \<open>auto dest: less_imp_le order.trans\<close>)
  then show ?thesis using assms unfolding acyclic_graph_def by (meson not_le)
qed

lemma diamond_acyclic: "acyclic_graph diamond"
  by (rule ranked_acyclic [of _ id]) (auto simp: diamond_def plain_op_def split: if_splits)

theorem topo_sort_is_topological_witness:
  "\<exists>t. find_topo_sort diamond (card {0, 1, 2, 3 :: nat}) [3] = Some t \<and> distinct t \<and> inputs_first diamond t \<and>
     set t = {x. \<exists>n \<in> set [3]. reaches diamond n x}"
  by (rule topo_sort_is_topological [OF _ _ _ diamond_acyclic])
     (auto simp: closed_graph_def diamond_def plain_op_def)

section \<open>The traversal that runs the hooks\<close>

text \<open>
  The hooks are methods of the operators and may change the graph, so they are parameters; the
  trace records them in the order in which they run. \<open>MoveParam\<close> is the move of a
  placeholder's value into the configuration.
\<close>

datatype hook = BackwardHook nat | MoveParam nat | ForwardHook nat

type_synonym hook_state = "graph \<times> nat list \<times> hook list"

fun topo_sort_dfs_with_hook ::
    "(nat \<Rightarrow> graph \<Rightarrow> graph) \<Rightarrow> (nat \<Rightarrow> graph \<Rightarrow> graph) \<Rightarrow> nat \<Rightarrow> nat \<Rightarrow> hook_state \<Rightarrow> hook_state option"
  and hook_loop ::
    "(nat \<Rightarrow> graph \<Rightarrow> graph) \<Rightarrow> (nat \<Rightarrow> graph \<Rightarrow> graph) \<Rightarrow> nat \<Rightarrow> nat list \<Rightarrow> hook_state \<Rightarrow> hook_state option"
where
  "topo_sort_dfs_with_hook backward forward k node (g, visited, trace) =
     (if node \<in> set visited then Some (g, visited, trace)
      else case k of
             0 \<Rightarrow> None
           | Suc k' \<Rightarrow>
               (let g1 = backward node g;
                    moved = (if kind (g1 node) = PlaceholderOp then [MoveParam node] else []) in
                (case hook_loop backward forward k' (inputs (g1 node))
                        (g1, node # visited, trace @ BackwardHook node # moved) of
                   None \<Rightarrow> None
                 | Some (g2, v, tr) \<Rightarrow> Some (forward node g2, v, tr @ [ForwardHook node]))))"
| "hook_loop backward forward k [] st = Some st"
| "hook_loop backward forward k (n # ns) st =
     (case topo_sort_dfs_with_hook backward forward k n st of
        None \<Rightarrow> None
      | Some st' \<Rightarrow> hook_loop backward forward k ns st')"

definition topo_sort_with_hook ::
  "(nat \<Rightarrow> graph \<Rightarrow> graph) \<Rightarrow> (nat \<Rightarrow> graph \<Rightarrow> graph) \<Rightarrow> graph \<Rightarrow> nat \<Rightarrow> nat list \<Rightarrow> hook list option" where
  "topo_sort_with_hook backward forward g fuel node_list =
     map_option (\<lambda>(g', v, tr). tr) (hook_loop backward forward fuel node_list (g, [], []))"

fun forward_hooks :: "hook list \<Rightarrow> nat list" where
  "forward_hooks [] = []"
| "forward_hooks (ForwardHook n # hs) = n # forward_hooks hs"
| "forward_hooks (h # hs) = forward_hooks hs"

lemma forward_hooks_append [simp]: "forward_hooks (xs @ ys) = forward_hooks xs @ forward_hooks ys"
  by (induction xs rule: forward_hooks.induct) auto

definition same_inputs :: "graph \<Rightarrow> graph \<Rightarrow> bool" where
  "same_inputs g h \<longleftrightarrow> (\<forall>n. inputs (g n) = inputs (h n))"

definition keeps_inputs :: "(nat \<Rightarrow> graph \<Rightarrow> graph) \<Rightarrow> bool" where
  "keeps_inputs f \<longleftrightarrow> (\<forall>n g. same_inputs (f n g) g)"

declare topo_sort_dfs_with_hook.simps [simp del] hook_loop.simps(2) [simp del]

definition hook_match :: "graph \<Rightarrow> hook_state option \<Rightarrow> (nat list \<times> nat list) option \<Rightarrow> bool" where
  "hook_match g h r \<longleftrightarrow>
     (case (h, r) of
        (None, None) \<Rightarrow> True
      | (Some (g', v, tr), Some (v', t)) \<Rightarrow> same_inputs g' g \<and> v = v' \<and> forward_hooks tr = t
      | _ \<Rightarrow> False)"

lemma hook_match_cases:
  assumes "hook_match g h r"
  obtains "h = None" and "r = None"
  | g' v tr where "h = Some (g', v, tr)" and "r = Some (v, forward_hooks tr)" and "same_inputs g' g"
  using assms by (auto simp: hook_match_def split: option.splits prod.splits)

lemma same_inputs_step:
  assumes "keeps_inputs f" and "same_inputs g' g"
  shows "same_inputs (f n g') g"
  using assms by (auto simp: keeps_inputs_def same_inputs_def)

lemma hooks_follow_sort:
  assumes "keeps_inputs bw" and "keeps_inputs fw"
  shows "same_inputs g' g \<Longrightarrow> hook_match g (topo_sort_dfs_with_hook bw fw k node (g', v, tr))
      (topo_sort_dfs g k node (v, forward_hooks tr))"
    and "same_inputs g' g \<Longrightarrow> hook_match g (hook_loop bw fw k ns (g', v, tr))
      (topo_sort_loop g k ns (v, forward_hooks tr))"
proof -
  have "(\<forall>node g' v tr. same_inputs g' g \<longrightarrow>
           hook_match g (topo_sort_dfs_with_hook bw fw k node (g', v, tr))
             (topo_sort_dfs g k node (v, forward_hooks tr))) \<and>
        (\<forall>ns g' v tr. same_inputs g' g \<longrightarrow>
           hook_match g (hook_loop bw fw k ns (g', v, tr)) (topo_sort_loop g k ns (v, forward_hooks tr)))"
    (is "?D k \<and> ?L k")
  proof (induction k rule: less_induct)
    case (less k)
    have d: "?D k"
    proof (intro allI impI)
      fix node g' v tr
      assume s: "same_inputs g' g"
      let ?h = "topo_sort_dfs_with_hook bw fw k node (g', v, tr)"
      show "hook_match g ?h (topo_sort_dfs g k node (v, forward_hooks tr))"
      proof (cases "node \<in> set v \<or> k = 0")
        case True
        then show ?thesis using s
          by (auto simp: topo_sort_dfs_with_hook.simps topo_sort_dfs.simps hook_match_def)
      next
        case False
        then obtain j where k: "k = Suc j" by (cases k) auto
        let ?g = "bw node g'"
        let ?tr = "tr @ BackwardHook node # (if kind (?g node) = PlaceholderOp then [MoveParam node] else [])"
        have i: "same_inputs ?g g" using same_inputs_step [OF assms(1) s] .
        then have e: "inputs (?g node) = inputs (g node)" by (simp add: same_inputs_def)
        have f: "forward_hooks ?tr = forward_hooks tr" by simp
        from less.IH [of j] i k
        have "hook_match g (hook_loop bw fw j (inputs (?g node)) (?g, node # v, ?tr))
                (topo_sort_loop g j (inputs (?g node)) (node # v, forward_hooks ?tr))" by blast
        then show ?thesis unfolding e f
          by (rule hook_match_cases)
             (use False k same_inputs_step [OF assms(2)] e in
               \<open>simp_all add: topo_sort_dfs_with_hook.simps topo_sort_dfs.simps hook_match_def Let_def\<close>)
      qed
    qed
    have "?L k"
    proof
      fix ns show "\<forall>g' v tr. same_inputs g' g \<longrightarrow>
          hook_match g (hook_loop bw fw k ns (g', v, tr)) (topo_sort_loop g k ns (v, forward_hooks tr))"
      proof (induction ns)
        case Nil then show ?case by (simp add: hook_match_def)
      next
        case (Cons n ns)
        show ?case
        proof (intro allI impI)
          fix g' v tr
          assume "same_inputs g' g"
          with d have "hook_match g (topo_sort_dfs_with_hook bw fw k n (g', v, tr))
              (topo_sort_dfs g k n (v, forward_hooks tr))" by blast
          then show "hook_match g (hook_loop bw fw k (n # ns) (g', v, tr))
              (topo_sort_loop g k (n # ns) (v, forward_hooks tr))"
            by (rule hook_match_cases)
               (use Cons.IH in \<open>simp_all add: hook_loop.simps(2) topo_sort_loop.simps(2) hook_match_def\<close>)
        qed
      qed
    qed
    with d show ?case by blast
  qed
  then show "same_inputs g' g \<Longrightarrow> hook_match g (topo_sort_dfs_with_hook bw fw k node (g', v, tr))
      (topo_sort_dfs g k node (v, forward_hooks tr))"
    and "same_inputs g' g \<Longrightarrow> hook_match g (hook_loop bw fw k ns (g', v, tr))
      (topo_sort_loop g k ns (v, forward_hooks tr))" by blast+
qed


definition disable_inplace :: "nat \<Rightarrow> graph \<Rightarrow> graph" where
  "disable_inplace n g = g(n := (g n)\<lparr>inplace := False\<rparr>)"


section \<open>The order for inference with a parameter server\<close>

text \<open>
  \<open>embedding_outputs\<close> lists the consumers of an embedding, once per input position; the number
  that are still to come is counted down. \<open>Pull\<close> is the operator that fetches the rows of an
  embedding once its consumers are done.
\<close>

datatype inference_node = Node nat | Pull nat "nat list"

definition embedding_outputs :: "graph \<Rightarrow> nat list \<Rightarrow> nat \<Rightarrow> nat list" where
  "embedding_outputs g topo e =
     concat (map (\<lambda>n. if kind (g n) = EmbeddingLookUp then []
                      else replicate (count_list (inputs (g n)) e) n) topo)"

text \<open>
  The inner loop walks \<open>embedding_list\<close> by position while it removes elements from it, as
  Python's iterator does: after a removal the next element is skipped.
\<close>

function pull_scan ::
  "(nat \<Rightarrow> nat list) \<Rightarrow> nat \<Rightarrow> nat \<Rightarrow> nat list \<times> (nat \<Rightarrow> int) \<times> inference_node list \<Rightarrow>
   nat list \<times> (nat \<Rightarrow> int) \<times> inference_node list" where
  "pull_scan outs node i (embedding_list, cnt, order) =
     (if i < length embedding_list then
        (let e = embedding_list ! i;
             cnt' = (if node \<in> set (outs e) then cnt(e := cnt e - 1) else cnt) in
         if cnt' e = 0
         then pull_scan outs node (Suc i) (remove1 e embedding_list, cnt', order @ [Pull e (outs e)])
         else pull_scan outs node (Suc i) (embedding_list, cnt', order))
      else (embedding_list, cnt, order))"
  by pat_completeness auto
termination
  by (relation "measure (\<lambda>(outs, node, i, es, cnt, order). length es - i)")
     (auto simp: length_remove1)

definition inference_step ::
  "(nat \<Rightarrow> nat list) \<Rightarrow> nat list \<times> (nat \<Rightarrow> int) \<times> inference_node list \<Rightarrow> nat \<Rightarrow>
   nat list \<times> (nat \<Rightarrow> int) \<times> inference_node list" where
  "inference_step outs st node =
     (case st of (es, cnt, order) \<Rightarrow> pull_scan outs node 0 (es, cnt, order @ [Node node]))"

definition find_topo_sort_inference :: "graph \<Rightarrow> nat \<Rightarrow> nat list \<Rightarrow> inference_node list option" where
  "find_topo_sort_inference g fuel node_list =
     map_option (\<lambda>topo.
       let outs = embedding_outputs g topo;
           embedding_list = filter (\<lambda>n. kind (g n) = EmbeddingLookUp) topo;
           (es, cnt, order) = foldl (inference_step outs)
             (embedding_list, \<lambda>e. int (length (outs e)), []) topo
       in order) (find_topo_sort g fuel node_list)"

fun pulled :: "inference_node list \<Rightarrow> nat list" where
  "pulled [] = []"
| "pulled (Pull e outs # ns) = e # pulled ns"
| "pulled (Node n # ns) = pulled ns"

lemma pulled_append [simp]: "pulled (xs @ ys) = pulled xs @ pulled ys"
  by (induction xs rule: pulled.induct) auto

definition two_embeddings :: graph where
  "two_embeddings n = (if n = 0 \<or> n = 2 then plain_op PlaceholderOp []
     else if n = 1 then plain_op EmbeddingLookUp [0]
     else if n = 3 then plain_op EmbeddingLookUp [2]
     else plain_op ConcatenateOp [1, 3])"

definition shared_input :: graph where
  "shared_input n = (if n = 0 then plain_op PlaceholderOp []
     else if n = 1 then plain_op EmbeddingLookUp [0]
     else plain_op OtherOp [1, 1])"

text \<open>An operator that consumes two embeddings completes both, but only the first is pulled:
  removing it from the list under iteration skips the second, whose count never reaches zero.\<close>

theorem second_embedding_is_not_pulled:
  "map_option pulled (find_topo_sort_inference two_embeddings 5 [4]) = Some [1]"
  by code_simp

lemma repeated_input_is_not_pulled:
  "map_option pulled (find_topo_sort_inference shared_input 3 [2]) = Some []"
  by code_simp

section \<open>Reordering for grouped pipeline operators\<close>

text \<open>
  Layer indices are numbers that may be fractional. The dictionary is an association list; the
  transfer operators get the index of their input plus one half.
\<close>

type_synonym layers = "(nat \<times> rat) list"

definition is_transfer :: "op_kind \<Rightarrow> bool" where
  "is_transfer k \<longleftrightarrow> k \<in> {DataH2DOp, DataD2HOp, DataD2HSparseOp}"

definition is_pipeline :: "op_kind \<Rightarrow> bool" where
  "is_pipeline k \<longleftrightarrow> k \<in> {PipelineSendOp, PipelineReceiveOp}"

definition group_label :: "op_kind \<Rightarrow> bool \<Rightarrow> rat" where
  "group_label k with_pipeline =
     (if with_pipeline \<and> k = SplitOp then 1
      else if is_pipeline k then 2
      else if with_pipeline \<and> k \<in> {SumOp, ConcatenateOp} then 3
      else 0)"

fun label_loop :: "graph \<Rightarrow> rat list \<Rightarrow> layers \<Rightarrow> (nat \<times> rat) list \<Rightarrow> nat list \<Rightarrow> (layers \<times> (nat \<times> rat) list) result" where
  "label_loop g pipeline_layers layers labels [] = Inr (layers, labels)"
| "label_loop g pipeline_layers layers labels (node # ns) =
     bindE (if is_transfer (kind (g node))
            then bindE (py_nth (inputs (g node)) 0) (\<lambda>m.
                 bindE (py_lookup layers m) (\<lambda>x. Inr (AList.update node (x + 1 / 2) layers)))
            else Inr layers) (\<lambda>layers'.
     bindE (py_lookup layers' node) (\<lambda>x.
       label_loop g pipeline_layers layers'
         (AList.update node (group_label (kind (g node)) (x \<in> set pipeline_layers)) labels) ns))"

definition group_key :: "layers \<Rightarrow> (nat \<times> rat) list \<Rightarrow> nat \<Rightarrow> rat" where
  "group_key layers labels n = 10 * dict_get layers n 0 + dict_get labels n 0"

definition reorder_for_group :: "graph \<Rightarrow> layers option \<Rightarrow> nat list \<Rightarrow> nat list result" where
  "reorder_for_group g layer_indices topo_order =
     (case layer_indices of
        None \<Rightarrow> Inr topo_order
      | Some layers \<Rightarrow>
          (let pipeline_layers = map snd (filter (\<lambda>(n, x). is_pipeline (kind (g n))) layers) in
           if pipeline_layers = [] then Inr topo_order
           else bindE (label_loop g pipeline_layers layers [] topo_order) (\<lambda>(layers', labels).
                  Inr (sort_key (group_key layers' labels) topo_order))))"

lemma inputs_first_split:
  "inputs_first g xs \<longleftrightarrow> (\<forall>as n bs. xs = as @ n # bs \<longrightarrow> set (inputs (g n)) \<subseteq> set as)"
proof
  assume L: "inputs_first g xs"
  show "\<forall>as n bs. xs = as @ n # bs \<longrightarrow> set (inputs (g n)) \<subseteq> set as"
  proof (intro allI impI)
    fix as n bs assume "xs = as @ n # bs"
    then show "set (inputs (g n)) \<subseteq> set as"
      using L [unfolded inputs_first_def, rule_format, of "length as"] by simp
  qed
next
  assume R: "\<forall>as n bs. xs = as @ n # bs \<longrightarrow> set (inputs (g n)) \<subseteq> set as"
  show "inputs_first g xs"
    unfolding inputs_first_def using R id_take_nth_drop by blast
qed

lemma split_unique:
  assumes "distinct zs" and "zs = a @ n # b" and "zs = c @ n # d"
  shows "a = c \<and> b = d"
proof -
  have "n \<notin> set a" "n \<notin> set b" using assms(1) unfolding assms(2) by auto
  moreover have "n \<notin> set c" using assms(1) unfolding assms(3) by auto
  ultimately show ?thesis using assms(2,3) append_Cons_eq_iff [of n a b c d] by simp
qed

text \<open>A stable sort by a key that never decreases along an edge keeps the order topological.\<close>

lemma sort_key_keeps_order:
  assumes "inputs_first g xs" and "distinct xs"
    and mono: "\<And>n m. n \<in> set xs \<Longrightarrow> m \<in> set (inputs (g n)) \<Longrightarrow> (f m :: 'k :: linorder) \<le> f n"
  shows "inputs_first g (sort_key f xs)"
  unfolding inputs_first_split
proof (intro allI impI subsetI)
  fix as n bs m
  assume y: "sort_key f xs = as @ n # bs" and m: "m \<in> set (inputs (g n))"
  have "n \<in> set xs" using y by (metis in_set_conv_decomp set_sort)
  then obtain c d where x: "xs = c @ n # d" by (meson split_list)
  then have mc: "m \<in> set c" using assms(1) m unfolding inputs_first_split by blast
  have d: "distinct (as @ n # bs)" using assms(2) y by (metis distinct_sort)
  show "m \<in> set as"
  proof (rule ccontr)
    assume "m \<notin> set as"
    moreover have "m \<in> set (as @ n # bs)" using x mc y by (metis Un_iff set_append set_sort)
    moreover have "m \<noteq> n" using assms(2) x mc by auto
    ultimately have mb: "m \<in> set bs" by auto
    have "sorted (map f (as @ n # bs))" using y by (metis sorted_sort_key)
    then have "f n \<le> f m" using mb by (auto simp: sorted_append)
    then have e: "f m = f n" using mono [OF \<open>n \<in> set xs\<close> m] by simp
    let ?F = "filter (\<lambda>y. f y = f n)"
    have "?F (as @ n # bs) = ?F xs" using sort_key_stable [of f "f n" xs] unfolding y .
    then have "?F (as @ n # bs) = ?F (c @ n # d)" unfolding x .
    then have eq: "?F as @ n # ?F bs = ?F c @ n # ?F d" by simp
    have "distinct (?F as @ n # ?F bs)" using d by auto
    from split_unique [OF this refl eq] have "?F as = ?F c" by simp
    moreover have "m \<in> set (?F c)" using mc e by simp
    ultimately have "m \<in> set (?F as)" by simp
    then have "m \<in> set as" by simp
    with \<open>m \<notin> set as\<close> show False by simp
  qed
qed

definition layer_monotone :: "graph \<Rightarrow> layers \<Rightarrow> (nat \<times> rat) list \<Rightarrow> nat list \<Rightarrow> bool" where
  "layer_monotone g layers labels topo \<longleftrightarrow>
     (\<forall>n \<in> set topo. \<forall>m \<in> set (inputs (g n)). group_key layers labels m \<le> group_key layers labels n)"

text \<open>Reordering for grouping permutes the operators and, when the keys never decrease from an
  input to its consumer, keeps every operator behind its inputs.\<close>

theorem reorder_keeps_topological_order:
  assumes "reorder_for_group g (Some layers) topo = Inr out" and "inputs_first g topo" and "distinct topo"
    and "\<And>p ls lb. label_loop g p layers [] topo = Inr (ls, lb) \<Longrightarrow> layer_monotone g ls lb topo"
  shows "mset out = mset topo \<and> inputs_first g out"
proof (cases "map snd (filter (\<lambda>(n, x). is_pipeline (kind (g n))) layers) = []")
  case True
  then show ?thesis using assms(1,2) by (simp add: reorder_for_group_def)
next
  case False
  then have "bindE (label_loop g (map snd (filter (\<lambda>(n, x). is_pipeline (kind (g n))) layers)) layers [] topo)
      (\<lambda>(layers', labels). Inr (sort_key (group_key layers' labels) topo)) = Inr out"
    using assms(1) by (simp only: reorder_for_group_def option.case Let_def if_False)
  then obtain ls lb where l: "label_loop g (map snd (filter (\<lambda>(n, x). is_pipeline (kind (g n))) layers)) layers [] topo
      = Inr (ls, lb)" and out: "out = sort_key (group_key ls lb) topo"
    by (auto simp: bindE_Inr_iff)
  from assms(4) [OF l] have "inputs_first g out"
    unfolding out by (intro sort_key_keeps_order assms(2,3)) (auto simp: layer_monotone_def)
  with out show ?thesis by simp
qed

definition pipelined :: graph where
  "pipelined n =
     (if n = 0 then plain_op PlaceholderOp [] else if n = 1 then plain_op SplitOp [0]
      else if n = 2 then plain_op PipelineSendOp [1] else plain_op DataH2DOp [0])"

definition pipelined_layers :: layers where
  "pipelined_layers = [(0, 1), (1, 2), (2, 2)]"

lemma pipelined_labels:
  "label_loop pipelined p pipelined_layers [] [0, 1, 2, 3] =
     Inr ([(0, 1), (1, 2), (2, 2), (3, 3 / 2)],
          [(0, 0), (1, if 2 \<in> set p then 1 else 0), (2, 2), (3, 0)])"
  by (simp add: pipelined_def plain_op_def pipelined_layers_def py_lookup_def py_nth_def is_transfer_def
      group_label_def is_pipeline_def)

theorem reorder_keeps_topological_order_witness:
  "mset [0, 3, 1, 2] = mset [0, 1, 2, 3 :: nat] \<and> inputs_first pipelined [0, 3, 1, 2]"
proof (rule reorder_keeps_topological_order)
  show "reorder_for_group pipelined (Some pipelined_layers) [0, 1, 2, 3] = Inr [0, 3, 1, 2]"
  proof -
    have p: "map snd (filter (\<lambda>(n, x). is_pipeline (kind (pipelined n))) pipelined_layers) = [2]"
      by (simp add: pipelined_layers_def pipelined_def plain_op_def is_pipeline_def)
    show ?thesis
      unfolding reorder_for_group_def option.case p Let_def pipelined_labels
      by (simp add: group_key_def dict_get_def)
  qed
  show "inputs_first pipelined [0, 1, 2, 3]" by code_simp
  show "distinct [0, 1, 2, 3 :: nat]" by simp
  show "layer_monotone pipelined ls lb [0, 1, 2, 3]"
    if "label_loop pipelined p pipelined_layers [] [0, 1, 2, 3] = Inr (ls, lb)" for p ls lb
    using that unfolding pipelined_labels
    by (auto simp: layer_monotone_def group_key_def dict_get_def pipelined_def plain_op_def)
qed

end
