(* ===== verification/GraphShapes.thy ===== *)
theory GraphShapes imports GraphOrder ShapeMoves begin

text \<open>
  \<open>SubExecutor.infer_shape\<close> of \<open>hetu/v1/python/hetu/gpu_ops/executor.py\<close>: one pass over the
  topological order that infers the shape of every operator, with the grouped exchange of
  shapes between pipeline stages. The shape inference of the operators, the arrays received
  from other workers and the number of ranks of a collective are parameters.
\<close>

section \<open>Shapes as messages\<close>

definition encode_shape :: "shape option \<Rightarrow> int list result" where
  "encode_shape s =
     (case s of None \<Rightarrow> Inl TypeError
      | Some xs \<Rightarrow> Inr (if length xs < 4 then replicate (4 - length xs) 0 @ xs else xs))"

definition decode_shape :: "int list \<Rightarrow> shape result" where
  "decode_shape xs = assertE (length xs = 4) (Inr (filter (\<lambda>x. x \<noteq> 0) xs))"

lemma decode_encode:
  assumes "encode_shape (Some s) = Inr e" and "length s \<le> 4" and "0 \<notin> set s"
  shows "decode_shape (take 4 e) = Inr s"
proof -
  have f: "filter (\<lambda>x. x \<noteq> 0) s = s" using assms(3) by (simp add: filter_id_conv) metis
  have e: "e = replicate (4 - length s) 0 @ s"
    using assms(1,2) by (auto simp: encode_shape_def split: if_splits)
  then have "length e = 4" using assms(2) by simp
  then show ?thesis by (simp add: decode_shape_def e f)
qed

section \<open>The state of the pass\<close>

record shape_state =
  shapes :: "nat \<rightharpoonup> shape option"
  indexed :: "nat \<rightharpoonup> shape option \<times> shape option"
  grouping :: "nat list"
  sent :: "(nat \<times> int list) list"

record shape_env =
  infer_op :: "nat \<Rightarrow> shape option list \<Rightarrow> shape option result"
  peers :: "nat \<Rightarrow> nat list"
  received :: "nat \<Rightarrow> nat \<Rightarrow> int list"
  index_shape :: "nat \<Rightarrow> shape"
  nrank :: "nat \<Rightarrow> int"

definition map_lookup :: "(nat \<rightharpoonup> 'v) \<Rightarrow> nat \<Rightarrow> 'v result" where
  "map_lookup m k = (case m k of None \<Rightarrow> Inl KeyError | Some v \<Rightarrow> Inr v)"

lemma map_lookup_Inr_iff: "map_lookup m k = Inr v \<longleftrightarrow> m k = Some v"
  by (simp add: map_lookup_def split: option.splits)

definition first_input :: "graph \<Rightarrow> nat \<Rightarrow> nat result" where
  "first_input g n = py_nth (inputs (g n)) 0"

text \<open>The messages of a grouped send: one per destination.\<close>

definition send_messages :: "graph \<Rightarrow> shape_env \<Rightarrow> shape_state \<Rightarrow> nat \<Rightarrow> (nat \<times> int list) list result" where
  "send_messages g env st node =
     (if kind (g node) \<noteq> PipelineSendOp then Inr []
      else bindE (first_input g node) (\<lambda>m. bindE (map_lookup (shapes st) m) (\<lambda>s.
           bindE (encode_shape s) (\<lambda>e.
           bindE (if use_indexed_slices (g node)
                  then bindE (map_lookup (indexed st) node) (\<lambda>(i, v).
                       bindE (encode_shape i) (\<lambda>ei. bindE (encode_shape v) (\<lambda>ev. Inr (e @ ei @ ev))))
                  else Inr e) (\<lambda>msg. Inr (map (\<lambda>d. (d, msg)) (peers env node)))))))"

text \<open>All sources of a receive must have sent the same shape.\<close>

fun agree_loop :: "int list option \<Rightarrow> int list list \<Rightarrow> int list option result" where
  "agree_loop acc [] = Inr acc"
| "agree_loop acc (a # as) = assertE (acc = None \<or> acc = Some a) (agree_loop (Some a) as)"

definition receive_shape :: "graph \<Rightarrow> shape_env \<Rightarrow> nat \<Rightarrow> (shape \<times> (shape \<times> shape) option) result" where
  "receive_shape g env node =
     bindE (agree_loop None (map (received env node) (peers env node))) (\<lambda>arr.
       case arr of
         None \<Rightarrow> Inl TypeError
       | Some a \<Rightarrow>
           bindE (decode_shape (take 4 a)) (\<lambda>s.
             if use_indexed_slices (g node)
             then bindE (decode_shape (take 4 (drop 4 a))) (\<lambda>i.
                  bindE (decode_shape (drop 8 a)) (\<lambda>v. Inr (s, Some (i, v))))
             else Inr (s, None)))"

definition group_step :: "graph \<Rightarrow> shape_env \<Rightarrow> shape_state \<Rightarrow> nat \<Rightarrow> shape_state result" where
  "group_step g env st node =
     (if kind (g node) = PipelineSendOp then Inr (st\<lparr>shapes := (shapes st)(node \<mapsto> None)\<rparr>)
      else bindE (receive_shape g env node) (\<lambda>(s, ind).
        Inr (st\<lparr>shapes := (shapes st)(node \<mapsto> Some s),
                indexed := (case ind of None \<Rightarrow> indexed st | Some (i, v) \<Rightarrow> (indexed st)(node \<mapsto> (Some i, Some v)))\<rparr>)))"

definition make_group :: "graph \<Rightarrow> shape_env \<Rightarrow> shape_state \<Rightarrow> shape_state result" where
  "make_group g env st =
     bindE (mapE (send_messages g env st) (grouping st)) (\<lambda>msgs.
     bindE (foldE (group_step g env) (st\<lparr>sent := sent st @ concat msgs\<rparr>) (grouping st)) (\<lambda>st'.
       Inr (st'\<lparr>grouping := []\<rparr>)))"

text \<open>The shapes of a sparse gradient: its indices and its values.\<close>

definition scale_first :: "int \<Rightarrow> shape option \<Rightarrow> shape result" where
  "scale_first k s =
     (case s of None \<Rightarrow> Inl TypeError
      | Some xs \<Rightarrow> bindE (py_nth xs 0) (\<lambda>n. py_update xs 0 (n * k)))"

definition index_step :: "graph \<Rightarrow> shape_env \<Rightarrow> shape_state \<Rightarrow> nat \<Rightarrow> shape_state result" where
  "index_step g env st node =
     (let put = (\<lambda>p. Inr (st\<lparr>indexed := (indexed st)(node \<mapsto> p)\<rparr>)) in
      if kind (g node) = EmbeddingLookUp_Gradient then
        (let value = bindE (first_input g node) (map_lookup (shapes st)) in
         if length (inputs (g node)) = 2
         then bindE (map_lookup (shapes st) (inputs (g node) ! 1)) (\<lambda>i. bindE value (\<lambda>v. put (i, v)))
         else bindE value (\<lambda>v. put (Some (index_shape env node), v)))
      else if kind (g node) \<in> {DataD2HSparseOp, PipelineSendOp} \<and> use_indexed_slices (g node) then
        bindE (first_input g node) (\<lambda>m. bindE (map_lookup (indexed st) m) put)
      else if kind (g node) = AllReduceCommunicateOp \<and> use_indexed_slices (g node) then
        bindE (first_input g node) (\<lambda>m. bindE (map_lookup (indexed st) m) (\<lambda>(i, v).
        bindE (scale_first (nrank env node) i) (\<lambda>i'. bindE (scale_first (nrank env node) v) (\<lambda>v'. put (Some i', Some v')))))
      else Inr st)"

definition infer_node :: "graph \<Rightarrow> shape_env \<Rightarrow> shape_state \<Rightarrow> nat \<Rightarrow> shape_state result" where
  "infer_node g env st node =
     bindE (if grouping st \<noteq> [] then make_group g env st else Inr st) (\<lambda>st1.
     bindE (mapE (map_lookup (shapes st1)) (inputs (g node))) (\<lambda>input_shapes.
     bindE (infer_op env node input_shapes) (\<lambda>s.
       Inr (st1\<lparr>shapes := (shapes st1)(node \<mapsto> s)\<rparr>))))"

definition shape_step :: "graph \<Rightarrow> shape_env \<Rightarrow> (nat \<rightharpoonup> shape) \<Rightarrow> shape_state \<Rightarrow> nat \<Rightarrow> shape_state result" where
  "shape_step g env feed st node =
     bindE (index_step g env st node) (\<lambda>st1.
       case feed node of
         Some s \<Rightarrow> Inr (st1\<lparr>shapes := (shapes st1)(node \<mapsto> Some s)\<rparr>)
       | None \<Rightarrow>
           if kind (g node) \<in> {PipelineSendOp, PipelineReceiveOp}
           then Inr (st1\<lparr>grouping := grouping st1 @ [node]\<rparr>)
           else infer_node g env st1 node)"

definition infer_shape :: "graph \<Rightarrow> shape_env \<Rightarrow> (nat \<rightharpoonup> shape) \<Rightarrow> nat list \<Rightarrow> shape_state result" where
  "infer_shape g env feed topo_order =
     bindE (foldE (shape_step g env feed)
              \<lparr>shapes = Map.empty, indexed = Map.empty, grouping = [], sent = []\<rparr> topo_order) (\<lambda>st.
       if grouping st \<noteq> [] then make_group g env st else Inr st)"

section \<open>Every shape is the one its operator infers\<close>

definition expected_shape ::
  "graph \<Rightarrow> shape_env \<Rightarrow> (nat \<rightharpoonup> shape) \<Rightarrow> (nat \<rightharpoonup> shape option) \<Rightarrow> nat \<Rightarrow> shape option result" where
  "expected_shape g env feed m n =
     (case feed n of
        Some s \<Rightarrow> Inr (Some s)
      | None \<Rightarrow>
          if kind (g n) = PipelineSendOp then Inr None
          else if kind (g n) = PipelineReceiveOp then bindE (receive_shape g env n) (\<lambda>(s, ind). Inr (Some s))
          else bindE (mapE (map_lookup m) (inputs (g n))) (infer_op env n))"

lemma map_leD: "m \<subseteq>\<^sub>m m' \<Longrightarrow> m k = Some v \<Longrightarrow> m' k = Some v"
  unfolding map_le_def by (metis domI)

lemma lookups_mono:
  assumes "m \<subseteq>\<^sub>m m'" and "mapE (map_lookup m) ns = Inr xs"
  shows "mapE (map_lookup m') ns = Inr xs"
  using assms(2)
  by (induction ns arbitrary: xs)
     (auto simp: bindE_Inr_iff map_lookup_Inr_iff dest: map_leD [OF assms(1)])

lemma expected_mono:
  assumes "m \<subseteq>\<^sub>m m'" and "expected_shape g env feed m n = Inr s"
  shows "expected_shape g env feed m' n = Inr s"
  using assms(2)
  by (auto simp: expected_shape_def bindE_Inr_iff lookups_mono [OF assms(1)]
        split: option.splits if_splits)

definition pipeline_node :: "graph \<Rightarrow> (nat \<rightharpoonup> shape) \<Rightarrow> nat \<Rightarrow> bool" where
  "pipeline_node g feed n \<longleftrightarrow> feed n = None \<and> kind (g n) \<in> {PipelineSendOp, PipelineReceiveOp}"

definition shapes_inv :: "graph \<Rightarrow> shape_env \<Rightarrow> (nat \<rightharpoonup> shape) \<Rightarrow> nat list \<Rightarrow> shape_state \<Rightarrow> bool" where
  "shapes_inv g env feed done_nodes st \<longleftrightarrow>
     dom (shapes st) \<union> set (grouping st) = set done_nodes \<and>
     dom (shapes st) \<inter> set (grouping st) = {} \<and> distinct (grouping st) \<and>
     (\<forall>n \<in> set (grouping st). pipeline_node g feed n) \<and>
     (\<forall>n s. shapes st n = Some s \<longrightarrow> expected_shape g env feed (shapes st) n = Inr s)"

lemma put_shape:
  assumes "shapes_inv g env feed ds st" and "n \<notin> set ds"
    and "expected_shape g env feed (shapes st) n = Inr s"
  shows "shapes_inv g env feed (ds @ [n]) (st\<lparr>shapes := (shapes st)(n \<mapsto> s)\<rparr>)"
proof -
  have "n \<notin> dom (shapes st)" using assms(1,2) by (auto simp: shapes_inv_def)
  then have m: "shapes st \<subseteq>\<^sub>m (shapes st)(n \<mapsto> s)" by (auto simp: map_le_def)
  show ?thesis
    using assms expected_mono [OF m] by (auto simp: shapes_inv_def)
qed

lemma group_steps:
  assumes "foldE (group_step g env) st ns = Inr st'" and "distinct ns"
    and "\<forall>n \<in> set ns. pipeline_node g feed n \<and> shapes st n = None"
  shows "grouping st' = grouping st \<and> shapes st \<subseteq>\<^sub>m shapes st' \<and>
     dom (shapes st') = dom (shapes st) \<union> set ns \<and>
     (\<forall>n \<in> set ns. \<forall>s m. shapes st' n = Some s \<longrightarrow> expected_shape g env feed m n = Inr s)"
  using assms
proof (induction ns arbitrary: st)
  case Nil then show ?case by simp
next
  case (Cons n ns)
  from Cons.prems(1) obtain u where u: "group_step g env st n = Inr u"
    and r: "foldE (group_step g env) u ns = Inr st'" by (auto elim: bindE_InrE)
  obtain s where s: "shapes u = (shapes st)(n \<mapsto> s)" "grouping u = grouping st"
    and e: "\<And>m. expected_shape g env feed m n = Inr s"
    using u Cons.prems(3)
    by (auto simp: group_step_def pipeline_node_def expected_shape_def bindE_Inr_iff split: if_splits)
  have "\<forall>k \<in> set ns. pipeline_node g feed k \<and> shapes u k = None"
    using Cons.prems(2,3) s(1) by auto
  with Cons.IH [OF r] Cons.prems(2) have ih: "grouping st' = grouping u" "shapes u \<subseteq>\<^sub>m shapes st'"
    "dom (shapes st') = dom (shapes u) \<union> set ns"
    "\<forall>k \<in> set ns. \<forall>s m. shapes st' k = Some s \<longrightarrow> expected_shape g env feed m k = Inr s" by auto
  have "shapes st \<subseteq>\<^sub>m shapes u" using Cons.prems(3) s(1) by (auto simp: map_le_def)
  moreover have "shapes st' n = Some s" using ih(2) s(1) by (auto dest: map_leD)
  ultimately show ?case using ih s e by (auto intro: map_le_trans)
qed

lemma make_group_inv:
  assumes "make_group g env st = Inr st'" and "shapes_inv g env feed ds st"
  shows "shapes_inv g env feed ds st' \<and> grouping st' = []"
proof -
  from assms(1) obtain msgs u where f: "foldE (group_step g env) (st\<lparr>sent := sent st @ concat msgs\<rparr>) (grouping st) = Inr u"
    and st': "st' = u\<lparr>grouping := []\<rparr>"
    by (auto simp: make_group_def bindE_Inr_iff)
  have "\<forall>n \<in> set (grouping st). pipeline_node g feed n \<and> shapes (st\<lparr>sent := sent st @ concat msgs\<rparr>) n = None"
    using assms(2) by (auto simp: shapes_inv_def)
  from group_steps [OF f _ this] assms(2)
  have r: "shapes st \<subseteq>\<^sub>m shapes u" "dom (shapes u) = dom (shapes st) \<union> set (grouping st)"
    "\<forall>n \<in> set (grouping st). \<forall>s m. shapes u n = Some s \<longrightarrow> expected_shape g env feed m n = Inr s"
    by (auto simp: shapes_inv_def)
  have "expected_shape g env feed (shapes u) n = Inr s" if n: "shapes u n = Some s" for n s
  proof (cases "n \<in> set (grouping st)")
    case True then show ?thesis using r(3) n by blast
  next
    case False
    then have "n \<in> dom (shapes st)" using r(2) n by blast
    then have "shapes st n = Some s" using r(1) n by (simp add: map_le_def)
    then show ?thesis using assms(2) expected_mono [OF r(1)] by (auto simp: shapes_inv_def)
  qed
  then show ?thesis using r(2) st' assms(2) by (auto simp: shapes_inv_def)
qed

lemma index_step_shapes:
  "index_step g env st n = Inr st' \<Longrightarrow> shapes st' = shapes st \<and> grouping st' = grouping st"
  by (auto simp: index_step_def Let_def bindE_Inr_iff split: if_splits prod.splits)

lemma infer_node_inv:
  assumes "infer_node g env st n = Inr st'" and "shapes_inv g env feed ds st" and "n \<notin> set ds"
    and "feed n = None" and "kind (g n) \<notin> {PipelineSendOp, PipelineReceiveOp}"
  shows "shapes_inv g env feed (ds @ [n]) st'"
proof -
  from assms(1) obtain u ins s where u: "(if grouping st \<noteq> [] then make_group g env st else Inr st) = Inr u"
    and i: "mapE (map_lookup (shapes u)) (inputs (g n)) = Inr ins" "infer_op env n ins = Inr s"
    and st': "st' = u\<lparr>shapes := (shapes u)(n \<mapsto> s)\<rparr>"
    unfolding infer_node_def by (auto elim!: bindE_InrE)
  have "shapes_inv g env feed ds u"
    using u assms(2) make_group_inv by (cases "grouping st = []") auto
  moreover have "expected_shape g env feed (shapes u) n = Inr s"
    using assms(4,5) i by (simp add: expected_shape_def)
  ultimately show ?thesis unfolding st' using put_shape assms(3) by blast
qed

lemma shape_step_inv:
  assumes "shape_step g env feed st n = Inr st'" and "shapes_inv g env feed ds st" and "n \<notin> set ds"
  shows "shapes_inv g env feed (ds @ [n]) st'"
proof -
  from assms(1) obtain u where u: "index_step g env st n = Inr u"
    and r: "(case feed n of Some s \<Rightarrow> Inr (u\<lparr>shapes := (shapes u)(n \<mapsto> Some s)\<rparr>)
       | None \<Rightarrow> if kind (g n) \<in> {PipelineSendOp, PipelineReceiveOp}
           then Inr (u\<lparr>grouping := grouping u @ [n]\<rparr>) else infer_node g env u n) = Inr st'"
    unfolding shape_step_def by (rule bindE_InrE)
  have inv: "shapes_inv g env feed ds u"
    using assms(2) index_step_shapes [OF u] by (simp add: shapes_inv_def)
  show ?thesis
  proof (cases "feed n")
    case (Some s)
    then have "expected_shape g env feed (shapes u) n = Inr (Some s)" by (simp add: expected_shape_def)
    from put_shape [OF inv assms(3) this] r Some show ?thesis by simp
  next
    case None
    show ?thesis
    proof (cases "kind (g n) \<in> {PipelineSendOp, PipelineReceiveOp}")
      case True
      with r None have "st' = u\<lparr>grouping := grouping u @ [n]\<rparr>" by simp
      then show ?thesis using inv assms(3) True None
        by (auto simp: shapes_inv_def pipeline_node_def)
    next
      case False
      then show ?thesis using infer_node_inv [OF _ inv assms(3) None False] r None by simp
    qed
  qed
qed

lemma shape_steps_inv:
  assumes "foldE (shape_step g env feed) st ns = Inr st'" and "shapes_inv g env feed ds st"
    and "distinct (ds @ ns)"
  shows "shapes_inv g env feed (ds @ ns) st'"
  using assms
proof (induction ns arbitrary: ds st)
  case Nil then show ?case by simp
next
  case (Cons n ns)
  from Cons.prems(1) obtain u where u: "shape_step g env feed st n = Inr u"
    and r: "foldE (shape_step g env feed) u ns = Inr st'" by (auto elim: bindE_InrE)
  have "shapes_inv g env feed (ds @ [n]) u"
    using shape_step_inv [OF u Cons.prems(2)] Cons.prems(3) by simp
  from Cons.IH [OF r this] Cons.prems(3) show ?case by simp
qed

lemma infer_shape_inv:
  assumes "infer_shape g env feed topo = Inr st" and "distinct topo"
  shows "shapes_inv g env feed topo st \<and> grouping st = []"
proof -
  from assms(1) obtain u where f: "foldE (shape_step g env feed)
      \<lparr>shapes = Map.empty, indexed = Map.empty, grouping = [], sent = []\<rparr> topo = Inr u"
    and g: "(if grouping u \<noteq> [] then make_group g env u else Inr u) = Inr st"
    unfolding infer_shape_def by (rule bindE_InrE)
  have "shapes_inv g env feed [] \<lparr>shapes = Map.empty, indexed = Map.empty, grouping = [], sent = []\<rparr>"
    by (simp add: shapes_inv_def)
  from shape_steps_inv [OF f this] assms(2) have "shapes_inv g env feed topo u" by simp
  then show ?thesis using g make_group_inv by (cases "grouping u = []") auto
qed

text \<open>C29: When the pass over an order without repetitions succeeds, exactly the nodes of the order have
  a shape, and it is the fed one, the one received from the previous stage, or the one the
  operator infers from the final shapes of its inputs.\<close>

theorem shape_inference_is_consistent:
  assumes "infer_shape g env feed topo = Inr st" and "distinct topo"
  shows "dom (shapes st) = set topo \<and>
     (\<forall>n \<in> set topo. map_lookup (shapes st) n = expected_shape g env feed (shapes st) n)"
proof -
  from infer_shape_inv [OF assms] have d: "dom (shapes st) = set topo"
    and e: "\<And>n s. shapes st n = Some s \<Longrightarrow> expected_shape g env feed (shapes st) n = Inr s"
    by (auto simp: shapes_inv_def)
  have "map_lookup (shapes st) n = expected_shape g env feed (shapes st) n" if "n \<in> set topo" for n
    using that d e by (metis domD map_lookup_Inr_iff)
  with d show ?thesis by blast
qed

text \<open>A two-stage example: the second stage feeds node 0, receives node 1, adds them and
  sends the result.\<close>

definition stage_graph :: graph where
  "stage_graph n = (if n = 0 then plain_op PlaceholderOp [] else if n = 1 then plain_op PipelineReceiveOp []
     else if n = 2 then plain_op AddOp [0, 1] else plain_op PipelineSendOp [2])"

definition stage_env :: shape_env where
  "stage_env = \<lparr>infer_op = (\<lambda>n ins. case ins of [a, b] \<Rightarrow> Inr a | _ \<Rightarrow> Inl AssertionError),
     peers = (\<lambda>n. if n = 1 then [0] else [2, 3]), received = (\<lambda>n src. [0, 0, 5, 6]),
     index_shape = (\<lambda>n. []), nrank = (\<lambda>n. 1)\<rparr>"

definition stage_feed :: "nat \<rightharpoonup> shape" where
  "stage_feed = [0 \<mapsto> [5, 6]]"

theorem shape_inference_is_consistent_witness:
  "\<exists>st. infer_shape stage_graph stage_env stage_feed [0, 1, 2, 3] = Inr st \<and>
     sent st = [(2, [0, 0, 5, 6]), (3, [0, 0, 5, 6])] \<and> dom (shapes st) = {0, 1, 2, 3}"
proof -
  have ok: "case infer_shape stage_graph stage_env stage_feed [0, 1, 2, 3] of
      Inl e \<Rightarrow> False | Inr st \<Rightarrow> sent st = [(2, [0, 0, 5, 6]), (3, [0, 0, 5, 6])]"
    by code_simp
  then obtain st where st: "infer_shape stage_graph stage_env stage_feed [0, 1, 2, 3] = Inr st"
    by (cases "infer_shape stage_graph stage_env stage_feed [0, 1, 2, 3]") auto
  from shape_inference_is_consistent [OF st] have "dom (shapes st) = {0, 1, 2, 3}" by simp
  with st ok show ?thesis by simp
qed

text \<open>A shape of at most four positive dimensions crosses a stage boundary unchanged: what a receiver
  decodes from the message of the sender, repeated by every source, is the sender's shape.\<close>

theorem stage_boundary_keeps_shape:
  assumes "send_messages g env st snd_node = Inr msgs" and "(d, msg) \<in> set msgs"
    and "kind (g snd_node) = PipelineSendOp" and "\<not> use_indexed_slices (g snd_node)"
    and "first_input g snd_node = Inr m" and "shapes st m = Some (Some s)"
    and "length s \<le> 4" and "0 \<notin> set s"
    and "peers env' rcv \<noteq> []" and "\<forall>src \<in> set (peers env' rcv). received env' rcv src = msg"
    and "\<not> use_indexed_slices (g' rcv)"
  shows "receive_shape g' env' rcv = Inr (s, None)"
proof -
  from assms(1-6) have e: "encode_shape (Some s) = Inr msg"
    by (auto simp: send_messages_def bindE_Inr_iff map_lookup_Inr_iff)
  have agree: "agree_loop acc (map (received env' rcv) ps) = Inr (if ps = [] then acc else Some msg)"
    if "\<forall>src \<in> set ps. received env' rcv src = msg" "acc = None \<or> acc = Some msg" for ps acc
    using that by (induction ps arbitrary: acc) auto
  show ?thesis
    using agree [OF assms(10)] assms(9,11) decode_encode [OF e assms(7,8)]
    by (simp add: receive_shape_def)
qed

theorem stage_boundary_keeps_shape_witness:
  "receive_shape stage_graph stage_env 1 = Inr ([5, 6], None)"
  by (rule stage_boundary_keeps_shape [of stage_graph stage_env
        "\<lparr>shapes = [2 \<mapsto> Some [5, 6]], indexed = Map.empty, grouping = [], sent = []\<rparr>" 3
        "[(2, [0, 0, 5, 6]), (3, [0, 0, 5, 6])]" 2 "[0, 0, 5, 6]" 2]) code_simp+

end
