(* ===== verification/MemoryPool.thy ===== *)
theory MemoryPool imports GraphShapes begin

text \<open>
  \<open>HetuMemoryPool\<close> of \<open>hetu/v1/python/hetu/memory_pool.py\<close>: the plan that lets an operator
  write into the buffer of an earlier one, the set of nodes whose buffers are never reused and
  the assignment of arrays. A release that recurses deeper than the fuel is Python's
  \<open>RecursionError\<close>, a \<open>RuntimeError\<close>; the number of computing nodes is enough.
\<close>

section \<open>The reuse plan\<close>

record mem_env =
  mgraph :: graph
  mctx :: "nat \<Rightarrow> nat"
  mdtype :: "nat \<Rightarrow> nat"
  mshape :: "nat \<rightharpoonup> shape option"
  computing :: "nat list"
  persistent :: "nat list"

type_synonym pool_key = "shape option \<times> nat \<times> nat"

record mem_state =
  outdeg :: "nat \<rightharpoonup> int"
  pool :: "pool_key \<Rightarrow> nat list"
  reuse :: "(nat \<times> nat) list"

definition indexed_nodes :: "op_kind list" where
  "indexed_nodes = [EmbeddingLookUp_Gradient, DataD2HSparseOp, DataH2DSparseOp, SparseSumOp]"

definition never_reused :: "mem_env \<Rightarrow> nat \<Rightarrow> bool" where
  "never_reused env n \<longleftrightarrow> n \<in> set (persistent env) \<or> kind (mgraph env n) \<in> set indexed_nodes"

definition node_key :: "mem_env \<Rightarrow> nat \<Rightarrow> pool_key result" where
  "node_key env n = bindE (map_lookup (mshape env) n) (\<lambda>s. Inr (s, mctx env n, mdtype env n))"

definition count_use :: "(nat \<rightharpoonup> int) \<Rightarrow> nat \<Rightarrow> (nat \<rightharpoonup> int)" where
  "count_use deg n = (case deg n of None \<Rightarrow> deg | Some d \<Rightarrow> deg(n \<mapsto> d + 1))"

definition out_degrees :: "graph \<Rightarrow> nat list \<Rightarrow> (nat \<rightharpoonup> int)" where
  "out_degrees g nodes = foldl (\<lambda>deg node. foldl count_use (deg(node \<mapsto> 0)) (inputs (g node))) Map.empty nodes"

fun release_node :: "mem_env \<Rightarrow> nat \<Rightarrow> nat \<Rightarrow> mem_state \<Rightarrow> mem_state result"
  and release_inputs :: "mem_env \<Rightarrow> nat \<Rightarrow> nat list \<Rightarrow> mem_state \<Rightarrow> mem_state result"
where
  "release_node env k node st =
     (if node \<notin> set (computing env) then Inr st
      else bindE (map_lookup (outdeg st) node) (\<lambda>d.
        let st1 = st\<lparr>outdeg := (outdeg st)(node \<mapsto> d - 1)\<rparr> in
        if 0 < d - 1 \<or> never_reused env node then Inr st1
        else assertE (d - 1 = 0)
          (if inplace (mgraph env node)
           then (case k of
                   0 \<Rightarrow> Inl RuntimeError
                 | Suc k' \<Rightarrow> release_inputs env k' (inputs (mgraph env node)) st1)
           else assertE (\<not> use_indexed_slices (mgraph env node))
             (bindE (node_key env node) (\<lambda>key.
                Inr (st1\<lparr>pool := (pool st1)(key := pool st1 key @ [node])\<rparr>))))))"
| "release_inputs env k [] st = Inr st"
| "release_inputs env k (n # ns) st = bindE (release_node env k n st) (release_inputs env k ns)"

definition take_from_pool :: "mem_env \<Rightarrow> nat \<Rightarrow> pool_key \<Rightarrow> mem_state \<Rightarrow> mem_state" where
  "take_from_pool env node key st =
     (if fst key = None \<or> never_reused env node \<or> pool st key = [] then st
      else st\<lparr>reuse := reuse st @ [(node, last (pool st key))],
              pool := (pool st)(key := butlast (pool st key))\<rparr>)"

definition plan_step :: "mem_env \<Rightarrow> nat \<Rightarrow> mem_state \<Rightarrow> nat \<Rightarrow> mem_state result" where
  "plan_step env fuel st node =
     (if inplace (mgraph env node) then Inr st
      else bindE (node_key env node) (\<lambda>key.
             release_inputs env fuel (inputs (mgraph env node)) (take_from_pool env node key st)))"

definition compute_memory_reuse_plan :: "mem_env \<Rightarrow> nat \<Rightarrow> (nat \<times> nat) list result" where
  "compute_memory_reuse_plan env fuel =
     bindE (foldE (plan_step env fuel)
              \<lparr>outdeg = out_degrees (mgraph env) (computing env), pool = (\<lambda>k. []), reuse = []\<rparr>
              (computing env)) (\<lambda>st. Inr (reuse st))"

text \<open>\<open>form_persistent_nodes\<close>: the evaluated nodes and the buffers that communication uses.\<close>

definition persistent_of :: "graph \<Rightarrow> nat \<Rightarrow> nat list result" where
  "persistent_of g n =
     (case kind (g n) of
        DataH2DOp \<Rightarrow> Inr [n]
      | AllReduceCommunicateOp \<Rightarrow> bindE (py_nth (inputs (g n)) 0) (\<lambda>m. Inr [m, n])
      | PipelineReceiveOp \<Rightarrow> Inr [n]
      | PipelineSendOp \<Rightarrow> bindE (py_nth (inputs (g n)) 0) (\<lambda>m. Inr [m])
      | _ \<Rightarrow> Inr [])"

definition form_persistent_nodes :: "graph \<Rightarrow> nat list \<Rightarrow> nat list \<Rightarrow> nat list result" where
  "form_persistent_nodes g eval_node_list nodes =
     bindE (mapE (persistent_of g) nodes) (\<lambda>ps. Inr (eval_node_list @ concat ps))"

section \<open>What a buffer is read by\<close>

inductive views :: "mem_env \<Rightarrow> nat \<Rightarrow> nat \<Rightarrow> bool" for env r where
  views_self: "views env r r"
| views_inplace: "x \<in> set (computing env) \<Longrightarrow> inplace (mgraph env x) \<Longrightarrow> y \<in> set (inputs (mgraph env x)) \<Longrightarrow>
    views env r y \<Longrightarrow> views env r x"

definition reads_buffer :: "mem_env \<Rightarrow> nat \<Rightarrow> nat \<Rightarrow> bool" where
  "reads_buffer env m r \<longleftrightarrow> m \<in> set (computing env) \<and> (\<exists>x \<in> set (inputs (mgraph env m)). views env r x)"

definition computing_order :: "mem_env \<Rightarrow> bool" where
  "computing_order env \<longleftrightarrow> distinct (computing env) \<and>
     (\<forall>i < length (computing env). \<forall>x \<in> set (inputs (mgraph env (computing env ! i))).
        x \<in> set (computing env) \<longrightarrow> x \<in> set (take i (computing env)))"

text \<open>The uses of a node by computing nodes that have not released their inputs yet.\<close>

definition open_uses :: "mem_env \<Rightarrow> nat set \<Rightarrow> nat \<Rightarrow> nat" where
  "open_uses env fired x = (\<Sum>m \<in> set (computing env) - fired. count_list (inputs (mgraph env m)) x)"

lemma open_uses_fire:
  assumes "m \<in> set (computing env)" and "m \<notin> F"
  shows "open_uses env F x = open_uses env (insert m F) x + count_list (inputs (mgraph env m)) x"
proof -
  have e: "set (computing env) - F = insert m (set (computing env) - insert m F)" using assms by auto
  show ?thesis unfolding open_uses_def e by (subst sum.insert) auto
qed

lemma open_uses_zero:
  "open_uses env F x = 0 \<longleftrightarrow> (\<forall>m \<in> set (computing env) - F. x \<notin> set (inputs (mgraph env m)))"
  by (auto simp: open_uses_def count_list_0_iff)

lemma open_uses_mono: "F \<subseteq> F' \<Longrightarrow> open_uses env F x = 0 \<Longrightarrow> open_uses env F' x = 0"
  by (auto simp: open_uses_zero)

section \<open>The invariant of the plan\<close>

text \<open>
  \<open>D\<close> are the nodes the loop has passed, \<open>F\<close> the nodes that have released their inputs, \<open>P\<close> the
  inputs of nodes in \<open>F\<close> that are still to be released.
\<close>

definition released :: "mem_state \<Rightarrow> nat set" where
  "released st = {r. (\<exists>k. r \<in> set (pool st k)) \<or> r \<in> snd ` set (reuse st)}"

definition degrees_ok :: "mem_env \<Rightarrow> nat set \<Rightarrow> nat list \<Rightarrow> mem_state \<Rightarrow> bool" where
  "degrees_ok env F P st \<longleftrightarrow>
     (\<forall>x \<in> set (computing env). outdeg st x = Some (int (open_uses env F x + count_list P x)))"

definition fired_ok :: "mem_env \<Rightarrow> nat set \<Rightarrow> nat set \<Rightarrow> nat list \<Rightarrow> bool" where
  "fired_ok env D F P \<longleftrightarrow>
     F \<subseteq> set (computing env) \<and> (\<forall>m \<in> F. \<not> inplace (mgraph env m) \<longrightarrow> m \<in> D) \<and>
     (\<forall>m \<in> F. inplace (mgraph env m) \<longrightarrow>
        open_uses env F m = 0 \<and> m \<notin> set P \<and> (\<exists>m' \<in> F. m \<in> set (inputs (mgraph env m')))) \<and>
     (\<forall>x \<in> set P. \<exists>m \<in> F. x \<in> set (inputs (mgraph env m)))"

definition pool_ok :: "mem_env \<Rightarrow> mem_state \<Rightarrow> bool" where
  "pool_ok env st \<longleftrightarrow>
     (\<forall>k. distinct (pool st k) \<and> (\<forall>r \<in> set (pool st k). node_key env r = Inr k \<and> r \<notin> snd ` set (reuse st))) \<and>
     distinct (map snd (reuse st))"

definition released_ok :: "mem_env \<Rightarrow> nat set \<Rightarrow> nat list \<Rightarrow> mem_state \<Rightarrow> bool" where
  "released_ok env F P st \<longleftrightarrow>
     (\<forall>r \<in> released st. r \<in> set (computing env) \<and> \<not> inplace (mgraph env r) \<and> \<not> never_reused env r \<and>
        open_uses env F r = 0 \<and> r \<notin> set P \<and> (\<exists>m \<in> F. r \<in> set (inputs (mgraph env m))))"

definition pool_inv :: "mem_env \<Rightarrow> nat set \<Rightarrow> nat set \<Rightarrow> nat list \<Rightarrow> mem_state \<Rightarrow> bool" where
  "pool_inv env D F P st \<longleftrightarrow>
     degrees_ok env F P st \<and> fired_ok env D F P \<and> pool_ok env st \<and> released_ok env F P st"

lemmas pool_inv_defs = pool_inv_def degrees_ok_def fired_ok_def pool_ok_def released_ok_def

declare release_node.simps [simp del]

lemma skip_release:
  assumes "pool_inv env D F (n # P) st" and "n \<notin> set (computing env)"
  shows "pool_inv env D F P st"
  using assms by (auto simp: pool_inv_defs)

lemma count_release:
  assumes "pool_inv env D F (n # P) st" and "n \<in> set (computing env)"
  shows "outdeg st n = Some (int (open_uses env F n + count_list P n) + 1)"
    and "pool_inv env D F P (st\<lparr>outdeg := (outdeg st)(n \<mapsto> int (open_uses env F n + count_list P n))\<rparr>)"
  using assms by (auto simp: pool_inv_defs released_def)

text \<open>An in-place node whose uses are all gone releases its own inputs.\<close>

lemma fire_inplace:
  assumes inv: "pool_inv env D F P st" and n: "n \<in> set (computing env)" and i: "inplace (mgraph env n)"
    and z: "open_uses env F n = 0" and p: "n \<notin> set P" and "n \<notin> F"
    and c: "\<exists>m \<in> F. n \<in> set (inputs (mgraph env m))"
  shows "pool_inv env D (insert n F) (inputs (mgraph env n) @ P) st"
proof -
  have u: "open_uses env F x = open_uses env (insert n F) x + count_list (inputs (mgraph env n)) x" for x
    by (rule open_uses_fire [OF n \<open>n \<notin> F\<close>])
  have free: "x \<notin> set (inputs (mgraph env n))" if "open_uses env F x = 0" for x
    using that n \<open>n \<notin> F\<close> by (auto simp: open_uses_zero)
  have deg: "degrees_ok env (insert n F) (inputs (mgraph env n) @ P) st"
    using inv by (simp add: pool_inv_def degrees_ok_def u)
  have zero: "open_uses env F x = 0 \<Longrightarrow> open_uses env (insert n F) x = 0" for x
    using u [of x] by simp
  have "fired_ok env D (insert n F) (inputs (mgraph env n) @ P)"
    using inv n i z p c zero free by (auto simp: pool_inv_def fired_ok_def)
  moreover have "released_ok env (insert n F) (inputs (mgraph env n) @ P) st"
    using inv zero free by (auto simp: pool_inv_def released_ok_def)
  ultimately show ?thesis using deg inv by (simp add: pool_inv_def)
qed

text \<open>A node whose uses are all gone enters the pool.\<close>

lemma enter_pool:
  assumes inv: "pool_inv env D F P st" and "n \<in> set (computing env)" and "\<not> inplace (mgraph env n)"
    and "\<not> never_reused env n" and "open_uses env F n = 0" and "n \<notin> set P"
    and "\<exists>m \<in> F. n \<in> set (inputs (mgraph env m))" and "n \<notin> released st" and "node_key env n = Inr key"
  shows "pool_inv env D F P (st\<lparr>pool := (pool st)(key := pool st key @ [n])\<rparr>)"
proof -
  let ?st = "st\<lparr>pool := (pool st)(key := pool st key @ [n])\<rparr>"
  have r: "released ?st \<subseteq> insert n (released st)" by (auto simp: released_def split: if_splits)
  have "released_ok env F P ?st"
    using assms(2-7) inv r unfolding released_ok_def pool_inv_def by blast
  moreover have "pool_ok env ?st"
    using assms(8,9) inv by (fastforce simp: pool_ok_def pool_inv_def released_def)
  ultimately show ?thesis using inv by (simp add: pool_inv_def degrees_ok_def)
qed

lemma release_keeps_inv:
  shows "release_node env k n st = Inr st' \<Longrightarrow> pool_inv env D F (n # P) st \<Longrightarrow>
      \<exists>F'. F \<subseteq> F' \<and> pool_inv env D F' P st' \<and> reuse st' = reuse st"
    and "release_inputs env k ns st = Inr st' \<Longrightarrow> pool_inv env D F (ns @ P) st \<Longrightarrow>
      \<exists>F'. F \<subseteq> F' \<and> pool_inv env D F' P st' \<and> reuse st' = reuse st"
proof (induction env k n st and env k ns st arbitrary: st' F P and st' F P
    rule: release_node_release_inputs.induct)
  case (1 env k n st)
  show ?case
  proof (cases "n \<in> set (computing env)")
    case False
    with "1.prems" have "st' = st" by (simp add: release_node.simps)
    then show ?thesis using skip_release [OF "1.prems"(2) False] by blast
  next
    case True
    obtain d where d: "d - 1 = int (open_uses env F n + count_list P n)"
      and lk: "map_lookup (outdeg st) n = Inr d"
      using count_release(1) [OF "1.prems"(2) True] that [of "int (open_uses env F n + count_list P n) + 1"]
      by (simp add: map_lookup_Inr_iff)
    let ?st = "st\<lparr>outdeg := (outdeg st)(n \<mapsto> d - 1)\<rparr>"
    have inv: "pool_inv env D F P ?st"
      using count_release(2) [OF "1.prems"(2) True] d by simp
    show ?thesis
    proof (cases "0 < d - 1 \<or> never_reused env n")
      case c: True
      with "1.prems"(1) True lk have "st' = ?st" by (auto simp: release_node.simps Let_def)
      then show ?thesis using inv by auto
    next
      case last: False
      then have d0: "d - 1 = 0" and z: "open_uses env F n = 0" "n \<notin> set P"
        using d count_list_0_iff [of P n] by simp_all
      have c: "\<exists>m \<in> F. n \<in> set (inputs (mgraph env m))"
        using "1.prems"(2) by (auto simp: pool_inv_def fired_ok_def)
      show ?thesis
      proof (cases "inplace (mgraph env n)")
        case i: True
        with "1.prems"(1) True lk last d0 obtain k' where k: "k = Suc k'"
          and r: "release_inputs env k' (inputs (mgraph env n)) ?st = Inr st'"
          by (cases k) (simp_all add: release_node.simps Let_def)
        have "n \<notin> F" using "1.prems"(2) i by (auto simp: pool_inv_def fired_ok_def)
        from fire_inplace [OF inv True i z this c]
        have "pool_inv env D (insert n F) (inputs (mgraph env n) @ P) ?st" .
        from "1.IH" [OF _ lk refl last d0 i k r this] True
        obtain F' where "insert n F \<subseteq> F'" "pool_inv env D F' P st'" "reuse st' = reuse ?st" by blast
        then show ?thesis by auto
      next
        case i: False
        with "1.prems"(1) True lk last d0 obtain key where key: "node_key env n = Inr key"
          and st': "st' = ?st\<lparr>pool := (pool ?st)(key := pool ?st key @ [n])\<rparr>"
          by (auto simp: release_node.simps Let_def assertE_Inr_iff bindE_Inr_iff)
        have "released ?st = released st" by (simp add: released_def)
        then have "n \<notin> released ?st"
          using "1.prems"(2) by (auto simp: pool_inv_def released_ok_def)
        from enter_pool [OF inv True i _ z c this key] last st' show ?thesis by auto
      qed
    qed
  qed
next
  case 2 then show ?case by auto
next
  case (3 env k n ns st)
  from "3.prems"(1) obtain u where u: "release_node env k n st = Inr u"
    and r: "release_inputs env k ns u = Inr st'" by (auto elim: bindE_InrE)
  from "3.IH"(1) [OF u, of F "ns @ P"] "3.prems"(2) obtain F1 where
    F1: "F \<subseteq> F1" "pool_inv env D F1 (ns @ P) u" "reuse u = reuse st" by auto
  from "3.IH"(2) [OF u r F1(2)] F1 show ?case by (metis order.trans)
qed

section \<open>The initial degrees\<close>

lemma count_uses: "foldl count_use deg ns x = map_option (\<lambda>d. d + int (count_list ns x)) (deg x)"
proof (induction ns arbitrary: deg)
  case Nil then show ?case by (cases "deg x") auto
next
  case (Cons n ns)
  then show ?case by (cases "deg n"; cases "deg x") (auto simp: count_use_def)
qed

lemma out_degrees_snoc:
  "out_degrees g (ns @ [n]) = foldl count_use ((out_degrees g ns)(n \<mapsto> 0)) (inputs (g n))"
  by (simp add: out_degrees_def)

lemma out_degrees_eq:
  assumes "distinct ns" and "\<And>i m. i < length ns \<Longrightarrow> m \<in> set (take i ns) \<Longrightarrow> ns ! i \<notin> set (inputs (g m))"
  shows "out_degrees g ns x =
     (if x \<in> set ns then Some (int (\<Sum>m \<in> set ns. count_list (inputs (g m)) x)) else None)"
  using assms
proof (induction ns rule: rev_induct)
  case Nil then show ?case by (simp add: out_degrees_def)
next
  case (snoc n ns)
  have "ns ! i \<notin> set (inputs (g m))" if "i < length ns" "m \<in> set (take i ns)" for i m
    using snoc.prems(2) [of i m] that by (simp add: nth_append)
  with snoc have ih: "out_degrees g ns x =
      (if x \<in> set ns then Some (int (\<Sum>m \<in> set ns. count_list (inputs (g m)) x)) else None)" by simp
  have "\<forall>m \<in> set ns. n \<notin> set (inputs (g m))"
    using snoc.prems(2) [of "length ns"] by simp
  then have "(\<Sum>m \<in> set ns. count_list (inputs (g m)) n) = 0"
    by (simp add: count_list_0_iff)
  then show ?case
    using ih snoc.prems(1) by (auto simp: out_degrees_snoc count_uses)
qed

lemma computing_order_later:
  assumes "computing_order env" and "i < length (computing env)" and "m \<in> set (take i (computing env))"
  shows "computing env ! i \<notin> set (inputs (mgraph env m))"
proof
  assume c: "computing env ! i \<in> set (inputs (mgraph env m))"
  from assms(3) obtain j where j: "j < i" "j < length (computing env)" "computing env ! j = m"
    using assms(2) by (auto simp: in_set_conv_nth)
  have "computing env ! i \<in> set (take j (computing env))"
    using assms(1,2) c j unfolding computing_order_def by (metis nth_mem)
  then obtain l where "l < j" "computing env ! l = computing env ! i"
    using j by (auto simp: in_set_conv_nth)
  then show False
    using assms(1,2) j unfolding computing_order_def by (metis less_trans nat_neq_iff nth_eq_iff_index_eq)
qed

lemma initial_inv:
  assumes "computing_order env"
  shows "pool_inv env {} {} [] \<lparr>outdeg = out_degrees (mgraph env) (computing env), pool = (\<lambda>k. []), reuse = []\<rparr>"
proof -
  have "out_degrees (mgraph env) (computing env) x = Some (int (open_uses env {} x))"
    if "x \<in> set (computing env)" for x
    using that assms out_degrees_eq [of "computing env" "mgraph env" x] computing_order_later [OF assms]
    by (simp add: open_uses_def computing_order_def)
  then show ?thesis by (simp add: pool_inv_defs released_def)
qed

section \<open>The loop\<close>

lemma fire_computed:
  assumes inv: "pool_inv env D F [] st" and n: "n \<in> set (computing env)"
    and i: "\<not> inplace (mgraph env n)" and "n \<notin> D"
  shows "pool_inv env (insert n D) (insert n F) (inputs (mgraph env n)) st"
proof -
  have "n \<notin> F" using inv i \<open>n \<notin> D\<close> by (auto simp: pool_inv_def fired_ok_def)
  have u: "open_uses env F x = open_uses env (insert n F) x + count_list (inputs (mgraph env n)) x" for x
    by (rule open_uses_fire [OF n \<open>n \<notin> F\<close>])
  have free: "x \<notin> set (inputs (mgraph env n))" if "open_uses env F x = 0" for x
    using that n \<open>n \<notin> F\<close> by (auto simp: open_uses_zero)
  have zero: "open_uses env F x = 0 \<Longrightarrow> open_uses env (insert n F) x = 0" for x
    using u [of x] by simp
  have "degrees_ok env (insert n F) (inputs (mgraph env n)) st"
    using inv by (simp add: pool_inv_def degrees_ok_def u)
  moreover have "fired_ok env (insert n D) (insert n F) (inputs (mgraph env n))"
    using inv n i zero free by (auto simp: pool_inv_def fired_ok_def)
  moreover have "released_ok env (insert n F) (inputs (mgraph env n)) st"
    using inv zero free by (auto simp: pool_inv_def released_ok_def)
  ultimately show ?thesis using inv by (simp add: pool_inv_def)
qed

lemma skip_inplace:
  "pool_inv env D F [] st \<Longrightarrow> pool_inv env (insert n D) F [] st"
  by (auto simp: pool_inv_def fired_ok_def)

lemma take_keeps_inv:
  assumes "pool_inv env D F P st"
  shows "pool_inv env D F P (take_from_pool env n key st)"
proof (cases "fst key = None \<or> never_reused env n \<or> pool st key = []")
  case True then show ?thesis using assms by (simp add: take_from_pool_def)
next
  case False
  define r xs where "r = last (pool st key)" and "xs = butlast (pool st key)"
  with False have p: "pool st key = xs @ [r]" by simp
  have t: "take_from_pool env n key st =
      st\<lparr>reuse := reuse st @ [(n, r)], pool := (pool st)(key := xs)\<rparr>" (is "_ = ?st")
    using False by (auto simp: take_from_pool_def r_def xs_def)
  have pool: "pool_ok env st" using assms by (simp add: pool_inv_def)
  have in_pool: "s \<in> set (pool st k) \<Longrightarrow> node_key env s = Inr k" for s k
    using pool unfolding pool_ok_def by blast
  have r: "r \<in> set (pool st key)" using p by simp
  have rp: "r \<notin> set (pool ?st k)" for k
  proof (cases "k = key")
    case True
    have "distinct (xs @ [r])" using pool p unfolding pool_ok_def by metis
    then show ?thesis using True by simp
  next
    case False
    then show ?thesis using in_pool [of r k] in_pool [OF r] by auto
  qed
  have sub: "set (pool ?st k) \<subseteq> set (pool st k)" for k using p by auto
  have v: "snd ` set (reuse ?st) = insert r (snd ` set (reuse st))" by simp
  have "released ?st \<subseteq> released st"
  proof
    fix x assume "x \<in> released ?st"
    then consider k where "x \<in> set (pool ?st k)" | "x = r" | "x \<in> snd ` set (reuse st)"
      unfolding released_def v by blast
    then show "x \<in> released st"
    proof cases
      case 1 then show ?thesis using sub [of k] unfolding released_def by blast
    qed (use r in \<open>unfold released_def, blast+\<close>)
  qed
  then have "released_ok env F P ?st" using assms unfolding pool_inv_def released_ok_def by blast
  moreover have "pool_ok env ?st"
  proof -
    have "distinct (pool ?st k)" for k
    proof -
      have "distinct (pool st k)" using pool unfolding pool_ok_def by blast
      then show ?thesis using p by (cases "k = key") auto
    qed
    moreover have "node_key env s = Inr k \<and> s \<notin> snd ` set (reuse ?st)" if s: "s \<in> set (pool ?st k)" for s k
    proof -
      have "s \<in> set (pool st k)" using sub s by blast
      then have "node_key env s = Inr k" "s \<notin> snd ` set (reuse st)" using pool unfolding pool_ok_def by blast+
      moreover have "s \<noteq> r" using rp s by metis
      ultimately show ?thesis by auto
    qed
    moreover have "distinct (map snd (reuse ?st))"
    proof -
      have "r \<notin> snd ` set (reuse st)" "distinct (map snd (reuse st))"
        using pool r unfolding pool_ok_def by blast+
      then show ?thesis by simp
    qed
    ultimately show ?thesis unfolding pool_ok_def by blast
  qed
  ultimately show ?thesis using assms unfolding t by (simp add: pool_inv_def degrees_ok_def)
qed

text \<open>Whatever has released its inputs has been passed by the loop.\<close>

lemma fired_passed:
  assumes inv: "pool_inv env (set (take i (computing env))) F [] st" and ord: "computing_order env"
    and "m \<in> F"
  shows "m \<in> set (take i (computing env))"
proof -
  let ?C = "computing env"
  have "j < length ?C \<Longrightarrow> ?C ! j \<in> F \<Longrightarrow> j < i" for j
  proof (induction "length ?C - j" arbitrary: j rule: less_induct)
    case less
    show ?case
    proof (cases "inplace (mgraph env (?C ! j))")
      case False
      then have "?C ! j \<in> set (take i ?C)" using inv less.prems(2) by (auto simp: pool_inv_def fired_ok_def)
      then show ?thesis using ord less.prems(1)
        by (auto simp: computing_order_def in_set_conv_nth nth_eq_iff_index_eq)
    next
      case True
      then obtain m' where m': "m' \<in> F" "?C ! j \<in> set (inputs (mgraph env m'))" "m' \<in> set ?C"
        using inv less.prems(2) unfolding pool_inv_def fired_ok_def by blast
      then obtain l where l: "l < length ?C" "?C ! l = m'" by (auto simp: in_set_conv_nth)
      then have "?C ! j \<in> set (take l ?C)"
        using ord m'(2) less.prems(1) unfolding computing_order_def by (metis nth_mem)
      then have "j < l" using ord less.prems(1) l(1)
        by (auto simp: computing_order_def in_set_conv_nth nth_eq_iff_index_eq)
      moreover have "l < i" using less.hyps [of l] l m'(1) less.prems(1) \<open>j < l\<close> by simp
      ultimately show ?thesis by simp
    qed
  qed
  moreover have "m \<in> set ?C" using inv assms(3) by (auto simp: pool_inv_def fired_ok_def)
  ultimately show ?thesis using assms(3)
    by (metis in_set_conv_nth length_take min_less_iff_conj nth_take)
qed

text \<open>All readers of a released buffer have been passed by the loop.\<close>

lemma view_uses_gone:
  assumes inv: "pool_inv env D F [] st" and "views env r x" and "open_uses env F r = 0"
  shows "open_uses env F x = 0"
  using assms(2,3)
proof (induction rule: views.induct)
  case views_self then show ?case by simp
next
  case (views_inplace x y)
  then have "x \<in> F" by (auto simp: open_uses_zero)
  then show ?case using inv views_inplace.hyps(2) by (auto simp: pool_inv_def fired_ok_def)
qed

lemma readers_passed:
  assumes inv: "pool_inv env (set (take i (computing env))) F [] st" and ord: "computing_order env"
    and "r \<in> released st" and "reads_buffer env m r"
  shows "m \<in> set (take i (computing env))"
proof -
  from assms(4) obtain x where x: "x \<in> set (inputs (mgraph env m))" "views env r x" "m \<in> set (computing env)"
    by (auto simp: reads_buffer_def)
  have "open_uses env F r = 0" using inv assms(3) by (auto simp: pool_inv_def released_ok_def)
  from view_uses_gone [OF inv x(2) this] have "m \<in> F" using x by (auto simp: open_uses_zero)
  from fired_passed [OF inv ord this] show ?thesis .
qed

definition reuse_safe :: "mem_env \<Rightarrow> nat \<times> nat \<Rightarrow> bool" where
  "reuse_safe env p \<longleftrightarrow>
     (case p of (n, r) \<Rightarrow>
        \<not> never_reused env n \<and> \<not> never_reused env r \<and> node_key env n = node_key env r \<and>
        \<not> inplace (mgraph env n) \<and> \<not> inplace (mgraph env r) \<and>
        (\<exists>i < length (computing env). computing env ! i = n \<and>
           (\<forall>m. reads_buffer env m r \<longrightarrow> m \<in> set (take i (computing env))) \<and>
           r \<in> set (take i (computing env))))"

lemma take_is_safe:
  assumes inv: "pool_inv env (set (take i (computing env))) F [] st" and ord: "computing_order env"
    and i: "i < length (computing env)" and ip: "\<not> inplace (mgraph env (computing env ! i))"
    and key: "node_key env (computing env ! i) = Inr key" and safe: "\<forall>p \<in> set (reuse st). reuse_safe env p"
  shows "\<forall>p \<in> set (reuse (take_from_pool env (computing env ! i) key st)). reuse_safe env p"
proof (cases "fst key = None \<or> never_reused env (computing env ! i) \<or> pool st key = []")
  case True then show ?thesis using safe by (simp add: take_from_pool_def)
next
  case False
  let ?n = "computing env ! i" and ?r = "last (pool st key)"
  have rp: "?r \<in> set (pool st key)" using False by simp
  then have rel: "?r \<in> released st" unfolding released_def by blast
  have rk: "node_key env ?r = Inr key" using inv rp unfolding pool_inv_def pool_ok_def by blast
  have r: "?r \<in> set (computing env)" "\<not> inplace (mgraph env ?r)" "\<not> never_reused env ?r"
    and "\<exists>m \<in> F. ?r \<in> set (inputs (mgraph env m))"
    using inv rel by (auto simp: pool_inv_def released_ok_def)
  then obtain m where m: "m \<in> F" "?r \<in> set (inputs (mgraph env m))" by blast
  from fired_passed [OF inv ord m(1)] i obtain j where j: "j < i" "computing env ! j = m"
    by (auto simp: in_set_conv_nth)
  then have "?r \<in> set (take j (computing env))"
    using ord i m(2) r(1) unfolding computing_order_def by (metis less_trans)
  then have "?r \<in> set (take i (computing env))"
    using j(1) set_take_subset_set_take [of j i "computing env"] by auto
  then have "reuse_safe env (?n, ?r)"
    using False i ip key rk r readers_passed [OF inv ord rel] by (auto simp: reuse_safe_def)
  then show ?thesis using safe False by (auto simp: take_from_pool_def)
qed

lemma plan_steps:
  assumes "foldE (plan_step env k) st (drop i (computing env)) = Inr st'" and "i \<le> length (computing env)"
    and "pool_inv env (set (take i (computing env))) F [] st" and "computing_order env"
    and "\<forall>p \<in> set (reuse st). reuse_safe env p"
  shows "(\<forall>p \<in> set (reuse st'). reuse_safe env p) \<and> distinct (map snd (reuse st'))"
  using assms
proof (induction "length (computing env) - i" arbitrary: i st F)
  case 0
  then show ?case by (auto simp: pool_inv_def pool_ok_def)
next
  case (Suc x)
  then have i: "i < length (computing env)" by simp
  let ?n = "computing env ! i"
  have d: "drop i (computing env) = ?n # drop (Suc i) (computing env)" using i by (simp add: Cons_nth_drop_Suc)
  have t: "set (take (Suc i) (computing env)) = insert ?n (set (take i (computing env)))"
    using i by (simp add: take_Suc_conv_app_nth)
  from Suc.prems(1) obtain u where u: "plan_step env k st ?n = Inr u"
    and r: "foldE (plan_step env k) u (drop (Suc i) (computing env)) = Inr st'"
    unfolding d by (auto elim: bindE_InrE)
  have "\<exists>F'. pool_inv env (set (take (Suc i) (computing env))) F' [] u \<and> (\<forall>p \<in> set (reuse u). reuse_safe env p)"
  proof (cases "inplace (mgraph env ?n)")
    case True
    with u have "u = st" by (simp add: plan_step_def)
    then show ?thesis using skip_inplace [OF Suc.prems(3)] Suc.prems(5) t by auto
  next
    case False
    with u obtain key where key: "node_key env ?n = Inr key"
      and rel: "release_inputs env k (inputs (mgraph env ?n)) (take_from_pool env ?n key st) = Inr u"
      by (auto simp: plan_step_def elim: bindE_InrE)
    note safe = take_is_safe [OF Suc.prems(3,4) i False key Suc.prems(5)]
    have "?n \<notin> set (take i (computing env))"
      using Suc.prems(4) i by (auto simp: computing_order_def in_set_conv_nth nth_eq_iff_index_eq)
    from fire_computed [OF take_keeps_inv [OF Suc.prems(3)] _ False this] i
    have "pool_inv env (insert ?n (set (take i (computing env)))) (insert ?n F)
        (inputs (mgraph env ?n) @ []) (take_from_pool env ?n key st)" by simp
    from release_keeps_inv(2) [OF rel this] safe t show ?thesis by auto
  qed
  then obtain F' where "pool_inv env (set (take (Suc i) (computing env))) F' [] u"
    "\<forall>p \<in> set (reuse u). reuse_safe env p" by blast
  from Suc.hyps(1) [OF _ r _ this(1) Suc.prems(4) this(2)] Suc.hyps(2) i show ?case by simp
qed


definition chain_graph :: graph where
  "chain_graph n = (if n = 0 then plain_op PlaceholderOp [] else plain_op OtherOp [n - 1])"

definition chain_env :: mem_env where
  "chain_env = \<lparr>mgraph = chain_graph, mctx = (\<lambda>n. 0), mdtype = (\<lambda>n. 0), mshape = (\<lambda>n. Some (Some [8, 8])),
     computing = [1, 2, 3, 4, 5], persistent = [5]\<rparr>"


section \<open>The plan always exists\<close>

definition can_plan :: "mem_env \<Rightarrow> bool" where
  "can_plan env \<longleftrightarrow>
     (\<forall>n \<in> set (computing env). mshape env n \<noteq> None \<and>
        (use_indexed_slices (mgraph env n) \<longrightarrow> inplace (mgraph env n) \<or> never_reused env n))"

lemma can_plan_key:
  assumes "can_plan env" and "n \<in> set (computing env)"
  obtains key where "node_key env n = Inr key"
  using assms by (auto simp: can_plan_def node_key_def map_lookup_def)

lemma earlier_inputs:
  assumes "computing_order env" and "n \<in> set (take (Suc k) (computing env))"
    and "x \<in> set (inputs (mgraph env n))" and "x \<in> set (computing env)"
  shows "x \<in> set (take k (computing env))"
proof -
  from assms(2) obtain j where j: "j < Suc k" "j < length (computing env)" "computing env ! j = n"
    by (auto simp: in_set_conv_nth)
  then have "x \<in> set (take j (computing env))" using assms(1,3,4) by (auto simp: computing_order_def)
  then show ?thesis using j(1) set_take_subset_set_take [of j k "computing env"] by auto
qed

text \<open>No assertion of a release fails and the recursion ends within the fuel.\<close>

lemma release_total:
  shows "pool_inv env D F (n # P) st \<Longrightarrow> computing_order env \<Longrightarrow> can_plan env \<Longrightarrow>
      n \<in> set (computing env) \<longrightarrow> n \<in> set (take k (computing env)) \<Longrightarrow>
      \<exists>st'. release_node env k n st = Inr st'"
    and "pool_inv env D F (ns @ P) st \<Longrightarrow> computing_order env \<Longrightarrow> can_plan env \<Longrightarrow>
      \<forall>n \<in> set ns. n \<in> set (computing env) \<longrightarrow> n \<in> set (take k (computing env)) \<Longrightarrow>
      \<exists>st'. release_inputs env k ns st = Inr st'"
proof (induction env k n st and env k ns st arbitrary: F P and F P
    rule: release_node_release_inputs.induct)
  case (1 env k n st)
  show ?case
  proof (cases "n \<in> set (computing env)")
    case False then show ?thesis by (simp add: release_node.simps)
  next
    case True
    obtain d where d: "d - 1 = int (open_uses env F n + count_list P n)"
      and lk: "map_lookup (outdeg st) n = Inr d"
      using count_release(1) [OF "1.prems"(1) True] that [of "int (open_uses env F n + count_list P n) + 1"]
      by (simp add: map_lookup_Inr_iff)
    let ?st = "st\<lparr>outdeg := (outdeg st)(n \<mapsto> d - 1)\<rparr>"
    have inv: "pool_inv env D F P ?st" using count_release(2) [OF "1.prems"(1) True] d by simp
    show ?thesis
    proof (cases "0 < d - 1 \<or> never_reused env n")
      case c: True
      with True lk show ?thesis by (auto simp: release_node.simps Let_def)
    next
      case last: False
      then have d0: "d - 1 = 0" and z: "open_uses env F n = 0" "n \<notin> set P"
        using d count_list_0_iff [of P n] by simp_all
      have c: "\<exists>m \<in> F. n \<in> set (inputs (mgraph env m))"
        using "1.prems"(1) by (auto simp: pool_inv_def fired_ok_def)
      show ?thesis
      proof (cases "inplace (mgraph env n)")
        case i: True
        from True "1.prems"(4) obtain k' where k: "k = Suc k'" by (cases k) auto
        have "n \<notin> F" using "1.prems"(1) i by (auto simp: pool_inv_def fired_ok_def)
        from fire_inplace [OF inv True i z this c]
        have inv': "pool_inv env D (insert n F) (inputs (mgraph env n) @ P) ?st" .
        have "\<forall>x \<in> set (inputs (mgraph env n)). x \<in> set (computing env) \<longrightarrow> x \<in> set (take k' (computing env))"
          using earlier_inputs [OF "1.prems"(2)] "1.prems"(4) True k by blast
        from "1.IH" [OF _ lk refl last d0 i k inv' "1.prems"(2,3) this] True
        show ?thesis using lk last d0 i k by (auto simp: release_node.simps Let_def)
      next
        case i: False
        from can_plan_key [OF "1.prems"(3) True] obtain key where "node_key env n = Inr key" .
        moreover have "\<not> use_indexed_slices (mgraph env n)"
          using "1.prems"(3) True i last by (auto simp: can_plan_def)
        ultimately show ?thesis using True lk last d0 i by (simp add: release_node.simps Let_def)
      qed
    qed
  qed
next
  case 2 then show ?case by simp
next
  case (3 env k n ns st)
  from "3.IH"(1) [of F "ns @ P"] "3.prems" obtain u where u: "release_node env k n st = Inr u" by auto
  from release_keeps_inv(1) [OF u, of D F "ns @ P"] "3.prems"(1) obtain F' where
    "pool_inv env D F' (ns @ P) u" by auto
  from "3.IH"(2) [OF u this "3.prems"(2,3)] "3.prems"(4) u show ?case by simp
qed

lemma plan_steps_total:
  assumes "i \<le> length (computing env)" and "pool_inv env (set (take i (computing env))) F [] st"
    and "computing_order env" and "can_plan env"
  shows "\<exists>st'. foldE (plan_step env (length (computing env))) st (drop i (computing env)) = Inr st'"
  using assms
proof (induction "length (computing env) - i" arbitrary: i st F)
  case 0 then show ?case by simp
next
  case (Suc x)
  then have i: "i < length (computing env)" by simp
  let ?n = "computing env ! i" and ?k = "length (computing env)"
  have d: "drop i (computing env) = ?n # drop (Suc i) (computing env)" using i by (simp add: Cons_nth_drop_Suc)
  have t: "set (take (Suc i) (computing env)) = insert ?n (set (take i (computing env)))"
    using i by (simp add: take_Suc_conv_app_nth)
  have "\<exists>u F'. plan_step env ?k st ?n = Inr u \<and> pool_inv env (set (take (Suc i) (computing env))) F' [] u"
  proof (cases "inplace (mgraph env ?n)")
    case True
    then show ?thesis using skip_inplace [OF Suc.prems(2), of ?n] t by (auto simp: plan_step_def)
  next
    case False
    obtain key where key: "node_key env ?n = Inr key"
      using can_plan_key [OF Suc.prems(4) nth_mem [OF i]] .
    have "?n \<notin> set (take i (computing env))"
      using Suc.prems(3) i by (auto simp: computing_order_def in_set_conv_nth nth_eq_iff_index_eq)
    from fire_computed [OF take_keeps_inv [OF Suc.prems(2)] _ False this] i
    have inv: "pool_inv env (insert ?n (set (take i (computing env)))) (insert ?n F)
        (inputs (mgraph env ?n) @ []) (take_from_pool env ?n key st)" by simp
    from release_total(2) [OF inv Suc.prems(3,4), of ?k] obtain u where
      u: "release_inputs env ?k (inputs (mgraph env ?n)) (take_from_pool env ?n key st) = Inr u" by auto
    from release_keeps_inv(2) [OF u inv] show ?thesis using u key False t by (auto simp: plan_step_def)
  qed
  then obtain u F' where u: "plan_step env ?k st ?n = Inr u"
    "pool_inv env (set (take (Suc i) (computing env))) F' [] u" by blast
  from Suc.hyps(1) [OF _ _ u(2) Suc.prems(3,4)] Suc.hyps(2) i u(1) show ?case by (simp add: d)
qed



section \<open>The assignment of arrays\<close>

text \<open>
  \<open>Buffer n\<close> is an array allocated for node \<open>n\<close>, \<open>Unbound\<close> the empty handle \<open>NDArray(None)\<close>,
  \<open>Sparse n\<close> a pair of index and value arrays, \<open>Value n\<close> the array of a variable and \<open>PsValue n\<close> one
  held for the parameter server.
\<close>

datatype array = NoArray | Unbound | Buffer nat | Sparse nat | Value nat | PsValue nat

record array_env =
  shape_items :: "(nat \<times> shape option) list"
  placeholder_arr :: "nat \<Rightarrow> array option"
  sparse_shapes :: "nat \<Rightarrow> bool"
  on_gpu :: "nat \<Rightarrow> bool"
  inference :: bool
  prefetch :: bool

definition input_array :: "graph \<Rightarrow> (nat \<rightharpoonup> array) \<Rightarrow> nat \<Rightarrow> array result" where
  "input_array g arrs n = bindE (py_nth (inputs (g n)) 0) (map_lookup arrs)"

definition array_of ::
  "graph \<Rightarrow> array_env \<Rightarrow> (nat \<times> nat) list \<Rightarrow> (nat \<rightharpoonup> array) \<Rightarrow> nat \<Rightarrow> shape option \<Rightarrow> array result" where
  "array_of g env plan arrs n s =
     (if s = None then Inr NoArray
      else if sparse_shapes env n then Inr (Sparse n)
      else if kind (g n) = EmbeddingLookUp \<and> prefetch env
      then bindE (py_nth (inputs (g n)) 0) (\<lambda>m. Inr (PsValue m))
      else if on_gpu env n then
        (if inplace (g n) \<or> kind (g n) \<in> set indexed_nodes then Inr Unbound
         else if inference env \<and> kind (g n) = DropoutOp then input_array g arrs n
         else let r = dict_get plan n n in
              if r = n then Inr (Buffer n) else map_lookup arrs r)
      else Inr (Buffer n))"

definition array_step ::
  "graph \<Rightarrow> array_env \<Rightarrow> (nat \<times> nat) list \<Rightarrow> (nat \<rightharpoonup> array) \<Rightarrow> nat \<times> shape option \<Rightarrow> (nat \<rightharpoonup> array) result" where
  "array_step g env plan arrs item =
     (case item of (n, s) \<Rightarrow>
        if kind (g n) = PlaceholderOp then
          (case placeholder_arr env n of
             Some a \<Rightarrow> Inr (arrs(n \<mapsto> a))
           | None \<Rightarrow> Inr (if arrs n = None then arrs(n \<mapsto> NoArray) else arrs))
        else if kind (g n) = DataloaderOp then Inr arrs
        else if kind (g n) = StopGradientOp then bindE (input_array g arrs n) (\<lambda>a. Inr (arrs(n \<mapsto> a)))
        else bindE (array_of g env plan arrs n s) (\<lambda>a. Inr (arrs(n \<mapsto> a))))"

definition memory_plan :: "mem_env \<Rightarrow> array_env \<Rightarrow> nat \<Rightarrow> (nat \<rightharpoonup> array) \<Rightarrow> (nat \<rightharpoonup> array) result" where
  "memory_plan menv env fuel arrs =
     bindE (compute_memory_reuse_plan menv fuel) (\<lambda>plan.
       foldE (array_step (mgraph menv) env plan) arrs (shape_items env))"

text \<open>Node 2 is a dropout of node 1; node 3 is independent of it and node 4 adds the two.\<close>

definition dropout_graph :: graph where
  "dropout_graph n = (if n = 0 then plain_op PlaceholderOp [] else if n = 1 then plain_op OtherOp [0]
     else if n = 2 then plain_op DropoutOp [1] else if n = 3 then plain_op OtherOp [0]
     else plain_op AddOp [2, 3])"

definition dropout_env :: mem_env where
  "dropout_env = \<lparr>mgraph = dropout_graph, mctx = (\<lambda>n. 0), mdtype = (\<lambda>n. 0), mshape = (\<lambda>n. Some (Some [8, 8])),
     computing = [1, 2, 3, 4], persistent = [4]\<rparr>"

definition dropout_arrays :: "bool \<Rightarrow> array_env" where
  "dropout_arrays infer_mode = \<lparr>shape_items = map (\<lambda>n. (n, Some [8, 8])) [0, 1, 2, 3, 4],
     placeholder_arr = (\<lambda>n. Some (Value n)), sparse_shapes = (\<lambda>n. False), on_gpu = (\<lambda>n. True),
     inference = infer_mode, prefetch = False\<rparr>"

definition arrays_of_inputs :: "bool \<Rightarrow> array option list result" where
  "arrays_of_inputs infer_mode =
     bindE (memory_plan dropout_env (dropout_arrays infer_mode) 4 Map.empty) (\<lambda>arrs. Inr (map arrs [2, 3]))"

text \<open>In inference a dropout shares the array of its input, but the reuse plan still frees that
  array after the dropout: a later operator gets the same array and overwrites what the consumer
  of both is about to read. In training the two operands have arrays of their own.\<close>

theorem inference_dropout_is_overwritten:
  "arrays_of_inputs True = Inr [Some (Buffer 1), Some (Buffer 1)] \<and>
   arrays_of_inputs False = Inr [Some (Buffer 2), Some (Buffer 1)]"
  by code_simp

text \<open>
  The same happens behind a \<open>StopGradientOp\<close>, which is not computed: node 2 stops the gradient of
  node 1, which node 3 reads; node 4 gets the array of node 1 while node 5 still reads node 2.
\<close>

definition stop_graph :: graph where
  "stop_graph n = (if n = 0 then plain_op PlaceholderOp [] else if n = 1 then plain_op OtherOp [0]
     else if n = 2 then plain_op StopGradientOp [1] else if n = 3 then plain_op OtherOp [1]
     else if n = 4 then plain_op OtherOp [3] else plain_op AddOp [4, 2])"

definition stop_env :: mem_env where
  "stop_env = dropout_env\<lparr>mgraph := stop_graph, computing := [1, 3, 4, 5], persistent := [5]\<rparr>"

definition stop_arrays :: array_env where
  "stop_arrays = (dropout_arrays False)\<lparr>shape_items := map (\<lambda>n. (n, Some [8, 8])) [0, 1, 2, 3, 4, 5]\<rparr>"

lemma stop_gradient_is_overwritten:
  "bindE (memory_plan stop_env stop_arrays 4 Map.empty) (\<lambda>arrs. Inr (map arrs [4, 2])) =
     Inr [Some (Buffer 1), Some (Buffer 1)]"
  by code_simp

end
