(* ===== verification/Bucket.thy ===== *)
theory Bucket imports Prelude begin

text \<open>
  Sequence batching of \<open>hetu/engine/data_utils/bucket.py\<close>: buckets of sequences by length,
  padding, packing of several sequences into one row (by a given assignment or greedily) and
  the distribution of a batch over buckets for the inputs and for the labels. Token rows are
  lists, NumPy arrays are values, \<open>np.argsort\<close> is a parameter.
\<close>

section \<open>The bucket\<close>

record bucket =
  pad_token :: int
  max_seqlen :: int
  min_seqlen :: int
  alignment :: int
  batch :: "int list list"
  cu_seqlens_list :: "int list list"
  packed_rows :: "int list list option"
  packed_cu :: "int list list option"
  padded_rows :: "int list list option"
  padded_cu :: "int list list option"

definition new_bucket :: "int \<Rightarrow> int \<Rightarrow> int \<Rightarrow> int \<Rightarrow> bucket" where
  "new_bucket pad mx mn al =
     \<lparr>pad_token = pad, max_seqlen = mx, min_seqlen = mn, alignment = al, batch = [],
      cu_seqlens_list = [], packed_rows = None, packed_cu = None, padded_rows = None, padded_cu = None\<rparr>"

text \<open>Python's \<open>xs[:k]\<close>, where a negative \<open>k\<close> counts from the end.\<close>

definition py_take :: "int \<Rightarrow> 'a list \<Rightarrow> 'a list" where
  "py_take k xs = take (if k < 0 then length xs - nat (- k) else nat k) xs"

definition add_data :: "bucket \<Rightarrow> int list \<Rightarrow> int \<Rightarrow> bucket \<times> bool" where
  "add_data b padded_sequence valid_tokens =
     (if min_seqlen b < valid_tokens \<and> valid_tokens \<le> max_seqlen b
      then (b\<lparr>batch := batch b @ [py_take valid_tokens padded_sequence],
              cu_seqlens_list := cu_seqlens_list b @ [[0, valid_tokens]]\<rparr>, True)
      else (b, False))"

text \<open>Python's \<open>[x] * k\<close>: empty for a negative count.\<close>

definition pads :: "bucket \<Rightarrow> int \<Rightarrow> int list" where
  "pads b k = replicate (nat k) (pad_token b)"

definition pad_row :: "bucket \<Rightarrow> int list \<Rightarrow> int list" where
  "pad_row b s =
     (let pad_seqlen = max_seqlen b - int (length s) in
      if 0 < pad_seqlen then s @ pads b pad_seqlen else s)"

definition pad_data :: "bucket \<Rightarrow> bucket result" where
  "pad_data b =
     (if length (cu_seqlens_list b) < length (batch b) then Inl IndexError
      else Inr (b\<lparr>padded_rows := Some (map (pad_row b) (batch b)),
                  padded_cu := Some (take (length (batch b)) (cu_seqlens_list b))\<rparr>))"

section \<open>Packing\<close>

text \<open>The fill that makes a row a multiple of the alignment.\<close>

definition align_fill :: "bucket \<Rightarrow> int \<Rightarrow> int list list result" where
  "align_fill b cur =
     (if alignment b = 0 then Inl ZeroDivisionError
      else Inr (if cur mod alignment b \<noteq> 0 then [pads b (alignment b - cur mod alignment b)] else []))"

definition concatenate :: "int list list \<Rightarrow> int list result" where
  "concatenate rows = (if rows = [] then Inl ValueError else Inr (concat rows))"

type_synonym pack_state = "int list list \<times> int \<times> int list"

definition pack_append :: "pack_state \<Rightarrow> int list \<Rightarrow> pack_state" where
  "pack_append st s = (case st of (packed_seqs, cur, cu) \<Rightarrow>
     (packed_seqs @ [s], cur + int (length s), cu @ [cur + int (length s)]))"

text \<open>Packing by a 0/1 matrix: row \<open>i\<close>, column \<open>j\<close> tells whether sequence \<open>i\<close> is in micro-batch \<open>j\<close>.\<close>

definition column_step :: "bucket \<Rightarrow> nat \<Rightarrow> pack_state \<Rightarrow> nat \<times> bool list \<Rightarrow> pack_state result" where
  "column_step b j st row =
     bindE (py_nth (snd row) (int j)) (\<lambda>chosen.
       if chosen then bindE (py_nth (batch b) (int (fst row))) (\<lambda>s. Inr (pack_append st s)) else Inr st)"

definition pack_column :: "bucket \<Rightarrow> bool list list \<Rightarrow> nat \<Rightarrow> (int list \<times> int list) result" where
  "pack_column b matrix j =
     bindE (foldE (column_step b j) ([], 0, [0]) (zip [0..<length matrix] matrix)) (\<lambda>(seqs, cur, cu).
     bindE (align_fill b cur) (\<lambda>fill.
     bindE (concatenate (seqs @ fill)) (\<lambda>row. Inr (row, cu))))"

text \<open>The greedy packing: each unpacked sequence opens a row and takes the longest that still fit.\<close>

fun fill_loop :: "bucket \<Rightarrow> nat list \<Rightarrow> nat list \<times> pack_state \<Rightarrow> nat list \<times> pack_state" where
  "fill_loop b [] st = st"
| "fill_loop b (j # js) (visited, seqs, cur, cu) =
     fill_loop b js
       (if j \<notin> set visited \<and> cur + int (length (batch b ! j)) \<le> max_seqlen b
        then (j # visited, pack_append (seqs, cur, cu) (batch b ! j))
        else (visited, seqs, cur, cu))"

definition row_fill :: "bucket \<Rightarrow> bool \<Rightarrow> int \<Rightarrow> int list list result" where
  "row_fill b static_shape cur =
     (if static_shape
      then Inr (if cur < max_seqlen b then [pads b (max_seqlen b - cur)] else [])
      else align_fill b cur)"

definition open_row :: "bucket \<Rightarrow> nat list \<Rightarrow> nat \<Rightarrow> nat list \<times> pack_state" where
  "open_row b visited i =
     fill_loop b (rev [Suc i..<length (batch b)])
       (i # visited, pack_append ([], 0, [0]) (batch b ! i))"

definition greedy_step ::
  "bucket \<Rightarrow> bool \<Rightarrow> nat list \<times> int list list \<times> int list list \<Rightarrow> nat \<Rightarrow>
   (nat list \<times> int list list \<times> int list list) result" where
  "greedy_step b static_shape st i =
     (case st of (visited, rows, cus) \<Rightarrow>
        if i \<in> set visited then Inr st
        else (case open_row b visited i of (visited', seqs, cur, cu) \<Rightarrow>
          bindE (row_fill b static_shape cur) (\<lambda>fill.
          bindE (concatenate (seqs @ fill)) (\<lambda>row. Inr (visited', rows @ [row], cus @ [cu])))))"

datatype batching = Greedy | Matrix "bool list list" nat

text \<open>\<open>Matrix rows k\<close> is an array of shape \<open>(length rows, k)\<close>.\<close>

definition pack_data :: "bucket \<Rightarrow> batching \<Rightarrow> bool \<Rightarrow> bucket result" where
  "pack_data b option static_shape =
     bindE (case option of
              Matrix m k \<Rightarrow> bindE (mapE (pack_column b m) [0..<k]) (\<lambda>rs. Inr (map fst rs, map snd rs))
            | Greedy \<Rightarrow>
                bindE (foldE (greedy_step b static_shape) ([], [], []) [0..<length (batch b)])
                  (\<lambda>(visited, rows, cus). Inr (rows, cus))) (\<lambda>(rows, cus).
       assertE (rows \<noteq> []) (Inr (b\<lparr>packed_rows := Some rows, packed_cu := Some cus\<rparr>)))"

text \<open>
  The accessors. \<open>padded_batch_size\<close> reads an attribute that is never set; \<open>make_dummy_batch\<close> sets
  \<open>_max_seq_len\<close>, which nothing reads, and leaves the packed offsets alone.
\<close>

definition make_dummy_batch :: "bucket \<Rightarrow> bucket" where
  "make_dummy_batch b = b\<lparr>packed_rows := Some (replicate 8 (pads b 128)), cu_seqlens_list := replicate 8 [0]\<rparr>"

definition packed_batch_size :: "bucket \<Rightarrow> nat result" where
  "packed_batch_size b = (case packed_rows b of None \<Rightarrow> Inl AssertionError | Some r \<Rightarrow> Inr (length r))"

definition padded_batch_size :: "bucket \<Rightarrow> nat result" where
  "padded_batch_size b = Inl AttributeError"

definition original_batch_size :: "bucket \<Rightarrow> nat" where
  "original_batch_size b = length (batch b)"

definition built :: "'a option \<Rightarrow> 'a result" where
  "built x = (case x of None \<Rightarrow> Inl AssertionError | Some r \<Rightarrow> Inr r)"

definition padded_batch where "padded_batch b = built (padded_rows b)"
definition padded_cu_seqlens_list where "padded_cu_seqlens_list b = built (padded_cu b)"
definition packed_batch where "packed_batch b = built (packed_rows b)"
definition packed_cu_seqlens_list where "packed_cu_seqlens_list b = built (packed_cu b)"

section \<open>Distributing a batch over buckets\<close>

definition non_pad_count :: "int \<Rightarrow> int list \<Rightarrow> int" where
  "non_pad_count pad row = int (length (filter (\<lambda>t. t \<noteq> pad) row))"

definition get_sorted_batch_and_len ::
  "(int list \<Rightarrow> nat list) \<Rightarrow> int list list \<Rightarrow> int \<Rightarrow> int list list \<times> int list" where
  "get_sorted_batch_and_len argsort global_batch pad =
     (let counts = map (non_pad_count pad) global_batch; is = argsort counts
      in (map (nth global_batch) is, map (nth counts) is))"

definition build_fake_batch_and_len :: "int list \<Rightarrow> int \<Rightarrow> (int list list \<times> int list) result" where
  "build_fake_batch_and_len fake_seqlens pad =
     (let sorted_seqlens = sort fake_seqlens in
      bindE (py_nth sorted_seqlens (-1)) (\<lambda>max_len.
        if max_len < 0 then Inl ValueError
        else assertE (pad \<noteq> 0)
          (Inr (map (\<lambda>n. let k = (if n < 0 then nat max_len - nat (- n) else nat n)
                         in replicate k 0 @ replicate (nat max_len - k) pad) sorted_seqlens,
                sorted_seqlens))))"

type_synonym bucket_pair = "bucket \<times> bucket"

definition new_pair :: "int \<Rightarrow> int \<Rightarrow> int list \<Rightarrow> nat \<Rightarrow> bucket_pair" where
  "new_pair pad al sizes right =
     (let b = new_bucket pad (sizes ! (right - 1)) (sizes ! right) al in (b, b))"

definition add_pair :: "bucket_pair \<Rightarrow> int list \<Rightarrow> int \<Rightarrow> bucket_pair \<times> bool" where
  "add_pair p sequence valid =
     (case add_data (fst p) sequence (valid - 1) of
        (ib, True) \<Rightarrow> (case add_data (snd p) (drop 1 sequence) (valid - 1) of (lb, ok) \<Rightarrow> ((ib, lb), ok))
      | (ib, False) \<Rightarrow> ((ib, snd p), False))"

text \<open>
  The state is the list of closed pairs, the current pair and the index of its lower bound. A
  sequence that does not fit closes the current pair and tries the next one, up to the last.
\<close>

type_synonym place_state = "bucket_pair list \<times> bucket_pair \<times> nat"

function place :: "int \<Rightarrow> int \<Rightarrow> int list \<Rightarrow> int list \<Rightarrow> int \<Rightarrow> place_state \<Rightarrow> place_state" where
  "place pad al sizes sequence valid (closed, p, right) =
     (case add_pair p sequence valid of (p', is_add) \<Rightarrow>
        if \<not> is_add \<and> right < length sizes - 1
        then place pad al sizes sequence valid (closed @ [p'], new_pair pad al sizes (Suc right), Suc right)
        else (closed, p', right))"
  by pat_completeness auto
termination
  by (relation "measure (\<lambda>(pad, al, sizes, sequence, valid, closed, p, right). length sizes - right)") auto

definition get_input_and_label_buckets ::
  "(int list \<Rightarrow> nat list) \<Rightarrow> int list list \<Rightarrow> int \<Rightarrow> int list \<Rightarrow> int \<Rightarrow> bucket_pair list result" where
  "get_input_and_label_buckets argsort global_batch pad bucket_sizes al =
     (let counts = map (non_pad_count pad) global_batch;
          is = argsort (map uminus counts) in
      assertE (2 \<le> length bucket_sizes)
        (case foldl (\<lambda>st (sequence, valid). place pad al bucket_sizes sequence valid st)
                ([], new_pair pad al bucket_sizes 1, 1)
                (zip (map (nth global_batch) is) (map (nth counts) is)) of
           (closed, p, right) \<Rightarrow> Inr (closed @ [p])))"

definition pack_pair :: "bool \<Rightarrow> bucket_pair \<Rightarrow> bucket_pair result" where
  "pack_pair static p =
     bindE (pack_data (fst p) Greedy static) (\<lambda>ib. bindE (pack_data (snd p) Greedy static) (\<lambda>lb. Inr (ib, lb)))"

definition sort_and_pack_for_global_batch ::
  "(int list \<Rightarrow> nat list) \<Rightarrow> int list list \<Rightarrow> int \<Rightarrow> int list \<Rightarrow> bool \<Rightarrow> bucket_pair list result" where
  "sort_and_pack_for_global_batch argsort global_batch pad bucket_sizes static =
     bindE (get_input_and_label_buckets argsort global_batch pad bucket_sizes 128) (mapE (pack_pair static))"

section \<open>Unpacking\<close>

text \<open>What the attention kernels do with a packed row: cut it at its offsets.\<close>

definition unpack_row :: "int list \<Rightarrow> int list \<Rightarrow> int list list" where
  "unpack_row row cu = map (\<lambda>(a, b). take (nat (b - a)) (drop (nat a) row)) (zip cu (tl cu))"

fun offsets :: "int \<Rightarrow> int list list \<Rightarrow> int list" where
  "offsets a [] = [a]"
| "offsets a (s # ss) = a # offsets (a + int (length s)) ss"

lemma offsets_snoc:
  "offsets a (ss @ [s]) = offsets a ss @ [a + int (length (concat ss)) + int (length s)]"
  by (induction ss arbitrary: a) auto

lemma offsets_tl: "offsets a ss = a # tl (offsets a ss)"
  by (cases ss) auto

lemma cut_offsets:
  "map (\<lambda>(a, b). take (nat (b - a)) (drop (nat a) (pre @ concat ss @ post)))
     (zip (offsets (int (length pre)) ss) (tl (offsets (int (length pre)) ss))) = ss"
proof (induction ss arbitrary: pre)
  case Nil then show ?case by simp
next
  case (Cons s ss)
  have "zip (offsets (int (length pre) + int (length s)) ss) (tl (offsets (int (length pre) + int (length s)) ss))
      = zip (offsets (int (length (pre @ s))) ss) (tl (offsets (int (length (pre @ s))) ss))" by simp
  moreover have "map (\<lambda>(a, b). take (nat (b - a)) (drop (nat a) (pre @ s @ concat ss @ post)))
      (zip (offsets (int (length (pre @ s))) ss) (tl (offsets (int (length (pre @ s))) ss))) = ss"
    using Cons.IH [of "pre @ s"] by simp
  ultimately show ?case
    by (subst (2) offsets_tl) (simp, subst offsets_tl, simp)
qed

lemma unpack_offsets: "unpack_row (concat ss @ post) (offsets 0 ss) = ss"
  using cut_offsets [of "[]" ss post] by (simp add: unpack_row_def)

section \<open>The invariant of packing\<close>

definition pack_ok :: "pack_state \<Rightarrow> bool" where
  "pack_ok st \<longleftrightarrow> (case st of (seqs, cur, cu) \<Rightarrow> cur = int (length (concat seqs)) \<and> cu = offsets 0 seqs)"

lemma pack_ok_start [simp]: "pack_ok ([], 0, [0])"
  by (simp add: pack_ok_def)

lemma pack_ok_append: "pack_ok st \<Longrightarrow> pack_ok (pack_append st s)"
  by (cases st) (simp add: pack_ok_def pack_append_def offsets_snoc)

lemma pack_ok_unpack:
  "pack_ok (seqs, cur, cu) \<Longrightarrow> unpack_row (concat seqs @ fill) cu = seqs"
  by (simp add: pack_ok_def unpack_offsets)

text \<open>What the greedy scan adds to a row: unvisited sequences, each once, while they fit.\<close>

lemma fill_loop_adds:
  assumes "fill_loop b js (vis, seqs, cur, cu) = (vis', seqs', cur', cu')"
    and "pack_ok (seqs, cur, cu)" and "distinct vis"
  shows "pack_ok (seqs', cur', cu') \<and> distinct vis' \<and> set vis' \<subseteq> set vis \<union> set js \<and> set vis \<subseteq> set vis' \<and>
     (cur \<le> max_seqlen b \<longrightarrow> cur' \<le> max_seqlen b) \<and> length seqs \<le> length seqs' \<and>
     mset seqs' + mset (map (nth (batch b)) vis) = mset seqs + mset (map (nth (batch b)) vis')"
  using assms
proof (induction js arbitrary: vis seqs cur cu)
  case Nil then show ?case by auto
next
  case (Cons j js)
  show ?case
  proof (cases "j \<notin> set vis \<and> cur + int (length (batch b ! j)) \<le> max_seqlen b")
    case False
    with Cons.prems(1) have "fill_loop b js (vis, seqs, cur, cu) = (vis', seqs', cur', cu')" by simp
    from Cons.IH [OF this Cons.prems(2,3)] show ?thesis by auto
  next
    case True
    obtain s1 c1 o1 where a: "pack_append (seqs, cur, cu) (batch b ! j) = (s1, c1, o1)"
      by (cases "pack_append (seqs, cur, cu) (batch b ! j)")
    then have v: "s1 = seqs @ [batch b ! j]" "c1 = cur + int (length (batch b ! j))"
      by (simp_all add: pack_append_def)
    from True a Cons.prems(1) have r: "fill_loop b js (j # vis, s1, c1, o1) = (vis', seqs', cur', cu')" by simp
    have "pack_ok (s1, c1, o1)" using pack_ok_append [OF Cons.prems(2)] a by metis
    from Cons.IH [OF r this] True Cons.prems(3) v show ?thesis by auto
  qed
qed

definition greedy_inv :: "bucket \<Rightarrow> nat list \<times> int list list \<times> int list list \<Rightarrow> bool" where
  "greedy_inv b st \<longleftrightarrow>
     (case st of (vis, rows, cus) \<Rightarrow>
        distinct vis \<and> set vis \<subseteq> {..<length (batch b)} \<and> length rows = length cus \<and>
        mset (concat (map2 unpack_row rows cus)) = mset (map (nth (batch b)) vis))"

lemma open_row_adds:
  assumes "open_row b vis i = (vis', seqs, cur, cu)" and "i < length (batch b)" and "i \<notin> set vis"
    and "distinct vis" and "set vis \<subseteq> {..<length (batch b)}"
  shows "pack_ok (seqs, cur, cu) \<and> distinct vis' \<and> set vis' \<subseteq> {..<length (batch b)} \<and>
     set vis \<subseteq> set vis' \<and> i \<in> set vis' \<and> seqs \<noteq> [] \<and>
     (int (length (batch b ! i)) \<le> max_seqlen b \<longrightarrow> cur \<le> max_seqlen b) \<and>
     mset seqs + mset (map (nth (batch b)) vis) = mset (map (nth (batch b)) vis')"
proof -
  let ?s = "batch b ! i"
  have a: "pack_append ([], 0, [0]) ?s = ([?s], int (length ?s), [0, int (length ?s)])"
    by (simp add: pack_append_def)
  have ok: "pack_ok ([?s], int (length ?s), [0, int (length ?s)])" by (simp add: pack_ok_def)
  from assms(1) have f: "fill_loop b (rev [Suc i..<length (batch b)])
      (i # vis, [?s], int (length ?s), [0, int (length ?s)]) = (vis', seqs, cur, cu)"
    unfolding open_row_def a .
  from fill_loop_adds [OF f ok] assms(2-5) show ?thesis by auto
qed

lemma greedy_step_inv:
  assumes "greedy_step b static st i = Inr st'" and "greedy_inv b st" and "i < length (batch b)"
  shows "greedy_inv b st' \<and> insert i (set (fst st)) \<subseteq> set (fst st')"
proof -
  obtain vis rows cus where st: "st = (vis, rows, cus)" by (cases st)
  show ?thesis
  proof (cases "i \<in> set vis")
    case True then show ?thesis using assms st by (auto simp: greedy_step_def)
  next
    case False
    obtain vis' seqs cur cu where o: "open_row b vis i = (vis', seqs, cur, cu)" by (cases "open_row b vis i")
    from assms(1) obtain fill where st': "st' = (vis', rows @ [concat (seqs @ fill)], cus @ [cu])"
      using False o unfolding st greedy_step_def
      by (auto simp: concatenate_def bindE_Inr_iff split: if_splits)
    from open_row_adds [OF o assms(3) False] assms(2) st
    have r: "pack_ok (seqs, cur, cu)" "distinct vis'" "set vis' \<subseteq> {..<length (batch b)}"
      "set vis \<subseteq> set vis'" "i \<in> set vis'"
      "mset seqs + mset (map (nth (batch b)) vis) = mset (map (nth (batch b)) vis')"
      by (auto simp: greedy_inv_def)
    have u: "unpack_row (concat (seqs @ fill)) cu = seqs" using pack_ok_unpack [OF r(1)] by simp
    from assms(2) have inv: "length rows = length cus"
      "mset (concat (map2 unpack_row rows cus)) = mset (map (nth (batch b)) vis)"
      by (simp_all add: st greedy_inv_def)
    have "mset (concat (map2 unpack_row (rows @ [concat (seqs @ fill)]) (cus @ [cu]))) =
        mset (map (nth (batch b)) vis')"
      using inv u r(6) by (simp del: mset_map add: add.commute)
    then have "greedy_inv b st'"
      using r(2,3) inv(1) unfolding st' greedy_inv_def prod.case by (simp del: concat_append mset_map)
    then show ?thesis using r(4,5) by (simp add: st st')
  qed
qed

lemma greedy_steps_inv:
  assumes "foldE (greedy_step b static) st [i..<n] = Inr st'" and "greedy_inv b st" and "n \<le> length (batch b)"
  shows "greedy_inv b st' \<and> set (fst st) \<union> {i..<n} \<subseteq> set (fst st')"
  using assms
proof (induction "n - i" arbitrary: i st)
  case 0 then show ?case by auto
next
  case (Suc k)
  then have i: "i < n" by simp
  then have "[i..<n] = i # [Suc i..<n]" by (simp add: upt_conv_Cons)
  with Suc.prems(1) obtain u where u: "greedy_step b static st i = Inr u"
    and r: "foldE (greedy_step b static) u [Suc i..<n] = Inr st'" by (auto elim: bindE_InrE)
  from greedy_step_inv [OF u Suc.prems(2)] i Suc.prems(3)
  have u': "greedy_inv b u" "insert i (set (fst st)) \<subseteq> set (fst u)" by auto
  from Suc.hyps(1) [OF _ r u'(1) Suc.prems(3)] Suc.hyps(2)
  have "greedy_inv b st'" "set (fst u) \<union> {Suc i..<n} \<subseteq> set (fst st')" by simp_all
  moreover have "{i..<n} = insert i {Suc i..<n}" using i by auto
  ultimately show ?case using u'(2) by blast
qed

lemma pack_data_greedyE:
  assumes "pack_data b Greedy static = Inr b'"
  obtains vis rows cus where "foldE (greedy_step b static) ([], [], []) [0..<length (batch b)] = Inr (vis, rows, cus)"
    and "b' = b\<lparr>packed_rows := Some rows, packed_cu := Some cus\<rparr>"
  using assms by (auto simp: pack_data_def bindE_Inr_iff assertE_Inr_iff)

text \<open>C11: Greedy packing loses and repeats nothing: cutting the packed rows at their offsets gives exactly
  the sequences of the bucket, in some order.\<close>

theorem packing_roundtrip:
  assumes "pack_data b Greedy static = Inr b'"
  shows "\<exists>rows cus. packed_rows b' = Some rows \<and> packed_cu b' = Some cus \<and> length rows = length cus \<and>
     mset (concat (map2 unpack_row rows cus)) = mset (batch b)"
proof -
  from assms obtain vis rows cus where f: "foldE (greedy_step b static) ([], [], []) [0..<length (batch b)] = Inr (vis, rows, cus)"
    and b': "b' = b\<lparr>packed_rows := Some rows, packed_cu := Some cus\<rparr>" by (rule pack_data_greedyE)
  have "greedy_inv b ([], [], [])" by (simp add: greedy_inv_def)
  from greedy_steps_inv [OF f this] have inv: "greedy_inv b (vis, rows, cus)"
    and all: "{..<length (batch b)} \<subseteq> set vis" by (simp_all add: atLeast0LessThan)
  have vis: "distinct vis" "set vis \<subseteq> {..<length (batch b)}" using inv unfolding greedy_inv_def prod.case by blast+
  from vis(2) all have "set vis = {..<length (batch b)}" by blast
  then have "set vis = set [0..<length (batch b)]" by (simp add: atLeast0LessThan)
  then have "mset vis = mset [0..<length (batch b)]"
    using vis(1) set_eq_iff_mset_eq_distinct [of vis "[0..<length (batch b)]"] by simp
  then have "mset (map (nth (batch b)) vis) = mset (map (nth (batch b)) [0..<length (batch b)])"
    by (metis mset_map)
  then have "mset (map (nth (batch b)) vis) = mset (batch b)" unfolding map_nth .
  moreover have "length rows = length cus"
    "mset (concat (map2 unpack_row rows cus)) = mset (map (nth (batch b)) vis)"
    using inv unfolding greedy_inv_def prod.case by blast+
  ultimately show ?thesis unfolding b' by (intro exI [of _ rows] exI [of _ cus]) simp
qed

definition sample_bucket :: bucket where
  "sample_bucket = (new_bucket 9 8 0 4)\<lparr>batch := [[1, 1, 1, 1, 1], [2, 2, 2, 2], [3, 3], [4]]\<rparr>"

definition packed_sample :: bucket where
  "packed_sample = sample_bucket\<lparr>
     packed_rows := Some [[1, 1, 1, 1, 1, 4, 3, 3], [2, 2, 2, 2]],
     packed_cu := Some [[0, 5, 6, 8], [0, 4]]\<rparr>"

theorem packing_roundtrip_witness:
  "\<exists>rows cus. packed_rows packed_sample = Some rows \<and> packed_cu packed_sample = Some cus \<and>
     length rows = length cus \<and> mset (concat (map2 unpack_row rows cus)) = mset (batch sample_bucket)"
  by (rule packing_roundtrip [of sample_bucket False]) code_simp

section \<open>Bounds of the packed rows\<close>

text \<open>A bucket only takes sequences that fit.\<close>

lemma add_data_fits:
  assumes "\<forall>s \<in> set (batch b). int (length s) \<le> max_seqlen b" and "0 \<le> min_seqlen b"
  shows "\<forall>s \<in> set (batch (fst (add_data b x v))). int (length s) \<le> max_seqlen (fst (add_data b x v))"
  using assms by (auto simp: add_data_def py_take_def)

lemma last_offsets: "last (offsets a ss) = a + int (length (concat ss))"
  by (induction ss arbitrary: a) (auto, metis list.distinct(1) offsets_tl)

definition row_bounds :: "bucket \<Rightarrow> bool \<Rightarrow> int list \<Rightarrow> int list \<Rightarrow> bool" where
  "row_bounds b static row cu \<longleftrightarrow>
     last cu \<le> max_seqlen b \<and> last cu \<le> int (length row) \<and>
     (if static then int (length row) = max_seqlen b
      else alignment b dvd int (length row) \<and> int (length row) < last cu + alignment b)"

lemma row_fill_bounds:
  assumes "row_fill b static cur = Inr fill" and "cur \<le> max_seqlen b" and "0 < alignment b"
    and "cur = int (length (concat seqs))"
  shows "row_bounds b static (concat (seqs @ fill)) (offsets 0 seqs)"
proof -
  have m: "0 \<le> cur mod alignment b" "cur mod alignment b < alignment b"
    using assms(3) by simp_all
  have "alignment b dvd cur + (alignment b - cur mod alignment b)"
    using mod_eq_dvd_iff [of cur "cur mod alignment b" "alignment b"]
    by (metis add_diff_eq diff_add_eq dvd_add_triv_right_iff minus_mod_eq_mult_div dvd_triv_left)
  moreover have "\<not> alignment b dvd cur \<Longrightarrow> 0 < cur mod alignment b"
    using m(1) by (simp add: dvd_eq_mod_eq_0)
  ultimately show ?thesis
    using assms m
    by (auto simp: row_bounds_def row_fill_def align_fill_def last_offsets pads_def mod_eq_0_iff_dvd
          split: if_splits)
qed



section \<open>When packing succeeds\<close>

lemma greedy_step_total:
  assumes "alignment b \<noteq> 0"
  shows "\<exists>st'. greedy_step b static st i = Inr st'"
proof -
  obtain vis rows cus where st: "st = (vis, rows, cus)" by (cases st)
  obtain vis' seqs cur cu where o: "open_row b vis i = (vis', seqs, cur, cu)" by (cases "open_row b vis i")
  have "length [batch b ! i] \<le> length seqs"
    if "fill_loop b js (v, [batch b ! i], c, u) = (vis', seqs, cur, cu)" for js v c u
  proof -
    have "length s \<le> length s'" if "fill_loop b js (v, s, c, u) = (v', s', c', u')" for js v s c u v' s' c' u'
      using that
    proof (induction js arbitrary: v s c u)
      case (Cons j js)
      then show ?case by (force simp: pack_append_def split: if_splits)
    qed simp
    from this [OF that] show ?thesis .
  qed
  then have "seqs \<noteq> []" using o by (force simp: open_row_def pack_append_def)
  then have "\<exists>row. concatenate (seqs @ fill) = Inr row" for fill by (simp add: concatenate_def)
  moreover have "\<exists>fill. row_fill b static cur = Inr fill"
    using assms by (simp add: row_fill_def align_fill_def)
  ultimately obtain fill row where "row_fill b static cur = Inr fill" "concatenate (seqs @ fill) = Inr row"
    by metis
  then show ?thesis using o st by (simp add: greedy_step_def)
qed

lemma foldE_total:
  assumes "\<And>st x. \<exists>st'. f st x = Inr st'"
  shows "\<exists>st'. foldE f st xs = Inr st'"
proof (induction xs arbitrary: st)
  case (Cons x xs)
  then show ?case using assms [of st x] by auto
qed simp

lemma greedy_step_rows:
  "greedy_step b static st i = Inr st' \<Longrightarrow> i \<notin> set (fst st) \<or> fst (snd st) \<noteq> [] \<Longrightarrow> fst (snd st') \<noteq> []"
  by (auto simp: greedy_step_def bindE_Inr_iff split: prod.splits if_splits)

text \<open>Greedy packing fails exactly on an empty bucket, where it raises an assertion, so packing the
  buckets of a batch fails as soon as one of them got no sequence.\<close>

theorem packing_fails_on_empty_bucket:
  assumes "alignment b \<noteq> 0"
  shows "(\<exists>b'. pack_data b Greedy static = Inr b') = (batch b \<noteq> [])"
proof
  assume "\<exists>b'. pack_data b Greedy static = Inr b'"
  then show "batch b \<noteq> []" by (auto simp: pack_data_def)
next
  assume ne: "batch b \<noteq> []"
  then have u: "[0..<length (batch b)] = 0 # [1..<length (batch b)]" by (simp add: upt_conv_Cons)
  obtain st where f: "foldE (greedy_step b static) ([], [], []) [0..<length (batch b)] = Inr st"
    using foldE_total [of "greedy_step b static"] greedy_step_total [OF assms] by blast
  then obtain u where g: "greedy_step b static ([], [], []) 0 = Inr u"
    and r: "foldE (greedy_step b static) u [1..<length (batch b)] = Inr st"
    unfolding u by (auto elim: bindE_InrE)
  have "fst (snd u) \<noteq> []" using greedy_step_rows [OF g] by simp
  then have "fst (snd st) \<noteq> []"
    using foldE_invariant [OF r, of "\<lambda>st. fst (snd st) \<noteq> []"] greedy_step_rows by blast
  then show "\<exists>b'. pack_data b Greedy static = Inr b'"
    using f by (cases st) (simp add: pack_data_def)
qed

theorem packing_fails_on_empty_bucket_witness:
  "(\<exists>b'. pack_data (new_bucket 9 8 0 4) Greedy True = Inr b') = (batch (new_bucket 9 8 0 4) \<noteq> [])"
  by (rule packing_fails_on_empty_bucket) code_simp

section \<open>Inputs and labels are packed alike\<close>

definition same_lengths :: "bucket \<Rightarrow> bucket \<Rightarrow> bool" where
  "same_lengths a b \<longleftrightarrow> map length (batch a) = map length (batch b) \<and> max_seqlen a = max_seqlen b \<and>
     alignment a = alignment b"

lemma same_lengths_nth:
  assumes "same_lengths a b" and "i < length (batch a)"
  shows "length (batch a ! i) = length (batch b ! i)" and "i < length (batch b)"
proof -
  have l: "length (batch a) = length (batch b)" using assms(1) unfolding same_lengths_def by (metis length_map)
  then show "i < length (batch b)" using assms(2) by simp
  show "length (batch a ! i) = length (batch b ! i)"
    using assms l unfolding same_lengths_def by (metis nth_map)
qed

lemma fill_loop_same:
  assumes "same_lengths a b" and "set js \<subseteq> {..<length (batch a)}"
    and "fill_loop a js (vis, s, cur, cu) = (va, sa, ca, ua)"
    and "fill_loop b js (vis, t, cur, cu) = (vb, tb, cb, ub)" and "map length s = map length t"
  shows "va = vb \<and> ca = cb \<and> ua = ub \<and> map length sa = map length tb"
  using assms(2-5)
proof (induction js arbitrary: vis s t cur cu)
  case Nil then show ?case by simp
next
  case (Cons j js)
  have e: "length (batch a ! j) = length (batch b ! j)" "max_seqlen a = max_seqlen b"
    using same_lengths_nth [OF assms(1)] Cons.prems(1) assms(1) by (auto simp: same_lengths_def)
  have js: "set js \<subseteq> {..<length (batch a)}" using Cons.prems(1) by simp
  show ?case
  proof (cases "j \<notin> set vis \<and> cur + int (length (batch a ! j)) \<le> max_seqlen a")
    case True
    then have "fill_loop a js (j # vis, pack_append (s, cur, cu) (batch a ! j)) = (va, sa, ca, ua)"
      and "fill_loop b js (j # vis, pack_append (t, cur, cu) (batch b ! j)) = (vb, tb, cb, ub)"
      using Cons.prems(2,3) e by simp_all
    then show ?thesis
      using Cons.IH [OF js, of "j # vis" "s @ [batch a ! j]" "cur + int (length (batch a ! j))"
          "cu @ [cur + int (length (batch a ! j))]" "t @ [batch b ! j]"] Cons.prems(4) e(1)
      by (simp add: pack_append_def)
  next
    case False
    then have "fill_loop a js (vis, s, cur, cu) = (va, sa, ca, ua)"
      and "fill_loop b js (vis, t, cur, cu) = (vb, tb, cb, ub)"
      using Cons.prems(2,3) e by auto
    then show ?thesis using Cons.IH [OF js _ _ Cons.prems(4)] by blast
  qed
qed

definition same_pack ::
  "(nat list \<times> int list list \<times> int list list) result \<Rightarrow> (nat list \<times> int list list \<times> int list list) result \<Rightarrow> bool" where
  "same_pack x y \<longleftrightarrow>
     map_sum id (\<lambda>(v, rows, cus). (v, map length rows, cus)) x =
     map_sum id (\<lambda>(v, rows, cus). (v, map length rows, cus)) y"

lemma concat_lengths: "map length s = map length t \<Longrightarrow> length (concat s) = length (concat t)"
  by (simp add: length_concat)

lemma same_fill:
  assumes "same_lengths a b"
  shows "map_sum id (map length) (row_fill a static cur) = map_sum id (map length) (row_fill b static cur)"
  using assms by (simp add: same_lengths_def row_fill_def align_fill_def pads_def)

lemma greedy_step_same:
  assumes "same_lengths a b" and "i < length (batch a)"
    and "map length ra = map length rb"
  shows "same_pack (greedy_step a static (vis, ra, cus) i) (greedy_step b static (vis, rb, cus) i)"
proof (cases "i \<in> set vis")
  case True then show ?thesis using assms by (simp add: greedy_step_def same_pack_def)
next
  case False
  obtain va sa ca ua where oa: "open_row a vis i = (va, sa, ca, ua)" by (cases "open_row a vis i")
  obtain vb sb cb ub where ob: "open_row b vis i = (vb, sb, cb, ub)" by (cases "open_row b vis i")
  have i: "length (batch a ! i) = length (batch b ! i)" using same_lengths_nth(1) [OF assms(1,2)] .
  have l: "length (batch a) = length (batch b)" using assms(1) unfolding same_lengths_def by (metis length_map)
  let ?js = "rev [Suc i..<length (batch a)]" and ?n = "int (length (batch a ! i))"
  have js: "set ?js \<subseteq> {..<length (batch a)}" by auto
  have "fill_loop a ?js (i # vis, [batch a ! i], ?n, [0, ?n]) = (va, sa, ca, ua)"
    and "fill_loop b ?js (i # vis, [batch b ! i], ?n, [0, ?n]) = (vb, sb, cb, ub)"
    using oa ob by (simp_all add: open_row_def pack_append_def i l)
  from fill_loop_same [OF assms(1) js this] i
  have e: "va = vb" "ca = cb" "ua = ub" "map length sa = map length sb" by simp_all
  show ?thesis
  proof (cases "row_fill a static ca")
    case (Inl x)
    then have "row_fill b static ca = Inl x" using same_fill [OF assms(1), of static ca] by (cases "row_fill b static ca") auto
    then show ?thesis using Inl False oa ob e by (simp add: greedy_step_def same_pack_def)
  next
    case (Inr fa)
    then obtain fb where fb: "row_fill b static ca = Inr fb" "map length fa = map length fb"
      using same_fill [OF assms(1), of static ca] by (cases "row_fill b static ca") auto
    have len: "map length (sa @ fa) = map length (sb @ fb)" using e(4) fb(2) by simp
    then have "sa @ fa = [] \<longleftrightarrow> sb @ fb = []" by (metis map_is_Nil_conv)
    then show ?thesis
      using Inr fb(1) False oa ob e assms(3) concat_lengths [OF len]
      by (simp add: greedy_step_def same_pack_def concatenate_def)
  qed
qed

lemma greedy_steps_same:
  assumes "same_lengths a b" and "set is \<subseteq> {..<length (batch a)}" and "map length ra = map length rb"
  shows "same_pack (foldE (greedy_step a static) (vis, ra, cus) is) (foldE (greedy_step b static) (vis, rb, cus) is)"
  using assms(2,3)
proof (induction "is" arbitrary: vis ra rb cus)
  case Nil then show ?case by (simp add: same_pack_def)
next
  case (Cons i "is")
  have s: "same_pack (greedy_step a static (vis, ra, cus) i) (greedy_step b static (vis, rb, cus) i)"
    using greedy_step_same [OF assms(1) _ Cons.prems(2)] Cons.prems(1) by simp
  show ?case
  proof (cases "greedy_step a static (vis, ra, cus) i")
    case (Inl x)
    then show ?thesis using s by (cases "greedy_step b static (vis, rb, cus) i") (auto simp: same_pack_def)
  next
    case (Inr ua)
    obtain v r c where ua: "ua = (v, r, c)" by (cases ua)
    with s Inr obtain r' where "greedy_step b static (vis, rb, cus) i = Inr (v, r', c)" "map length r = map length r'"
      by (cases "greedy_step b static (vis, rb, cus) i") (auto simp: same_pack_def)
    then show ?thesis using Inr ua Cons.IH [of r r'] Cons.prems(1) by simp
  qed
qed

text \<open>Two buckets with sequences of the same lengths are packed alike: packing succeeds on both or on
  neither, with the same offsets and rows of the same lengths, so packed labels line up with
  packed inputs.\<close>

theorem inputs_and_labels_are_packed_alike:
  assumes "same_lengths a b"
  shows "map_sum id (\<lambda>x. (map_option (map length) (packed_rows x), packed_cu x)) (pack_data a Greedy static) =
     map_sum id (\<lambda>x. (map_option (map length) (packed_rows x), packed_cu x)) (pack_data b Greedy static)"
proof -
  have l: "length (batch a) = length (batch b)" using assms unfolding same_lengths_def by (metis length_map)
  have s: "same_pack (foldE (greedy_step a static) ([], [], []) [0..<length (batch a)])
      (foldE (greedy_step b static) ([], [], []) [0..<length (batch b)])"
    unfolding l [symmetric] by (rule greedy_steps_same [OF assms]) auto
  show ?thesis
    using s
    by (cases "foldE (greedy_step a static) ([], [], []) [0..<length (batch a)]";
        cases "foldE (greedy_step b static) ([], [], []) [0..<length (batch b)]")
       (auto simp: pack_data_def same_pack_def assertE_def)
qed

theorem inputs_and_labels_are_packed_alike_witness:
  "map_sum id (\<lambda>x. (map_option (map length) (packed_rows x), packed_cu x)) (pack_data sample_bucket Greedy True) =
   map_sum id (\<lambda>x. (map_option (map length) (packed_rows x), packed_cu x))
     (pack_data (sample_bucket\<lparr>batch := [[5, 6, 7, 8, 1], [5, 6, 7, 8], [5, 6], [7]]\<rparr>) Greedy True)"
  by (rule inputs_and_labels_are_packed_alike) code_simp

section \<open>Where sequences go\<close>

declare place.simps [simp del]

definition placed :: "(bucket_pair \<Rightarrow> bucket) \<Rightarrow> place_state \<Rightarrow> int list list" where
  "placed side st = (case st of (closed, p, right) \<Rightarrow> concat (map (batch \<circ> side) closed) @ batch (side p))"

definition current_ok :: "int list \<Rightarrow> place_state \<Rightarrow> bool" where
  "current_ok sizes st \<longleftrightarrow>
     (case st of (closed, p, right) \<Rightarrow>
        0 < right \<and> right < length sizes \<and>
        max_seqlen (fst p) = sizes ! (right - 1) \<and> max_seqlen (snd p) = sizes ! (right - 1) \<and>
        min_seqlen (fst p) = sizes ! right \<and> min_seqlen (snd p) = sizes ! right)"

lemma current_ok_start: "2 \<le> length sizes \<Longrightarrow> current_ok sizes ([], new_pair pad al sizes 1, 1)"
  by (simp add: current_ok_def new_pair_def new_bucket_def Let_def)

lemma add_pair_fits:
  assumes "current_ok sizes (closed, p, right)" and "sizes ! right < v - 1" and "v - 1 \<le> sizes ! (right - 1)"
  shows "\<exists>p'. add_pair p sequence v = (p', True) \<and> current_ok sizes (closed, p', right) \<and>
     batch (fst p') = batch (fst p) @ [py_take (v - 1) sequence] \<and>
     batch (snd p') = batch (snd p) @ [py_take (v - 1) (drop 1 sequence)]"
  using assms by (auto simp: add_pair_def add_data_def current_ok_def)

lemma add_pair_rejects:
  assumes "current_ok sizes (closed, p, right)" and "v - 1 \<le> sizes ! right \<or> sizes ! (right - 1) < v - 1"
  shows "add_pair p sequence v = (p, False)"
  using assms by (auto simp: add_pair_def add_data_def current_ok_def)

lemma open_next:
  assumes "current_ok sizes (closed, p, right)" and "right < length sizes - 1"
  shows "current_ok sizes (closed @ [p], new_pair pad al sizes (Suc right), Suc right)"
    and "placed side (closed @ [p], new_pair pad al sizes (Suc right), Suc right) =
      placed side (closed, p, right) @ batch (side (new_pair pad al sizes (Suc right)))"
  using assms by (simp_all add: current_ok_def placed_def new_pair_def new_bucket_def Let_def)

lemma new_pair_empty [simp]: "batch (fst (new_pair pad al sizes r)) = []" "batch (snd (new_pair pad al sizes r)) = []"
  by (simp_all add: new_pair_def new_bucket_def Let_def)

text \<open>A sequence within the bounds is placed, and it fits the bucket that is current afterwards.\<close>

lemma place_fits:
  assumes "current_ok sizes (closed, p, right)" and "last sizes < v - 1" and "v - 1 \<le> sizes ! (right - 1)"
  shows "\<exists>closed' p' right'. place pad al sizes sequence v (closed, p, right) = (closed', p', right') \<and>
     current_ok sizes (closed', p', right') \<and> v - 1 \<le> sizes ! (right' - 1) \<and>
     placed fst (closed', p', right') = placed fst (closed, p, right) @ [py_take (v - 1) sequence] \<and>
     placed snd (closed', p', right') = placed snd (closed, p, right) @ [py_take (v - 1) (drop 1 sequence)]"
  using assms
proof (induction "length sizes - right" arbitrary: closed p right)
  case 0 then show ?case by (auto simp: current_ok_def)
next
  case (Suc k)
  show ?case
  proof (cases "sizes ! right < v - 1")
    case True
    from add_pair_fits [OF Suc.prems(1) True Suc.prems(3), of sequence] obtain p' where
      "add_pair p sequence v = (p', True)" "current_ok sizes (closed, p', right)"
      "batch (fst p') = batch (fst p) @ [py_take (v - 1) sequence]"
      "batch (snd p') = batch (snd p) @ [py_take (v - 1) (drop 1 sequence)]" by blast
    then show ?thesis using Suc.prems(3) by (simp add: place.simps placed_def)
  next
    case False
    then have rej: "add_pair p sequence v = (p, False)" using add_pair_rejects [OF Suc.prems(1)] by simp
    have "right \<noteq> length sizes - 1"
    proof
      assume "right = length sizes - 1"
      moreover have "sizes \<noteq> []" using Suc.prems(1) by (auto simp: current_ok_def)
      ultimately show False using False Suc.prems(2) by (simp add: last_conv_nth)
    qed
    then have r: "right < length sizes - 1" using Suc.prems(1) by (auto simp: current_ok_def)
    have "place pad al sizes sequence v (closed, p, right) =
        place pad al sizes sequence v (closed @ [p], new_pair pad al sizes (Suc right), Suc right)"
      using rej r by (subst place.simps) simp
    moreover have "k = length sizes - Suc right" using Suc.hyps(2) by simp
    moreover have "v - 1 \<le> sizes ! (Suc right - 1)" using False by simp
    ultimately show ?thesis
      using Suc.hyps(1) [OF _ open_next(1) [OF Suc.prems(1) r] Suc.prems(2)]
        open_next(2) [OF Suc.prems(1) r, of fst] open_next(2) [OF Suc.prems(1) r, of snd] by simp
  qed
qed

lemma place_all:
  assumes "current_ok sizes st" and "sorted_wrt (\<lambda>x y. snd y \<le> snd x) items"
    and "\<forall>(sequence, v) \<in> set items. last sizes < v - 1"
    and "\<forall>(sequence, v) \<in> set items. v - 1 \<le> sizes ! (snd (snd st) - 1)"
  shows "placed fst (foldl (\<lambda>st (sequence, v). place pad al sizes sequence v st) st items) =
       placed fst st @ map (\<lambda>(sequence, v). py_take (v - 1) sequence) items \<and>
     placed snd (foldl (\<lambda>st (sequence, v). place pad al sizes sequence v st) st items) =
       placed snd st @ map (\<lambda>(sequence, v). py_take (v - 1) (drop 1 sequence)) items"
  using assms
proof (induction items arbitrary: st)
  case Nil then show ?case by simp
next
  case (Cons item items)
  obtain sequence v where i: "item = (sequence, v)" by (cases item)
  obtain closed p right where st: "st = (closed, p, right)" by (cases st)
  from place_fits [of sizes closed p right v pad al sequence] Cons.prems i st
  obtain c' p' r' where pl: "place pad al sizes sequence v (closed, p, right) = (c', p', r')"
    and ok: "current_ok sizes (c', p', r')" and le: "v - 1 \<le> sizes ! (r' - 1)"
    and f: "placed fst (c', p', r') = placed fst (closed, p, right) @ [py_take (v - 1) sequence]"
    and s: "placed snd (c', p', r') = placed snd (closed, p, right) @ [py_take (v - 1) (drop 1 sequence)]" by auto
  have "\<forall>(sequence, w) \<in> set items. w - 1 \<le> sizes ! (snd (snd (c', p', r')) - 1)"
    using Cons.prems(2) le i by fastforce
  with Cons.IH [OF ok] Cons.prems(2,3) pl f s i st show ?case by auto
qed

text \<open>\<open>np.argsort\<close> returns a permutation of the indices under which the keys are ascending.\<close>

definition sorts :: "(int list \<Rightarrow> nat list) \<Rightarrow> bool" where
  "sorts argsort \<longleftrightarrow> (\<forall>keys. mset (argsort keys) = mset [0..<length keys] \<and> sorted (map (nth keys) (argsort keys)))"

definition stable_argsort :: "int list \<Rightarrow> nat list" where
  "stable_argsort keys = sort_key (nth keys) [0..<length keys]"

lemma stable_argsort_sorts: "sorts stable_argsort"
  by (simp add: sorts_def stable_argsort_def)

definition sorted_items :: "(int list \<Rightarrow> nat list) \<Rightarrow> int list list \<Rightarrow> int \<Rightarrow> (int list \<times> int) list" where
  "sorted_items argsort rows pad =
     (let counts = map (non_pad_count pad) rows; is = argsort (map uminus counts)
      in zip (map (nth rows) is) (map (nth counts) is))"

lemma sorted_items_eq:
  assumes "sorts argsort"
  shows "sorted_items argsort rows pad =
      map (\<lambda>i. (rows ! i, non_pad_count pad (rows ! i))) (argsort (map uminus (map (non_pad_count pad) rows)))"
    and "mset (sorted_items argsort rows pad) = mset (map (\<lambda>r. (r, non_pad_count pad r)) rows)"
    and "sorted_wrt (\<lambda>x y. snd y \<le> snd x) (sorted_items argsort rows pad)"
proof -
  let ?counts = "map (non_pad_count pad) rows"
  let ?is = "argsort (map uminus ?counts)"
  have m: "mset ?is = mset [0..<length rows]" and s: "sorted (map (nth (map uminus ?counts)) ?is)"
    using assms unfolding sorts_def by (metis length_map)+
  have "set ?is = set [0..<length rows]" using m by (metis set_mset_mset)
  then have lt: "i \<in> set ?is \<Longrightarrow> i < length rows" for i by simp
  show e: "sorted_items argsort rows pad = map (\<lambda>i. (rows ! i, non_pad_count pad (rows ! i))) ?is"
    using lt by (auto simp: sorted_items_def Let_def zip_map_map zip_same_conv_map)
  have "mset (map (\<lambda>i. (rows ! i, non_pad_count pad (rows ! i))) ?is) =
      mset (map (\<lambda>i. (rows ! i, non_pad_count pad (rows ! i))) [0..<length rows])"
    using m by (metis mset_map)
  also have "map (\<lambda>i. (rows ! i, non_pad_count pad (rows ! i))) [0..<length rows] =
      map (\<lambda>r. (r, non_pad_count pad r)) rows"
    by (rule nth_equalityI) auto
  finally show "mset (sorted_items argsort rows pad) = mset (map (\<lambda>r. (r, non_pad_count pad r)) rows)"
    using e by simp
  have "map (nth (map uminus ?counts)) ?is = map (\<lambda>i. - non_pad_count pad (rows ! i)) ?is"
    using lt by (intro map_cong refl) simp
  from s [unfolded this] have "sorted (map (\<lambda>i. - non_pad_count pad (rows ! i)) ?is)" by simp
  then show "sorted_wrt (\<lambda>x y. snd y \<le> snd x) (sorted_items argsort rows pad)"
    unfolding e by (simp add: sorted_wrt_map)
qed

text \<open>When every sequence without its last token fits between the smallest and the largest bucket size,
  none is lost: over all buckets, the inputs are the sequences without their last token and the
  labels the sequences without their first.\<close>

theorem batch_is_distributed:
  assumes "sorts argsort" and "2 \<le> length sizes"
    and "\<forall>r \<in> set rows. last sizes < non_pad_count pad r - 1 \<and> non_pad_count pad r - 1 \<le> sizes ! 0"
  shows "\<exists>pairs. get_input_and_label_buckets argsort rows pad sizes al = Inr pairs \<and>
     mset (concat (map (batch \<circ> fst) pairs)) = mset (map (\<lambda>r. py_take (non_pad_count pad r - 1) r) rows) \<and>
     mset (concat (map (batch \<circ> snd) pairs)) = mset (map (\<lambda>r. py_take (non_pad_count pad r - 1) (drop 1 r)) rows)"
proof -
  let ?items = "sorted_items argsort rows pad"
  let ?st = "foldl (\<lambda>st (sequence, v). place pad al sizes sequence v st) ([], new_pair pad al sizes 1, 1) ?items"
  have "set ?items = set (map (\<lambda>r. (r, non_pad_count pad r)) rows)"
    using sorted_items_eq(2) [OF assms(1)] by (metis set_mset_mset)
  then have i: "\<forall>(sequence, v) \<in> set ?items. last sizes < v - 1"
    "\<forall>(sequence, v) \<in> set ?items. v - 1 \<le> sizes ! (snd (snd ([] :: bucket_pair list, new_pair pad al sizes 1, 1)) - 1)"
    using assms(3) by auto
  from place_all [OF current_ok_start [OF assms(2)] sorted_items_eq(3) [OF assms(1)] i, of pad al]
  have p: "placed fst ?st = map (\<lambda>(sequence, v). py_take (v - 1) sequence) ?items"
    "placed snd ?st = map (\<lambda>(sequence, v). py_take (v - 1) (drop 1 sequence)) ?items"
    by (simp_all add: placed_def)
  obtain closed q right where st: "?st = (closed, q, right)" by (cases ?st)
  have r: "get_input_and_label_buckets argsort rows pad sizes al = Inr (closed @ [q])"
    using assms(2) st by (simp add: get_input_and_label_buckets_def sorted_items_def Let_def)
  have m: "mset (map f ?items) = mset (map (\<lambda>r. f (r, non_pad_count pad r)) rows)" for f :: "int list \<times> int \<Rightarrow> int list"
    using arg_cong [OF sorted_items_eq(2) [OF assms(1), of rows pad], of "image_mset f"]
    by (simp add: image_mset.compositionality comp_def)
  show ?thesis
    using r p m [of "\<lambda>(sequence, v). py_take (v - 1) sequence"]
      m [of "\<lambda>(sequence, v). py_take (v - 1) (drop 1 sequence)"]
    unfolding st placed_def by (intro exI [of _ "closed @ [q]"]) simp
qed

theorem batch_is_distributed_witness:
  "\<exists>pairs. get_input_and_label_buckets stable_argsort [[1, 2, 9, 9, 9], [3, 4, 5, 6, 9]] 9 [4, 2, 0] 1 = Inr pairs \<and>
     mset (concat (map (batch \<circ> fst) pairs)) =
       mset (map (\<lambda>r. py_take (non_pad_count 9 r - 1) r) [[1, 2, 9, 9, 9], [3, 4, 5, 6, 9]]) \<and>
     mset (concat (map (batch \<circ> snd) pairs)) =
       mset (map (\<lambda>r. py_take (non_pad_count 9 r - 1) (drop 1 r)) [[1, 2, 9, 9, 9], [3, 4, 5, 6, 9]])"
  by (rule batch_is_distributed [OF stable_argsort_sorts]) (simp_all add: non_pad_count_def)

section \<open>A sequence that is too long\<close>

lemma place_too_long:
  assumes "current_ok sizes (closed, p, right)" and "sorted_wrt (>) sizes" and "sizes ! 0 < v - 1"
  shows "\<exists>closed' p'. place pad al sizes sequence v (closed, p, right) = (closed', p', length sizes - 1) \<and>
     current_ok sizes (closed', p', length sizes - 1) \<and>
     placed fst (closed', p', length sizes - 1) = placed fst (closed, p, right)"
  using assms
proof (induction "length sizes - right" arbitrary: closed p right)
  case 0 then show ?case by (auto simp: current_ok_def)
next
  case (Suc k)
  have "sizes ! (right - 1) \<le> sizes ! 0"
    using Suc.prems(1,2) by (cases "right = 1") (auto simp: current_ok_def sorted_wrt_iff_nth_less less_imp_le)
  then have rej: "add_pair p sequence v = (p, False)" using add_pair_rejects [OF Suc.prems(1)] Suc.prems(3) by simp
  show ?case
  proof (cases "right < length sizes - 1")
    case True
    then have "place pad al sizes sequence v (closed, p, right) =
        place pad al sizes sequence v (closed @ [p], new_pair pad al sizes (Suc right), Suc right)"
      using rej by (subst place.simps) simp
    moreover have "k = length sizes - Suc right" using Suc.hyps(2) by simp
    ultimately show ?thesis
      using Suc.hyps(1) [OF _ open_next(1) [OF Suc.prems(1) True] Suc.prems(2,3)]
        open_next(2) [OF Suc.prems(1) True, of fst] by simp
  next
    case False
    then have "right = length sizes - 1" using Suc.prems(1) by (auto simp: current_ok_def)
    then show ?thesis using rej Suc.prems(1) False by (simp add: place.simps)
  qed
qed

definition fits_last :: "int list \<Rightarrow> int \<Rightarrow> bool" where
  "fits_last sizes w \<longleftrightarrow> sizes ! (length sizes - 1) < w \<and> w \<le> sizes ! (length sizes - 2)"

lemma place_at_last:
  assumes "current_ok sizes (closed, p, length sizes - 1)"
  shows "\<exists>p'. place pad al sizes sequence v (closed, p, length sizes - 1) = (closed, p', length sizes - 1) \<and>
     current_ok sizes (closed, p', length sizes - 1) \<and>
     placed fst (closed, p', length sizes - 1) = placed fst (closed, p, length sizes - 1) @
       (if fits_last sizes (v - 1) then [py_take (v - 1) sequence] else [])"
proof (cases "fits_last sizes (v - 1)")
  case True
  with add_pair_fits [OF assms, of v sequence] obtain p' where "add_pair p sequence v = (p', True)"
    "current_ok sizes (closed, p', length sizes - 1)" "batch (fst p') = batch (fst p) @ [py_take (v - 1) sequence]"
    by (auto simp: fits_last_def numeral_2_eq_2)
  then show ?thesis using True by (simp add: place.simps placed_def)
next
  case False
  then have "add_pair p sequence v = (p, False)"
    using add_pair_rejects [OF assms, of v sequence] by (auto simp: fits_last_def numeral_2_eq_2)
  then show ?thesis using assms False by (simp add: place.simps)
qed

lemma places_at_last:
  assumes "current_ok sizes (closed, p, length sizes - 1)"
  shows "placed fst (foldl (\<lambda>st (sequence, v). place pad al sizes sequence v st) (closed, p, length sizes - 1) items) =
     placed fst (closed, p, length sizes - 1) @
       map (\<lambda>(sequence, v). py_take (v - 1) sequence) (filter (\<lambda>(sequence, v). fits_last sizes (v - 1)) items)"
  using assms
proof (induction items arbitrary: p)
  case Nil then show ?case by simp
next
  case (Cons item items)
  obtain sequence v where i: "item = (sequence, v)" by (cases item)
  from place_at_last [OF Cons.prems, of pad al sequence v] obtain p' where
    "place pad al sizes sequence v (closed, p, length sizes - 1) = (closed, p', length sizes - 1)"
    "current_ok sizes (closed, p', length sizes - 1)"
    "placed fst (closed, p', length sizes - 1) = placed fst (closed, p, length sizes - 1) @
       (if fits_last sizes (v - 1) then [py_take (v - 1) sequence] else [])" by blast
  with Cons.IH [of p'] i show ?case by simp
qed

text \<open>A single sequence longer than the largest bucket closes every bucket but the last: of the whole
  batch only the sequences that fit the smallest bucket are kept, without an error.\<close>

theorem too_long_sequence_empties_buckets:
  assumes "sorts argsort" and "sorted_wrt (>) sizes" and "2 \<le> length sizes"
    and "r \<in> set rows" and "sizes ! 0 < non_pad_count pad r - 1"
  shows "\<exists>pairs. get_input_and_label_buckets argsort rows pad sizes al = Inr pairs \<and>
     mset (concat (map (batch \<circ> fst) pairs)) =
       mset (map (\<lambda>r. py_take (non_pad_count pad r - 1) r)
               (filter (\<lambda>r. fits_last sizes (non_pad_count pad r - 1)) rows))"
proof -
  let ?items = "sorted_items argsort rows pad"
  let ?f = "\<lambda>st (sequence, v). place pad al sizes sequence v st"
  have s: "set ?items = (\<lambda>r. (r, non_pad_count pad r)) ` set rows"
    using arg_cong [OF sorted_items_eq(2) [OF assms(1), of rows pad], of set_mset] by simp
  obtain x v items where i: "?items = (x, v) # items"
    using s assms(4) by (cases ?items) auto
  have "(r, non_pad_count pad r) \<in> set ?items" using s assms(4) by blast
  then have "non_pad_count pad r \<le> v"
    using sorted_items_eq(3) [OF assms(1), of rows pad] i by auto
  then have v: "sizes ! 0 < v - 1" using assms(5) by simp
  from place_too_long [OF current_ok_start [OF assms(3)] assms(2) v, of pad al x pad al] obtain c p where
    pl: "place pad al sizes x v ([], new_pair pad al sizes 1, 1) = (c, p, length sizes - 1)"
    and ok: "current_ok sizes (c, p, length sizes - 1)"
    and e: "placed fst (c, p, length sizes - 1) = placed fst ([], new_pair pad al sizes 1, 1)" by blast
  let ?st = "foldl ?f ([], new_pair pad al sizes 1, 1) ?items"
  have nf: "\<not> fits_last sizes (v - 1)"
  proof -
    have "sizes ! (length sizes - 2) \<le> sizes ! 0"
      using assms(2,3) by (cases "length sizes = 2") (auto simp: sorted_wrt_iff_nth_less less_imp_le)
    then show ?thesis using v by (simp add: fits_last_def)
  qed
  have p: "placed fst ?st = map (\<lambda>(sequence, v). py_take (v - 1) sequence)
      (filter (\<lambda>(sequence, v). fits_last sizes (v - 1)) ?items)"
    using places_at_last [OF ok, of pad al items] e pl i nf by (simp add: placed_def)
  obtain closed q right where st: "?st = (closed, q, right)" by (cases ?st)
  have res: "get_input_and_label_buckets argsort rows pad sizes al = Inr (closed @ [q])"
    using assms(3) st by (simp add: get_input_and_label_buckets_def sorted_items_def Let_def)
  have "mset (map (\<lambda>(sequence, v). py_take (v - 1) sequence) (filter (\<lambda>(sequence, v). fits_last sizes (v - 1)) ?items)) =
      image_mset (\<lambda>(sequence, v). py_take (v - 1) sequence)
        (filter_mset (\<lambda>(sequence, v). fits_last sizes (v - 1)) (mset (map (\<lambda>r. (r, non_pad_count pad r)) rows)))"
    using sorted_items_eq(2) [OF assms(1), of rows pad] by simp
  also have "\<dots> = mset (map (\<lambda>(sequence, v). py_take (v - 1) sequence)
      (filter (\<lambda>(sequence, v). fits_last sizes (v - 1)) (map (\<lambda>r. (r, non_pad_count pad r)) rows)))" by simp
  also have "\<dots> = mset (map (\<lambda>r. py_take (non_pad_count pad r - 1) r)
      (filter (\<lambda>r. fits_last sizes (non_pad_count pad r - 1)) rows))"
    by (simp only: filter_map map_map comp_def prod.case)
  finally show ?thesis using res p unfolding st placed_def by (intro exI [of _ "closed @ [q]"]) simp
qed

theorem too_long_sequence_empties_buckets_witness:
  "\<exists>pairs. get_input_and_label_buckets stable_argsort [[1, 1, 1, 1], [2, 2, 2, 2, 2, 2, 2]] 9 [4, 2, 0] 1 = Inr pairs \<and>
     mset (concat (map (batch \<circ> fst) pairs)) =
       mset (map (\<lambda>r. py_take (non_pad_count 9 r - 1) r)
         (filter (\<lambda>r. fits_last [4, 2, 0] (non_pad_count 9 r - 1)) [[1, 1, 1, 1], [2, 2, 2, 2, 2, 2, 2]]))"
  by (rule too_long_sequence_empties_buckets [OF stable_argsort_sorts, of _ "[2, 2, 2, 2, 2, 2, 2]"])
     (simp_all add: non_pad_count_def)

end
