(* ===== verification/Autodiff.thy ===== *)
theory Autodiff imports GraphOrder Complex_Main begin

text \<open>
  Reverse-mode differentiation: \<open>gradients\<close> and \<open>sum_node_list\<close> of
  \<open>hetu/v1/python/hetu/gpu_ops/executor.py\<close> with the tables that relate forward and backward
  nodes, and the \<open>gradient\<close> methods of the scalar arithmetic operators. The value of a gradient
  node is the derivative of the output.
\<close>

section \<open>Gradient nodes\<close>

text \<open>
  A gradient refers to a forward node, is an operator created on the way, with its number, its
  operation and its inputs, or is the triple that a sparse lookup hands on.
\<close>

datatype gop =
    OnesLikeG | SumG | SumSparseG "int list" | MulG | MulByConstG real | OppositeG | DivG
  | DivConstG real | PowerG real | OtherG nat

datatype grad = Fwd nat | New nat gop "grad list" | Triple grad grad grad

text \<open>The \<open>inputs\<close> attribute; a tuple has none.\<close>

fun grad_inputs :: "graph \<Rightarrow> grad \<Rightarrow> grad list result" where
  "grad_inputs g (Fwd n) = Inr (map Fwd (inputs (g n)))"
| "grad_inputs g (New i gp args) = Inr args"
| "grad_inputs g (Triple a b c) = Inl AttributeError"

definition first_grad_input :: "graph \<Rightarrow> grad \<Rightarrow> grad result" where
  "first_grad_input g x = bindE (grad_inputs g x) (\<lambda>args. py_nth args 0)"

definition is_triple :: "grad \<Rightarrow> bool" where
  "is_triple x = (case x of Triple a b c \<Rightarrow> True | _ \<Rightarrow> False)"

section \<open>The sum of the contributions\<close>

fun sum_items :: "(grad \<Rightarrow> nat) \<Rightarrow> nat option \<Rightarrow> grad list \<Rightarrow> grad list result" where
  "sum_items dt d [] = Inr []"
| "sum_items dt d (x # xs) =
     (case x of
        Triple a b c \<Rightarrow> assertE (d = None \<or> d = Some (dt c))
          (bindE (sum_items dt (Some (dt c)) xs) (\<lambda>ys. Inr (a # c # ys)))
      | _ \<Rightarrow> assertE (d = None \<or> d = Some (dt x))
          (bindE (sum_items dt (Some (dt x)) xs) (\<lambda>ys. Inr (x # ys))))"

text \<open>\<open>dt\<close> is the element type of a node, \<open>k\<close> the next node number.\<close>

definition sum_node_list ::
  "(grad \<Rightarrow> nat) \<Rightarrow> grad option list \<Rightarrow> int list option \<Rightarrow> nat \<Rightarrow> (grad option \<times> bool \<times> nat) result" where
  "sum_node_list dt node_list sh k =
     (case map the (filter (\<lambda>n. n \<noteq> None) node_list) of
        [] \<Rightarrow> Inr (None, False, k)
      | [x] \<Rightarrow> Inr (Some x, False, k)
      | xs \<Rightarrow>
          if \<exists>x \<in> set xs. is_triple x
          then bindE (sum_items dt None xs) (\<lambda>args.
                 case sh of
                   None \<Rightarrow> Inl TypeError
                 | Some s \<Rightarrow> assertE (length s = 2) (Inr (Some (New k (SumSparseG s) args), True, Suc k)))
          else Inr (Some (New k SumG xs), True, Suc k))"

section \<open>The backward pass\<close>

record ad_state =
  next_id :: nat
  backward2forward :: "(grad option \<times> (nat \<times> int)) list"
  forward2backward :: "(nat option \<times> grad option list) list"
  grads_list :: "nat \<rightharpoonup> grad option list"
  output_grads :: "nat \<rightharpoonup> grad"

type_synonym gradient_method = "nat \<Rightarrow> grad \<Rightarrow> nat \<Rightarrow> (grad option list option \<times> nat) result"

record ad_env =
  ad_graph :: graph
  gradient :: gradient_method
  elem_type :: "grad \<Rightarrow> nat"
  node_shape :: "nat \<Rightarrow> int list option"

definition add_ops :: "op_kind list" where
  "add_ops = [AddOp, AddByConstOp, SumOp]"

definition put_b2f :: "grad option \<Rightarrow> nat \<times> int \<Rightarrow> ad_state \<Rightarrow> ad_state" where
  "put_b2f x v st = st\<lparr>backward2forward := AList.update x v (backward2forward st)\<rparr>"

definition set_f2b :: "nat \<Rightarrow> grad option list \<Rightarrow> ad_state \<Rightarrow> ad_state" where
  "set_f2b n xs st = st\<lparr>forward2backward := AList.update (Some n) xs (forward2backward st)\<rparr>"

definition extend_f2b :: "nat \<Rightarrow> grad option list \<Rightarrow> ad_state \<Rightarrow> ad_state" where
  "extend_f2b n xs st = set_f2b n (dict_get (forward2backward st) (Some n) [] @ xs) st"

definition item_input :: "graph \<Rightarrow> grad option list \<Rightarrow> int \<Rightarrow> grad result" where
  "item_input g igl i =
     bindE (py_nth igl i) (\<lambda>x. case x of None \<Rightarrow> Inl AttributeError | Some y \<Rightarrow> first_grad_input g y)"

text \<open>Which new nodes belong to which forward node, with the operators that create more than one.\<close>

definition record_backward :: "graph \<Rightarrow> nat \<Rightarrow> grad option list \<Rightarrow> ad_state \<Rightarrow> ad_state result" where
  "record_backward g n igl st =
     (let value = (n, - 1);
          created = set_f2b n (filter (\<lambda>x. x \<noteq> None) igl) st in
      if kind (g n) \<in> set add_ops then Inr (set_f2b n [] st)
      else if kind (g n) = MinusOp then bindE (py_nth igl 1) (\<lambda>x. Inr (set_f2b n [x] st))
      else if kind (g n) \<in> {ReduceMeanOp, NormalizationOp} then
        bindE (item_input g igl 0) (\<lambda>x.
          Inr (put_b2f (Some x) (if kind (g n) = ReduceMeanOp then (n, 0) else value)
                 (extend_f2b n [Some x] created)))
      else if kind (g n) = DivConstOp then
        bindE (item_input g igl 0) (\<lambda>temp. bindE (first_grad_input g temp) (\<lambda>x.
          Inr (put_b2f (Some x) value (put_b2f (Some temp) value
                 (extend_f2b n [Some temp, Some x] created)))))
      else if kind (g n) = DivOp then
        bindE (item_input g igl 1) (\<lambda>temp. bindE (item_input g igl 0) (\<lambda>x.
        bindE (first_grad_input g temp) (\<lambda>y.
          Inr (put_b2f (Some y) value (put_b2f (Some temp) value (put_b2f (Some x) value
                 (extend_f2b n [Some x, Some temp, Some y] created)))))))
      else Inr created)"

definition record_sum :: "graph \<Rightarrow> nat \<Rightarrow> grad \<Rightarrow> ad_state \<Rightarrow> ad_state result" where
  "record_sum g n og st =
     assertE (\<not> has_key (backward2forward st) (Some og))
       (let st1 = put_b2f (Some og) (n, - 1) st in
        if has_key (forward2backward st1) (Some n) then Inr (extend_f2b n [Some og] st1)
        else assertE (kind (g n) = PlaceholderOp) (Inr (set_f2b n [Some og] st1)))"

text \<open>The loop over the inputs of a node: collect the contribution and record its origin.\<close>

definition contribute :: "graph \<Rightarrow> nat \<Rightarrow> grad option list option \<Rightarrow> ad_state \<Rightarrow> nat \<Rightarrow> ad_state result" where
  "contribute g n igl st i =
     (let m = inputs (g n) ! i;
          old = (case grads_list st m of None \<Rightarrow> [] | Some xs \<Rightarrow> xs) in
      case igl of
        None \<Rightarrow> Inl TypeError
      | Some gl \<Rightarrow>
          bindE (py_nth gl (int i)) (\<lambda>x.
            let st1 = st\<lparr>grads_list := (grads_list st)(m \<mapsto> (if x = None then old else old @ [x]))\<rparr> in
            if x \<noteq> None \<and> kind (g n) \<notin> set add_ops \<and> \<not> (kind (g n) = MinusOp \<and> i = 0)
            then assertE (\<not> has_key (backward2forward st1) x) (Inr (put_b2f x (n, int i) st1))
            else Inr st1))"

definition output_grad_of :: "ad_env \<Rightarrow> ad_state \<Rightarrow> nat \<Rightarrow> (grad option \<times> bool \<times> nat) result" where
  "output_grad_of env st n =
     (case grads_list st n of
        None \<Rightarrow> Inl KeyError
      | Some xs \<Rightarrow>
          if kind (ad_graph env n) = EmbeddingLookUp then
            (case xs of
               [] \<Rightarrow> Inr (None, False, next_id st)
             | Some (Triple a b c) # _ \<Rightarrow> Inl AttributeError
             | None # _ \<Rightarrow> Inl AttributeError
             | _ \<Rightarrow> sum_node_list (elem_type env) xs None (next_id st))
          else sum_node_list (elem_type env) xs
                 (if kind (ad_graph env n) = PlaceholderOp then node_shape env n else None) (next_id st))"

definition touch :: "nat \<Rightarrow> ad_state \<Rightarrow> ad_state" where
  "touch m st = (if grads_list st m = None then st\<lparr>grads_list := (grads_list st)(m \<mapsto> [])\<rparr> else st)"

definition backward_step :: "ad_env \<Rightarrow> ad_state \<Rightarrow> nat \<Rightarrow> ad_state result" where
  "backward_step env st n =
     bindE (output_grad_of env st n) (\<lambda>(og, is_new, k).
       let st0 = st\<lparr>next_id := k\<rparr> in
       case og of
         None \<Rightarrow> Inr (fold touch (inputs (ad_graph env n)) st0)
       | Some x \<Rightarrow>
           bindE (gradient env n x k) (\<lambda>(igl, k').
             let st1 = st0\<lparr>next_id := k', output_grads := (output_grads st0)(n \<mapsto> x)\<rparr> in
             bindE (case igl of None \<Rightarrow> Inr st1 | Some gl \<Rightarrow> record_backward (ad_graph env) n gl st1) (\<lambda>st2.
             bindE (if is_new then record_sum (ad_graph env) n x st2 else Inr st2) (\<lambda>st3.
               foldE (contribute (ad_graph env) n igl) st3 [0..<length (inputs (ad_graph env n))]))))"

text \<open>The gradients inserted at the outputs: given ones, or a fresh tensor of ones for each.\<close>

definition ones_like :: "nat list \<Rightarrow> nat \<Rightarrow> grad option list" where
  "ones_like outs k = map (\<lambda>i. Some (New (k + i) OnesLikeG [Fwd (outs ! i)])) [0..<length outs]"

definition init_backward :: "nat list \<Rightarrow> grad option list option \<Rightarrow> nat \<Rightarrow> ad_state" where
  "init_backward outs insert_grad k =
     (let gs = (case insert_grad of None \<Rightarrow> ones_like outs k | Some xs \<Rightarrow> xs);
          pairs = zip outs gs in
      \<lparr>next_id = (if insert_grad = None then k + length outs else k),
       backward2forward = foldl (\<lambda>d (n, x). AList.update x (n, - 1) d) [] pairs,
       forward2backward = [(None, gs)],
       grads_list = foldl (\<lambda>m (n, x). m(n \<mapsto> (if x = None then [] else [x]))) Map.empty pairs,
       output_grads = Map.empty\<rparr>)"

definition gradients ::
  "ad_env \<Rightarrow> nat \<Rightarrow> nat list \<Rightarrow> nat list \<Rightarrow> grad option list option \<Rightarrow> nat \<Rightarrow> (grad list \<times> ad_state) result" where
  "gradients env fuel outs node_list insert_grad k =
     (case find_topo_sort (ad_graph env) fuel outs of
        None \<Rightarrow> Inl RuntimeError
      | Some topo \<Rightarrow>
          bindE (foldE (backward_step env) (init_backward outs insert_grad k) (rev topo)) (\<lambda>st.
          bindE (mapE (\<lambda>n. case output_grads st n of None \<Rightarrow> Inl KeyError | Some x \<Rightarrow> Inr x) node_list) (\<lambda>gs.
            Inr (gs, st))))"

section \<open>The adjoint equation\<close>

definition opt_val :: "(grad \<Rightarrow> real) \<Rightarrow> grad option \<Rightarrow> real" where
  "opt_val val x = (case x of None \<Rightarrow> 0 | Some y \<Rightarrow> val y)"

lemma opt_val_simps [simp]: "opt_val val None = 0" "opt_val val (Some y) = val y"
  by (simp_all add: opt_val_def)

definition list_val :: "(grad \<Rightarrow> real) \<Rightarrow> ad_state \<Rightarrow> nat \<Rightarrow> real" where
  "list_val val st n = (case grads_list st n of None \<Rightarrow> 0 | Some xs \<Rightarrow> sum_list (map (opt_val val) xs))"

definition adjoint :: "(grad \<Rightarrow> real) \<Rightarrow> ad_state \<Rightarrow> nat \<Rightarrow> real" where
  "adjoint val st n = opt_val val (output_grads st n)"

text \<open>What input \<open>m\<close> receives from node \<open>n\<close>, given the partial derivatives \<open>J n\<close>.\<close>

definition flow :: "graph \<Rightarrow> (nat \<Rightarrow> nat \<Rightarrow> real) \<Rightarrow> nat \<Rightarrow> nat \<Rightarrow> real" where
  "flow g J n m = (\<Sum>i < length (inputs (g n)). if inputs (g n) ! i = m then J n i else 0)"

lemma flow_zero: "m \<notin> set (inputs (g n)) \<Longrightarrow> flow g J n m = 0"
  by (auto simp: flow_def intro!: sum.neutral)

text \<open>The tables leave the collected gradients alone.\<close>

lemma put_frames [simp]:
  "grads_list (put_b2f x v st) = grads_list st" "output_grads (put_b2f x v st) = output_grads st"
  "grads_list (set_f2b n xs st) = grads_list st" "output_grads (set_f2b n xs st) = output_grads st"
  "grads_list (extend_f2b n xs st) = grads_list st" "output_grads (extend_f2b n xs st) = output_grads st"
  "next_id (put_b2f x v st) = next_id st" "next_id (set_f2b n xs st) = next_id st"
  "next_id (extend_f2b n xs st) = next_id st"
  by (simp_all add: put_b2f_def set_f2b_def extend_f2b_def)

lemma record_backward_frame:
  "record_backward g n gl st = Inr st' \<Longrightarrow>
    grads_list st' = grads_list st \<and> output_grads st' = output_grads st \<and> next_id st' = next_id st"
  by (auto simp: record_backward_def Let_def bindE_Inr_iff split: if_splits)

lemma record_sum_frame:
  "record_sum g n x st = Inr st' \<Longrightarrow>
    grads_list st' = grads_list st \<and> output_grads st' = output_grads st \<and> next_id st' = next_id st"
  by (auto simp: record_sum_def Let_def assertE_Inr_iff split: if_splits)

lemma contribute_frame:
  assumes "contribute g n (Some gl) st i = Inr st'" and "i < length gl"
  shows "output_grads st' = output_grads st"
    and "grads_list st' = (grads_list st)(inputs (g n) ! i \<mapsto>
      (case grads_list st (inputs (g n) ! i) of None \<Rightarrow> [] | Some xs \<Rightarrow> xs)
        @ (if gl ! i = None then [] else [gl ! i]))"
  using assms by (auto simp: contribute_def Let_def assertE_Inr_iff split: if_splits)

lemma list_val_append:
  assumes "grads_list st' = (grads_list st)(m \<mapsto>
      (case grads_list st m of None \<Rightarrow> [] | Some xs \<Rightarrow> xs) @ (if y = None then [] else [y]))"
  shows "list_val val st' n = list_val val st n + (if n = m then opt_val val y else 0)"
  using assms by (auto simp: list_val_def split: option.splits)

lemma contribute_loop:
  assumes "foldE (contribute g n (Some gl)) st is = Inr st'" and "\<forall>i \<in> set is. i < length gl"
  shows "output_grads st' = output_grads st"
    and "list_val val st' m = list_val val st m
      + (\<Sum>i \<leftarrow> is. if inputs (g n) ! i = m then opt_val val (gl ! i) else 0)"
    and "grads_list st' m' = Some xs \<Longrightarrow> Some z \<in> set xs \<Longrightarrow>
      (\<exists>ys. grads_list st m' = Some ys \<and> Some z \<in> set ys) \<or> Some z \<in> set gl"
  using assms
proof (induction "is" arbitrary: st)
  case (Cons i js)
  {
    case 1
    then show ?case using Cons.IH(1) by (auto elim!: bindE_InrE dest: contribute_frame(1))
  next
    case 2
    then obtain s where s: "contribute g n (Some gl) st i = Inr s"
      and r: "foldE (contribute g n (Some gl)) s js = Inr st'" by (auto elim!: bindE_InrE)
    show ?case
      using Cons.IH(2) [OF r] 2 list_val_append [OF contribute_frame(2) [OF s], of val m] by auto
  next
    case 3
    then obtain s where s: "contribute g n (Some gl) st i = Inr s"
      and r: "foldE (contribute g n (Some gl)) s js = Inr st'" by (auto elim!: bindE_InrE)
    have i: "i < length gl" using 3 by simp
    have "(\<exists>ys. grads_list s m' = Some ys \<and> Some z \<in> set ys) \<or> Some z \<in> set gl"
      using Cons.IH(3) [OF _ _ r] 3 by simp
    then show ?case
      using nth_mem [OF i] unfolding contribute_frame(2) [OF s i]
      by (cases "grads_list st (inputs (g n) ! i)") (auto split: if_splits)
  }
qed simp_all

lemma backward_step_parts:
  assumes "backward_step env st n = Inr st'" and "output_grad_of env st n = Inr (Some x, b, k)"
  shows "\<exists>igl k' st3. gradient env n x k = Inr (igl, k') \<and> grads_list st3 = grads_list st \<and>
    output_grads st3 = (output_grads st)(n \<mapsto> x) \<and> next_id st3 = k' \<and>
    foldE (contribute (ad_graph env) n igl) st3 [0..<length (inputs (ad_graph env n))] = Inr st'"
proof -
  obtain igl k' where gr: "gradient env n x k = Inr (igl, k')"
    using assms by (auto simp: backward_step_def elim!: bindE_InrE)
  let ?st1 = "st\<lparr>next_id := k, next_id := k', output_grads := (output_grads (st\<lparr>next_id := k\<rparr>))(n \<mapsto> x)\<rparr>"
  obtain st2 st3 where
    b: "(case igl of None \<Rightarrow> Inr ?st1 | Some gl \<Rightarrow> record_backward (ad_graph env) n gl ?st1) = Inr st2"
    and s: "(if b then record_sum (ad_graph env) n x st2 else Inr st2) = Inr st3"
    and c: "foldE (contribute (ad_graph env) n igl) st3 [0..<length (inputs (ad_graph env n))] = Inr st'"
    using assms(1) unfolding backward_step_def assms(2) bindE_simps prod.case Let_def option.case gr
    by (elim bindE_InrE) blast
  have "grads_list st2 = grads_list ?st1 \<and> output_grads st2 = output_grads ?st1 \<and> next_id st2 = k'"
    using b record_backward_frame by (cases igl) fastforce+
  moreover have "grads_list st3 = grads_list st2 \<and> output_grads st3 = output_grads st2 \<and> next_id st3 = next_id st2"
    using s record_sum_frame by (cases b) auto
  ultimately show ?thesis using gr c by auto
qed

text \<open>
  The interface of the operators: the value of a sum is the sum of the values, and the gradient
  method of an operator multiplies the output gradient with its partial derivatives.
\<close>

locale vjp_ops =
  fixes env :: ad_env and val :: "grad \<Rightarrow> real" and J :: "nat \<Rightarrow> nat \<Rightarrow> real" and nodes :: "nat set"
  assumes val_sum: "val (New k SumG xs) = sum_list (map val xs)"
    and gradient_list: "n \<in> nodes \<Longrightarrow> \<not> is_triple x \<Longrightarrow> gradient env n x k = Inr (Some gl, k') \<Longrightarrow>
      list_all2 (\<lambda>y i. opt_val val y = J n i * val x \<and> (\<forall>z. y = Some z \<longrightarrow> \<not> is_triple z))
        gl [0..<length (inputs (ad_graph env n))]"
    and gradient_none: "n \<in> nodes \<Longrightarrow> gradient env n x k = Inr (None, k') \<Longrightarrow> inputs (ad_graph env n) = []"
begin

definition no_triples :: "ad_state \<Rightarrow> bool" where
  "no_triples st \<longleftrightarrow> (\<forall>n xs z. grads_list st n = Some xs \<longrightarrow> Some z \<in> set xs \<longrightarrow> \<not> is_triple z)"

lemma sum_opt_val: "sum_list (map val (map the (filter (\<lambda>n. n \<noteq> None) xs))) = sum_list (map (opt_val val) xs)"
  by (induction xs) auto

lemma sum_node_list_val:
  assumes "sum_node_list dt xs sh k = Inr (og, b, k')" and "\<forall>z. Some z \<in> set xs \<longrightarrow> \<not> is_triple z"
  shows "opt_val val og = sum_list (map (opt_val val) xs) \<and> (\<forall>z. og = Some z \<longrightarrow> \<not> is_triple z)"
proof -
  let ?ys = "map the (filter (\<lambda>n. n \<noteq> None) xs)"
  have t: "\<not> (\<exists>x \<in> set ?ys. is_triple x)" using assms(2) by auto
  have "opt_val val og = sum_list (map val ?ys) \<and> (\<forall>z. og = Some z \<longrightarrow> \<not> is_triple z)"
  proof (cases ?ys)
    case Nil
    then show ?thesis using assms(1) unfolding sum_node_list_def Nil by simp
  next
    case (Cons x zs)
    show ?thesis
    proof (cases zs)
      case Nil
      then show ?thesis using assms(1) t unfolding sum_node_list_def Cons Nil by auto
    next
      case (Cons y ws)
      note ys = \<open>?ys = x # zs\<close> [unfolded Cons]
      have "og = Some (New k SumG (x # y # ws))"
        using assms(1) t unfolding sum_node_list_def ys by (simp split: if_splits)
      then show ?thesis unfolding ys by (simp add: val_sum is_triple_def)
    qed
  qed
  then show ?thesis unfolding sum_opt_val .
qed

lemma output_grad_val:
  assumes "output_grad_of env st n = Inr (og, b, k)" and "no_triples st"
  shows "opt_val val og = list_val val st n \<and> (\<forall>z. og = Some z \<longrightarrow> \<not> is_triple z)"
proof -
  obtain xs where xs: "grads_list st n = Some xs"
    using assms(1) by (auto simp: output_grad_of_def split: option.splits)
  have t: "\<forall>z. Some z \<in> set xs \<longrightarrow> \<not> is_triple z" using assms(2) xs by (auto simp: no_triples_def)
  show ?thesis
    using assms(1) xs sum_node_list_val [OF _ t]
    by (auto simp: output_grad_of_def list_val_def split: if_splits list.splits option.splits grad.splits)
qed

lemma flow_list: "flow g J n m = (\<Sum>i \<leftarrow> [0..<length (inputs (g n))]. if inputs (g n) ! i = m then J n i else 0)"
  unfolding flow_def by (simp add: interv_sum_list_conv_sum_set_nat atLeast0LessThan)

text \<open>What one step of the backward pass does: it fixes the output gradient of its node and hands
  each input its share.\<close>

definition steps_to :: "ad_state \<Rightarrow> nat \<Rightarrow> ad_state \<Rightarrow> bool" where
  "steps_to st n st' \<longleftrightarrow> no_triples st' \<and> adjoint val st' n = list_val val st n \<and>
     (\<forall>m. m \<noteq> n \<longrightarrow> output_grads st' m = output_grads st m) \<and>
     (\<forall>m. list_val val st' m = list_val val st m + flow (ad_graph env) J n m * list_val val st n)"

lemma touch_val [simp]: "list_val val (touch m st) n = list_val val st n" "output_grads (touch m st) = output_grads st"
  by (auto simp: touch_def list_val_def)

lemma touch_no_triples: "no_triples st \<Longrightarrow> no_triples (touch m st)"
  by (auto simp: touch_def no_triples_def split: if_splits)

lemma fold_touch:
  "no_triples st \<Longrightarrow> no_triples (fold touch ms st) \<and> list_val val (fold touch ms st) n = list_val val st n
    \<and> output_grads (fold touch ms st) = output_grads st"
  by (induction ms arbitrary: st) (auto simp: touch_no_triples)

lemma shares_scale:
  assumes "gradient env n x k = Inr (Some gl, k')" and "n \<in> nodes" and "\<not> is_triple x"
  shows "(\<Sum>i \<leftarrow> [0..<length (inputs (ad_graph env n))].
            if inputs (ad_graph env n) ! i = m then opt_val val (gl ! i) else 0) = flow (ad_graph env) J n m * val x"
proof -
  have "opt_val val (gl ! i) = J n i * val x" if "i < length (inputs (ad_graph env n))" for i
    using list_all2_nthD2 [OF gradient_list [OF assms(2,3,1)], of i] that by simp
  then show ?thesis
    unfolding flow_list sum_list_mult_const [symmetric]
    by (intro arg_cong [where f = sum_list] map_cong) auto
qed

lemma contribute_step:
  assumes "gradient env n x k = Inr (igl, k')" and "no_triples st" and "n \<in> nodes" and "\<not> is_triple x"
    and "foldE (contribute (ad_graph env) n igl) st [0..<length (inputs (ad_graph env n))] = Inr st'"
  shows "no_triples st' \<and> output_grads st' = output_grads st \<and>
     (\<forall>m. list_val val st' m = list_val val st m + flow (ad_graph env) J n m * val x)"
proof (cases igl)
  case None
  then have "inputs (ad_graph env n) = []" using gradient_none [OF assms(3)] assms(1) by simp
  then show ?thesis using assms(2,5) by (simp add: flow_def)
next
  case (Some gl)
  note gl = gradient_list [OF assms(3,4) assms(1) [unfolded Some]]
  have len: "\<forall>i \<in> set [0..<length (inputs (ad_graph env n))]. i < length gl"
    using list_all2_lengthD [OF gl] by simp
  have nt: "\<not> is_triple z" if "Some z \<in> set gl" for z
    using gl that unfolding list_all2_conv_all_nth in_set_conv_nth by auto
  note loop = contribute_loop [OF assms(5) [unfolded Some] len]
  have "no_triples st'"
    using loop(3) nt assms(2) unfolding no_triples_def by blast
  moreover have "list_val val st' m = list_val val st m + flow (ad_graph env) J n m * val x" for m
    using loop(2) [of val m] unfolding shares_scale [OF assms(1) [unfolded Some] assms(3,4)] .
  ultimately show ?thesis using loop(1) by blast
qed

lemma backward_step_val:
  assumes "backward_step env st n = Inr st'" and "no_triples st" and "output_grads st n = None" and "n \<in> nodes"
  shows "steps_to st n st'"
proof -
  obtain og b k where og: "output_grad_of env st n = Inr (og, b, k)"
    using assms(1) by (auto simp: backward_step_def elim!: bindE_InrE)
  have v: "opt_val val og = list_val val st n" and tr: "\<And>z. og = Some z \<Longrightarrow> \<not> is_triple z"
    using output_grad_val [OF og assms(2)] by simp_all
  have nt0: "no_triples (st\<lparr>next_id := k\<rparr>)" using assms(2) by (simp add: no_triples_def)
  have lv0: "list_val val (st\<lparr>next_id := k\<rparr>) m = list_val val st m" for m by (simp add: list_val_def)
  show ?thesis
  proof (cases og)
    case None
    then have "st' = fold touch (inputs (ad_graph env n)) (st\<lparr>next_id := k\<rparr>)"
      using assms(1) og by (simp add: backward_step_def)
    moreover have "list_val val st n = 0" using v None by simp
    ultimately show ?thesis
      using fold_touch [OF nt0] assms(3) by (simp add: steps_to_def lv0 adjoint_def)
  next
    case (Some x)
    obtain igl k' st3 where gr: "gradient env n x k = Inr (igl, k')"
      and f: "grads_list st3 = grads_list st" "output_grads st3 = (output_grads st)(n \<mapsto> x)"
      and c: "foldE (contribute (ad_graph env) n igl) st3 [0..<length (inputs (ad_graph env n))] = Inr st'"
      using backward_step_parts [OF assms(1) og [unfolded Some]] by blast
    have "no_triples st3" using assms(2) f(1) by (simp add: no_triples_def)
    moreover have "list_val val st3 m = list_val val st m" for m using f(1) by (simp add: list_val_def)
    ultimately show ?thesis
      using contribute_step [OF gr _ assms(4) tr [OF Some] c] f(2) v Some by (simp add: steps_to_def adjoint_def)
  qed
qed

text \<open>
  The adjoint equation: at the end each node's output gradient is what was put into it at the
  start plus the shares of the nodes that use it.
\<close>

lemma backward_loop_val:
  assumes "foldE (backward_step env) st xs = Inr st'" and "no_triples st" and "distinct xs"
    and "\<forall>n \<in> set xs. output_grads st n = None" and "inputs_first (ad_graph env) (zs @ rev xs)"
    and "distinct (zs @ rev xs)" and "set xs \<subseteq> nodes"
  shows "(\<forall>n. n \<notin> set xs \<longrightarrow> output_grads st' n = output_grads st n) \<and>
    (\<forall>n \<in> set xs. adjoint val st' n =
       list_val val st n + (\<Sum>m \<in> set xs. flow (ad_graph env) J m n * adjoint val st' m))"
  using assms
proof (induction xs arbitrary: st)
  case (Cons x xs)
  obtain st1 where s: "backward_step env st x = Inr st1" and r: "foldE (backward_step env) st1 xs = Inr st'"
    using Cons.prems(1) by (auto elim!: bindE_InrE)
  have "output_grads st x = None" "x \<in> nodes" using Cons.prems(4,7) by simp_all
  note st1 = backward_step_val [OF s Cons.prems(2) this, unfolded steps_to_def]
  have x: "x \<notin> set xs" using Cons.prems(3) by simp
  have pre: "inputs_first (ad_graph env) (zs @ rev xs)" and dz: "distinct (zs @ rev xs)"
    using Cons.prems(5,6) inputs_first_snoc [of _ "zs @ rev xs" x] by simp_all
  have xin: "set (inputs (ad_graph env x)) \<subseteq> set (zs @ rev xs)"
    using Cons.prems(5) inputs_first_snoc [of _ "zs @ rev xs" x] by simp
  have IH: "(\<forall>n. n \<notin> set xs \<longrightarrow> output_grads st' n = output_grads st1 n) \<and>
    (\<forall>n \<in> set xs. adjoint val st' n =
       list_val val st1 n + (\<Sum>m \<in> set xs. flow (ad_graph env) J m n * adjoint val st' m))"
    using Cons.prems(3,4,7) x st1 by (intro Cons.IH [OF r _ _ _ pre dz]) auto
  have ax: "adjoint val st' x = list_val val st x" using IH x st1 by (simp add: adjoint_def)
  have zero: "flow (ad_graph env) J m x = 0" if "m \<in> set (x # xs)" for m
  proof (cases "m = x")
    case True
    then show ?thesis using xin Cons.prems(6) by (intro flow_zero) auto
  next
    case False
    then have "m \<in> set (zs @ rev xs)" using that by simp
    then have "set (inputs (ad_graph env m)) \<subseteq> set (zs @ rev xs)"
      using pre unfolding inputs_first_def in_set_conv_nth by (metis in_mono set_take_subset subsetI)
    then show ?thesis using Cons.prems(6) by (intro flow_zero) auto
  qed
  have new: "adjoint val st' n = list_val val st n + (\<Sum>m \<in> set (x # xs). flow (ad_graph env) J m n * adjoint val st' m)"
    if "n \<in> set xs" for n
    using IH that st1 x by (simp add: ax)
  have old: "adjoint val st' x = list_val val st x + (\<Sum>m \<in> set (x # xs). flow (ad_graph env) J m x * adjoint val st' m)"
    unfolding ax by (subst sum.neutral) (auto simp: zero)
  have "output_grads st' n = output_grads st n" if "n \<notin> set (x # xs)" for n
  proof -
    have "n \<notin> set xs" "n \<noteq> x" using that by auto
    then show ?thesis using IH st1 by simp
  qed
  then show ?case using new old by (metis set_ConsD)
qed simp

end

section \<open>The gradient methods of the scalar operators\<close>

text \<open>\<open>c n\<close> is the constant of node \<open>n\<close>, \<open>og\<close> the output gradient, \<open>k\<close> the next node number.\<close>

definition PlaceholderOp_gradient :: "gradient_method" where
  "PlaceholderOp_gradient n og k = Inr (None, k)"

definition AddOp_gradient :: "gradient_method" where
  "AddOp_gradient n og k = Inr (Some [Some og, Some og], k)"

definition AddByConstOp_gradient :: "gradient_method" where
  "AddByConstOp_gradient n og k = Inr (Some [Some og], k)"

definition SumOp_gradient :: "graph \<Rightarrow> gradient_method" where
  "SumOp_gradient g n og k = Inr (Some (map (\<lambda>i. Some og) (inputs (g n))), k)"

definition MinusOp_gradient :: "gradient_method" where
  "MinusOp_gradient n og k = Inr (Some [Some og, Some (New k OppositeG [og])], k + 1)"

definition OppositeOp_gradient :: "gradient_method" where
  "OppositeOp_gradient n og k = Inr (Some [Some (New k OppositeG [og])], k + 1)"

definition MulByConstOp_gradient :: "(nat \<Rightarrow> real) \<Rightarrow> gradient_method" where
  "MulByConstOp_gradient c n og k = Inr (Some [Some (New k (MulByConstG (c n)) [og])], k + 1)"

definition MulOp_gradient :: "graph \<Rightarrow> gradient_method" where
  "MulOp_gradient g n og k =
     bindE (py_nth (inputs (g n)) 1) (\<lambda>b. bindE (py_nth (inputs (g n)) 0) (\<lambda>a.
       Inr (Some [Some (New k MulG [Fwd b, og]), Some (New (k + 1) MulG [Fwd a, og])], k + 2)))"

definition DivOp_gradient :: "graph \<Rightarrow> gradient_method" where
  "DivOp_gradient g n og k =
     bindE (py_nth (inputs (g n)) 1) (\<lambda>b.
       let dividend_grad = New k (DivConstG 1) [Fwd b];
           divisor_grad = New (k + 2) OppositeG [New (k + 1) DivG [Fwd n, Fwd b]] in
       Inr (Some [Some (New (k + 3) MulG [dividend_grad, og]), Some (New (k + 4) MulG [divisor_grad, og])], k + 5))"

definition DivConstOp_gradient :: "graph \<Rightarrow> gradient_method" where
  "DivConstOp_gradient g n og k =
     bindE (py_nth (inputs (g n)) 0) (\<lambda>a.
       let divisor_grad = New (k + 1) DivG [New k OppositeG [Fwd n], Fwd a] in
       Inr (Some [Some (New (k + 2) MulG [divisor_grad, og])], k + 3))"

definition PowerOp_gradient :: "graph \<Rightarrow> (nat \<Rightarrow> real) \<Rightarrow> gradient_method" where
  "PowerOp_gradient g c n og k =
     (if c n = 0 then Inr (Some [None], k)
      else if c n = 1 then Inr (Some [Some og], k)
      else bindE (py_nth (inputs (g n)) 0) (\<lambda>a.
        if c n = 2 then Inr (Some [Some (New (k + 1) (MulByConstG 2) [New k MulG [og, Fwd a]])], k + 2)
        else Inr (Some [Some (New (k + 2) (MulByConstG (c n))
               [New (k + 1) MulG [New k (PowerG (c n - 1)) [Fwd a], og]])], k + 3)))"

definition scalar_gradient :: "graph \<Rightarrow> (nat \<Rightarrow> real) \<Rightarrow> gradient_method" where
  "scalar_gradient g c n =
     (case kind (g n) of
        PlaceholderOp \<Rightarrow> PlaceholderOp_gradient n
      | AddOp \<Rightarrow> AddOp_gradient n
      | AddByConstOp \<Rightarrow> AddByConstOp_gradient n
      | SumOp \<Rightarrow> SumOp_gradient g n
      | MinusOp \<Rightarrow> MinusOp_gradient n
      | OppositeOp \<Rightarrow> OppositeOp_gradient n
      | MulByConstOp \<Rightarrow> MulByConstOp_gradient c n
      | MulOp \<Rightarrow> MulOp_gradient g n
      | DivOp \<Rightarrow> DivOp_gradient g n
      | DivConstOp \<Rightarrow> DivConstOp_gradient g n
      | PowerOp \<Rightarrow> PowerOp_gradient g c n
      | _ \<Rightarrow> (\<lambda>og k. Inl NotImplementedError))"

lemmas scalar_gradient_defs =
  scalar_gradient_def PlaceholderOp_gradient_def AddOp_gradient_def AddByConstOp_gradient_def
  SumOp_gradient_def MinusOp_gradient_def OppositeOp_gradient_def MulByConstOp_gradient_def
  MulOp_gradient_def DivOp_gradient_def DivConstOp_gradient_def PowerOp_gradient_def

text \<open>The operators a scalar expression is made of, with their numbers of inputs.\<close>

definition scalar_arity :: "op_kind \<Rightarrow> nat \<Rightarrow> bool" where
  "scalar_arity kd l \<longleftrightarrow>
     kd = PlaceholderOp \<and> l = 0 \<or> kd \<in> {AddOp, MinusOp, MulOp, DivOp} \<and> l = 2
     \<or> kd \<in> {AddByConstOp, MulByConstOp, OppositeOp, DivConstOp} \<and> l = 1 \<or> kd = SumOp \<and> 0 < l"

definition scalar_graph :: "graph \<Rightarrow> nat set \<Rightarrow> bool" where
  "scalar_graph g S \<longleftrightarrow> (\<forall>n \<in> S. scalar_arity (kind (g n)) (length (inputs (g n))))"

text \<open>The forward computation, and the value of a gradient node when the forward nodes have values \<open>v\<close>.\<close>

definition op_value :: "op_kind \<Rightarrow> real \<Rightarrow> real list \<Rightarrow> real" where
  "op_value kd c xs =
     (case kd of
        AddOp \<Rightarrow> xs ! 0 + xs ! 1
      | MinusOp \<Rightarrow> xs ! 0 - xs ! 1
      | MulOp \<Rightarrow> xs ! 0 * xs ! 1
      | DivOp \<Rightarrow> xs ! 0 / xs ! 1
      | AddByConstOp \<Rightarrow> xs ! 0 + c
      | MulByConstOp \<Rightarrow> xs ! 0 * c
      | OppositeOp \<Rightarrow> - (xs ! 0)
      | DivConstOp \<Rightarrow> c / xs ! 0
      | SumOp \<Rightarrow> sum_list xs
      | _ \<Rightarrow> 0)"

definition forward_step :: "graph \<Rightarrow> (nat \<Rightarrow> real) \<Rightarrow> (nat \<Rightarrow> real) \<Rightarrow> nat \<Rightarrow> (nat \<Rightarrow> real)" where
  "forward_step g c v n =
     (if kind (g n) = PlaceholderOp then v else v(n := op_value (kind (g n)) (c n) (map v (inputs (g n)))))"

definition forward_values :: "graph \<Rightarrow> (nat \<Rightarrow> real) \<Rightarrow> (nat \<Rightarrow> real) \<Rightarrow> nat list \<Rightarrow> (nat \<Rightarrow> real)" where
  "forward_values g c feed topo = foldl (forward_step g c) feed topo"

fun grad_value :: "(nat \<Rightarrow> real) \<Rightarrow> grad \<Rightarrow> real" where
  "grad_value v (Fwd n) = v n"
| "grad_value v (New i OnesLikeG args) = 1"
| "grad_value v (New i SumG args) = sum_list (map (grad_value v) args)"
| "grad_value v (New i MulG [x, y]) = grad_value v x * grad_value v y"
| "grad_value v (New i DivG [x, y]) = grad_value v x / grad_value v y"
| "grad_value v (New i (MulByConstG c) [x]) = grad_value v x * c"
| "grad_value v (New i OppositeG [x]) = - grad_value v x"
| "grad_value v (New i (DivConstG c) [x]) = c / grad_value v x"
| "grad_value v (New i (PowerG p) [x]) = grad_value v x powr p"
| "grad_value v x = 0"

section \<open>The scalar operators keep the interface\<close>

definition scalar_env :: "graph \<Rightarrow> (nat \<Rightarrow> real) \<Rightarrow> (grad \<Rightarrow> nat) \<Rightarrow> (nat \<Rightarrow> int list option) \<Rightarrow> ad_env" where
  "scalar_env g c dt sh = \<lparr>ad_graph = g, gradient = scalar_gradient g c, elem_type = dt, node_shape = sh\<rparr>"

definition scalar_nodes :: "graph \<Rightarrow> nat set" where
  "scalar_nodes g = {n. scalar_arity (kind (g n)) (length (inputs (g n)))}"

text \<open>The partial derivative of node \<open>n\<close> by its input \<open>i\<close>, at the values \<open>v\<close>.\<close>

definition partial_derivative :: "graph \<Rightarrow> (nat \<Rightarrow> real) \<Rightarrow> (nat \<Rightarrow> real) \<Rightarrow> nat \<Rightarrow> nat \<Rightarrow> real" where
  "partial_derivative g c v n i =
     (case kind (g n) of
        AddOp \<Rightarrow> 1
      | AddByConstOp \<Rightarrow> 1
      | SumOp \<Rightarrow> 1
      | MinusOp \<Rightarrow> (if i = 0 then 1 else - 1)
      | OppositeOp \<Rightarrow> - 1
      | MulByConstOp \<Rightarrow> c n
      | MulOp \<Rightarrow> v (inputs (g n) ! (1 - i))
      | DivOp \<Rightarrow> (if i = 0 then 1 / v (inputs (g n) ! 1) else - (v n / v (inputs (g n) ! 1)))
      | DivConstOp \<Rightarrow> - v n / v (inputs (g n) ! 0)
      | _ \<Rightarrow> 0)"

lemma scalar_env_simps [simp]:
  "ad_graph (scalar_env g c dt sh) = g" "gradient (scalar_env g c dt sh) = scalar_gradient g c"
  by (simp_all add: scalar_env_def)

lemma list_of_one: "length xs = Suc 0 \<longleftrightarrow> (\<exists>a. xs = [a])"
  by (auto simp: length_Suc_conv)

lemma list_of_two: "length xs = 2 \<longleftrightarrow> (\<exists>a b. xs = [a, b])"
  by (auto simp: numeral_2_eq_2 length_Suc_conv)

lemma py_nth_two [simp]: "py_nth [a, b] 1 = Inr b" "py_nth (a # xs) 0 = Inr a"
  by (simp_all add: py_nth_def)

lemma upt_two: "[0..<2] = [0, Suc 0]" by (simp add: upt_rec)

lemma scalar_kinds:
  assumes "n \<in> scalar_nodes g"
  obtains "kind (g n) = PlaceholderOp" "inputs (g n) = []"
  | a b where "kind (g n) \<in> {AddOp, MinusOp, MulOp, DivOp}" "inputs (g n) = [a, b]"
  | a where "kind (g n) \<in> {AddByConstOp, MulByConstOp, OppositeOp, DivConstOp}" "inputs (g n) = [a]"
  | "kind (g n) = SumOp" "inputs (g n) \<noteq> []"
  using assms unfolding scalar_nodes_def scalar_arity_def mem_Collect_eq One_nat_def list_of_one list_of_two
  by auto

lemma scalar_gradient_list:
  assumes "n \<in> scalar_nodes g" and "scalar_gradient g c n x k = Inr (Some gl, k')" and "\<not> is_triple x"
  shows "list_all2 (\<lambda>y i. opt_val (grad_value v) y = partial_derivative g c v n i * grad_value v x
      \<and> (\<forall>z. y = Some z \<longrightarrow> \<not> is_triple z)) gl [0..<length (inputs (g n))]"
  using assms(1)
proof (cases rule: scalar_kinds)
  case 4
  then show ?thesis
    using assms(2,3) by (auto simp: scalar_gradient_defs partial_derivative_def list_all2_conv_all_nth)
qed (use assms(2,3) in \<open>auto simp: scalar_gradient_defs partial_derivative_def Let_def upt_two is_triple_def\<close>)

lemma scalar_gradient_none:
  "n \<in> scalar_nodes g \<Longrightarrow> scalar_gradient g c n x k = Inr (None, k') \<Longrightarrow> inputs (g n) = []"
  by (erule scalar_kinds) (auto simp: scalar_gradient_defs Let_def)

interpretation scalar: vjp_ops "scalar_env g c dt sh" "grad_value v" "partial_derivative g c v" "scalar_nodes g"
  for g c dt sh v
  by unfold_locales (auto intro: scalar_gradient_list dest: scalar_gradient_none)

section \<open>Forward and backward sums agree\<close>

lemma flow_pairing:
  assumes "finite S" and "set (inputs (g m)) \<subseteq> S"
  shows "(\<Sum>n \<in> S. flow g J m n * d n) = (\<Sum>i < length (inputs (g m)). J m i * d (inputs (g m) ! i))"
proof -
  have "(\<Sum>n \<in> S. flow g J m n * d n) =
      (\<Sum>n \<in> S. \<Sum>i < length (inputs (g m)). if inputs (g m) ! i = n then J m i * d n else 0)"
    unfolding flow_def sum_distrib_right by (intro sum.cong) auto
  also have "\<dots> = (\<Sum>i < length (inputs (g m)). \<Sum>n \<in> S. if inputs (g m) ! i = n then J m i * d n else 0)"
    by (rule sum.swap)
  also have "\<dots> = (\<Sum>i < length (inputs (g m)). J m i * d (inputs (g m) ! i))"
    using assms by (intro sum.cong refl) (auto simp: sum.delta' dest: subsetD [OF _ nth_mem])
  finally show ?thesis .
qed

lemma transposition:
  assumes "finite S" and "closed_graph g S"
    and "\<forall>n \<in> S. a n = s n + (\<Sum>m \<in> S. flow g J m n * a m)"
    and "\<forall>n \<in> S. inputs (g n) \<noteq> [] \<longrightarrow> d n = (\<Sum>i < length (inputs (g n)). J n i * d (inputs (g n) ! i))"
  shows "(\<Sum>n \<in> S. s n * d n) = (\<Sum>n \<in> S. if inputs (g n) = [] then a n * d n else 0)"
proof -
  have pair: "(\<Sum>n \<in> S. flow g J m n * d n) = (if inputs (g m) = [] then 0 else d m)" if "m \<in> S" for m
    using that assms(2,4) by (subst flow_pairing [OF assms(1)]) (auto simp: closed_graph_def)
  have "(\<Sum>n \<in> S. a n * d n) = (\<Sum>n \<in> S. (s n + (\<Sum>m \<in> S. flow g J m n * a m)) * d n)"
    using assms(3) by (intro sum.cong) auto
  also have "\<dots> = (\<Sum>n \<in> S. s n * d n) + (\<Sum>n \<in> S. \<Sum>m \<in> S. a m * (flow g J m n * d n))"
    unfolding distrib_right sum.distrib sum_distrib_right by (simp add: ac_simps)
  also have "(\<Sum>n \<in> S. \<Sum>m \<in> S. a m * (flow g J m n * d n)) = (\<Sum>m \<in> S. \<Sum>n \<in> S. a m * (flow g J m n * d n))"
    by (rule sum.swap)
  also have "\<dots> = (\<Sum>m \<in> S. if inputs (g m) = [] then 0 else a m * d m)"
    unfolding sum_distrib_left [symmetric] by (intro sum.cong refl) (simp add: pair)
  also have "\<dots> = (\<Sum>m \<in> S. a m * d m) - (\<Sum>n \<in> S. if inputs (g n) = [] then a n * d n else 0)"
    unfolding sum_subtractf [symmetric] by (intro sum.cong refl) auto
  finally show ?thesis by simp
qed

section \<open>Derivatives of the forward computation\<close>

definition divisors_nonzero :: "graph \<Rightarrow> (nat \<Rightarrow> real) \<Rightarrow> nat list \<Rightarrow> bool" where
  "divisors_nonzero g v ns \<longleftrightarrow>
     (\<forall>n \<in> set ns. (kind (g n) = DivOp \<longrightarrow> v (inputs (g n) ! 1) \<noteq> 0) \<and>
       (kind (g n) = DivConstOp \<longrightarrow> v (inputs (g n) ! 0) \<noteq> 0))"

lemma sum_list_derivative:
  "\<forall>m \<in> set ms. ((\<lambda>t. f t m) has_real_derivative d m) (at x) \<Longrightarrow>
    ((\<lambda>t. sum_list (map (f t) ms)) has_real_derivative (\<Sum>i < length ms. d (ms ! i))) (at x)"
proof (induction ms)
  case (Cons m ms)
  then show ?case unfolding length_Cons lessThan_Suc_eq_insert_0
    by (auto simp: sum.reindex intro!: derivative_eq_intros)
qed simp

lemma op_value_derivative:
  assumes "n \<in> scalar_nodes g" and "inputs (g n) \<noteq> []"
    and "\<forall>m \<in> set (inputs (g n)). ((\<lambda>t. f t m) has_real_derivative d m) (at x)"
    and "divisors_nonzero g (f x) [n]" and "f x n = op_value (kind (g n)) (c n) (map (f x) (inputs (g n)))"
  shows "((\<lambda>t. op_value (kind (g n)) (c n) (map (f t) (inputs (g n)))) has_real_derivative
    (\<Sum>i < length (inputs (g n)). partial_derivative g c (f x) n i * d (inputs (g n) ! i))) (at x)"
  using assms(1)
proof (cases rule: scalar_kinds)
  case 1
  then show ?thesis using assms(2) by simp
next
  case (2 a b)
  then have "((\<lambda>t. f t a) has_real_derivative d a) (at x)" "((\<lambda>t. f t b) has_real_derivative d b) (at x)"
    using assms(3) by simp_all
  note D = this
  have two: "{..<Suc (Suc 0)} = {0, Suc 0}" by auto
  show ?thesis
    using 2 assms(4,5)
    by (auto simp: op_value_def partial_derivative_def divisors_nonzero_def two field_simps power2_eq_square
        intro!: derivative_eq_intros D)
next
  case (3 a)
  then have D: "((\<lambda>t. f t a) has_real_derivative d a) (at x)" using assms(3) by simp
  show ?thesis
    using 3 assms(4,5)
    by (auto simp: op_value_def partial_derivative_def divisors_nonzero_def field_simps power2_eq_square
        intro!: derivative_eq_intros D)
next
  case 4
  then show ?thesis
    using sum_list_derivative [OF assms(3)] by (simp add: op_value_def partial_derivative_def)
qed

lemma forward_values_snoc: "forward_values g c feed (t @ [n]) = forward_step g c (forward_values g c feed t) n"
  by (simp add: forward_values_def)

lemma forward_values_other: "n \<notin> set t \<Longrightarrow> forward_values g c feed t n = feed n"
  by (induction t rule: rev_induct) (auto simp: forward_values_snoc forward_step_def, simp add: forward_values_def)

text \<open>Every node of a topological order has the value of its operation on the values of its inputs.\<close>

lemma forward_values_eq:
  assumes "inputs_first g t" and "distinct t" and "n \<in> set t"
  shows "forward_values g c feed t n =
    (if kind (g n) = PlaceholderOp then feed n
     else op_value (kind (g n)) (c n) (map (forward_values g c feed t) (inputs (g n))))"
  using assms
proof (induction t rule: rev_induct)
  case (snoc m t)
  have pre: "inputs_first g t" "set (inputs (g m)) \<subseteq> set t" "m \<notin> set t"
    using snoc.prems inputs_first_snoc [of g t m] by auto
  have same: "forward_values g c feed (t @ [m]) x = forward_values g c feed t x" if "x \<in> set t" for x
    using that pre(3) by (auto simp: forward_values_snoc forward_step_def)
  show ?case
  proof (cases "n = m")
    case True
    have mp: "map (forward_values g c feed (t @ [m])) (inputs (g m)) = map (forward_values g c feed t) (inputs (g m))"
      using pre(2) same by (intro map_cong) auto
    show ?thesis
      unfolding True mp using pre(3) forward_values_other [of m t]
      by (simp add: forward_values_snoc forward_step_def)
  next
    case False
    then have n: "n \<in> set t" using snoc.prems by simp
    then have "set (inputs (g n)) \<subseteq> set t"
      using pre(1) unfolding inputs_first_def in_set_conv_nth by (metis in_mono set_take_subset subsetI)
    then have mp: "map (forward_values g c feed (t @ [m])) (inputs (g n)) = map (forward_values g c feed t) (inputs (g n))"
      using same by (intro map_cong) auto
    show ?thesis unfolding same [OF n] mp using snoc.IH [OF pre(1) _ n] snoc.prems(2) by simp
  qed
qed simp

lemma inputs_before:
  assumes "inputs_first g t" and "n \<in> set t"
  shows "set (inputs (g n)) \<subseteq> set t"
  using assms unfolding inputs_first_def in_set_conv_nth by (metis in_mono set_take_subset subsetI)

text \<open>Along a topological order every value is differentiable in the fed value of one leaf.\<close>

lemma forward_derivative:
  assumes "inputs_first g t" and "distinct t" and "set t \<subseteq> scalar_nodes g"
    and "divisors_nonzero g (forward_values g c feed t) t"
  shows "\<exists>d. (\<forall>n \<in> set t. ((\<lambda>x. forward_values g c (feed(p := x)) t n) has_real_derivative d n) (at (feed p))) \<and>
    (\<forall>n \<in> set t. d n = (if inputs (g n) = [] then (if n = p then 1 else 0)
       else (\<Sum>i < length (inputs (g n)).
         partial_derivative g c (forward_values g c feed t) n i * d (inputs (g n) ! i))))"
proof -
  let ?f = "\<lambda>x. forward_values g c (feed(p := x)) t" and ?v = "forward_values g c feed t"
  have fv: "?f (feed p) = ?v" by simp
  have eq: "?f x n = (if kind (g n) = PlaceholderOp then (feed(p := x)) n
      else op_value (kind (g n)) (c n) (map (?f x) (inputs (g n))))" if "n \<in> set t" for x n
    by (rule forward_values_eq [OF assms(1,2) that])
  have leaf: "kind (g n) = PlaceholderOp \<longleftrightarrow> inputs (g n) = []" if "n \<in> set t" for n
  proof -
    have "n \<in> scalar_nodes g" using that assms(3) by auto
    then show ?thesis by (cases rule: scalar_kinds) auto
  qed
  have nz: "divisors_nonzero g ?v [n]" if "n \<in> set t" for n
    using that assms(4) by (simp add: divisors_nonzero_def)
  have leaf_d: "((\<lambda>x. ?f x n) has_real_derivative (if n = p then 1 else 0)) (at (feed p))"
    if "n \<in> set t" "inputs (g n) = []" for n
    using that leaf eq by (auto intro!: derivative_eq_intros)
  have node_d: "((\<lambda>x. ?f x n) has_real_derivative
      (\<Sum>i < length (inputs (g n)). partial_derivative g c ?v n i * d (inputs (g n) ! i))) (at (feed p))"
    if "n \<in> set t" "inputs (g n) \<noteq> []"
      and "\<forall>m \<in> set (inputs (g n)). ((\<lambda>x. ?f x m) has_real_derivative d m) (at (feed p))" for n d
  proof -
    have f: "?f x n = op_value (kind (g n)) (c n) (map (?f x) (inputs (g n)))" for x
      using eq [OF that(1)] leaf [OF that(1)] that(2) by simp
    have sn: "n \<in> scalar_nodes g" using that(1) assms(3) by blast
    show ?thesis
      unfolding f using op_value_derivative [OF sn that(2,3), unfolded fv, OF nz [OF that(1)]] f [of "feed p", unfolded fv] by blast
  qed
  have "\<exists>D. ((\<lambda>x. ?f x (t ! k)) has_real_derivative D) (at (feed p))" if "k < length t" for k
    using that
  proof (induction k rule: less_induct)
    case (less k)
    have "\<forall>m \<in> set (take k t). \<exists>D. ((\<lambda>x. ?f x m) has_real_derivative D) (at (feed p))"
      using less by (auto simp: in_set_conv_nth simp del: fun_upd_apply)
    then have "\<forall>m \<in> set (inputs (g (t ! k))). \<exists>D. ((\<lambda>x. ?f x m) has_real_derivative D) (at (feed p))"
      using assms(1) less.prems by (auto simp: inputs_first_def)
    then obtain d where "\<forall>m \<in> set (inputs (g (t ! k))). ((\<lambda>x. ?f x m) has_real_derivative d m) (at (feed p))"
      by metis
    moreover have n: "t ! k \<in> set t" using less.prems by simp
    ultimately show ?case
      using leaf_d [OF n] node_d [OF n, of d] by (cases "inputs (g (t ! k)) = []") blast+
  qed
  then have "\<forall>n \<in> set t. \<exists>D. ((\<lambda>x. ?f x n) has_real_derivative D) (at (feed p))"
    unfolding all_set_conv_all_nth by blast
  from bchoice [OF this] obtain d where d: "\<forall>n \<in> set t. ((\<lambda>x. ?f x n) has_real_derivative d n) (at (feed p))"
    by blast
  have "d n = (if inputs (g n) = [] then (if n = p then 1 else 0)
       else (\<Sum>i < length (inputs (g n)). partial_derivative g c ?v n i * d (inputs (g n) ! i)))"
    if "n \<in> set t" for n
  proof (cases "inputs (g n) = []")
    case True
    show ?thesis using DERIV_unique [OF d [rule_format, OF that] leaf_d [OF that True]] True by simp
  next
    case False
    have "\<forall>m \<in> set (inputs (g n)). ((\<lambda>x. ?f x m) has_real_derivative d m) (at (feed p))"
      using d inputs_before [OF assms(1) that] by blast
    from DERIV_unique [OF d [rule_format, OF that] node_d [OF that False this]] False show ?thesis by simp
  qed
  then show ?thesis using d by blast
qed

section \<open>The assertions hold\<close>

text \<open>Nodes created before number \<open>k\<close>, and nodes created from \<open>k\<close> on.\<close>

definition old :: "nat \<Rightarrow> grad \<Rightarrow> bool" where
  "old k x = (case x of New i gp args \<Rightarrow> i < k | Fwd n \<Rightarrow> True | Triple a b c \<Rightarrow> False)"

definition fresh :: "nat \<Rightarrow> nat \<Rightarrow> grad \<Rightarrow> bool" where
  "fresh k k' x = (case x of New i gp args \<Rightarrow> k \<le> i \<and> i < k' | _ \<Rightarrow> False)"

lemma old_fresh:
  "old k x \<Longrightarrow> k \<le> k' \<Longrightarrow> old k' x" "fresh k k' x \<Longrightarrow> old k' x" "fresh k k' x \<Longrightarrow> \<not> old k x"
  "old k x \<Longrightarrow> \<not> is_triple x"
  by (auto simp: old_def fresh_def is_triple_def split: grad.splits)

abbreviation b2f_key :: "ad_state \<Rightarrow> grad \<Rightarrow> bool" where
  "b2f_key st y \<equiv> has_key (backward2forward st) (Some y)"

definition aged :: "nat \<Rightarrow> ad_state \<Rightarrow> bool" where
  "aged k st \<longleftrightarrow> (\<forall>y. b2f_key st y \<longrightarrow> old k y) \<and>
     (\<forall>n xs y. grads_list st n = Some xs \<longrightarrow> Some y \<in> set xs \<longrightarrow> old k y) \<and>
     (\<forall>n xs. grads_list st n = Some xs \<longrightarrow> (\<exists>y. Some y \<in> set xs))"

lemma aged_mono: "aged k st \<Longrightarrow> k \<le> k' \<Longrightarrow> aged k' st"
  unfolding aged_def using old_fresh(1) by blast

definition records_origin :: "graph \<Rightarrow> nat \<Rightarrow> nat \<Rightarrow> bool" where
  "records_origin g n i \<longleftrightarrow> kind (g n) \<notin> set add_ops \<and> \<not> (kind (g n) = MinusOp \<and> i = 0)"

text \<open>A gradient list that the bookkeeping accepts: new nodes where an origin is recorded, the
  output gradient itself elsewhere.\<close>

definition recorded :: "graph \<Rightarrow> nat \<Rightarrow> grad \<Rightarrow> nat \<Rightarrow> grad option list \<Rightarrow> nat \<Rightarrow> bool" where
  "recorded g n x k gl k' \<longleftrightarrow> length gl = length (inputs (g n)) \<and> k \<le> k' \<and>
     (\<forall>i < length gl. if records_origin g n i then \<exists>y. gl ! i = Some y \<and> fresh k k' y else gl ! i = Some x) \<and>
     (\<forall>i < length gl. \<forall>j < length gl.
        records_origin g n i \<longrightarrow> records_origin g n j \<longrightarrow> gl ! i = gl ! j \<longrightarrow> i = j) \<and>
     (\<forall>st. \<exists>st2. record_backward g n gl st = Inr st2 \<and> has_key (forward2backward st2) (Some n) \<and>
        (\<forall>y. b2f_key st2 y \<longrightarrow> b2f_key st y \<or> fresh k k' y \<and> Some y \<notin> set gl))"

lemma contribute_total:
  assumes "i < length gl" and "gl ! i = Some y" and "old k y" and "aged k st"
    and "records_origin g n i \<Longrightarrow> \<not> b2f_key st y"
  shows "\<exists>st'. contribute g n (Some gl) st i = Inr st' \<and> aged k st' \<and> next_id st' = next_id st \<and>
    dom (grads_list st') = insert (inputs (g n) ! i) (dom (grads_list st)) \<and>
    (\<forall>z. b2f_key st' z \<longrightarrow> b2f_key st z \<or> records_origin g n i \<and> z = y)"
proof -
  let ?old = "case grads_list st (inputs (g n) ! i) of None \<Rightarrow> [] | Some xs \<Rightarrow> xs"
  let ?st1 = "st\<lparr>grads_list := (grads_list st)(inputs (g n) ! i \<mapsto> ?old @ [Some y])\<rparr>"
  have ag: "aged k ?st1" using assms(3,4) by (cases "grads_list st (inputs (g n) ! i)") (auto simp: aged_def)
  show ?thesis
  proof (cases "records_origin g n i")
    case True
    have "contribute g n (Some gl) st i = Inr (put_b2f (Some y) (n, int i) ?st1)"
      using True assms(1,2,5) by (simp add: contribute_def records_origin_def Let_def)
    moreover have "aged k (put_b2f (Some y) (n, int i) ?st1)"
      using ag assms(3) by (auto simp: aged_def put_b2f_def)
    ultimately show ?thesis using True by (auto simp: put_b2f_def)
  next
    case False
    then have "contribute g n (Some gl) st i = Inr ?st1"
      using assms(1,2) by (auto simp: contribute_def records_origin_def Let_def)
    then show ?thesis using ag by auto
  qed
qed

lemma contribute_loop_total:
  assumes "\<forall>i \<in> set is. i < length gl \<and> (\<exists>y. gl ! i = Some y \<and> old k y)" and "distinct is" and "aged k st"
    and "\<forall>i \<in> set is. \<forall>j \<in> set is. records_origin g n i \<longrightarrow> records_origin g n j \<longrightarrow> gl ! i = gl ! j \<longrightarrow> i = j"
    and "\<forall>i \<in> set is. \<forall>y. records_origin g n i \<longrightarrow> gl ! i = Some y \<longrightarrow> \<not> b2f_key st y"
  shows "\<exists>st'. foldE (contribute g n (Some gl)) st is = Inr st' \<and> aged k st' \<and> next_id st' = next_id st \<and>
    output_grads st' = output_grads st \<and>
    dom (grads_list st') = dom (grads_list st) \<union> (\<lambda>i. inputs (g n) ! i) ` set is"
  using assms
proof (induction "is" arbitrary: st)
  case (Cons i js)
  obtain y where y: "i < length gl" "gl ! i = Some y" "old k y" using Cons.prems(1) by auto
  have "records_origin g n i \<Longrightarrow> \<not> b2f_key st y" using Cons.prems(5) y(2) by simp
  from contribute_total [OF y Cons.prems(3) this] obtain s where
    s: "contribute g n (Some gl) st i = Inr s" "aged k s" "next_id s = next_id st"
      "dom (grads_list s) = insert (inputs (g n) ! i) (dom (grads_list st))"
      "\<forall>z. b2f_key s z \<longrightarrow> b2f_key st z \<or> records_origin g n i \<and> z = y" by blast
  have "\<not> b2f_key s z" if "j \<in> set js" "records_origin g n j" "gl ! j = Some z" for j z
  proof
    assume "b2f_key s z"
    then have "b2f_key st z \<or> records_origin g n i \<and> z = y" using s(5) by blast
    then show False
      using that Cons.prems(2,4,5) y(2) by (metis distinct.simps(2) list.set_intros(1,2))
  qed
  then have "\<exists>st'. foldE (contribute g n (Some gl)) s js = Inr st' \<and> aged k st' \<and> next_id st' = next_id s \<and>
    output_grads st' = output_grads s \<and>
    dom (grads_list st') = dom (grads_list s) \<union> (\<lambda>i. inputs (g n) ! i) ` set js"
    using Cons.prems(1,2,4) s(2) by (intro Cons.IH) (auto simp del: not_None_eq)
  then show ?case using s contribute_frame(1) [OF s(1) y(1)] by auto
qed simp

lemma sum_node_list_total:
  assumes "\<forall>y. Some y \<in> set xs \<longrightarrow> old k y"
  shows "\<exists>og b k'. sum_node_list dt xs sh k = Inr (og, b, k') \<and> k \<le> k' \<and>
    (\<forall>x. og = Some x \<longrightarrow> old k' x \<and> (b \<longrightarrow> \<not> old k x)) \<and> ((\<exists>y. Some y \<in> set xs) \<longrightarrow> og \<noteq> None)"
proof -
  let ?ys = "map the (filter (\<lambda>n. n \<noteq> None) xs)"
  have o: "\<forall>y \<in> set ?ys. old k y" using assms by auto
  then have t: "\<not> (\<exists>x \<in> set ?ys. is_triple x)" using old_fresh(4) by blast
  show ?thesis
  proof (cases ?ys)
    case Nil
    then have "sum_node_list dt xs sh k = Inr (None, False, k)" unfolding sum_node_list_def Nil by simp
    moreover have "Some y \<notin> set xs" for y using Nil by (auto simp: filter_empty_conv)
    ultimately show ?thesis by auto
  next
    case (Cons x zs)
    show ?thesis
    proof (cases zs)
      case Nil
      then show ?thesis using o unfolding sum_node_list_def Cons Nil by auto
    next
      case (Cons y ws)
      note ys = \<open>?ys = x # zs\<close> [unfolded Cons]
      have "sum_node_list dt xs sh k = Inr (Some (New k SumG (x # y # ws)), True, Suc k)"
        using t unfolding sum_node_list_def ys by simp
      then show ?thesis by (auto simp: old_def)
    qed
  qed
qed

lemma output_grad_total:
  assumes "kind (ad_graph env n) \<noteq> EmbeddingLookUp" and "n \<in> dom (grads_list st)" and "aged (next_id st) st"
  shows "\<exists>x b k. output_grad_of env st n = Inr (Some x, b, k) \<and> next_id st \<le> k \<and>
    old k x \<and> (b \<longrightarrow> \<not> b2f_key st x)"
proof -
  obtain xs where xs: "grads_list st n = Some xs" using assms(2) by blast
  then have "\<forall>y. Some y \<in> set xs \<longrightarrow> old (next_id st) y" using assms(3) by (auto simp: aged_def)
  note total = sum_node_list_total [OF this, of "elem_type env"
      "if kind (ad_graph env n) = PlaceholderOp then node_shape env n else None"]
  have "output_grad_of env st n = sum_node_list (elem_type env) xs
      (if kind (ad_graph env n) = PlaceholderOp then node_shape env n else None) (next_id st)"
    using assms(1) xs by (simp add: output_grad_of_def)
  moreover have "\<exists>y. Some y \<in> set xs" using xs assms(3) by (simp add: aged_def)
  ultimately show ?thesis using total assms(3) unfolding aged_def by (metis option.exhaust)
qed

lemma record_sum_total:
  assumes "\<not> b2f_key st x" and "has_key (forward2backward st) (Some n) \<or> kind (g n) = PlaceholderOp"
  shows "\<exists>st'. record_sum g n x st = Inr st' \<and> grads_list st' = grads_list st \<and> output_grads st' = output_grads st \<and>
    next_id st' = next_id st \<and> (\<forall>y. b2f_key st' y \<longrightarrow> b2f_key st y \<or> y = x)"
  using assms by (auto simp: record_sum_def Let_def put_b2f_def set_f2b_def extend_f2b_def)

text \<open>The tables after the gradient method: only old keys, the sum node and new nodes that are not
  among the contributions.\<close>

lemma tables_total:
  assumes "case igl of None \<Rightarrow> k' = k \<and> kind (g n) = PlaceholderOp | Some gl \<Rightarrow> recorded g n x k gl k'"
    and "old k x" and "b \<Longrightarrow> \<not> b2f_key st x"
  shows "\<exists>st2 st3. (case igl of None \<Rightarrow> Inr st | Some gl \<Rightarrow> record_backward g n gl st) = Inr st2 \<and>
    (if b then record_sum g n x st2 else Inr st2) = Inr st3 \<and> grads_list st3 = grads_list st \<and>
    output_grads st3 = output_grads st \<and> next_id st3 = next_id st \<and>
    (\<forall>y. b2f_key st3 y \<longrightarrow> b2f_key st y \<or> y = x \<or> fresh k k' y \<and> (\<forall>gl. igl = Some gl \<longrightarrow> Some y \<notin> set gl))"
proof -
  have "\<exists>st2. (case igl of None \<Rightarrow> Inr st | Some gl \<Rightarrow> record_backward g n gl st) = Inr st2 \<and>
      grads_list st2 = grads_list st \<and> output_grads st2 = output_grads st \<and> next_id st2 = next_id st \<and>
      (\<forall>y. b2f_key st2 y \<longrightarrow> b2f_key st y \<or> fresh k k' y \<and> (\<forall>gl. igl = Some gl \<longrightarrow> Some y \<notin> set gl)) \<and>
      (has_key (forward2backward st2) (Some n) \<or> kind (g n) = PlaceholderOp)"
  proof (cases igl)
    case None
    then show ?thesis using assms(1) by simp
  next
    case (Some gl)
    then obtain st2 where st2: "record_backward g n gl st = Inr st2" "has_key (forward2backward st2) (Some n)"
      "\<forall>y. b2f_key st2 y \<longrightarrow> b2f_key st y \<or> fresh k k' y \<and> Some y \<notin> set gl"
      using assms(1) unfolding recorded_def by (simp only: option.case) blast
    then show ?thesis using record_backward_frame [OF st2(1)] Some by auto
  qed
  then obtain st2 where st2: "(case igl of None \<Rightarrow> Inr st | Some gl \<Rightarrow> record_backward g n gl st) = Inr st2"
    "grads_list st2 = grads_list st" "output_grads st2 = output_grads st" "next_id st2 = next_id st"
    "\<forall>y. b2f_key st2 y \<longrightarrow> b2f_key st y \<or> fresh k k' y \<and> (\<forall>gl. igl = Some gl \<longrightarrow> Some y \<notin> set gl)"
    "has_key (forward2backward st2) (Some n) \<or> kind (g n) = PlaceholderOp" by blast
  have xk: "\<not> b2f_key st2 x" if b using st2(5) assms(2,3) old_fresh(3) that by blast
  have "\<exists>st3. (if b then record_sum g n x st2 else Inr st2) = Inr st3 \<and> grads_list st3 = grads_list st \<and>
      output_grads st3 = output_grads st \<and> next_id st3 = next_id st \<and> (\<forall>y. b2f_key st3 y \<longrightarrow> b2f_key st2 y \<or> y = x)"
    using record_sum_total [of x st2 n g] xk st2(2,3,4,6) by (cases b) auto
  then show ?thesis using st2(1,5) by blast
qed

locale vjp_total = vjp_ops +
  assumes gradient_total: "n \<in> nodes \<Longrightarrow> old k x \<Longrightarrow> \<exists>igl k'. gradient env n x k = Inr (igl, k') \<and>
      (case igl of None \<Rightarrow> k' = k \<and> kind (ad_graph env n) = PlaceholderOp
       | Some gl \<Rightarrow> recorded (ad_graph env) n x k gl k')"
    and no_lookup: "n \<in> nodes \<Longrightarrow> kind (ad_graph env n) \<noteq> EmbeddingLookUp"
begin

lemma recorded_loop:
  assumes "recorded (ad_graph env) n x k gl k'" and "old k x" and "aged k' st"
    and "\<forall>y. Some y \<in> set gl \<longrightarrow> fresh k k' y \<longrightarrow> \<not> b2f_key st y"
  shows "\<exists>st'. foldE (contribute (ad_graph env) n (Some gl)) st [0..<length (inputs (ad_graph env n))] = Inr st' \<and>
    aged k' st' \<and> next_id st' = next_id st \<and> output_grads st' = output_grads st \<and>
    dom (grads_list st') = dom (grads_list st) \<union> set (inputs (ad_graph env n))"
proof -
  have len: "length gl = length (inputs (ad_graph env n))" and le: "k \<le> k'"
    using assms(1) by (auto simp: recorded_def)
  have im: "(\<lambda>i. inputs (ad_graph env n) ! i) ` set [0..<length (inputs (ad_graph env n))] = set (inputs (ad_graph env n))"
    by (metis map_nth set_map)
  have it: "if records_origin (ad_graph env) n i then \<exists>y. gl ! i = Some y \<and> fresh k k' y else gl ! i = Some x"
    if "i < length gl" for i using assms(1) that by (simp add: recorded_def)
  have "\<exists>y. gl ! i = Some y \<and> old k' y" if "i < length gl" for i
    using it [OF that] old_fresh(1) [OF assms(2) le] old_fresh(2) by (metis (full_types))
  moreover have "\<not> b2f_key st y" if "i < length gl" "records_origin (ad_graph env) n i" "gl ! i = Some y" for i y
    using it [OF that(1)] that assms(4) by (metis nth_mem option.inject)
  ultimately show ?thesis
    using contribute_loop_total [of "[0..<length (inputs (ad_graph env n))]" gl k' st "ad_graph env" n]
      assms(1,3) unfolding im by (simp add: len recorded_def)
qed

lemma backward_step_total:
  assumes "n \<in> nodes" and "n \<in> dom (grads_list st)" and "aged (next_id st) st"
  shows "\<exists>st'. backward_step env st n = Inr st' \<and> aged (next_id st') st' \<and>
    dom (grads_list st') = dom (grads_list st) \<union> set (inputs (ad_graph env n)) \<and>
    (\<exists>x. output_grads st' = (output_grads st)(n \<mapsto> x))"
proof -
  obtain x b k where og: "output_grad_of env st n = Inr (Some x, b, k)" "next_id st \<le> k"
    and x: "old k x" "b \<Longrightarrow> \<not> b2f_key st x"
    using output_grad_total [OF no_lookup [OF assms(1)] assms(2,3)] by blast
  let ?st0 = "st\<lparr>next_id := k\<rparr>"
  have a0: "aged k ?st0" using aged_mono [OF assms(3) og(2)] by (simp add: aged_def)
  obtain igl k' where gr: "gradient env n x k = Inr (igl, k')"
    and igl: "case igl of None \<Rightarrow> k' = k \<and> kind (ad_graph env n) = PlaceholderOp
      | Some gl \<Rightarrow> recorded (ad_graph env) n x k gl k'"
    using gradient_total [OF assms(1) x(1)] by blast
  let ?st1 = "?st0\<lparr>next_id := k', output_grads := (output_grads ?st0)(n \<mapsto> x)\<rparr>"
  have k': "k \<le> k'" using igl by (auto simp: recorded_def split: option.splits)
  have "b \<Longrightarrow> \<not> b2f_key ?st1 x" using x(2) by simp
  from tables_total [OF igl x(1) this] obtain st2 st3 where
    st2: "(case igl of None \<Rightarrow> Inr ?st1 | Some gl \<Rightarrow> record_backward (ad_graph env) n gl ?st1) = Inr st2"
    and st3: "(if b then record_sum (ad_graph env) n x st2 else Inr st2) = Inr st3"
      "grads_list st3 = grads_list ?st1" "output_grads st3 = output_grads ?st1" "next_id st3 = next_id ?st1"
    and keys: "\<forall>y. b2f_key st3 y \<longrightarrow>
      b2f_key ?st1 y \<or> y = x \<or> fresh k k' y \<and> (\<forall>gl. igl = Some gl \<longrightarrow> Some y \<notin> set gl)" by blast
  have rest: "backward_step env st n =
      foldE (contribute (ad_graph env) n igl) st3 [0..<length (inputs (ad_graph env n))]"
    unfolding backward_step_def og(1) bindE_simps prod.case Let_def option.case gr st2 st3(1) ..
  have old_key: "b2f_key ?st1 y \<Longrightarrow> old k y" for y using a0 by (simp add: aged_def)
  have "old k' y" if "b2f_key st3 y" for y
    using keys that old_key old_fresh(1) [OF _ k'] x(1) old_fresh(2) by blast
  then have a3: "aged k' st3"
    using aged_mono [OF a0 k'] st3(2) unfolding aged_def by simp
  show ?thesis
  proof (cases igl)
    case None
    then have "inputs (ad_graph env n) = []" using gradient_none [OF assms(1)] gr by simp
    then show ?thesis using rest a3 st3 by simp blast
  next
    case (Some gl)
    have "\<not> b2f_key st3 y" if "Some y \<in> set gl" "fresh k k' y" for y
      using keys that Some old_key x(1) old_fresh(3) by blast
    then show ?thesis
      using recorded_loop [of n x k gl k' st3] igl Some x(1) a3 rest st3(2,3,4) by auto
  qed
qed

text \<open>Every node of the loop has gradients by the time it is reached.\<close>

lemma backward_loop_total:
  assumes "set xs \<subseteq> nodes" and "aged (next_id st) st"
    and "\<forall>us x vs. xs = us @ x # vs \<longrightarrow>
      x \<in> dom (grads_list st) \<or> (\<exists>u \<in> set us. x \<in> set (inputs (ad_graph env u)))"
  shows "\<exists>st'. foldE (backward_step env) st xs = Inr st' \<and> (\<forall>n \<in> set xs. output_grads st' n \<noteq> None) \<and>
    (\<forall>n. output_grads st n \<noteq> None \<longrightarrow> output_grads st' n \<noteq> None)"
  using assms
proof (induction xs arbitrary: st)
  case (Cons x xs)
  have "x \<in> dom (grads_list st)" using Cons.prems(3) by fastforce
  with Cons.prems obtain s y where s: "backward_step env st x = Inr s" "aged (next_id s) s"
    "dom (grads_list s) = dom (grads_list st) \<union> set (inputs (ad_graph env x))"
    "output_grads s = (output_grads st)(x \<mapsto> y)"
    using backward_step_total [of x st] by auto
  have "\<forall>us z vs. xs = us @ z # vs \<longrightarrow>
      z \<in> dom (grads_list s) \<or> (\<exists>u \<in> set us. z \<in> set (inputs (ad_graph env u)))"
    using Cons.prems(3) s(3) by (metis Cons_eq_appendI UnI1 UnI2 set_ConsD)
  then obtain st' where "foldE (backward_step env) s xs = Inr st'" "\<forall>n \<in> set xs. output_grads st' n \<noteq> None"
    "\<forall>n. output_grads s n \<noteq> None \<longrightarrow> output_grads st' n \<noteq> None"
    using Cons.IH [of s] Cons.prems(1) s(2) by auto
  then show ?case using s by (auto simp del: not_None_eq)
qed simp

end

lemma table_simps [simp]:
  "backward2forward (set_f2b n xs st) = backward2forward st"
  "backward2forward (extend_f2b n xs st) = backward2forward st"
  "forward2backward (put_b2f x v st) = forward2backward st"
  "has_key (forward2backward (set_f2b n xs st)) (Some n)"
  "has_key (forward2backward (extend_f2b n xs st)) (Some n)"
  "b2f_key (put_b2f (Some z) v st) y \<longleftrightarrow> y = z \<or> b2f_key st y"
  by (auto simp: set_f2b_def extend_f2b_def put_b2f_def)

lemma scalar_gradient_total:
  assumes "n \<in> scalar_nodes g" and "old k x"
  shows "\<exists>igl k'. scalar_gradient g c n x k = Inr (igl, k') \<and>
    (case igl of None \<Rightarrow> k' = k \<and> kind (g n) = PlaceholderOp | Some gl \<Rightarrow> recorded g n x k gl k')"
  using assms(1)
proof (cases rule: scalar_kinds)
  case 1
  then show ?thesis by (simp add: scalar_gradient_defs)
next
  case (2 a b)
  have lt: "i < 2 \<longleftrightarrow> i = 0 \<or> i = Suc 0" for i :: nat by auto
  show ?thesis
    using 2
    by (auto simp: scalar_gradient_defs Let_def recorded_def records_origin_def add_ops_def record_backward_def
        fresh_def less_Suc_eq item_input_def first_grad_input_def simp del: set_map split: if_splits)
next
  case (3 a)
  then show ?thesis
    by (auto simp: scalar_gradient_defs Let_def recorded_def records_origin_def add_ops_def record_backward_def
        fresh_def item_input_def first_grad_input_def split: if_splits)
next
  case 4
  then show ?thesis
    by (auto simp: scalar_gradient_defs recorded_def records_origin_def add_ops_def record_backward_def)
qed

interpretation scalar_total: vjp_total "scalar_env g c dt sh" "grad_value v" "partial_derivative g c v" "scalar_nodes g"
  for g c dt sh v
  by unfold_locales (unfold scalar_env_simps, (rule scalar_gradient_total; assumption), auto elim: scalar_kinds)


section \<open>Gradients are derivatives\<close>

lemma reaches_last:
  "reaches g a x \<Longrightarrow> a = x \<or> (\<exists>m. reaches g a m \<and> x \<in> set (inputs (g m)))"
  by (induction rule: reaches.induct) (auto intro: reaches_refl reaches_step)

lemma inputs_first_prefix: "inputs_first g (xs @ ys) \<Longrightarrow> inputs_first g xs"
  by (induction ys rule: rev_induct) (auto simp: inputs_first_snoc append_assoc [symmetric] simp del: append_assoc)

lemma consumer_comes_later:
  assumes "find_topo_sort g fuel [out] = Some t" and "acyclic_graph g" and "rev t = us @ x # vs"
  shows "x = out \<or> (\<exists>u \<in> set us. x \<in> set (inputs (g u)))"
proof -
  note t = find_topo_sort_set [OF assms(1,2), unfolded order_inv_def]
  have split: "t = (rev vs @ [x]) @ rev us" using arg_cong [OF assms(3), of rev] by simp
  have pre: "inputs_first g (rev vs @ [x])"
    by (rule inputs_first_prefix [of g _ "rev us"]) (use t split in simp)
  have "x \<in> set t" using split by simp
  then have "reaches g out x" using t by auto
  then consider "x = out" | m where "reaches g out m" "x \<in> set (inputs (g m))" using reaches_last by blast
  then show ?thesis
  proof cases
    case 2
    have "m \<in> set t" using inputs_first_closed [of g t out m] t 2(1) by auto
    moreover have "m \<notin> set (rev vs @ [x])"
    proof
      assume m: "m \<in> set (rev vs @ [x])"
      have "set (inputs (g m)) \<subseteq> set (rev vs)"
        using m pre inputs_before [of g "rev vs" m] unfolding inputs_first_snoc by auto
      then show False using 2(2) t unfolding split by auto
    qed
    ultimately show ?thesis using 2(2) unfolding split by auto
  qed simp
qed

definition backward_start :: "nat \<Rightarrow> nat \<Rightarrow> ad_state" where
  "backward_start out k = init_backward [out] None k"

lemma backward_start_simps:
  "grads_list (backward_start out k) = [out \<mapsto> [Some (New k OnesLikeG [Fwd out])]]"
  "output_grads (backward_start out k) = Map.empty" "aged (next_id (backward_start out k)) (backward_start out k)"
  by (auto simp: backward_start_def init_backward_def ones_like_def aged_def old_def Let_def)

lemma gradients_run:
  assumes "find_topo_sort g fuel [out] = Some t" and "acyclic_graph g" and "set t \<subseteq> scalar_nodes g"
  shows "\<exists>st. foldE (backward_step (scalar_env g c dt sh)) (backward_start out k) (rev t) = Inr st \<and>
    (\<forall>n \<in> set t. output_grads st n \<noteq> None) \<and>
    (\<forall>n \<in> set t. adjoint (grad_value v) st n = (if n = out then 1 else 0)
       + (\<Sum>m \<in> set t. flow g (partial_derivative g c v) m n * adjoint (grad_value v) st m))"
proof -
  note t = find_topo_sort_set [OF assms(1,2), unfolded order_inv_def]
  let ?st0 = "backward_start out k"
  have "\<exists>st. foldE (backward_step (scalar_env g c dt sh)) ?st0 (rev t) = Inr st \<and>
      (\<forall>n \<in> set (rev t). output_grads st n \<noteq> None) \<and>
      (\<forall>n. output_grads ?st0 n \<noteq> None \<longrightarrow> output_grads st n \<noteq> None)"
  proof (rule scalar_total.backward_loop_total)
    show "set (rev t) \<subseteq> scalar_nodes g" using assms(3) by simp
    show "aged (next_id ?st0) ?st0" by (rule backward_start_simps)
    show "\<forall>us x vs. rev t = us @ x # vs \<longrightarrow> x \<in> dom (grads_list ?st0) \<or>
        (\<exists>u \<in> set us. x \<in> set (inputs (ad_graph (scalar_env g c dt sh) u)))"
      using consumer_comes_later [OF assms(1,2)] by (auto simp: backward_start_simps)
  qed
  then obtain st where st: "foldE (backward_step (scalar_env g c dt sh)) ?st0 (rev t) = Inr st"
    "\<forall>n \<in> set t. output_grads st n \<noteq> None" by auto
  have nt: "scalar.no_triples ?st0"
    unfolding scalar.no_triples_def by (auto simp: backward_start_simps is_triple_def)
  have lv: "list_val (grad_value v) ?st0 n = (if n = out then 1 else 0)" for n
    by (simp add: list_val_def backward_start_simps)
  have "\<forall>n \<in> set (rev t). adjoint (grad_value v) st n = list_val (grad_value v) ?st0 n
       + (\<Sum>m \<in> set (rev t). flow g (partial_derivative g c v) m n * adjoint (grad_value v) st m)"
    using scalar.backward_loop_val [OF st(1) nt, of "[]" v] t assms(3) by (simp add: backward_start_simps)
  then show ?thesis using st by (auto simp: lv)
qed

text \<open>C1: reverse-mode differentiation is correct. On every acyclic graph of scalar arithmetic
  operators that divides by nothing zero, \<open>gradients\<close> raises no exception, and the gradient node it
  returns for a leaf has the value of the derivative of the output in the value fed to that leaf.\<close>

theorem gradients_are_derivatives:
  assumes "find_topo_sort g fuel [out] = Some t" and "acyclic_graph g" and "set t \<subseteq> scalar_nodes g"
    and "divisors_nonzero g (forward_values g c feed t) t" and "p \<in> set t" and "kind (g p) = PlaceholderOp"
  shows "\<exists>gr st. gradients (scalar_env g c dt sh) fuel [out] [p] None k = Inr ([gr], st) \<and>
    ((\<lambda>x. forward_values g c (feed(p := x)) t out) has_real_derivative
       grad_value (forward_values g c feed t) gr) (at (feed p))"
proof -
  let ?v = "forward_values g c feed t" and ?J = "partial_derivative g c (forward_values g c feed t)"
  note t = find_topo_sort_set [OF assms(1,2), unfolded order_inv_def]
  obtain st where run: "foldE (backward_step (scalar_env g c dt sh)) (backward_start out k) (rev t) = Inr st"
    and some: "\<forall>n \<in> set t. output_grads st n \<noteq> None"
    and adj: "\<forall>n \<in> set t. adjoint (grad_value ?v) st n = (if n = out then 1 else 0)
       + (\<Sum>m \<in> set t. flow g ?J m n * adjoint (grad_value ?v) st m)"
    using gradients_run [OF assms(1-3)] by blast
  obtain gr where gr: "output_grads st p = Some gr" using some assms(5) by blast
  have res: "gradients (scalar_env g c dt sh) fuel [out] [p] None k = Inr ([gr], st)"
    using run gr assms(1) by (simp add: gradients_def backward_start_def)
  obtain d where d: "\<forall>n \<in> set t. ((\<lambda>x. forward_values g c (feed(p := x)) t n) has_real_derivative d n) (at (feed p))"
    and step: "\<forall>n \<in> set t. d n = (if inputs (g n) = [] then (if n = p then 1 else 0)
       else (\<Sum>i < length (inputs (g n)). ?J n i * d (inputs (g n) ! i)))"
    using forward_derivative [of g t c feed p] t assms(3,4) by blast
  have "closed_graph g (set t)" using t inputs_before by (auto simp: closed_graph_def)
  then have "(\<Sum>n \<in> set t. (if n = out then 1 else 0) * d n) =
      (\<Sum>n \<in> set t. if inputs (g n) = [] then adjoint (grad_value ?v) st n * d n else 0)"
    by (intro transposition [where J = ?J] adj) (use step in auto)
  also have "\<dots> = (\<Sum>n \<in> set t. if n = p then adjoint (grad_value ?v) st n else 0)"
  proof (intro sum.cong refl)
    fix n assume n: "n \<in> set t"
    have "p \<in> scalar_nodes g" using assms(3,5) by blast
    then have "inputs (g p) = []" using assms(6) by (cases rule: scalar_kinds) auto
    then show "(if inputs (g n) = [] then adjoint (grad_value ?v) st n * d n else 0) =
        (if n = p then adjoint (grad_value ?v) st n else 0)"
      using step n by auto
  qed
  finally have "d out = grad_value ?v gr"
    using t assms(5) gr by (simp add: adjoint_def sum.delta if_distrib [of "\<lambda>x. x * _"] cong: if_cong)
  then show ?thesis using res d t by auto
qed

text \<open>\<open>(x * y) / x + (- y)\<close> with a shared leaf.\<close>

definition quotient_graph :: graph where
  "quotient_graph n =
     (if n = 2 then plain_op MulOp [0, 1] else if n = 3 then plain_op DivOp [2, 0]
      else if n = 4 then plain_op OppositeOp [1] else if n = 5 then plain_op AddOp [3, 4]
      else plain_op PlaceholderOp [])"

definition quotient_feed :: "nat \<Rightarrow> real" where
  "quotient_feed n = (if n = 0 then 3 else 5)"

lemma quotient_order: "find_topo_sort quotient_graph 6 [5] = Some [0, 1, 2, 3, 4, 5]"
  by code_simp

theorem gradients_are_derivatives_witness:
  "\<exists>gr st. gradients (scalar_env quotient_graph (\<lambda>n. 0) (\<lambda>x. 0) (\<lambda>n. None)) 6 [5] [0] None 6 = Inr ([gr], st) \<and>
    ((\<lambda>x. forward_values quotient_graph (\<lambda>n. 0) (quotient_feed(0 := x)) [0, 1, 2, 3, 4, 5] 5) has_real_derivative
       grad_value (forward_values quotient_graph (\<lambda>n. 0) quotient_feed [0, 1, 2, 3, 4, 5]) gr) (at (quotient_feed 0))"
proof (rule gradients_are_derivatives [OF quotient_order])
  show "acyclic_graph quotient_graph"
    by (rule ranked_acyclic [of _ id]) (auto simp: quotient_graph_def plain_op_def split: if_splits)
  show "set [0, 1, 2, 3, 4, 5] \<subseteq> scalar_nodes quotient_graph"
    by (simp add: scalar_nodes_def scalar_arity_def quotient_graph_def plain_op_def)
  show "divisors_nonzero quotient_graph (forward_values quotient_graph (\<lambda>n. 0) quotient_feed [0, 1, 2, 3, 4, 5]) [0, 1, 2, 3, 4, 5]"
    by (simp add: divisors_nonzero_def forward_values_def forward_step_def op_value_def quotient_graph_def
        quotient_feed_def plain_op_def)
qed (simp_all add: quotient_graph_def plain_op_def)

text \<open>a power with exponent one cannot be differentiated. Its \<open>gradient\<close> hands on the output
  gradient itself, which is already on record, so the assertion on the origin of a gradient node fails
  whatever the graph below it.\<close>

theorem power_of_one_is_rejected:
  assumes "find_topo_sort g fuel [out] = Some t" and "acyclic_graph g"
    and "kind (g out) = PowerOp" and "inputs (g out) = [m]" and "c out = 1"
  shows "gradients (scalar_env g c dt sh) fuel [out] ns None k = Inl AssertionError"
proof -
  have "out \<in> set t" using find_topo_sort_set [OF assms(1,2)] by auto
  then obtain x vs where r: "rev t = x # vs" by (cases "rev t") auto
  then have "x = out" using consumer_comes_later [OF assms(1,2), of "[]"] by simp
  moreover have "backward_step (scalar_env g c dt sh) (init_backward [out] None k) out = Inl AssertionError"
    using assms(3-5)
    by (simp add: backward_step_def output_grad_of_def init_backward_def ones_like_def sum_node_list_def
        scalar_gradient_defs record_backward_def contribute_def add_ops_def set_f2b_def Let_def py_nth_def)
  ultimately show ?thesis using assms(1) r by (simp add: gradients_def)
qed

definition power_graph :: graph where
  "power_graph n = (if n = 1 then plain_op PowerOp [0] else plain_op PlaceholderOp [])"

theorem power_of_one_is_rejected_witness:
  "gradients (scalar_env power_graph (\<lambda>n. 1) (\<lambda>x. 0) (\<lambda>n. None)) 2 [1] [0] None 2 = Inl AssertionError"
proof (rule power_of_one_is_rejected)
  show "find_topo_sort power_graph 2 [1] = Some [0, 1]"
    by code_simp
  show "acyclic_graph power_graph"
    by (rule ranked_acyclic [of _ id]) (auto simp: power_graph_def plain_op_def split: if_splits)
qed (simp_all add: power_graph_def plain_op_def)

end
