(* ===== verification/Pipeline.thy ===== *)
theory Pipeline imports DeviceGroup begin

text \<open>
  Pipeline execution of version 1: the 1F1B schedule and the loop that runs it
  (\<open>gpu_ops/pipedream_subexecutor.py\<close>), the schedule of a stage with more workers than the
  narrowest one and the split of a stage into its two halves (\<open>gpu_ops/pipeline_subexecutor.py\<close>).
\<close>

section \<open>The 1F1B schedule\<close>

text \<open>
  The generator \<open>pipedream_scheduler\<close>: the local variables, the iterations of the first loop that
  are left, and whether the second loop stands before its first \<open>yield\<close>. A task is the number of a
  micro-batch with 0 for forward, 1 for backward.
\<close>

record schedule_state =
  batch_id_fwd :: nat
  batch_id_bwd :: nat
  warm_up :: nat
  at_backward :: bool

type_synonym task = "nat \<times> nat"

definition schedule_start :: "int \<Rightarrow> int \<Rightarrow> schedule_state" where
  "schedule_start rank nrank =
     \<lparr>batch_id_fwd = 0, batch_id_bwd = 0, warm_up = nat (nrank - rank), at_backward = True\<rparr>"

definition next_task :: "schedule_state \<Rightarrow> task \<times> schedule_state" where
  "next_task s =
     (if 0 < warm_up s then
        ((batch_id_fwd s + 1, 0), s\<lparr>batch_id_fwd := batch_id_fwd s + 1, warm_up := warm_up s - 1\<rparr>)
      else if at_backward s then
        ((batch_id_bwd s + 1, 1), s\<lparr>batch_id_bwd := batch_id_bwd s + 1, at_backward := False\<rparr>)
      else
        ((batch_id_fwd s + 1, 0), s\<lparr>batch_id_fwd := batch_id_fwd s + 1, at_backward := True\<rparr>))"

fun tasks_from :: "nat \<Rightarrow> schedule_state \<Rightarrow> task list" where
  "tasks_from 0 s = []"
| "tasks_from (Suc m) s = (let (t, s') = next_task s in t # tasks_from m s')"

definition pipedream_scheduler :: "int \<Rightarrow> int \<Rightarrow> nat \<Rightarrow> task list" where
  "pipedream_scheduler rank nrank m = tasks_from m (schedule_start rank nrank)"

text \<open>The task at position \<open>i\<close> of a rank with \<open>d\<close> stages from it to the end.\<close>

definition task_at :: "nat \<Rightarrow> nat \<Rightarrow> task" where
  "task_at d i =
     (if i < d then (i + 1, 0)
      else if even (i - d) then ((i - d) div 2 + 1, 1)
      else (d + (i - d) div 2 + 1, 0))"

definition state_at :: "nat \<Rightarrow> nat \<Rightarrow> schedule_state" where
  "state_at d i =
     \<lparr>batch_id_fwd = (if i \<le> d then i else d + (i - d) div 2), batch_id_bwd = (i - d + 1) div 2,
      warm_up = d - i, at_backward = (i \<le> d \<or> even (i - d))\<rparr>"

lemma next_task_at: "next_task (state_at d i) = (task_at d i, state_at d (Suc i))"
proof (cases "i < d")
  case True
  then show ?thesis by (auto simp: next_task_def state_at_def task_at_def)
next
  case False
  then obtain j where i: "i = d + j" by (metis le_Suc_ex not_less)
  show ?thesis
    by (cases "even j") (auto simp: i next_task_def state_at_def task_at_def elim!: evenE oddE)
qed

lemma tasks_from_at: "tasks_from m (state_at d i) = map (task_at d) [i..<i + m]"
proof (induction m arbitrary: i)
  case (Suc m)
  show ?case by (simp add: next_task_at Suc upt_conv_Cons del: upt_Suc)
qed simp

lemma schedule_start_at: "schedule_start rank nrank = state_at (nat (nrank - rank)) 0"
  by (simp add: schedule_start_def state_at_def)

lemma pipedream_scheduler_eq:
  "pipedream_scheduler rank nrank m = map (task_at (nat (nrank - rank))) [0..<m]"
  by (simp add: pipedream_scheduler_def schedule_start_at tasks_from_at)

section \<open>The schedules of all ranks together\<close>

text \<open>
  The picture in the comment of the source, as the time slot of each task: rank \<open>r\<close> of \<open>n\<close> runs
  forward \<open>k\<close> in slot \<open>r + 2 (k - 1)\<close> and backward \<open>k\<close> in slot \<open>2 n - r - 1 + 2 (k - 1)\<close>.
\<close>

definition slot :: "nat \<Rightarrow> nat \<Rightarrow> task \<Rightarrow> int" where
  "slot n r t = 2 * (int (fst t) - 1) + (if snd t = 0 then int r else 2 * int n - int r - 1)"

lemma slot_task_at:
  assumes "r < n"
  shows "slot n r (task_at (n - r) i) = (if i < n - r then int r + 2 * int i else int n + int i - 1)"
proof -
  obtain d where n: "n = r + d" using assms less_imp_add_positive by blast
  show ?thesis
  proof (cases "i < d")
    case False
    then obtain j where i: "i = d + j" by (metis le_Suc_ex not_less)
    show ?thesis by (cases "even j") (auto simp: n i slot_def task_at_def elim!: evenE oddE)
  qed (simp add: n slot_def task_at_def)
qed

lemma slot_increases: "r < n \<Longrightarrow> i < j \<Longrightarrow> slot n r (task_at (n - r) i) < slot n r (task_at (n - r) j)"
  by (auto simp: slot_task_at)

lemma forward_position: "0 < k \<Longrightarrow> 0 < d \<Longrightarrow> \<exists>i. task_at d i = (k, 0)"
  by (cases "k \<le> d")
     (rule exI [of _ "k - 1"], simp add: task_at_def,
      rule exI [of _ "d + 2 * (k - d - 1) + 1"], simp add: task_at_def)

lemma backward_position: "0 < k \<Longrightarrow> \<exists>i. task_at d i = (k, 1)"
  by (rule exI [of _ "d + 2 * (k - 1)"]) (simp add: task_at_def)

lemma task_at_positive: "0 < fst (task_at d i)" "snd (task_at d i) = 0 \<or> snd (task_at d i) = 1"
  by (auto simp: task_at_def)

text \<open>
  \<open>pos ! r\<close> counts the tasks rank \<open>r\<close> has done. A forward pass waits for the activation of the
  rank before, a backward pass for the gradient of the rank behind; messages are buffered.
\<close>

definition done_task :: "nat \<Rightarrow> nat list \<Rightarrow> nat \<Rightarrow> task \<Rightarrow> bool" where
  "done_task n pos r t \<longleftrightarrow> t \<in> set (pipedream_scheduler (int r) (int n) (pos ! r))"

definition can_run :: "nat \<Rightarrow> nat list \<Rightarrow> nat \<Rightarrow> bool" where
  "can_run n pos r \<longleftrightarrow>
     (let (k, phase) = last (pipedream_scheduler (int r) (int n) (pos ! r + 1)) in
      if phase = 0 then r = 0 \<or> done_task n pos (r - 1) (k, 0)
      else (if r = n - 1 then done_task n pos r (k, 0) else done_task n pos (r + 1) (k, 1)))"

lemma done_task_iff: "r < n \<Longrightarrow> done_task n pos r t \<longleftrightarrow> (\<exists>i < pos ! r. task_at (n - r) i = t)"
  by (auto simp: done_task_def pipedream_scheduler_eq nat_diff_distrib)

lemma last_task: "r < n \<Longrightarrow> last (pipedream_scheduler (int r) (int n) (p + 1)) = task_at (n - r) p"
  by (simp add: pipedream_scheduler_eq nat_diff_distrib)

lemma done_by_slot:
  assumes "q < n" and "task_at (n - q) i = t" and "slot n q t < slot n q (task_at (n - q) (pos ! q))"
  shows "done_task n pos q t"
proof -
  have "i < pos ! q"
  proof (rule ccontr)
    assume "\<not> i < pos ! q"
    then have "slot n q (task_at (n - q) (pos ! q)) \<le> slot n q (task_at (n - q) i)"
      using slot_increases [OF assms(1), of "pos ! q" i] by (cases "pos ! q = i") auto
    then show False using assms(2,3) by simp
  qed
  then show ?thesis using assms(1,2) done_task_iff by blast
qed



section \<open>The loop that runs the schedule\<close>

text \<open>
  \<open>SubExecutor4Pipedream.run\<close>. A dictionary of tensors is identified by the number of its creation;
  \<open>batch_to_tensor_maps\<close> says which batch owns which. The trace holds what is executed: the passes
  with the dictionary they work on, and the group calls while the pipeline drains.
\<close>

datatype event = Compute nat nat nat | GroupStart | GroupEnd

record pipe_run =
  scheduler :: schedule_state
  in_flight_batches :: "nat list"
  batch_to_tensor_maps :: "(nat \<times> nat) list"
  last_vacant_batch :: "nat option"
  tensor_maps :: nat
  trace :: "event list"

definition emit :: "event \<Rightarrow> pipe_run \<Rightarrow> pipe_run" where
  "emit e s = s\<lparr>trace := trace s @ [e]\<rparr>"

definition take_tensors :: "nat \<Rightarrow> pipe_run \<Rightarrow> pipe_run result" where
  "take_tensors b s =
     (case last_vacant_batch s of
        None \<Rightarrow>
          Inr (if has_key (batch_to_tensor_maps s) b then s
               else s\<lparr>batch_to_tensor_maps := AList.update b (tensor_maps s) (batch_to_tensor_maps s),
                      tensor_maps := tensor_maps s + 1\<rparr>)
      | Some v \<Rightarrow>
          bindE (py_lookup (batch_to_tensor_maps s) v) (\<lambda>m.
            Inr (s\<lparr>batch_to_tensor_maps := AList.update b m (AList.delete v (batch_to_tensor_maps s)),
                   last_vacant_batch := None\<rparr>)))"

definition compute_pass :: "nat \<Rightarrow> nat \<Rightarrow> pipe_run \<Rightarrow> pipe_run result" where
  "compute_pass b phase s =
     bindE (py_lookup (batch_to_tensor_maps s) b) (\<lambda>m. Inr (emit (Compute b phase m) s))"

text \<open>One turn of \<open>while True\<close>; the flag says that the loop was left.\<close>

definition run_turn :: "nat \<Rightarrow> int \<Rightarrow> pipe_run \<Rightarrow> (bool \<times> pipe_run) result" where
  "run_turn batch_num rank s =
     (let ((b, phase), sc) = next_task (scheduler s);
          s0 = s\<lparr>scheduler := sc\<rparr> in
      if phase = 0 then
        if batch_num < b then
          if in_flight_batches s = [] then Inr (True, if rank \<noteq> 0 then emit GroupEnd s0 else s0)
          else Inr (False, if rank = 0 then emit GroupStart s0 else emit GroupStart (emit GroupEnd s0))
        else
          bindE (take_tensors b (s0\<lparr>in_flight_batches := in_flight_batches s @ [b]\<rparr>)) (\<lambda>s1.
          bindE (compute_pass b 0 s1) (\<lambda>s2. Inr (False, s2)))
      else
        (case in_flight_batches s of
           [] \<Rightarrow> Inl IndexError
         | _ # rest \<Rightarrow>
             bindE (compute_pass b 1 (s0\<lparr>in_flight_batches := rest\<rparr>)) (\<lambda>s1.
               Inr (False, s1\<lparr>last_vacant_batch := Some b\<rparr>))))"

fun run_loop :: "nat \<Rightarrow> nat \<Rightarrow> int \<Rightarrow> pipe_run \<Rightarrow> pipe_run result" where
  "run_loop 0 batch_num rank s = Inl RuntimeError"
| "run_loop (Suc k) batch_num rank s =
     bindE (run_turn batch_num rank s) (\<lambda>(finished, s').
       if finished then Inr s' else run_loop k batch_num rank s')"

definition pipedream_run :: "nat \<Rightarrow> nat \<Rightarrow> int \<Rightarrow> int \<Rightarrow> pipe_run result" where
  "pipedream_run fuel batch_num rank nrank =
     bindE (run_loop fuel batch_num rank
              \<lparr>scheduler = schedule_start rank nrank, in_flight_batches = [], batch_to_tensor_maps = [],
               last_vacant_batch = None, tensor_maps = 0, trace = []\<rparr>) (\<lambda>s.
       Inr (s\<lparr>batch_to_tensor_maps := []\<rparr>))"

fun passes :: "event list \<Rightarrow> (nat \<times> nat \<times> nat) list" where
  "passes [] = []"
| "passes (Compute b phase m # es) = (b, phase, m) # passes es"
| "passes (e # es) = passes es"

lemma passes_append [simp]: "passes (xs @ ys) = passes xs @ passes ys"
  by (induction xs rule: passes.induct) auto

text \<open>The passes of the first \<open>i\<close> tasks, batch \<open>b\<close> working on dictionary \<open>(b - 1) mod d\<close>.\<close>

definition passes_of :: "nat \<Rightarrow> nat \<Rightarrow> task list \<Rightarrow> (nat \<times> nat \<times> nat) list" where
  "passes_of batch_num d ts =
     map (\<lambda>(b, phase). (b, phase, (b - 1) mod d)) (filter (\<lambda>(b, phase). b \<le> batch_num) ts)"

lemma passes_of_snoc:
  "passes_of N d (ts @ [(b, ph)]) = passes_of N d ts @ (if b \<le> N then [(b, ph, (b - 1) mod d)] else [])"
  by (simp add: passes_of_def)

lemma passes_of_next:
  "passes_of N d (map (task_at d) [0..<Suc i]) = passes_of N d (map (task_at d) [0..<i]) @
     (if fst (task_at d i) \<le> N then [(fst (task_at d i), snd (task_at d i), (fst (task_at d i) - 1) mod d)] else [])"
  by (cases "task_at d i") (simp add: passes_of_snoc)

definition vacant_at :: "nat \<Rightarrow> nat \<Rightarrow> nat \<Rightarrow> nat option" where
  "vacant_at N d i =
     (if i \<le> d \<or> even (i - d) \<and> d + (i - d) div 2 \<le> N then None else Some ((i - d + 1) div 2))"

text \<open>The state before turn \<open>i\<close>.\<close>

definition run_inv :: "nat \<Rightarrow> nat \<Rightarrow> nat \<Rightarrow> pipe_run \<Rightarrow> bool" where
  "run_inv N d i s \<longleftrightarrow>
     scheduler s = state_at d i \<and>
     in_flight_batches s = [Suc (batch_id_bwd (state_at d i))..<Suc (min (batch_id_fwd (state_at d i)) N)] \<and>
     last_vacant_batch s = vacant_at N d i \<and>
     (\<forall>b. has_key (batch_to_tensor_maps s) b \<longrightarrow> b \<le> batch_id_fwd (state_at d i)) \<and>
     (\<forall>b. b \<in> set (in_flight_batches s) \<or> last_vacant_batch s = Some b \<longrightarrow>
        map_of (batch_to_tensor_maps s) b = Some ((b - 1) mod d)) \<and>
     tensor_maps s = min (min i d) N \<and>
     passes (trace s) = passes_of N d (map (task_at d) [0..<i])"

lemma state_at_warm: "i \<le> d \<Longrightarrow> batch_id_fwd (state_at d i) = i \<and> batch_id_bwd (state_at d i) = 0"
  by (simp add: state_at_def)

lemma state_at_even: "batch_id_fwd (state_at d (d + 2 * j)) = d + j \<and> batch_id_bwd (state_at d (d + 2 * j)) = j"
  by (simp add: state_at_def)

lemma state_at_odd: "batch_id_fwd (state_at d (d + 2 * j + 1)) = d + j \<and> batch_id_bwd (state_at d (d + 2 * j + 1)) = j + 1"
  by (simp add: state_at_def)

lemmas state_at_next = state_at_even [of _ "Suc _", simplified]

lemma warm_turn:
  assumes "run_inv N d i s" and "i < d" and "i < N"
  shows "\<exists>s'. run_turn N rank s = Inr (False, s') \<and> run_inv N d (Suc i) s'"
proof -
  have inv: "scheduler s = state_at d i" "in_flight_batches s = [1..<Suc i]" "last_vacant_batch s = None"
      "\<forall>b. has_key (batch_to_tensor_maps s) b \<longrightarrow> b \<le> i" "tensor_maps s = i"
      "\<forall>b \<in> set [1..<Suc i]. map_of (batch_to_tensor_maps s) b = Some ((b - 1) mod d)"
      "passes (trace s) = passes_of N d (map (task_at d) [0..<i])"
    using assms state_at_warm [of i d] by (auto simp: run_inv_def vacant_at_def)
  have t: "task_at d i = (Suc i, 0)" using assms(2) by (simp add: task_at_def)
  have fresh: "\<not> has_key (batch_to_tensor_maps s) (Suc i)" using inv(4) by fastforce
  let ?s = "s\<lparr>scheduler := state_at d (Suc i), in_flight_batches := [1..<Suc (Suc i)],
      batch_to_tensor_maps := AList.update (Suc i) i (batch_to_tensor_maps s), tensor_maps := Suc i,
      trace := trace s @ [Compute (Suc i) 0 i]\<rparr>"
  have "run_turn N rank s = Inr (False, ?s)"
    using assms(3) inv fresh
    by (simp add: run_turn_def next_task_at t take_tensors_def compute_pass_def emit_def)
  moreover have "run_inv N d (Suc i) ?s"
    using assms(2,3) inv state_at_warm [of "Suc i" d]
    by (auto simp: run_inv_def vacant_at_def update_conv' passes_of_snoc t less_Suc_eq)
  ultimately show ?thesis by blast
qed

lemma warm_skip:
  assumes "run_inv N d i s" and "i < d" and "N \<le> i" and "0 < N"
  shows "\<exists>s'. run_turn N rank s = Inr (False, s') \<and> run_inv N d (Suc i) s'"
proof -
  have inv: "scheduler s = state_at d i" "in_flight_batches s = [1..<Suc N]"
    using assms state_at_warm [of i d] by (auto simp: run_inv_def min_def)
  have t: "task_at d i = (Suc i, 0)" using assms(2) by (simp add: task_at_def)
  let ?s = "s\<lparr>scheduler := state_at d (Suc i),
      trace := trace s @ (if rank = 0 then [GroupStart] else [GroupEnd, GroupStart])\<rparr>"
  have "[1..<Suc N] \<noteq> []" using assms(4) by simp
  then have "run_turn N rank s = Inr (False, ?s)"
    using assms(3) inv by (simp add: run_turn_def next_task_at t emit_def del: upt_Suc)
  moreover have "run_inv N d (Suc i) ?s"
    using assms state_at_warm [of "Suc i" d] state_at_warm [of i d]
    by (auto simp: run_inv_def vacant_at_def passes_of_snoc t min_def)
  ultimately show ?thesis by blast
qed

lemma backward_turn:
  assumes "run_inv N d (d + 2 * j) s" and "0 < d" and "j < N"
  shows "\<exists>s'. run_turn N rank s = Inr (False, s') \<and> run_inv N d (Suc (d + 2 * j)) s'"
proof -
  have fl: "[Suc j..<Suc (min (d + j) N)] = Suc j # [Suc (Suc j)..<Suc (min (d + j) N)]"
    using assms(2,3) by (simp add: upt_conv_Cons del: upt_Suc)
  have inv: "scheduler s = state_at d (d + 2 * j)"
      "in_flight_batches s = Suc j # [Suc (Suc j)..<Suc (min (d + j) N)]"
      "\<forall>b. has_key (batch_to_tensor_maps s) b \<longrightarrow> b \<le> d + j" "tensor_maps s = min d N"
      "\<forall>b \<in> set (Suc j # [Suc (Suc j)..<Suc (min (d + j) N)]).
         map_of (batch_to_tensor_maps s) b = Some ((b - 1) mod d)"
      "passes (trace s) = passes_of N d (map (task_at d) [0..<d + 2 * j])"
    using assms(1) state_at_even [of d j] unfolding run_inv_def fl [symmetric] by auto
  have t: "task_at d (d + 2 * j) = (Suc j, 1)" by (simp add: task_at_def)
  have m: "map_of (batch_to_tensor_maps s) (Suc j) = Some (j mod d)" using inv(5) by simp
  let ?s = "s\<lparr>scheduler := state_at d (Suc (d + 2 * j)), in_flight_batches := [Suc (Suc j)..<Suc (min (d + j) N)],
      last_vacant_batch := Some (Suc j), trace := trace s @ [Compute (Suc j) 1 (j mod d)]\<rparr>"
  have "run_turn N rank s = Inr (False, ?s)"
    using inv m by (simp add: run_turn_def next_task_at t compute_pass_def emit_def py_lookup_def)
  moreover have "run_inv N d (Suc (d + 2 * j)) ?s"
    using assms(3) inv m state_at_odd [of d j]
    by (auto simp: run_inv_def vacant_at_def passes_of_snoc t)
  ultimately show ?thesis by blast
qed

lemma forward_facts:
  assumes "run_inv N d (Suc (d + 2 * j)) s"
  shows "scheduler s = state_at d (Suc (d + 2 * j))"
    and "in_flight_batches s = [Suc (Suc j)..<Suc (min (d + j) N)]"
    and "last_vacant_batch s = Some (Suc j)"
    and "\<forall>b. has_key (batch_to_tensor_maps s) b \<longrightarrow> b \<le> d + j" and "tensor_maps s = min d N"
    and "\<forall>b \<in> set [Suc j..<Suc (min (d + j) N)]. map_of (batch_to_tensor_maps s) b = Some ((b - 1) mod d)"
    and "map_of (batch_to_tensor_maps s) (Suc j) = Some (j mod d)"
    and "passes (trace s) = passes_of N d (map (task_at d) [0..<Suc (d + 2 * j)])"
proof -
  have v: "vacant_at N d (Suc (d + 2 * j)) = Some (Suc j)" by (simp add: vacant_at_def)
  show fl: "in_flight_batches s = [Suc (Suc j)..<Suc (min (d + j) N)]" and lv: "last_vacant_batch s = Some (Suc j)"
    using assms state_at_odd [of d j] unfolding run_inv_def v by (simp_all del: upt_Suc)
  have owns: "\<forall>b. b \<in> set (in_flight_batches s) \<or> last_vacant_batch s = Some b \<longrightarrow>
      map_of (batch_to_tensor_maps s) b = Some ((b - 1) mod d)" using assms unfolding run_inv_def by blast
  show "\<forall>b \<in> set [Suc j..<Suc (min (d + j) N)]. map_of (batch_to_tensor_maps s) b = Some ((b - 1) mod d)"
  proof
    fix b assume "b \<in> set [Suc j..<Suc (min (d + j) N)]"
    then have "b = Suc j \<or> b \<in> set (in_flight_batches s)" unfolding fl set_upt by auto
    then show "map_of (batch_to_tensor_maps s) b = Some ((b - 1) mod d)" using owns lv by blast
  qed
  show "map_of (batch_to_tensor_maps s) (Suc j) = Some (j mod d)" using owns lv by simp
  show "scheduler s = state_at d (Suc (d + 2 * j))"
    and "\<forall>b. has_key (batch_to_tensor_maps s) b \<longrightarrow> b \<le> d + j" and "tensor_maps s = min d N"
    and "passes (trace s) = passes_of N d (map (task_at d) [0..<Suc (d + 2 * j)])"
    using assms state_at_odd [of d j] unfolding run_inv_def by (simp_all del: upt_Suc)
qed

lemma forward_turn:
  assumes "run_inv N d (Suc (d + 2 * j)) s" and "0 < d" and "d + j < N"
  shows "\<exists>s'. run_turn N rank s = Inr (False, s') \<and> run_inv N d (d + 2 * Suc j) s'"
proof -
  note inv = forward_facts [OF assms(1)]
  have t: "task_at d (Suc (d + 2 * j)) = (Suc (d + j), 0)" by (simp add: task_at_def)
  have next_state: "next_task (state_at d (Suc (d + 2 * j))) = ((Suc (d + j), 0), state_at d (d + 2 * Suc j))"
    using next_task_at [of d "Suc (d + 2 * j)"] t by simp
  have fl: "[Suc (Suc j)..<Suc (d + j)] @ [Suc (d + j)] = [Suc (Suc j)..<Suc (Suc (d + j))]"
    using assms(2) by simp
  have m: "min (d + j) N = d + j" using assms(3) by simp
  let ?s = "s\<lparr>scheduler := state_at d (d + 2 * Suc j), in_flight_batches := [Suc (Suc j)..<Suc (Suc (d + j))],
      batch_to_tensor_maps := AList.update (Suc (d + j)) (j mod d) (AList.delete (Suc j) (batch_to_tensor_maps s)),
      last_vacant_batch := None, trace := trace s @ [Compute (Suc (d + j)) 0 (j mod d)]\<rparr>"
  have "run_turn N rank s = Inr (False, ?s)"
    using assms(3) inv(1,2,3,7) fl unfolding m
    by (simp add: run_turn_def next_state take_tensors_def compute_pass_def emit_def py_lookup_def
        update_conv' del: upt_Suc)
  moreover have "run_inv N d (d + 2 * Suc j) ?s"
    using assms(2,3) inv(4,5,6,8) t state_at_even [of d "Suc j"] unfolding m
    by (auto simp: run_inv_def vacant_at_def update_conv' delete_conv' passes_of_next has_key_iff simp del: upt_Suc)
  ultimately show ?thesis by blast
qed

lemma forward_skip:
  assumes "run_inv N d (Suc (d + 2 * j)) s" and "0 < d" and "N \<le> d + j" and "Suc j < N"
  shows "\<exists>s'. run_turn N rank s = Inr (False, s') \<and> run_inv N d (d + 2 * Suc j) s'"
proof -
  note inv = forward_facts [OF assms(1)]
  have t: "task_at d (Suc (d + 2 * j)) = (Suc (d + j), 0)" by (simp add: task_at_def)
  have next_state: "next_task (state_at d (Suc (d + 2 * j))) = ((Suc (d + j), 0), state_at d (d + 2 * Suc j))"
    using next_task_at [of d "Suc (d + 2 * j)"] t by simp
  have m: "min (d + j) N = N" "min (Suc (d + j)) N = N" using assms(3) by simp_all
  let ?s = "s\<lparr>scheduler := state_at d (d + 2 * Suc j),
      trace := trace s @ (if rank = 0 then [GroupStart] else [GroupEnd, GroupStart])\<rparr>"
  have "[Suc (Suc j)..<Suc N] \<noteq> []" using assms(4) by simp
  then have "run_turn N rank s = Inr (False, ?s)"
    using assms(3) inv(1,2) unfolding m by (simp add: run_turn_def next_state emit_def del: upt_Suc)
  moreover have "run_inv N d (d + 2 * Suc j) ?s"
    using assms(3) inv t state_at_even [of d "Suc j"] unfolding m
    by (auto simp: run_inv_def vacant_at_def passes_of_next m le_SucI simp del: upt_Suc)
  ultimately show ?thesis by blast
qed

text \<open>The last turn finds nothing in flight and leaves the loop.\<close>

definition last_turn :: "nat \<Rightarrow> nat \<Rightarrow> nat" where
  "last_turn N d = (if N = 0 then 0 else d + 2 * N - 1)"

lemma run_turn_inv:
  assumes "run_inv N d i s" and "0 < d" and "i < last_turn N d"
  shows "\<exists>s'. run_turn N rank s = Inr (False, s') \<and> run_inv N d (Suc i) s'"
proof (cases "i < d")
  case True
  have "0 < N" using assms(3) by (auto simp: last_turn_def split: if_splits)
  then show ?thesis using warm_turn [OF assms(1) True] warm_skip [OF assms(1) True] by (meson not_le)
next
  case False
  then obtain k where i: "i = d + k" by (metis le_Suc_ex not_less)
  show ?thesis
  proof (cases "even k")
    case True
    then obtain j where j: "k = 2 * j" by (elim evenE)
    have "j < N" using assms(3) by (auto simp: i j last_turn_def split: if_splits)
    then show ?thesis using backward_turn assms(1,2) unfolding i j by blast
  next
    case False
    then obtain j where j: "k = Suc (2 * j)" by (auto elim: oddE)
    have "Suc j < N" using assms(3) by (auto simp: i j last_turn_def split: if_splits)
    then show ?thesis
      using forward_turn [of N d j s rank] forward_skip [of N d j s rank] assms(1,2) unfolding i j
      by (cases "d + j < N") auto
  qed
qed

lemma run_turn_last:
  assumes "run_inv N d (last_turn N d) s" and "0 < d"
  shows "\<exists>s'. run_turn N rank s = Inr (True, s') \<and> passes (trace s') = passes (trace s) \<and> tensor_maps s' = tensor_maps s"
proof -
  obtain b where t: "task_at d (last_turn N d) = (b, 0)" "N < b"
    using assms(2) by (cases N) (auto simp: last_turn_def task_at_def)
  have e: "in_flight_batches s = []" "scheduler s = state_at d (last_turn N d)"
    using assms by (auto simp: run_inv_def last_turn_def state_at_def)
  show ?thesis
    using t e by (auto simp: run_turn_def next_task_at emit_def Let_def)
qed

lemma run_loop_inv:
  assumes "run_inv N d i s" and "0 < d" and "i + k = last_turn N d"
  shows "\<exists>s'. run_loop (Suc k + extra) N rank s = Inr s' \<and> tensor_maps s' = min d N \<and>
    passes (trace s') = passes_of N d (map (task_at d) [0..<last_turn N d])"
  using assms
proof (induction k arbitrary: i s)
  case 0
  then have "tensor_maps s = min d N"
    by (auto simp: run_inv_def last_turn_def min_def split: if_splits)
  then show ?case using 0 run_turn_last [of N d s rank] by (auto simp: run_inv_def)
next
  case (Suc k)
  obtain s' where s': "run_turn N rank s = Inr (False, s')" "run_inv N d (Suc i) s'"
    using run_turn_inv [of N d i s rank] Suc.prems by auto
  show ?case using Suc.IH [OF s'(2) assms(2)] Suc.prems(3) s'(1) by simp
qed

lemma forward_tasks: "filter (\<lambda>t. snd t = 0) (map (task_at d) [0..<d + 2 * m]) = map (\<lambda>b. (b, 0)) [1..<Suc (d + m)]"
proof (induction m)
  case 0
  have "filter (\<lambda>t. snd t = 0) (map (task_at d) [0..<i]) = map (\<lambda>b. (b, 0)) [1..<Suc i]" if "i \<le> d" for i
    using that by (induction i) (auto simp: task_at_def)
  then show ?case by simp
next
  case (Suc m)
  have "[0..<d + 2 * Suc m] = [0..<d + 2 * m] @ [d + 2 * m, Suc (d + 2 * m)]" by simp
  then show ?case using Suc by (simp add: task_at_def)
qed

lemma backward_tasks: "filter (\<lambda>t. snd t = 1) (map (task_at d) [0..<d + 2 * m]) = map (\<lambda>b. (b, 1)) [1..<Suc m]"
proof (induction m)
  case 0
  then show ?case by (simp add: task_at_def filter_empty_conv)
next
  case (Suc m)
  have "[0..<d + 2 * Suc m] = [0..<d + 2 * m] @ [d + 2 * m, Suc (d + 2 * m)]" by simp
  then show ?case using Suc by (simp add: task_at_def)
qed

definition batches_of :: "nat \<Rightarrow> (nat \<times> nat \<times> nat) list \<Rightarrow> nat list" where
  "batches_of phase ps = map fst (filter (\<lambda>p. fst (snd p) = phase) ps)"

lemma batches_of_passes:
  "batches_of ph (passes_of N d ts) = filter (\<lambda>b. b \<le> N) (map fst (filter (\<lambda>t. snd t = ph) ts))"
  by (induction ts) (auto simp: batches_of_def passes_of_def)

lemma filter_upt_le: "N \<le> M \<Longrightarrow> filter (\<lambda>b. b \<le> N) [1..<Suc M] = [1..<Suc N]"
  by (induction M) (auto simp: le_Suc_eq)

lemma last_turn_passes:
  assumes "0 < d"
  shows "passes_of N d (map (task_at d) [0..<last_turn N d]) = passes_of N d (map (task_at d) [0..<d + 2 * N])"
proof (cases N)
  case 0
  have "fst (task_at d i) \<noteq> 0" for i using task_at_positive(1) [of d i] by simp
  then show ?thesis by (simp add: 0 last_turn_def passes_of_def filter_empty_conv case_prod_beta)
next
  case (Suc m)
  have "[0..<d + 2 * N] = [0..<Suc (last_turn N d)]" by (simp add: Suc last_turn_def)
  moreover have "N < fst (task_at d (last_turn N d))" using assms by (simp add: Suc last_turn_def task_at_def)
  ultimately show ?thesis by (simp only: passes_of_next) simp
qed

text \<open>C26: a run of \<open>batch_num\<close> micro-batches ends, takes every batch forward once and backward once,
  in the order of the schedule, and works on as few sets of tensors as there are stages from its rank
  to the end: batch \<open>b\<close> keeps the set \<open>(b - 1) mod d\<close> from its forward to its backward pass, and the
  \<open>d\<close> batches that follow do not touch it before.\<close>

theorem pipedream_runs_every_batch:
  assumes "rank < nrank" and "d = nat (nrank - rank)"
  shows "\<exists>s. pipedream_run (d + 2 * batch_num + 1) batch_num rank nrank = Inr s \<and>
     passes (trace s) = passes_of batch_num d (pipedream_scheduler rank nrank (d + 2 * batch_num)) \<and>
     batches_of 0 (passes (trace s)) = [1..<batch_num + 1] \<and>
     batches_of 1 (passes (trace s)) = [1..<batch_num + 1] \<and>
     tensor_maps s = min d batch_num"
proof -
  have d: "0 < d" using assms by simp
  let ?s0 = "\<lparr>scheduler = schedule_start rank nrank, in_flight_batches = [], batch_to_tensor_maps = [],
      last_vacant_batch = None, tensor_maps = 0, trace = []\<rparr>"
  have "run_inv batch_num d 0 ?s0"
    by (simp add: run_inv_def schedule_start_at assms(2) state_at_def vacant_at_def passes_of_def)
  from run_loop_inv [OF this d, of "last_turn batch_num d" "d + 2 * batch_num - last_turn batch_num d" rank]
  obtain s where s: "run_loop (d + 2 * batch_num + 1) batch_num rank ?s0 = Inr s" "tensor_maps s = min d batch_num"
    "passes (trace s) = passes_of batch_num d (map (task_at d) [0..<last_turn batch_num d])"
    by (auto simp: last_turn_def)
  have p: "passes (trace s) = passes_of batch_num d (map (task_at d) [0..<d + 2 * batch_num])"
    using s(3) last_turn_passes [OF d] by simp
  have f: "batches_of 0 (passes (trace s)) = [1..<batch_num + 1]"
    unfolding p batches_of_passes forward_tasks
    using filter_upt_le [of batch_num "d + batch_num"] by (simp add: comp_def del: upt_Suc)
  have b: "batches_of 1 (passes (trace s)) = [1..<batch_num + 1]"
    unfolding p batches_of_passes backward_tasks
    using filter_upt_le [of batch_num batch_num] by (simp add: comp_def del: upt_Suc)
  show ?thesis
    using s(1,2) p f b
    by (simp add: pipedream_run_def pipedream_scheduler_eq assms(2) [symmetric])
qed

theorem pipedream_runs_every_batch_witness:
  "\<exists>s. pipedream_run (3 + 2 * 5 + 1) 5 1 4 = Inr s \<and>
     passes (trace s) = passes_of 5 3 (pipedream_scheduler 1 4 (3 + 2 * 5)) \<and>
     batches_of 0 (passes (trace s)) = [1..<5 + 1] \<and> batches_of 1 (passes (trace s)) = [1..<5 + 1] \<and>
     tensor_maps s = min 3 5"
  by (rule pipedream_runs_every_batch) simp_all

section \<open>Stages with more workers than the narrowest one\<close>

text \<open>
  \<open>get_schedule_for_different_dp\<close> and \<open>step_index\<close> of \<open>SubExecutor4Pipe\<close>: the narrowest stage has
  \<open>min_dp_nrank\<close> workers, which make one micro-batch each per step; a wider stage takes them in turns.
\<close>

record stage_schedule =
  schedule :: "bool list"
  execution_index :: nat

fun schedule_loop :: "nat \<Rightarrow> nat \<Rightarrow> nat \<Rightarrow> nat \<Rightarrow> bool list" where
  "schedule_loop 0 dp_nrank min_dp_nrank index = []"
| "schedule_loop (Suc k) dp_nrank min_dp_nrank index =
     (if index < min_dp_nrank
      then True # schedule_loop k dp_nrank min_dp_nrank (index + dp_nrank - min_dp_nrank)
      else False # schedule_loop k dp_nrank min_dp_nrank (index - min_dp_nrank))"

definition get_schedule_for_different_dp :: "nat \<Rightarrow> nat \<Rightarrow> nat \<Rightarrow> stage_schedule" where
  "get_schedule_for_different_dp dp_rank dp_nrank min_dp_nrank =
     \<lparr>schedule = (if min_dp_nrank < dp_nrank
        then schedule_loop (dp_nrank div gcd_loop dp_nrank min_dp_nrank) dp_nrank min_dp_nrank dp_rank
        else [True]),
      execution_index = 0\<rparr>"

definition step_once :: "stage_schedule \<Rightarrow> bool result \<times> stage_schedule" where
  "step_once st =
     (py_nth (schedule st) (int (execution_index st)),
      st\<lparr>execution_index := (execution_index st + 1) mod length (schedule st)\<rparr>)"

fun step_many :: "nat \<Rightarrow> stage_schedule \<Rightarrow> (bool list \<times> stage_schedule) result" where
  "step_many 0 st = Inr ([], st)"
| "step_many (Suc k) st =
     (case step_once st of
        (r, st') \<Rightarrow> bindE r (\<lambda>b. bindE (step_many k st') (\<lambda>(bs, st''). Inr (b # bs, st''))))"

definition step_index :: "nat \<Rightarrow> stage_schedule \<Rightarrow> (bool list \<times> stage_schedule) result" where
  "step_index steps st =
     (if schedule st = [] then Inl ZeroDivisionError
      else assertE (steps mod length (schedule st) = 0) (step_many steps st))"

lemma length_schedule_loop [simp]: "length (schedule_loop k d m i) = k"
  by (induction k arbitrary: i) auto

lemma schedule_loop_nth:
  assumes "m < d" and "i < d" and "t < k"
  shows "schedule_loop k d m i ! t \<longleftrightarrow> (i + t * (d - m)) mod d < m"
  using assms(2,3)
proof (induction k arbitrary: i t)
  case (Suc k)
  show ?case
  proof (cases t)
    case 0
    then show ?thesis using Suc.prems by simp
  next
    case (Suc u)
    have next_i: "(if i < m then i + d - m else i - m) < d" using assms(1) Suc.prems(1) by auto
    obtain e where d: "d = m + e" using assms(1) less_imp_add_positive by blast
    have "((if i < m then i + d - m else i - m) + u * (d - m)) mod d = (i + t * (d - m)) mod d"
    proof (cases "i < m")
      case False
      then obtain h where "i = m + h" by (metis le_Suc_ex not_less)
      then have "i + t * (d - m) = i - m + u * (d - m) + d" using Suc by (simp add: d)
      then show ?thesis by (simp only: False if_False mod_add_self2)
    qed (use Suc in \<open>simp add: d add.assoc\<close>)
    then show ?thesis using Suc.IH [OF next_i, of u] Suc.prems(2) Suc by (auto split: if_splits)
  qed
qed simp

lemma turn_iff:
  fixes m d r t :: nat
  assumes "m < d" and "r < d"
  shows "(r + t * (d - m)) mod d < m \<longleftrightarrow> (\<exists>j < m. (t * m + j) mod d = r)"
proof
  obtain e where d: "d = m + e" using less_imp_le [OF assms(1)] unfolding le_iff_add by blast
  have all: "t * m + t * (d - m) = t * d" unfolding d by (simp add: add_mult_distrib2)
  {
    assume x: "(r + t * (d - m)) mod d < m"
    have "(t * m + (r + t * (d - m)) mod d) mod d = (r + t * d) mod d"
      using all by (simp add: mod_add_right_eq ac_simps)
    then show "\<exists>j < m. (t * m + j) mod d = r" using x assms(2) by auto
  next
    assume "\<exists>j < m. (t * m + j) mod d = r"
    then obtain j where j: "j < m" "r = (t * m + j) mod d" by auto
    have "(r + t * (d - m)) mod d = (t * m + j + t * (d - m)) mod d" unfolding j(2) by (rule mod_add_left_eq)
    also have "\<dots> = (j + t * d) mod d" using all by (simp add: ac_simps)
    also have "\<dots> = j" using j(1) assms(1) by simp
    finally show "(r + t * (d - m)) mod d < m" using j(1) by simp
  }
qed

lemma step_many_eq:
  assumes "schedule st \<noteq> []" and "execution_index st < length (schedule st)"
  shows "step_many k st = Inr (map (\<lambda>t. schedule st ! ((execution_index st + t) mod length (schedule st))) [0..<k],
    st\<lparr>execution_index := (execution_index st + k) mod length (schedule st)\<rparr>)"
  using assms
proof (induction k arbitrary: st)
  case (Suc k)
  let ?st = "st\<lparr>execution_index := Suc (execution_index st) mod length (schedule st)\<rparr>"
  have "step_many k ?st = Inr (map (\<lambda>t. schedule st ! ((execution_index st + Suc t) mod length (schedule st))) [0..<k],
    st\<lparr>execution_index := (execution_index st + Suc k) mod length (schedule st)\<rparr>)"
    using Suc.IH [of ?st] Suc.prems by (simp add: mod_add_left_eq mod_Suc_eq)
  then show ?case
    using Suc.prems by (simp add: step_once_def map_upt_Suc del: upt_Suc)
qed simp

text \<open>a stage with more workers takes the micro-batches in turns: over any whole number of rounds
  worker \<open>r\<close> executes step \<open>t\<close> exactly when one of the \<open>min_dp_nrank\<close> micro-batches of that step has a
  number that is \<open>r\<close> modulo the number of workers, the rule by which the sender addresses them, and
  the schedule stands at its start again.\<close>

theorem stage_schedule_is_round_robin:
  assumes "0 < min_nrank" and "min_nrank < nrank" and "r < nrank"
    and "rounds * (nrank div gcd nrank min_nrank) = steps"
  shows "step_index steps (get_schedule_for_different_dp r nrank min_nrank) =
     Inr (map (\<lambda>t. \<exists>j < min_nrank. (t * min_nrank + j) mod nrank = r) [0..<steps],
          get_schedule_for_different_dp r nrank min_nrank)"
proof -
  let ?st = "get_schedule_for_different_dp r nrank min_nrank" and ?L = "nrank div gcd nrank min_nrank"
  have L: "0 < ?L" using assms(2) by (simp add: div_greater_zero_iff gcd_le1_nat)
  have len: "length (schedule ?st) = ?L" "execution_index ?st = 0"
    using assms(2) by (simp_all add: get_schedule_for_different_dp_def gcd_loop_gcd)
  have turn: "schedule ?st ! (t mod ?L) \<longleftrightarrow> (\<exists>j < min_nrank. (t * min_nrank + j) mod nrank = r)" for t
  proof -
    have "nrank dvd ?L * min_nrank"
      by (metis dvd_div_mult dvd_triv_left gcd_dvd1 gcd_dvd2 dvd_mult div_mult_swap)
    then obtain q where q: "?L * min_nrank = nrank * q" ..
    have "t * min_nrank = (t div ?L * ?L + t mod ?L) * min_nrank" by (simp only: div_mult_mod_eq)
    also have "\<dots> = nrank * (t div ?L * q) + t mod ?L * min_nrank"
      by (simp only: add_mult_distrib mult.assoc q) (simp only: mult.left_commute)
    finally have t: "t * min_nrank = nrank * (t div ?L * q) + t mod ?L * min_nrank" .
    have "(t * min_nrank + j) mod nrank = (t mod ?L * min_nrank + j) mod nrank" for j
      unfolding t add.assoc by (rule mod_mult_self4)
    then show ?thesis
      using schedule_loop_nth [OF assms(2,3), of "t mod ?L" ?L] turn_iff [OF assms(2,3), of "t mod ?L"] L assms(2)
      by (simp add: get_schedule_for_different_dp_def gcd_loop_gcd)
  qed
  have ne: "schedule ?st \<noteq> []" using L len(1) by auto
  have s0: "steps mod ?L = 0" using assms(4) by auto
  have "step_many steps ?st = Inr (map (\<lambda>t. schedule ?st ! (t mod ?L)) [0..<steps], ?st)"
  proof -
    have "?st\<lparr>execution_index := 0\<rparr> = ?st" by (simp add: get_schedule_for_different_dp_def)
    moreover have "execution_index ?st < length (schedule ?st)" using len L by simp
    ultimately show ?thesis using step_many_eq [OF ne, of steps] by (simp only: len add_0 s0)
  qed
  then show ?thesis using ne s0 by (simp only: step_index_def len(1) if_False assertE_simps simp_thms turn)
qed

theorem stage_schedule_is_round_robin_witness:
  "step_index 6 (get_schedule_for_different_dp 1 3 2) =
     Inr (map (\<lambda>t. \<exists>j < 2. (t * 2 + j) mod 3 = 1) [0..<6], get_schedule_for_different_dp 1 3 2)"
  by (rule stage_schedule_is_round_robin [of 2 3 1 2 6]) (simp_all add: gcd_non_0_nat)

section \<open>The two halves of a stage\<close>

text \<open>
  \<open>get_partitions\<close>: the operators of a stage, walked from the last to the first, are cut at the loss
  and where the pipeline changes layers, and joined to a forward and a backward half.
\<close>

datatype stage_op = OptimizerNode | ReceiveNode | SendNode | BroadcastNode | ReduceNode | PlainNode

record stage_nodes =
  stage_op_of :: "nat \<Rightarrow> stage_op"
  loss_of :: "nat \<Rightarrow> nat"
  layer_indices :: "nat \<rightharpoonup> int"
  all_forward_nodes :: "nat list"

record partition_state =
  opt :: "nat option"
  loss_node :: nat
  cur_part :: "nat list"
  partitions :: "nat list list"
  prev_node :: "nat option"

definition layer_of :: "stage_nodes \<Rightarrow> nat \<Rightarrow> int result" where
  "layer_of env n = (case layer_indices env n of None \<Rightarrow> Inl KeyError | Some l \<Rightarrow> Inr l)"

definition layers_differ :: "stage_nodes \<Rightarrow> nat \<Rightarrow> nat \<Rightarrow> bool result" where
  "layers_differ env n p = bindE (layer_of env n) (\<lambda>a. bindE (layer_of env p) (\<lambda>b. Inr (a \<noteq> b)))"

text \<open>The condition of the cut, with Python's order of evaluation.\<close>

definition is_cut :: "stage_nodes \<Rightarrow> partition_state \<Rightarrow> nat \<Rightarrow> bool result" where
  "is_cut env st n =
     (if n = loss_node st then Inr True
      else case prev_node st of
             None \<Rightarrow> Inr False
           | Some p \<Rightarrow>
               bindE (if stage_op_of env p = ReceiveNode
                        \<and> (stage_op_of env n = SendNode \<or> n \<in> set (all_forward_nodes env))
                      then layers_differ env n p else Inr False) (\<lambda>c.
                 if c then Inr True
                 else if stage_op_of env p = BroadcastNode \<and> stage_op_of env n = ReduceNode
                      then layers_differ env n p else Inr False))"

definition partition_step :: "stage_nodes \<Rightarrow> bool \<Rightarrow> partition_state \<Rightarrow> nat \<Rightarrow> partition_state result" where
  "partition_step env reserve_opt st n =
     (if stage_op_of env n = OptimizerNode
      then assertE (opt st = None)
        (Inr (st\<lparr>opt := Some n, loss_node := loss_of env n,
                 cur_part := (if reserve_opt then cur_part st @ [n] else cur_part st), prev_node := Some n\<rparr>))
      else bindE (is_cut env st n) (\<lambda>cut.
        let st1 = (if cut then st\<lparr>partitions := partitions st @ [rev (cur_part st)], cur_part := []\<rparr> else st) in
        Inr (st1\<lparr>cur_part := cur_part st1 @ [n], prev_node := Some n\<rparr>)))"

definition cut_partitions ::
  "stage_nodes \<Rightarrow> bool \<Rightarrow> nat \<Rightarrow> nat list \<Rightarrow> (nat option \<times> nat list list) result" where
  "cut_partitions env reserve_opt loss computing_nodes =
     bindE (foldE (partition_step env reserve_opt)
              \<lparr>opt = None, loss_node = loss, cur_part = [], partitions = [], prev_node = None\<rparr>
              (rev computing_nodes)) (\<lambda>st.
       Inr (opt st, rev (partitions st @ [rev (cur_part st)])))"

fun find_pivot :: "nat list \<Rightarrow> nat \<Rightarrow> nat list list \<Rightarrow> nat option" where
  "find_pivot forward i [] = None"
| "find_pivot forward i (part # rest) =
     (if \<exists>n \<in> set part. n \<in> set forward then find_pivot forward (i + 1) rest else Some i)"

definition get_partitions ::
  "stage_nodes \<Rightarrow> bool \<Rightarrow> nat \<Rightarrow> nat list \<Rightarrow> (nat option \<times> nat list list) result" where
  "get_partitions env reserve_opt loss computing_nodes =
     bindE (cut_partitions env reserve_opt loss computing_nodes) (\<lambda>(found, parts).
       let parts' =
         (if 2 < length parts then
            (case find_pivot (all_forward_nodes env) 0 parts of
               None \<Rightarrow> [concat parts, concat parts]
             | Some i \<Rightarrow> [concat (take i parts), concat (drop i parts)])
          else parts) in
       assertE (length parts' = 2 \<or> length parts' = 1 \<and> parts' ! 0 = []) (Inr (found, parts')))"

definition kept :: "stage_nodes \<Rightarrow> bool \<Rightarrow> nat \<Rightarrow> bool" where
  "kept env reserve_opt n \<longleftrightarrow> reserve_opt \<or> stage_op_of env n \<noteq> OptimizerNode"

lemma partition_steps_keep:
  assumes "foldE (partition_step env ro) st ns = Inr st'"
  shows "concat (rev (partitions st' @ [rev (cur_part st')])) =
    rev (filter (kept env ro) ns) @ concat (rev (partitions st @ [rev (cur_part st)]))"
  using assms
proof (induction ns arbitrary: st)
  case (Cons n ns)
  then obtain s where s: "partition_step env ro st n = Inr s" and r: "foldE (partition_step env ro) s ns = Inr st'"
    by (auto elim!: bindE_InrE)
  have "concat (rev (partitions s @ [rev (cur_part s)])) =
      (if kept env ro n then [n] else []) @ concat (rev (partitions st @ [rev (cur_part st)]))"
    using s by (auto simp: partition_step_def kept_def assertE_Inr_iff Let_def elim!: bindE_InrE split: if_splits)
  then show ?case using Cons.IH [OF r] by simp
qed simp

lemma cut_partitions_keep:
  "cut_partitions env ro loss ns = Inr (found, parts) \<Longrightarrow> concat parts = filter (kept env ro) ns"
  by (auto simp: cut_partitions_def rev_filter dest!: partition_steps_keep elim!: bindE_InrE)

lemma find_pivot_found:
  "find_pivot forward i parts \<noteq> None \<longleftrightarrow> (\<exists>part \<in> set parts. set part \<inter> set forward = {})"
  by (induction parts arbitrary: i) auto

text \<open>the two halves of a stage are its operators in their order, each once, when the operators
  fall into at most two pieces or some piece has no forward operator.\<close>

theorem partitions_keep_operators:
  assumes "cut_partitions env reserve_opt loss ns = Inr (found, parts)"
    and "get_partitions env reserve_opt loss ns = Inr (found', parts')"
    and "length parts \<le> 2 \<or> (\<exists>part \<in> set parts. set part \<inter> set (all_forward_nodes env) = {})"
  shows "concat parts' = filter (kept env reserve_opt) ns \<and> found' = found"
proof -
  have "concat parts' = concat parts \<and> found' = found"
    using assms find_pivot_found [of "all_forward_nodes env" 0 parts]
    by (auto simp: get_partitions_def Let_def assertE_Inr_iff simp flip: concat_append split: if_splits option.splits)
  then show ?thesis using cut_partitions_keep [OF assms(1)] by simp
qed

definition sample_stage :: stage_nodes where
  "sample_stage =
     \<lparr>stage_op_of = (\<lambda>n. if n = 0 then ReceiveNode else if n = 4 then SendNode
        else if n = 5 then OptimizerNode else PlainNode),
      loss_of = (\<lambda>n. 2), layer_indices = (\<lambda>n. Some (int n)), all_forward_nodes = [0, 1, 2]\<rparr>"

theorem partitions_keep_operators_witness:
  "get_partitions sample_stage True 2 [0, 1, 2, 3, 4, 5] = Inr (Some 5, [[0, 1, 2], [3, 4, 5]]) \<and>
     concat [[0, 1, 2], [3, 4, 5]] = filter (kept sample_stage True) [0, 1, 2, 3, 4, 5] \<and> Some 5 = Some (5 :: nat)"
proof -
  have c: "cut_partitions sample_stage True 2 [0, 1, 2, 3, 4, 5] = Inr (Some 5, [[0, 1, 2], [3, 4, 5]])" by code_simp
  have g: "get_partitions sample_stage True 2 [0, 1, 2, 3, 4, 5] = Inr (Some 5, [[0, 1, 2], [3, 4, 5]])" by code_simp
  show ?thesis using g partitions_keep_operators [OF c g] by simp
qed

end
