(* ===== verification/Dataloader.thy ===== *)
theory Dataloader imports Prelude begin

text \<open>
  Data loading of \<open>hetu/v1/python/hetu/dataloader.py\<close>: data held in several arrays with one row
  numbering (\<open>RawData\<close>), the order of the batches (\<open>BatchIndices\<close>), the loader with its split over
  data-parallel ranks and its batches (\<open>Dataloader\<close>), and the operator over several loaders
  (\<open>DataloaderOp\<close>). The conversion of the raw data to NumPy arrays and the shuffle are parameters.
\<close>

lemma bindE_return: "bindE m Inr = m"
  by (cases m) auto

section \<open>Arrays and slices\<close>

text \<open>An array is the list of its rows, with the shape of a row.\<close>

record 'a arr =
  rows :: "'a list"
  row_shape :: "int list"

definition slice_bound :: "nat \<Rightarrow> int \<Rightarrow> nat" where
  "slice_bound n i = nat (max 0 (min (int n) (if i < 0 then i + int n else i)))"

definition np_slice :: "'a list \<Rightarrow> int \<Rightarrow> int \<Rightarrow> 'a list" where
  "np_slice xs a b =
     take (slice_bound (length xs) b - slice_bound (length xs) a) (drop (slice_bound (length xs) a) xs)"

definition segment :: "'a list \<Rightarrow> nat \<Rightarrow> nat \<Rightarrow> 'a list" where
  "segment xs a b = take (b - a) (drop a xs)"

lemma np_slice_segment:
  "0 \<le> a \<Longrightarrow> 0 \<le> b \<Longrightarrow> b \<le> int (length xs) \<Longrightarrow> np_slice xs a b = segment xs (nat a) (nat b)"
  by (cases "a \<le> int (length xs)") (auto simp: np_slice_def segment_def slice_bound_def)

lemma segment_split:
  assumes "a \<le> m" and "m \<le> b"
  shows "segment xs a b = segment xs a m @ segment xs m b"
proof -
  have e: "b - a = (m - a) + (b - m)" using assms by simp
  show ?thesis unfolding segment_def e take_add using assms(1) by simp
qed

lemma segment_append2: "length xs \<le> a \<Longrightarrow> segment (xs @ ys) a b = segment ys (a - length xs) (b - length xs)"
  by (cases "b \<le> a") (auto simp: segment_def)

lemma segment_append1: "b \<le> length xs \<Longrightarrow> segment (xs @ ys) a b = segment xs a b"
  by (auto simp: segment_def)

section \<open>Data in several arrays\<close>

record 'a raw_data =
  chunks :: "'a arr list"
  shape0 :: nat
  offsets :: "nat list"

definition RawData_init :: "'a arr list \<Rightarrow> 'a raw_data result" where
  "RawData_init data =
     (case data of
        [] \<Rightarrow> Inl IndexError
      | first # rest \<Rightarrow>
          foldE (\<lambda>r d. assertE (row_shape d = row_shape first)
                   (Inr (r\<lparr>shape0 := shape0 r + length (rows d),
                           offsets := offsets r @ [shape0 r + length (rows d)]\<rparr>)))
            \<lparr>chunks = data, shape0 = length (rows first), offsets = [0, length (rows first)]\<rparr> rest)"

function search_loop :: "nat list \<Rightarrow> nat \<Rightarrow> nat \<Rightarrow> nat \<Rightarrow> nat" where
  "search_loop offs index l r =
     (if l + 1 < r then
        (let mid = (l + r) div 2 in
         if offs ! mid = index then mid
         else if offs ! mid < index then search_loop offs index mid r
         else search_loop offs index l mid)
      else l)"
  by pat_completeness auto
termination
  by (relation "measure (\<lambda>(offs, index, l, r). r - l)") auto

declare search_loop.simps [simp del]

text \<open>An index that is out of range is brought into range; the second component may be negative
  only when there is no row.\<close>

definition get_arr_index :: "'a raw_data \<Rightarrow> int \<Rightarrow> (nat \<times> int) result" where
  "get_arr_index r index =
     (if index < 0 \<and> shape0 r = 0 then Inl ZeroDivisionError
      else let i = (if index < 0 then index mod int (shape0 r)
                    else if int (shape0 r) \<le> index then int (shape0 r) - 1 else index);
               arr_ind = (if i < 0 then 0 else search_loop (offsets r) (nat i) 0 (length (chunks r)))
           in Inr (arr_ind, i - int (offsets r ! arr_ind)))"

definition getitem_int :: "'a raw_data \<Rightarrow> int \<Rightarrow> 'a result" where
  "getitem_int r key = bindE (get_arr_index r key) (\<lambda>(arr_ind, arr_offset). py_nth (rows (chunks r ! arr_ind)) arr_offset)"

definition getitem_slice :: "'a raw_data \<Rightarrow> int option \<Rightarrow> int option \<Rightarrow> 'a list result" where
  "getitem_slice r start stop =
     bindE (get_arr_index r (case start of None \<Rightarrow> 0 | Some a \<Rightarrow> a)) (\<lambda>(start_ind, start_offset).
     bindE (get_arr_index r ((case stop of None \<Rightarrow> int (shape0 r) | Some b \<Rightarrow> b) - 1)) (\<lambda>(stop_ind, stop_offset).
       Inr (if start_ind = stop_ind then np_slice (rows (chunks r ! start_ind)) start_offset (stop_offset + 1)
            else np_slice (rows (chunks r ! start_ind)) start_offset (int (length (rows (chunks r ! start_ind))))
              @ concat (map (\<lambda>i. rows (chunks r ! i)) [start_ind + 1..<stop_ind])
              @ np_slice (rows (chunks r ! stop_ind)) 0 (stop_offset + 1))))"

text \<open>The rows in the order in which \<open>__iter__\<close> yields them.\<close>

definition all_rows :: "'a raw_data \<Rightarrow> 'a list" where
  "all_rows r = concat (map rows (chunks r))"

definition prefix_len :: "'a arr list \<Rightarrow> nat \<Rightarrow> nat" where
  "prefix_len cs j = length (concat (map rows (take j cs)))"

definition raw_ok :: "'a raw_data \<Rightarrow> bool" where
  "raw_ok r \<longleftrightarrow> chunks r \<noteq> [] \<and> shape0 r = length (all_rows r) \<and>
     offsets r = map (prefix_len (chunks r)) [0..<Suc (length (chunks r))]"

lemma RawData_init_ok:
  assumes "RawData_init data = Inr r"
  shows "raw_ok r \<and> chunks r = data"
proof -
  obtain first rest where data: "data = first # rest" using assms by (auto simp: RawData_init_def split: list.splits)
  let ?f = "\<lambda>r d. assertE (row_shape d = row_shape first)
      (Inr (r\<lparr>shape0 := shape0 r + length (rows d), offsets := offsets r @ [shape0 r + length (rows d)]\<rparr>))"
  have "chunks t = chunks s \<and> shape0 t = shape0 s + length (concat (map rows ds)) \<and>
      offsets t = offsets s @ map (\<lambda>j. shape0 s + prefix_len ds j) [1..<Suc (length ds)]"
    if "foldE ?f s ds = Inr t" for s t :: "'a raw_data" and ds
    using that
  proof (induction ds arbitrary: t rule: rev_induct)
    case (snoc d ds)
    from snoc.prems obtain u where u: "foldE ?f s ds = Inr u" "?f u d = Inr t"
      unfolding foldE_append by (elim bindE_InrE) (simp add: bindE_return)
    then have t: "chunks t = chunks u" "shape0 t = shape0 u + length (rows d)"
      "offsets t = offsets u @ [shape0 u + length (rows d)]" unfolding assertE_Inr_iff by auto
    have "map (\<lambda>j. shape0 s + prefix_len (ds @ [d]) j) [1..<Suc (length ds)] =
        map (\<lambda>j. shape0 s + prefix_len ds j) [1..<Suc (length ds)]"
      by (intro map_cong refl) (auto simp: prefix_len_def)
    then show ?case using snoc.IH [OF u(1)] t by (simp add: prefix_len_def)
  qed simp
  note loop = this
  have "[0..<Suc (length data)] = [0, 1] @ map Suc [1..<Suc (length rest)]"
    by (simp add: data map_Suc_upt upt_conv_Cons del: upt_Suc)
  then have off: "map (prefix_len data) [0..<Suc (length data)] =
      [0, length (rows first)] @ map (\<lambda>j. length (rows first) + prefix_len rest j) [1..<Suc (length rest)]"
    by (simp only:) (simp add: data prefix_len_def comp_def del: upt_Suc)
  have r: "foldE ?f \<lparr>chunks = data, shape0 = length (rows first), offsets = [0, length (rows first)]\<rparr> rest = Inr r"
    using assms by (simp add: RawData_init_def data)
  show ?thesis
    using loop [OF r] off unfolding raw_ok_def all_rows_def by (simp add: data del: upt_Suc)
qed

text \<open>The search finds the array that holds a row, when no array is empty.\<close>

lemma search_loop_finds:
  assumes "\<forall>j < m. offs ! j < offs ! Suc j" and "l < r" and "r \<le> m"
    and "offs ! l \<le> index" and "index < offs ! r"
  shows "search_loop offs index l r < m \<and> offs ! search_loop offs index l r \<le> index \<and>
    index < offs ! Suc (search_loop offs index l r)"
  using assms
proof (induction offs index l r rule: search_loop.induct)
  case (1 offs index l r)
  let ?mid = "(l + r) div 2"
  show ?case
  proof (cases "l + 1 < r")
    case True
    then have "l < ?mid" "?mid < r" by auto
    then show ?thesis
      using True 1 by (subst (1 2 3) search_loop.simps) (auto simp: Let_def)
  next
    case False
    then have "r = Suc l" using 1(4) by simp
    then show ?thesis using 1 by (subst (1 2 3) search_loop.simps) auto
  qed
qed

definition chunks_filled :: "'a raw_data \<Rightarrow> bool" where
  "chunks_filled r \<longleftrightarrow> (\<forall>c \<in> set (chunks r). rows c \<noteq> [])"

lemma prefix_len_Suc: "j < length cs \<Longrightarrow> prefix_len cs (Suc j) = prefix_len cs j + length (rows (cs ! j))"
  by (simp add: prefix_len_def take_Suc_conv_app_nth)

lemma prefix_len_mono: "i \<le> j \<Longrightarrow> j \<le> length cs \<Longrightarrow> prefix_len cs i \<le> prefix_len cs j"
  by (induction j rule: dec_induct) (auto simp: prefix_len_Suc)

lemma get_arr_index_finds:
  assumes "raw_ok r" and "chunks_filled r" and "0 \<le> i" and "i < int (shape0 r)"
  shows "\<exists>j k. get_arr_index r i = Inr (j, int k) \<and> j < length (chunks r) \<and>
    k < length (rows (chunks r ! j)) \<and> nat i = prefix_len (chunks r) j + k"
proof -
  let ?m = "length (chunks r)" and ?j = "search_loop (offsets r) (nat i) 0 (length (chunks r))"
  have off: "offsets r ! j = prefix_len (chunks r) j" if "j \<le> ?m" for j
    using assms(1) that by (simp add: raw_ok_def del: upt_Suc)
  have "\<forall>j < ?m. offsets r ! j < offsets r ! Suc j"
    using assms(2) by (auto simp: off prefix_len_Suc chunks_filled_def)
  then have found: "?j < ?m \<and> offsets r ! ?j \<le> nat i \<and> nat i < offsets r ! Suc ?j"
    using assms(1,3,4) off [of ?m] off [of 0]
    by (intro search_loop_finds) (auto simp: raw_ok_def all_rows_def prefix_len_def)
  then have "get_arr_index r i = Inr (?j, int (nat i - prefix_len (chunks r) ?j)) \<and> ?j < ?m \<and>
      nat i - prefix_len (chunks r) ?j < length (rows (chunks r ! ?j)) \<and>
      nat i = prefix_len (chunks r) ?j + (nat i - prefix_len (chunks r) ?j)"
    using assms(3,4) off [of ?j] off [of "Suc ?j"]
    by (auto simp: get_arr_index_def Let_def prefix_len_Suc less_diff_conv2)
  then show ?thesis by blast
qed

lemma rows_split:
  "j < length cs \<Longrightarrow> concat (map rows cs) = concat (map rows (take j cs)) @ rows (cs ! j) @ concat (map rows (drop (Suc j) cs))"
  by (metis concat.simps(2) concat_append id_take_nth_drop list.simps(9) map_append)

lemma segment_in_chunk:
  assumes "j < length cs" and "b \<le> length (rows (cs ! j))"
  shows "segment (concat (map rows cs)) (prefix_len cs j + a) (prefix_len cs j + b) = segment (rows (cs ! j)) a b"
  using assms by (subst rows_split [OF assms(1)]) (simp add: prefix_len_def segment_append2 segment_append1)

lemma segment_of_chunks:
  assumes "i \<le> j" and "j \<le> length cs"
  shows "segment (concat (map rows cs)) (prefix_len cs i) (prefix_len cs j) = concat (map (\<lambda>k. rows (cs ! k)) [i..<j])"
  using assms
proof (induction j)
  case (Suc j)
  show ?case
  proof (cases "i \<le> j")
    case True
    have "segment (concat (map rows cs)) (prefix_len cs i) (prefix_len cs (Suc j)) =
        segment (concat (map rows cs)) (prefix_len cs i) (prefix_len cs j) @
        segment (concat (map rows cs)) (prefix_len cs j) (prefix_len cs (Suc j))"
    proof (rule segment_split)
      show "prefix_len cs i \<le> prefix_len cs j" using True Suc.prems by (intro prefix_len_mono) auto
    qed (use Suc.prems in \<open>simp add: prefix_len_Suc\<close>)
    moreover have "segment (concat (map rows cs)) (prefix_len cs j) (prefix_len cs (Suc j)) = rows (cs ! j)"
      using segment_in_chunk [of j cs "length (rows (cs ! j))" 0] Suc.prems by (simp add: prefix_len_Suc segment_def)
    ultimately show ?thesis using Suc True by simp
  next
    case False
    then have "i = Suc j" using Suc.prems by simp
    then show ?thesis by (simp add: segment_def)
  qed
qed (simp add: segment_def prefix_len_def)

lemma segment_clip: "segment xs a (min b (length xs)) = segment xs a b"
  by (simp add: segment_def min_def)

lemma get_arr_index_clip: "int (shape0 r) \<le> i \<Longrightarrow> 0 < shape0 r \<Longrightarrow> get_arr_index r i = get_arr_index r (int (shape0 r) - 1)"
  by (simp add: get_arr_index_def)

lemma getitem_slice_eq:
  assumes "raw_ok r" and "chunks_filled r" and "0 \<le> start" and "start < int (shape0 r)" and "start < stop"
  shows "getitem_slice r (Some start) (Some stop) = Inr (segment (all_rows r) (nat start) (nat stop))"
proof -
  let ?cs = "chunks r" and ?xs = "concat (map rows (chunks r))"
  define stop' where "stop' = min stop (int (shape0 r))"
  have n: "shape0 r = length ?xs" using assms(1) by (simp add: raw_ok_def all_rows_def)
  obtain i x where s: "get_arr_index r start = Inr (i, int x)" "i < length ?cs" "x < length (rows (?cs ! i))"
    "nat start = prefix_len ?cs i + x"
    using get_arr_index_finds [OF assms(1,2,3,4)] by blast
  have "get_arr_index r (stop - 1) = get_arr_index r (stop' - 1)"
    using assms(3,4) get_arr_index_clip [of r "stop - 1"] by (cases "stop \<le> int (shape0 r)") (auto simp: stop'_def)
  moreover have range: "0 \<le> stop' - 1" "stop' - 1 < int (shape0 r)" "start \<le> stop' - 1"
    using assms(3-5) by (auto simp: stop'_def)
  ultimately obtain j y where e: "get_arr_index r (stop - 1) = Inr (j, int y)" "j < length ?cs"
    "y < length (rows (?cs ! j))" "nat (stop' - 1) = prefix_len ?cs j + y"
    using get_arr_index_finds [OF assms(1,2)] by metis
  have stop: "nat stop' = prefix_len ?cs j + Suc y" using e(4) range by linarith
  have le: "prefix_len ?cs i + x \<le> prefix_len ?cs j + y" using s(4) e(4) range by linarith
  have ij: "i \<le> j"
  proof (rule ccontr)
    assume "\<not> i \<le> j"
    then have "prefix_len ?cs (Suc j) \<le> prefix_len ?cs i" using s(2) by (intro prefix_len_mono) auto
    then show False using le e(2,3) by (simp add: prefix_len_Suc)
  qed
  have last: "np_slice (rows (?cs ! j)) (int a) (int y + 1) = segment (rows (?cs ! j)) a (Suc y)" for a
    using e(3) by (subst np_slice_segment) (auto simp: nat_add_distrib)
  have "getitem_slice r (Some start) (Some stop) = Inr (segment ?xs (nat start) (nat stop'))"
  proof (cases "i = j")
    case True
    then show ?thesis
      using s(1) e last segment_in_chunk [of j ?cs "Suc y" x] by (simp add: getitem_slice_def s(4) stop)
  next
    case False
    have first: "np_slice (rows (?cs ! i)) (int x) (int (length (rows (?cs ! i)))) = segment (rows (?cs ! i)) x (length (rows (?cs ! i)))"
      using s(3) by (subst np_slice_segment) auto
    have "segment ?xs (nat start) (nat stop') = segment ?xs (nat start) (prefix_len ?cs (Suc i)) @
        segment ?xs (prefix_len ?cs (Suc i)) (prefix_len ?cs j) @ segment ?xs (prefix_len ?cs j) (nat stop')"
    proof -
      have "nat start \<le> prefix_len ?cs (Suc i)" "prefix_len ?cs (Suc i) \<le> prefix_len ?cs j" "prefix_len ?cs j \<le> nat stop'"
        using s(2-4) e(2) stop ij False prefix_len_mono [of "Suc i" j ?cs] by (auto simp: prefix_len_Suc)
      then show ?thesis
        using segment_split [of "nat start" "prefix_len ?cs (Suc i)" "nat stop'" ?xs]
          segment_split [of "prefix_len ?cs (Suc i)" "prefix_len ?cs j" "nat stop'" ?xs] by simp
    qed
    moreover have "segment ?xs (nat start) (prefix_len ?cs (Suc i)) = segment (rows (?cs ! i)) x (length (rows (?cs ! i)))"
      using segment_in_chunk [of i ?cs "length (rows (?cs ! i))" x] s(2,4) by (simp add: prefix_len_Suc)
    moreover have "segment ?xs (prefix_len ?cs j) (nat stop') = segment (rows (?cs ! j)) 0 (Suc y)"
      using segment_in_chunk [of j ?cs "Suc y" 0] e(2,3) stop by simp
    ultimately show ?thesis
      using s(1) e(1) last [of 0] first False segment_of_chunks [of "Suc i" j ?cs] ij e(2)
      by (simp add: getitem_slice_def)
  qed
  moreover have "segment ?xs (nat start) (nat stop') = segment ?xs (nat start) (nat stop)"
    using segment_clip [of ?xs "nat start" "nat stop"] assms(3-5) by (auto simp: stop'_def n min_def nat_le_iff split: if_splits)
  ultimately show ?thesis by (simp add: all_rows_def)
qed

text \<open>data held in several arrays reads like their concatenation: for arrays that all hold rows,
  \<open>raw[i]\<close> and \<open>raw[a:b]\<close> are the row and the rows of the concatenated data, also across arrays, and
  an end behind the last row is cut off.\<close>

theorem raw_data_reads_like_one_array:
  assumes "RawData_init data = Inr r" and "\<forall>d \<in> set data. rows d \<noteq> []" and "0 \<le> a" and "a < int (shape0 r)"
  shows "getitem_int r a = Inr (concat (map rows data) ! nat a) \<and>
     (a < b \<longrightarrow> getitem_slice r (Some a) (Some b) = Inr (segment (concat (map rows data)) (nat a) (nat b)))"
proof -
  have ok: "raw_ok r" "chunks r = data" using RawData_init_ok [OF assms(1)] by simp_all
  have filled: "chunks_filled r" using assms(2) ok(2) by (simp add: chunks_filled_def)
  obtain j k where i: "get_arr_index r a = Inr (j, int k)" "j < length (chunks r)"
    "k < length (rows (chunks r ! j))" "nat a = prefix_len (chunks r) j + k"
    using get_arr_index_finds [OF ok(1) filled assms(3,4)] by blast
  have "concat (map rows (chunks r)) ! nat a = rows (chunks r ! j) ! k"
    using i(3,4) by (subst rows_split [OF i(2)]) (simp add: prefix_len_def nth_append)
  then show ?thesis
    using i getitem_slice_eq [OF ok(1) filled assms(3,4)] by (simp add: getitem_int_def all_rows_def ok(2))
qed

definition sample_raw :: "nat arr list" where
  "sample_raw = [\<lparr>rows = [10, 11], row_shape = []\<rparr>, \<lparr>rows = [12, 13, 14], row_shape = []\<rparr>, \<lparr>rows = [15], row_shape = []\<rparr>]"

definition sample_loaded :: "nat raw_data" where
  "sample_loaded = \<lparr>chunks = sample_raw, shape0 = 6, offsets = [0, 2, 5, 6]\<rparr>"

lemma sample_raw_init: "RawData_init sample_raw = Inr sample_loaded"
  by (simp add: RawData_init_def sample_raw_def sample_loaded_def)

theorem raw_data_reads_like_one_array_witness:
  "getitem_int sample_loaded 1 = Inr (concat (map rows sample_raw) ! nat 1) \<and>
     getitem_slice sample_loaded (Some 1) (Some 6) =
        Inr (segment (concat (map rows sample_raw)) (nat 1) (nat 6))"
  using raw_data_reads_like_one_array [OF sample_raw_init, of 1 6]
  by (simp add: sample_raw_def sample_loaded_def)

section \<open>The order of the batches\<close>

text \<open>\<open>BatchIndices\<close>: the \<open>k\<close>-th shuffle is the parameter \<open>shuf k\<close>.\<close>

record batch_order =
  order_batch_num :: int
  all_batch_indices :: "nat list"
  last_key :: int
  need_shuffle :: bool
  shuffles :: nat

definition BatchIndices_init :: "int \<Rightarrow> bool \<Rightarrow> batch_order" where
  "BatchIndices_init n shuffle =
     \<lparr>order_batch_num = n, all_batch_indices = [0..<nat n], last_key = int (length [0..<nat n]) - 1, need_shuffle = shuffle, shuffles = 0\<rparr>"

definition batch_at :: "(nat \<Rightarrow> nat list \<Rightarrow> nat list) \<Rightarrow> int \<Rightarrow> batch_order \<Rightarrow> (nat \<times> batch_order) result" where
  "batch_at shuf key s =
     (let finish = (\<lambda>s. bindE (py_nth (all_batch_indices s) key) (\<lambda>i. Inr (i, s\<lparr>last_key := key\<rparr>))) in
      if key = 0 \<and> last_key s \<noteq> key
      then assertE (last_key s = int (length (all_batch_indices s)) - 1)
             (finish (if need_shuffle s
                      then s\<lparr>all_batch_indices := shuf (shuffles s) (all_batch_indices s), shuffles := shuffles s + 1\<rparr>
                      else s))
      else finish s)"

section \<open>The loader\<close>

text \<open>After the split over data-parallel ranks the data is one array.\<close>

datatype 'a source = Raw "'a raw_data" | Rows "'a list"

record 'a loader =
  loader_names :: "string list"
  source :: "'a source"
  sample_shape :: "int list"
  batch_size :: int
  drop_last :: bool
  shuffle :: bool
  dp :: "(int \<times> int) option"
  mp :: "((nat \<times> int) list \<times> (nat \<times> int) list) option"
  batch_num :: "int option"
  batch_index :: int
  samples_num :: nat
  batch_shape :: "int list"
  rest_rows :: "nat option"
  slices :: "(int \<times> int) list option"
  last_batch_size :: nat

definition source_len :: "'a source \<Rightarrow> nat" where
  "source_len src = (case src of Raw r \<Rightarrow> shape0 r | Rows xs \<Rightarrow> length xs)"

definition source_slice :: "'a source \<Rightarrow> int \<Rightarrow> int \<Rightarrow> 'a list result" where
  "source_slice src a b = (case src of Raw r \<Rightarrow> getitem_slice r (Some a) (Some b) | Rows xs \<Rightarrow> Inr (np_slice xs a b))"

definition get_batch_num :: "'a loader \<Rightarrow> nat \<Rightarrow> int result" where
  "get_batch_num ld n =
     (if batch_size ld = 0 then Inl ZeroDivisionError
      else Inr (if drop_last ld then int n div batch_size ld else - (- int n div batch_size ld)))"

definition set_batch_index :: "int \<Rightarrow> 'a loader \<Rightarrow> 'a loader result" where
  "set_batch_index offset ld =
     (case batch_num ld of
        None \<Rightarrow> Inl TypeError
      | Some n \<Rightarrow> Inr (ld\<lparr>batch_index := (if n \<le> offset then 0 else offset)\<rparr>))"

definition split_dp :: "'a loader \<Rightarrow> 'a source result" where
  "split_dp ld =
     (case dp ld of
        None \<Rightarrow> Inr (source ld)
      | Some (dp_rank, dp_nrank) \<Rightarrow>
          if dp_nrank = 0 then Inl ZeroDivisionError
          else let cur_size = int (source_len (source ld)) div dp_nrank;
                   start = cur_size * dp_rank
               in bindE (source_slice (source ld) start (start + cur_size)) (\<lambda>xs. Inr (Rows xs)))"

text \<open>The part of every dimension that a model-parallel rank keeps.\<close>

definition slice_of_dim :: "(nat \<times> int) list \<Rightarrow> (nat \<times> int) list \<Rightarrow> nat \<times> int \<Rightarrow> (int \<times> int) result" where
  "slice_of_dim cur_part parts d =
     (case map_of parts (fst d) of
        None \<Rightarrow> Inr (0, snd d)
      | Some p \<Rightarrow>
          if p = 0 then Inl ZeroDivisionError
          else bindE (py_lookup cur_part (fst d)) (\<lambda>c. Inr (snd d div p * c, snd d div p * c + snd d div p)))"

definition set_slices :: "'a loader \<Rightarrow> 'a loader result" where
  "set_slices ld =
     (case mp ld of
        None \<Rightarrow> Inr ld
      | Some (cur_part, parts) \<Rightarrow>
          bindE (mapE (slice_of_dim cur_part parts) (zip [0..<length (batch_shape ld)] (batch_shape ld))) (\<lambda>slcs.
            Inr (ld\<lparr>slices := Some slcs, batch_shape := map (\<lambda>(st, en). en - st) slcs\<rparr>)))"

definition init_states :: "'a loader \<Rightarrow> 'a loader result" where
  "init_states ld =
     bindE (split_dp ld) (\<lambda>src.
     let n = source_len src in
     assertE (0 < batch_size ld)
       (bindE (get_batch_num ld n) (\<lambda>bn.
        assertE (drop_last ld \<or> mp ld = None)
          (let res_num = n mod nat (batch_size ld) in
           set_slices (ld\<lparr>source := src, samples_num := n, batch_num := Some bn,
             batch_index := (if bn \<le> batch_index ld then 0 else batch_index ld),
             batch_shape := batch_size ld # sample_shape ld,
             rest_rows := (if \<not> drop_last ld \<and> 0 < res_num then Some res_num else None)\<rparr>)))))"

definition read_batch ::
  "(nat \<Rightarrow> nat list \<Rightarrow> nat list) \<Rightarrow> 'a loader \<Rightarrow> batch_order \<Rightarrow> ('a list \<times> batch_order) result" where
  "read_batch shuf ld s =
     bindE (batch_at shuf (batch_index ld) s) (\<lambda>(batchind, s').
     bindE (source_slice (source ld) (int batchind * batch_size ld) (int batchind * batch_size ld + batch_size ld)) (\<lambda>res.
       if int (length res) \<noteq> batch_size ld
       then (case rest_rows ld of
               None \<Rightarrow> Inl TypeError
             | Some m \<Rightarrow> if m = length res then Inr (res, s') else Inl ValueError)
       else Inr (res, s')))"

definition get_next_arr ::
  "(nat \<Rightarrow> nat list \<Rightarrow> nat list) \<Rightarrow> 'a loader \<Rightarrow> batch_order \<Rightarrow> ('a list \<times> 'a loader \<times> batch_order) result" where
  "get_next_arr shuf ld s =
     bindE (read_batch shuf ld s) (\<lambda>(res, s'). Inr (res, ld\<lparr>last_batch_size := length res\<rparr>, s'))"

definition get_arr ::
  "(nat \<Rightarrow> nat list \<Rightarrow> nat list) \<Rightarrow> 'a loader \<Rightarrow> batch_order \<Rightarrow> ('a list \<times> 'a loader \<times> batch_order) result" where
  "get_arr shuf ld s =
     bindE (read_batch shuf ld s) (\<lambda>(res, s').
       case batch_num ld of
         None \<Rightarrow> Inl TypeError
       | Some n \<Rightarrow>
           if n = 0 then Inl ZeroDivisionError
           else Inr (res, ld\<lparr>last_batch_size := length res, batch_index := (batch_index ld + 1) mod n\<rparr>, s'))"

definition set_dp_rank :: "int \<Rightarrow> int \<Rightarrow> 'a loader \<Rightarrow> 'a loader result" where
  "set_dp_rank dp_rank dp_nrank ld =
     assertE (dp ld = None \<or> dp ld = Some (dp_rank, dp_nrank)) (Inr (ld\<lparr>dp := Some (dp_rank, dp_nrank)\<rparr>))"

definition set_mp_parts :: "(nat \<times> int) list \<Rightarrow> (nat \<times> int) list \<Rightarrow> 'a loader \<Rightarrow> 'a loader result" where
  "set_mp_parts cur_part parts ld =
     assertE (mp ld = None \<or> mp ld = Some (cur_part, parts)) (Inr (ld\<lparr>mp := Some (cur_part, parts)\<rparr>))"

section \<open>The operator over several loaders\<close>

text \<open>The loaders are numbered; a loader with several names is in the dictionary once per name.\<close>

definition DataloaderOp_init :: "'a loader list \<Rightarrow> (string \<times> nat) list" where
  "DataloaderOp_init dls =
     foldl (\<lambda>d i. foldl (\<lambda>d name. AList.update name i d) d (loader_names (dls ! i))) [] [0..<length dls]"

definition assert_attr :: "batch_order \<Rightarrow> 'a loader \<Rightarrow> bool" where
  "assert_attr s ld \<longleftrightarrow> batch_num ld = Some (order_batch_num s) \<and> need_shuffle s = shuffle ld"

type_synonym 'a hook_state = "'a loader list \<times> (string list \<times> batch_order) list"

definition hook_loader :: "int option \<Rightarrow> 'a hook_state \<Rightarrow> nat \<Rightarrow> 'a hook_state result" where
  "hook_loader min_dp_nrank st i =
     (case st of (dls, states) \<Rightarrow>
        assertE (min_dp_nrank = None \<or> map_option snd (dp (dls ! i)) = min_dp_nrank)
          (bindE (init_states (dls ! i)) (\<lambda>ld.
             case map_of states (loader_names ld) of
               None \<Rightarrow> Inr (dls[i := ld],
                 AList.update (loader_names ld) (BatchIndices_init (the (batch_num ld)) (shuffle ld)) states)
             | Some s \<Rightarrow> assertE (assert_attr s ld) (Inr (dls[i := ld], states)))))"

definition dataloader_backward_hook :: "int option \<Rightarrow> (string \<times> nat) list \<Rightarrow> 'a hook_state \<Rightarrow> 'a hook_state result" where
  "dataloader_backward_hook min_dp_nrank op st = foldE (hook_loader min_dp_nrank) st (map snd op)"

definition op_get_arr ::
  "(nat \<Rightarrow> nat list \<Rightarrow> nat list) \<Rightarrow> (string \<times> nat) list \<Rightarrow> string \<Rightarrow> 'a hook_state \<Rightarrow> ('a list \<times> 'a hook_state) result" where
  "op_get_arr shuf op name st =
     (case st of (dls, states) \<Rightarrow>
        bindE (py_lookup op name) (\<lambda>i.
        bindE (py_lookup states (loader_names (dls ! i))) (\<lambda>s.
        bindE (get_arr shuf (dls ! i) s) (\<lambda>(res, ld, s').
          Inr (res, dls[i := ld], AList.update (loader_names ld) s' states)))))"

section \<open>An epoch\<close>

fun read_batches ::
  "nat \<Rightarrow> (nat \<Rightarrow> nat list \<Rightarrow> nat list) \<Rightarrow> 'a loader \<Rightarrow> batch_order \<Rightarrow> ('a list list \<times> 'a loader \<times> batch_order) result" where
  "read_batches 0 shuf ld s = Inr ([], ld, s)"
| "read_batches (Suc k) shuf ld s =
     bindE (get_arr shuf ld s) (\<lambda>(res, ld', s').
     bindE (read_batches k shuf ld' s') (\<lambda>(rs, ld'', s''). Inr (res # rs, ld'', s'')))"

definition source_rows :: "'a source \<Rightarrow> 'a list" where
  "source_rows src = (case src of Raw r \<Rightarrow> all_rows r | Rows xs \<Rightarrow> xs)"

definition source_ok :: "'a source \<Rightarrow> bool" where
  "source_ok src = (case src of Raw r \<Rightarrow> raw_ok r \<and> chunks_filled r | Rows xs \<Rightarrow> True)"

lemma source_len_rows: "source_ok src \<Longrightarrow> source_len src = length (source_rows src)"
  by (cases src) (auto simp: source_ok_def source_len_def source_rows_def raw_ok_def)

lemma source_slice_eq:
  assumes "source_ok src" and "a < length (source_rows src)" and "0 < b"
  shows "source_slice src (int a) (int a + int b) = Inr (segment (source_rows src) a (a + b))"
proof (cases src)
  case (Raw r)
  then have "raw_ok r" "chunks_filled r" "a < shape0 r"
    using assms(1,2) by (auto simp: source_ok_def source_rows_def raw_ok_def)
  then show ?thesis
    using getitem_slice_eq [of r "int a" "int a + int b"] assms(3) Raw
    by (simp add: source_slice_def source_rows_def nat_add_distrib)
next
  case (Rows xs)
  then have "np_slice xs (int a) (int a + int b) = segment xs a (a + b)"
    using assms(2) by (auto simp: np_slice_def segment_def slice_bound_def source_rows_def nat_add_distrib min_def)
  then show ?thesis using Rows by (simp add: source_slice_def source_rows_def)
qed

text \<open>A loader that is set up to read batches of \<open>b\<close> rows.\<close>

definition loader_ready :: "'a loader \<Rightarrow> nat \<Rightarrow> nat \<Rightarrow> bool" where
  "loader_ready ld b n \<longleftrightarrow> source_ok (source ld) \<and> 0 < b \<and> batch_size ld = int b \<and> batch_num ld = Some (int n) \<and>
     (\<forall>i < n. i * b < length (source_rows (source ld)) \<and>
        (length (source_rows (source ld)) < i * b + b \<longrightarrow> rest_rows ld = Some (length (source_rows (source ld)) - i * b)))"

definition batch_rows :: "'a list \<Rightarrow> nat \<Rightarrow> nat \<Rightarrow> 'a list" where
  "batch_rows xs b i = segment xs (i * b) (i * b + b)"

lemma read_batch_eq:
  assumes "loader_ready ld b n" and "batch_at shuf (batch_index ld) s = Inr (i, s')" and "i < n"
  shows "read_batch shuf ld s = Inr (batch_rows (source_rows (source ld)) b i, s')"
proof -
  have r: "source_ok (source ld)" "0 < b" "batch_size ld = int b" "i * b < length (source_rows (source ld))"
    "length (source_rows (source ld)) < i * b + b \<longrightarrow> rest_rows ld = Some (length (source_rows (source ld)) - i * b)"
    using assms(1,3) by (auto simp: loader_ready_def)
  have sl: "source_slice (source ld) (int i * batch_size ld) (int i * batch_size ld + batch_size ld) =
      Inr (batch_rows (source_rows (source ld)) b i)"
    using source_slice_eq [OF r(1,4,2)] by (simp add: r(3) batch_rows_def)
  have len: "length (batch_rows (source_rows (source ld)) b i) = min b (length (source_rows (source ld)) - i * b)"
    by (simp add: batch_rows_def segment_def)
  show ?thesis
    using assms(2) sl len r(3,5) by (auto simp: read_batch_def min_def)
qed

definition epoch_rows :: "'a loader \<Rightarrow> 'a list" where
  "epoch_rows ld =
     (let xs = source_rows (source ld); b = nat (batch_size ld) in
      if drop_last ld then take (length xs div b * b) xs else xs)"

lemma ceil_div:
  assumes "0 < b"
  shows "- (- int n div int b) = int ((n + b - 1) div b)"
proof -
  obtain q r where n: "n = q * b + r" "r < b" using assms by (metis div_mult_mod_eq mod_less_divisor)
  show ?thesis
  proof (cases "r = 0")
    case True
    have "(q * b + (b - 1)) div b = q" using assms by (subst div_mult_self3) auto
    moreover have "- int n = - int q * int b" using n True by simp
    then have "- int n div int b = - int q" using assms by (simp only: nonzero_mult_div_cancel_right)
    ultimately show ?thesis using assms n True by (simp add: Nat.add_diff_assoc)
  next
    case False
    have "- int n = (int b - int r) + (- int q - 1) * int b" using n by (simp add: algebra_simps)
    then have "- int n div int b = - int q - 1" using n False assms by (simp only: div_mult_self1) simp
    moreover have "(n + b - 1) div b = q + 1"
    proof -
      have "n + b - 1 = (q + 1) * b + (r - 1)" using n False by simp
      then show ?thesis using n(2) False assms by (simp only: div_mult_self3) simp
    qed
    ultimately show ?thesis by simp
  qed
qed

lemma ceil_covers:
  fixes n b :: nat
  assumes "0 < b"
  shows "n \<le> (n + b - 1) div b * b"
  using dividend_less_div_times [OF assms, of "n + b - 1"] assms by linarith

lemma set_slices_frame:
  "set_slices ld = Inr ld' \<Longrightarrow> source ld' = source ld \<and> batch_size ld' = batch_size ld \<and> batch_num ld' = batch_num ld \<and>
    rest_rows ld' = rest_rows ld \<and> batch_index ld' = batch_index ld \<and> drop_last ld' = drop_last ld \<and>
    loader_names ld' = loader_names ld \<and> dp ld' = dp ld \<and> shuffle ld' = shuffle ld \<and> samples_num ld' = samples_num ld \<and>
    mp ld' = mp ld \<and> sample_shape ld' = sample_shape ld"
  by (auto simp: set_slices_def split: option.splits elim!: bindE_InrE)

definition num_batches :: "'a loader \<Rightarrow> nat \<Rightarrow> nat" where
  "num_batches ld n =
     (if drop_last ld then n div nat (batch_size ld) else (n + nat (batch_size ld) - 1) div nat (batch_size ld))"

lemma init_states_ready:
  assumes "init_states ld = Inr ld'" and "split_dp ld = Inr src" and "source_ok src"
  shows "source ld' = src" and "drop_last ld' = drop_last ld" and "batch_size ld' = batch_size ld"
    and "0 < batch_size ld" and "batch_num ld' = Some (int (num_batches ld (length (source_rows src))))"
    and "loader_ready ld' (nat (batch_size ld)) (num_batches ld (length (source_rows src)))"
proof -
  let ?n = "length (source_rows src)" and ?b = "nat (batch_size ld)"
  have b: "0 < batch_size ld" using assms(1,2) by (auto simp: init_states_def Let_def assertE_Inr_iff)
  have bn: "get_batch_num ld (source_len src) = Inr (int (num_batches ld ?n))"
    using b ceil_div [of ?b ?n] source_len_rows [OF assms(3)]
    by (simp add: get_batch_num_def num_batches_def zdiv_int)
  have f: "source ld' = src \<and> drop_last ld' = drop_last ld \<and> batch_size ld' = batch_size ld \<and>
      batch_num ld' = Some (int (num_batches ld ?n)) \<and>
      rest_rows ld' = (if \<not> drop_last ld \<and> 0 < ?n mod ?b then Some (?n mod ?b) else None)"
    using assms(1,2) bn source_len_rows [OF assms(3)]
    by (auto simp: init_states_def Let_def assertE_Inr_iff dest!: set_slices_frame)
  then show "source ld' = src" "drop_last ld' = drop_last ld" "batch_size ld' = batch_size ld"
    "0 < batch_size ld" "batch_num ld' = Some (int (num_batches ld ?n))" using b by simp_all
  have "i * ?b < ?n \<and> (?n < i * ?b + ?b \<longrightarrow> rest_rows ld' = Some (?n - i * ?b))" if i: "i < num_batches ld ?n" for i
  proof (cases "drop_last ld")
    case True
    then have "Suc i * ?b \<le> ?n" using i b by (simp add: num_batches_def less_eq_div_iff_mult_less_eq Suc_le_eq [symmetric] del: mult_Suc)
    then show ?thesis using b by simp
  next
    case False
    have "i < (?n + ?b - 1) div ?b" using i False by (simp add: num_batches_def)
    then have "Suc i * ?b \<le> ?n + ?b - 1" using b by (simp add: less_eq_div_iff_mult_less_eq Suc_le_eq [symmetric] del: mult_Suc)
    then have lt: "i * ?b < ?n" using b by simp
    moreover have "?n mod ?b = ?n - i * ?b" if "?n < i * ?b + ?b"
    proof -
      have "?n = i * ?b + (?n - i * ?b)" "?n - i * ?b < ?b" using lt that by auto
      then show ?thesis by (metis mod_less mod_mult_self3)
    qed
    ultimately show ?thesis using f False by auto
  qed
  then show "loader_ready ld' ?b (num_batches ld ?n)"
    using f assms(3) b by (simp add: loader_ready_def)
qed

definition permutes :: "(nat \<Rightarrow> nat list \<Rightarrow> nat list) \<Rightarrow> bool" where
  "permutes shuf \<longleftrightarrow> (\<forall>k xs. mset (shuf k xs) = mset xs)"

text \<open>Before the first batch of an epoch: the indices are all there and the last batch was the last one.\<close>

definition order_at_start :: "batch_order \<Rightarrow> nat \<Rightarrow> bool" where
  "order_at_start s n \<longleftrightarrow> mset (all_batch_indices s) = mset [0..<n] \<and> last_key s = int n - 1"

lemma BatchIndices_init_start: "order_at_start (BatchIndices_init (int n) sh) n"
  by (simp add: order_at_start_def BatchIndices_init_def)

lemma order_length: "order_at_start s n \<Longrightarrow> length (all_batch_indices s) = n"
  by (metis diff_zero length_upt order_at_start_def size_mset)

lemma batch_at_first:
  assumes "order_at_start s n" and "0 < n" and "permutes shuf"
  shows "\<exists>s'. batch_at shuf 0 s = Inr (all_batch_indices s' ! 0, s') \<and> last_key s' = 0 \<and>
    mset (all_batch_indices s') = mset [0..<n] \<and> length (all_batch_indices s') = n"
proof -
  have l: "length (all_batch_indices s) = n" by (rule order_length [OF assms(1)])
  have sl: "length (shuf k (all_batch_indices s)) = n" for k
    using assms(3) l unfolding permutes_def by (metis size_mset)
  show ?thesis
    using assms l sl [of "batch_order.shuffles s"]
    by (auto simp: batch_at_def Let_def order_at_start_def permutes_def py_nth_def)
qed

lemma batch_at_later:
  "0 < k \<Longrightarrow> k < length (all_batch_indices s) \<Longrightarrow>
    batch_at shuf (int k) s = Inr (all_batch_indices s ! k, s\<lparr>last_key := int k\<rparr>)"
  by (simp add: batch_at_def Let_def)

lemma read_batches_later:
  assumes "loader_ready ld b n" and "length (all_batch_indices s) = n" and "set (all_batch_indices s) \<subseteq> {..<n}"
    and "0 < k" and "batch_index ld = int (k mod n)" and "k + m = n" and "last_key s = int k - 1"
  shows "\<exists>ld' s'. read_batches m shuf ld s =
      Inr (map (\<lambda>j. batch_rows (source_rows (source ld)) b (all_batch_indices s ! j)) [k..<n], ld', s') \<and>
    batch_index ld' = 0 \<and> loader_ready ld' b n \<and> source ld' = source ld \<and>
    all_batch_indices s' = all_batch_indices s \<and> last_key s' = int n - 1"
  using assms
proof (induction m arbitrary: k ld s)
  case 0
  then show ?case by simp
next
  case (Suc m)
  have k: "k < n" "batch_index ld = int k" using Suc.prems by simp_all
  have i: "all_batch_indices s ! k < n" using Suc.prems(2,3) k(1) nth_mem by blast
  have bn: "batch_num ld = Some (int n)" "n \<noteq> 0" using Suc.prems(1) k by (auto simp: loader_ready_def)
  let ?s = "s\<lparr>last_key := int k\<rparr>"
  have "batch_at shuf (batch_index ld) s = Inr (all_batch_indices s ! k, ?s)"
    using batch_at_later [OF Suc.prems(4), of s shuf] k Suc.prems(2) by simp
  from read_batch_eq [OF Suc.prems(1) this i] obtain ld1 where
    g: "get_arr shuf ld s = Inr (batch_rows (source_rows (source ld)) b (all_batch_indices s ! k), ld1, ?s)"
    and ld1: "ld1 = ld\<lparr>last_batch_size := length (batch_rows (source_rows (source ld)) b (all_batch_indices s ! k)),
        batch_index := (int k + 1) mod int n\<rparr>"
    using bn k by (simp add: get_arr_def)
  have "loader_ready ld1 b n" "batch_index ld1 = int (Suc k mod n)" "source ld1 = source ld"
    using Suc.prems(1) by (simp_all add: ld1 loader_ready_def zmod_int add.commute)
  then obtain ld' s' where r: "read_batches m shuf ld1 ?s =
      Inr (map (\<lambda>j. batch_rows (source_rows (source ld)) b (all_batch_indices s ! j)) [Suc k..<n], ld', s') \<and>
    batch_index ld' = 0 \<and> loader_ready ld' b n \<and> source ld' = source ld \<and>
    all_batch_indices s' = all_batch_indices s \<and> last_key s' = int n - 1"
    using Suc.IH [of ld1 ?s "Suc k"] Suc.prems by auto
  have "[k..<n] = k # [Suc k..<n]" using k(1) by (simp add: upt_conv_Cons)
  then show ?case using g r by simp
qed

lemma batches_concat: "concat (map (batch_rows xs b) [0..<n]) = take (n * b) xs"
proof (induction n)
  case (Suc n)
  then show ?case by (simp add: batch_rows_def segment_def take_add [symmetric] add.commute)
qed simp

lemma mset_concat_perm:
  assumes "mset idx = mset js"
  shows "mset (concat (map f idx)) = mset (concat (map f js))"
proof -
  have "mset (concat (map f xs)) = (\<Sum>x \<in># mset xs. mset (f x))" for xs by (induction xs) auto
  then show ?thesis using assms by simp
qed

text \<open>C25: an epoch reads every row once: whatever the shuffle, the batches between two wrap-arounds are
  together the rows of the loader's share (without the incomplete last batch under \<open>drop_last\<close>), and the
  loader and the order stand at the start of the next epoch.\<close>

theorem epoch_reads_every_row_once:
  assumes "init_states ld = Inr ld'" and "split_dp ld = Inr src" and "source_ok src" and "permutes shuf"
    and "n = num_batches ld (length (source_rows src))" and "0 < n"
    and "order_at_start s n" and "batch_index ld' = 0"
  shows "\<exists>bs ld'' s'. read_batches n shuf ld' s = Inr (bs, ld'', s') \<and>
     mset (concat bs) = mset (epoch_rows ld') \<and> batch_index ld'' = 0 \<and> order_at_start s' n"
proof -
  note init = init_states_ready [OF assms(1,2,3), folded assms(5)]
  let ?b = "nat (batch_size ld)" and ?xs = "source_rows src"
  obtain s1 where s1: "batch_at shuf 0 s = Inr (all_batch_indices s1 ! 0, s1)" "last_key s1 = 0"
    "mset (all_batch_indices s1) = mset [0..<n]" "length (all_batch_indices s1) = n"
    using batch_at_first [OF assms(7,6,4)] by blast
  let ?idx = "all_batch_indices s1"
  have sub: "set ?idx \<subseteq> {..<n}" using s1(3) by (metis atLeast_upt mset_eq_setD order_refl)
  have i0: "?idx ! 0 < n" using sub s1(4) assms(6) nth_mem by blast
  have "batch_at shuf (batch_index ld') s = Inr (?idx ! 0, s1)" using s1(1) assms(8) by simp
  from read_batch_eq [OF init(6) this i0] obtain ld1 where
    g: "get_arr shuf ld' s = Inr (batch_rows ?xs ?b (?idx ! 0), ld1, s1)"
    and ld1: "ld1 = ld'\<lparr>last_batch_size := length (batch_rows ?xs ?b (?idx ! 0)), batch_index := 1 mod int n\<rparr>"
    using init(1,5) assms(6,8) by (simp add: get_arr_def)
  have "batch_index ld1 = int (1 mod n)" unfolding ld1 zmod_int by simp
  then have r1: "loader_ready ld1 ?b n" "batch_index ld1 = int (1 mod n)" "source ld1 = src"
    using init(1,6) unfolding ld1 by (simp_all add: loader_ready_def)
  obtain ld'' s' where r: "read_batches (n - 1) shuf ld1 s1 =
      Inr (map (\<lambda>j. batch_rows ?xs ?b (?idx ! j)) [1..<n], ld'', s')" "batch_index ld'' = 0"
    "all_batch_indices s' = ?idx" "last_key s' = int n - 1"
    using read_batches_later [OF r1(1) s1(4) sub _ r1(2), of "n - 1" shuf] s1(2) assms(6) r1(3) by auto
  have n: "n = Suc (n - 1)" using assms(6) by simp
  have upt: "[0..<n] = 0 # [1..<n]" using assms(6) by (simp add: upt_conv_Cons)
  have all: "read_batches n shuf ld' s = Inr (map (\<lambda>j. batch_rows ?xs ?b (?idx ! j)) [0..<n], ld'', s')"
    using r(1) by (subst n) (simp add: g upt)
  have "map (\<lambda>j. batch_rows ?xs ?b (?idx ! j)) [0..<n] = map (batch_rows ?xs ?b) ?idx"
    using s1(4) by (metis comp_apply map_map map_nth map_cong)
  then have "mset (concat (map (\<lambda>j. batch_rows ?xs ?b (?idx ! j)) [0..<n])) = mset (take (n * ?b) ?xs)"
    using mset_concat_perm [OF s1(3), of "batch_rows ?xs ?b"] by (simp add: batches_concat)
  moreover have "take (n * ?b) ?xs = epoch_rows ld'"
  proof (cases "drop_last ld")
    case False
    have "length ?xs \<le> n * ?b"
      using False init(4) assms(5) ceil_covers [of ?b "length ?xs"] by (simp add: num_batches_def)
    then show ?thesis using False init(1,2,3) by (simp add: epoch_rows_def)
  qed (use init(1,2,3) assms(5) in \<open>simp add: epoch_rows_def num_batches_def Let_def\<close>)
  ultimately show ?thesis
    using all r s1(3) by (auto simp: order_at_start_def)
qed

definition sample_loader :: "nat loader" where
  "sample_loader =
     \<lparr>loader_names = [''train''], source = Raw sample_loaded, sample_shape = [], batch_size = 4, drop_last = False,
      shuffle = True, dp = None, mp = None, batch_num = None, batch_index = 0, samples_num = 0,
      batch_shape = [], rest_rows = None, slices = None, last_batch_size = 0\<rparr>"

definition sample_ready :: "nat loader" where
  "sample_ready = sample_loader\<lparr>samples_num := 6, batch_num := Some 2, batch_shape := [4], rest_rows := Some 2\<rparr>"

lemma sample_source_ok: "source_ok (Raw sample_loaded)"
  using RawData_init_ok [OF sample_raw_init]
  by (auto simp: source_ok_def chunks_filled_def sample_loaded_def sample_raw_def)

theorem epoch_reads_every_row_once_witness:
  "\<exists>bs ld'' s'. read_batches 2 (\<lambda>k. rev) sample_ready (BatchIndices_init 2 True) = Inr (bs, ld'', s') \<and>
     mset (concat bs) = mset (epoch_rows sample_ready) \<and> batch_index ld'' = 0 \<and> order_at_start s' 2"
proof (rule epoch_reads_every_row_once [of sample_loader])
  show "init_states sample_loader = Inr sample_ready" by code_simp
  show "split_dp sample_loader = Inr (Raw sample_loaded)" by code_simp
  show "source_ok (Raw sample_loaded)" by (rule sample_source_ok)
  show "permutes (\<lambda>k. rev)" by (simp add: permutes_def)
  show "order_at_start (BatchIndices_init 2 True) 2" using BatchIndices_init_start [of 2 True] by simp
qed (code_simp)+

text \<open>Reading the same key again neither shuffles nor moves the order.\<close>

lemma batch_at_again: "batch_at shuf key s = Inr (i, s1) \<Longrightarrow> batch_at shuf key s1 = Inr (i, s1)"
  by (auto simp: batch_at_def Let_def assertE_Inr_iff elim!: bindE_InrE split: if_splits)

lemma py_nth_in: "py_nth xs i = Inr y \<Longrightarrow> y \<in> set xs"
  by (auto simp: py_nth_def split: if_splits)

lemma batch_at_below:
  assumes "batch_at shuf key s = Inr (i, s1)" and "permutes shuf" and "set (all_batch_indices s) \<subseteq> {..<n}" and "0 \<le> key"
  shows "i < n"
proof -
  have "set (shuf k (all_batch_indices s)) = set (all_batch_indices s)" for k
    using assms(2) by (metis mset_eq_setD permutes_def)
  then have "set (all_batch_indices s1) \<subseteq> {..<n} \<and> i \<in> set (all_batch_indices s1)"
    using assms(1,3)
    by (auto simp: batch_at_def Let_def assertE_Inr_iff elim!: bindE_InrE dest!: py_nth_in split: if_splits)
  then show ?thesis by blast
qed

text \<open>loaders that share an order stay aligned: two loaders of the same name that take turns read
  the same batch number in every step, so inputs and labels belong together under every shuffle.\<close>

theorem shared_order_keeps_loaders_aligned:
  assumes "loader_ready x b n" and "loader_ready y b n" and "batch_index x = batch_index y" and "0 \<le> batch_index x"
    and "permutes shuf" and "set (all_batch_indices s) \<subseteq> {..<n}"
    and "get_arr shuf x s = Inr (bx, x', s1)"
  shows "\<exists>i y'. i < n \<and> bx = batch_rows (source_rows (source x)) b i \<and>
     get_arr shuf y s1 = Inr (batch_rows (source_rows (source y)) b i, y', s1) \<and> batch_index x' = batch_index y'"
proof -
  obtain i s1' where i: "batch_at shuf (batch_index x) s = Inr (i, s1')"
    using assms(7) by (auto simp: get_arr_def read_batch_def elim!: bindE_InrE)
  have lt: "i < n" by (rule batch_at_below [OF i assms(5,6,4)])
  have n: "batch_num x = Some (int n)" "batch_num y = Some (int n)" using assms(1,2) by (auto simp: loader_ready_def)
  note rx = read_batch_eq [OF assms(1) i lt]
  have ry: "read_batch shuf y s1' = Inr (batch_rows (source_rows (source y)) b i, s1')"
    using read_batch_eq [OF assms(2) _ lt] batch_at_again [OF i] assms(3) by simp
  show ?thesis
    using assms(3,7) rx ry n lt by (auto simp: get_arr_def)
qed

theorem shared_order_keeps_loaders_aligned_witness:
  "\<exists>i y'. i < 2 \<and> [14, 15] = batch_rows (source_rows (source sample_ready)) 4 i \<and>
     get_arr (\<lambda>k. rev) sample_ready (BatchIndices_init 2 True\<lparr>all_batch_indices := [1, 0], last_key := 0, shuffles := 1\<rparr>) =
       Inr (batch_rows (source_rows (source sample_ready)) 4 i, y',
            BatchIndices_init 2 True\<lparr>all_batch_indices := [1, 0], last_key := 0, shuffles := 1\<rparr>) \<and>
     batch_index (sample_ready\<lparr>last_batch_size := 2, batch_index := 1\<rparr>) = batch_index y'"
proof (rule shared_order_keeps_loaders_aligned)
  have "init_states sample_loader = Inr sample_ready" "split_dp sample_loader = Inr (Raw sample_loaded)" by code_simp+
  from init_states_ready(6) [OF this sample_source_ok]
  have "loader_ready sample_ready (nat (batch_size sample_loader))
      (num_batches sample_loader (length (source_rows (Raw sample_loaded))))" .
  moreover have "nat (batch_size sample_loader) = 4"
    "num_batches sample_loader (length (source_rows (Raw sample_loaded))) = 2" by code_simp+
  ultimately show "loader_ready sample_ready 4 2" "loader_ready sample_ready 4 2" by simp_all
  show "permutes (\<lambda>k. rev)" by (simp add: permutes_def)
  show "get_arr (\<lambda>k. rev) sample_ready (BatchIndices_init 2 True) =
    Inr ([14, 15], sample_ready\<lparr>last_batch_size := 2, batch_index := 1\<rparr>,
      BatchIndices_init 2 True\<lparr>all_batch_indices := [1, 0], last_key := 0, shuffles := 1\<rparr>)" by code_simp
qed (code_simp)+

section \<open>Shares that go wrong\<close>

text \<open>with fewer rows than data-parallel ranks no rank gets an empty share: the slice \<open>[0:0]\<close> reads
  its end as \<open>-1\<close>, the last row, and every rank gets all rows.\<close>

theorem small_share_is_everything:
  assumes "source ld = Raw r" and "raw_ok r" and "chunks_filled r" and "0 < shape0 r"
    and "dp ld = Some (rank, nrank)" and "0 \<le> rank" and "rank < nrank" and "int (shape0 r) < nrank"
  shows "split_dp ld = Inr (Rows (all_rows r))"
proof -
  have n: "shape0 r = length (all_rows r)" using assms(2) by (simp add: raw_ok_def)
  have "get_arr_index r (- 1) = get_arr_index r (int (shape0 r) - 1)"
    using assms(4) by (simp add: get_arr_index_def zmod_minus1)
  then have "getitem_slice r (Some 0) (Some 0) = getitem_slice r (Some 0) (Some (int (shape0 r)))"
    by (simp add: getitem_slice_def)
  also have "\<dots> = Inr (all_rows r)"
    using getitem_slice_eq [OF assms(2,3), of 0 "int (shape0 r)"] assms(4) n by (simp add: segment_def)
  finally show ?thesis
    using assms(1,5,7,8) by (simp add: split_dp_def source_len_def source_slice_def Let_def)
qed

theorem small_share_is_everything_witness:
  "split_dp (sample_loader\<lparr>dp := Some (3, 8)\<rparr>) = Inr (Rows (all_rows sample_loaded))"
  by (rule small_share_is_everything [where rank = 3 and nrank = 8])
    (use sample_source_ok in \<open>simp_all add: sample_loader_def source_ok_def sample_loaded_def\<close>)

lemma init_states_keeps:
  assumes "init_states ld = Inr ld'"
  shows "loader_names ld' = loader_names ld \<and> dp ld' = dp ld \<and> batch_num ld' \<noteq> None"
proof -
  obtain src bn ld1 where "set_slices ld1 = Inr ld'" "loader_names ld1 = loader_names ld" "dp ld1 = dp ld"
    "batch_num ld1 = Some bn"
    using assms unfolding init_states_def Let_def by (elim bindE_InrE) (auto simp: assertE_Inr_iff bindE_Inr_iff)
  then show ?thesis using set_slices_frame [of ld1 ld'] by simp
qed

text \<open>a loader with two names cannot be used data-parallel: the hook of the operator sets it up once
  per name, the second time on its own share, and the number of batches no longer agrees with the order
  that the first time created.\<close>

theorem two_names_break_data_parallel:
  assumes "loader_names ld = [a, b]" and "a \<noteq> b" and "dp ld = Some (rank, nrank)"
    and "init_states ld = Inr ld1" and "init_states ld1 = Inr ld2" and "batch_num ld1 \<noteq> batch_num ld2"
  shows "dataloader_backward_hook (Some nrank) (DataloaderOp_init [ld]) ([ld], []) = Inl AssertionError"
proof -
  have op: "DataloaderOp_init [ld] = [(a, 0), (b, 0)]" using assms(1,2) by (simp add: DataloaderOp_init_def)
  have keep: "loader_names ld1 = [a, b] \<and> dp ld1 = dp ld \<and> batch_num ld1 \<noteq> None \<and> loader_names ld2 = [a, b]"
    using init_states_keeps [OF assms(4)] init_states_keeps [OF assms(5)] assms(1) by simp
  have "hook_loader (Some nrank) ([ld], []) 0 =
      Inr ([ld1], [([a, b], BatchIndices_init (the (batch_num ld1)) (shuffle ld1))])"
    using assms(3,4) keep by (simp add: hook_loader_def)
  moreover have "\<not> assert_attr (BatchIndices_init (the (batch_num ld1)) (shuffle ld1)) ld2"
    using assms(6) keep by (auto simp: assert_attr_def BatchIndices_init_def)
  ultimately show ?thesis
    using assms(3,5) keep by (simp add: dataloader_backward_hook_def op hook_loader_def)
qed

definition two_name_loader :: "nat loader" where
  "two_name_loader = sample_loader\<lparr>loader_names := [''train'', ''validate''], batch_size := 1, dp := Some (0, 2)\<rparr>"

theorem two_names_break_data_parallel_witness:
  "dataloader_backward_hook (Some 2) (DataloaderOp_init [two_name_loader]) ([two_name_loader], []) = Inl AssertionError"
proof -
  have "case init_states two_name_loader of Inl e \<Rightarrow> False | Inr ld1 \<Rightarrow>
      (case init_states ld1 of Inl e \<Rightarrow> False | Inr ld2 \<Rightarrow> batch_num ld1 = Some 3 \<and> batch_num ld2 = Some 1)"
    by code_simp
  then obtain ld1 ld2 where ld: "init_states two_name_loader = Inr ld1" "init_states ld1 = Inr ld2"
    "batch_num ld1 \<noteq> batch_num ld2" by (auto split: sum.splits)
  show ?thesis
    by (rule two_names_break_data_parallel [OF _ _ _ ld, where a = "''train''" and b = "''validate''"])
      (simp_all add: two_name_loader_def)
qed

end
