(* ===== verification/StageInfo.thy ===== *)
theory StageInfo imports GraphOrder DeviceGroup begin

text \<open>
  Where the operators run. \<open>get_pipeline_stage_info\<close> of \<open>gpu_ops/executor.py\<close> numbers the
  pipeline stages along the graph and finds the stage and the data-parallel rank of a device;
  \<open>get_launch_config_by_traverse_nodes\<close> of \<open>context.py\<close> collects the devices and the numbers of
  workers and picks the communication of each operator.

  An operator's \<open>raw_ctx\<close> is the number of a \<open>DeviceGroup\<close> object, since operators share
  groups and \<open>set_index\<close> changes them in place; \<open>group_at\<close> is the store. The recursions take
  their depth as fuel and end like Python's at its limit, with a \<open>RuntimeError\<close>.
\<close>

record placement =
  raw_ctx :: "nat \<Rightarrow> nat option"
  group_at :: "nat \<Rightarrow> device_group"

definition ctx_address :: "placement \<Rightarrow> nat \<Rightarrow> nat result" where
  "ctx_address p n = (case raw_ctx p n of None \<Rightarrow> Inl AttributeError | Some a \<Rightarrow> Inr a)"

definition workers_of :: "placement \<Rightarrow> nat \<Rightarrow> ctx_unit list result" where
  "workers_of p n = bindE (ctx_address p n) (\<lambda>a. Inr (workers (group_at p a)))"

definition unit_devices :: "ctx_unit \<Rightarrow> ctx list" where
  "unit_devices u = (case u of One c \<Rightarrow> [c] | Tup cs \<Rightarrow> cs)"

section \<open>Pipeline stages\<close>

definition share_device :: "ctx_unit \<Rightarrow> ctx_unit \<Rightarrow> bool" where
  "share_device u v \<longleftrightarrow> list_ex (\<lambda>a. list_ex (ctx_eq a) (unit_devices v)) (unit_devices u)"

definition is_pipeline_articulation :: "graph \<Rightarrow> placement \<Rightarrow> nat \<Rightarrow> nat \<Rightarrow> bool result" where
  "is_pipeline_articulation g p n0 n1 =
     (if kind (g n0) = OptimizerOp then Inr True
      else bindE (workers_of p n0) (\<lambda>w0. bindE (workers_of p n1) (\<lambda>w1. Inr
        (if w0 = [] \<or> w1 = [] \<or> list_all2 unit_eq w0 w1 then False
         else if length w0 \<noteq> length w1 then True
         else \<not> list_ex (\<lambda>(u, v). share_device u v) (zip w0 w1)))))"

definition hop :: "bool \<Rightarrow> nat \<Rightarrow> nat" where
  "hop crossed s = (if crossed then s + 1 else s)"

text \<open>\<open>_traverse\<close>: the dictionary \<open>stage_index\<close> is the state; \<open>stage_inputs\<close> is its loop over the inputs.\<close>

type_synonym stages = "(nat \<times> nat) list"

fun stage_traverse :: "graph \<Rightarrow> placement \<Rightarrow> nat \<Rightarrow> nat \<Rightarrow> stages \<Rightarrow> stages result"
  and stage_inputs :: "graph \<Rightarrow> placement \<Rightarrow> nat \<Rightarrow> nat \<Rightarrow> nat list \<Rightarrow> stages \<Rightarrow> stages result"
where
  "stage_traverse g p k node st =
     (if has_key st node then Inr st
      else case k of
             0 \<Rightarrow> Inl RuntimeError
           | Suc k' \<Rightarrow> stage_inputs g p k' node (inputs (g node)) (AList.update node 0 st))"
| "stage_inputs g p k node [] st = Inr st"
| "stage_inputs g p k node (n # ns) st =
     bindE (stage_traverse g p k n st) (\<lambda>st.
     bindE (is_pipeline_articulation g p node n) (\<lambda>crossed.
     bindE (py_lookup st n) (\<lambda>s.
     bindE (py_lookup st node) (\<lambda>old.
       stage_inputs g p k node ns
         (AList.update node (max (hop crossed s) old) st)))))"

definition stage_index :: "graph \<Rightarrow> placement \<Rightarrow> nat \<Rightarrow> nat list \<Rightarrow> stages result" where
  "stage_index g p fuel node_list = foldE (\<lambda>st node. stage_traverse g p fuel node st) [] node_list"

text \<open>The loop over the stages that finds this device: its stages, its rank and the number of ranks.\<close>

record my_place =
  my_stages :: "nat list"
  my_dp_rank :: "int option"
  my_dp_nrank :: "nat option"

definition visit_stage ::
  "graph \<Rightarrow> ctx \<Rightarrow> nat \<Rightarrow> placement \<times> my_place \<Rightarrow> nat \<times> nat \<Rightarrow> (placement \<times> my_place) result" where
  "visit_stage g c total_stage st e =
     (case (st, e) of ((p, m), (node, stage)) \<Rightarrow>
        if kind (g node) = OptimizerOp then Inr (p, m)
        else bindE (ctx_address p node) (\<lambda>a.
          let grp = set_index c (group_at p a);
              p' = p\<lparr>group_at := (group_at p)(a := grp)\<rparr> in
          if local_dp grp \<and> stage < total_stage
          then assertE (my_dp_rank m = dp_index grp \<or> my_dp_rank m = None)
                 (assertE (my_dp_nrank m = Some (worker_num grp) \<or> my_dp_nrank m = None)
                   (Inr (p', \<lparr>my_stages = List.insert stage (my_stages m), my_dp_rank = dp_index grp,
                              my_dp_nrank = Some (worker_num grp)\<rparr>)))
          else Inr (p', m)))"

definition get_pipeline_stage_info ::
  "graph \<Rightarrow> placement \<Rightarrow> nat \<Rightarrow> nat list \<Rightarrow> ctx \<Rightarrow>
     (placement \<times> nat \<times> nat \<times> int option \<times> nat option) result" where
  "get_pipeline_stage_info g p fuel node_list c =
     bindE (stage_index g p fuel node_list) (\<lambda>stages.
       if stages = [] then Inl ValueError
       else let total_stage = max 1 ((Max (snd ` set stages) + 1) div 2) in
         bindE (foldE (visit_stage g c total_stage) (p, \<lparr>my_stages = [], my_dp_rank = None, my_dp_nrank = None\<rparr>) stages)
           (\<lambda>(p', m). if my_stages m = [] then Inl ValueError
                      else Inr (p', Max (set (my_stages m)), total_stage, my_dp_rank m, my_dp_nrank m)))"

section \<open>The stage is the longest path\<close>

text \<open>\<open>path_cost g p n k\<close>: some path that starts at \<open>n\<close> and follows inputs crosses \<open>k\<close> articulations.\<close>

inductive path_cost :: "graph \<Rightarrow> placement \<Rightarrow> nat \<Rightarrow> nat \<Rightarrow> bool" for g p where
  path_here: "path_cost g p n 0"
| path_on: "m \<in> set (inputs (g n)) \<Longrightarrow> is_pipeline_articulation g p n m = Inr crossed \<Longrightarrow>
    path_cost g p m k \<Longrightarrow> path_cost g p n (hop crossed k)"

inductive_cases path_costE: "path_cost g p n k"

definition deepest :: "graph \<Rightarrow> placement \<Rightarrow> nat \<Rightarrow> nat \<Rightarrow> bool" where
  "deepest g p n s \<longleftrightarrow> path_cost g p n s \<and> (\<forall>k. path_cost g p n k \<longrightarrow> k \<le> s)"

lemma deepest_unique: "deepest g p n s \<Longrightarrow> deepest g p n t \<Longrightarrow> s = t"
  by (auto simp: deepest_def intro: order.antisym)

text \<open>The value of a node from the values of its inputs, and the same over a prefix of the inputs.\<close>

definition covers :: "graph \<Rightarrow> placement \<Rightarrow> nat \<Rightarrow> nat list \<Rightarrow> nat \<Rightarrow> nat \<Rightarrow> bool" where
  "covers g p node ns v w \<longleftrightarrow>
     v \<le> w \<and> (w = v \<or> (\<exists>n \<in> set ns. \<exists>crossed s. is_pipeline_articulation g p node n = Inr crossed \<and>
                         deepest g p n s \<and> w = hop crossed s)) \<and>
     (\<forall>n \<in> set ns. \<exists>crossed s. is_pipeline_articulation g p node n = Inr crossed \<and> deepest g p n s \<and>
                       hop crossed s \<le> w)"

lemma deepest_if_covers:
  assumes "covers g p n (inputs (g n)) 0 w"
  shows "deepest g p n w"
proof -
  have "w = 0 \<or> (\<exists>m \<in> set (inputs (g n)). \<exists>crossed j. is_pipeline_articulation g p n m = Inr crossed \<and>
      deepest g p m j \<and> w = hop crossed j)"
    using assms unfolding covers_def by blast
  then have "path_cost g p n w"
    by (auto simp: deepest_def intro: path_here path_on)
  moreover have "k \<le> w" if k: "path_cost g p n k" for k
  proof (cases "k = 0")
    case False
    with k obtain m crossed j where m: "m \<in> set (inputs (g n))" "is_pipeline_articulation g p n m = Inr crossed"
      "path_cost g p m j" "k = hop crossed j"
      by (auto elim: path_costE)
    with assms obtain s where s: "deepest g p m s" and "hop crossed s \<le> w"
      unfolding covers_def by fastforce
    moreover have "j \<le> s" using s m(3) by (simp add: deepest_def)
    ultimately show ?thesis using m(4) by (simp add: hop_def split: if_splits)
  qed simp
  ultimately show ?thesis by (simp add: deepest_def)
qed

text \<open>What a traversal has stored is never lost, and the inputs of what it adds are stored too.\<close>

declare stage_traverse.simps [simp del]

lemma traverse_seen: "has_key st node \<Longrightarrow> stage_traverse g p k node st = Inr st"
  by (simp add: stage_traverse.simps)

lemma traverse_new:
  assumes "\<not> has_key st node" and "stage_traverse g p k node st = Inr st'"
  obtains k' where "k = Suc k'" and "stage_inputs g p k' node (inputs (g node)) (AList.update node 0 st) = Inr st'"
  using assms by (auto simp: stage_traverse.simps split: nat.splits)

lemma inputs_ConsE:
  assumes "stage_inputs g p k node (n # ns) st = Inr st'"
  obtains st1 crossed s old where "stage_traverse g p k n st = Inr st1"
    and "is_pipeline_articulation g p node n = Inr crossed" and "map_of st1 n = Some s" and "map_of st1 node = Some old"
    and "stage_inputs g p k node ns (AList.update node (max (hop crossed s) old) st1) = Inr st'"
  using assms by (auto elim!: bindE_InrE simp: py_lookup_Inr_iff)

lemma stage_keys:
  shows "stage_traverse g p k node st = Inr st' \<Longrightarrow> has_key st' node \<and> fst ` set st \<subseteq> fst ` set st' \<and>
      (\<forall>x \<in> fst ` set st' - fst ` set st. set (inputs (g x)) \<subseteq> fst ` set st')"
    and "stage_inputs g p k node ns st = Inr st' \<Longrightarrow> set ns \<subseteq> fst ` set st' \<and> fst ` set st \<subseteq> fst ` set st' \<and>
      (\<forall>x \<in> fst ` set st' - fst ` set st. set (inputs (g x)) \<subseteq> fst ` set st')"
proof (induction g p k node st and g p k node ns st arbitrary: st' and st'
    rule: stage_traverse_stage_inputs.induct)
  case (1 g p k node st)
  show ?case
  proof (cases "has_key st node")
    case True then show ?thesis using "1.prems" by (simp add: traverse_seen)
  next
    case False
    then obtain k' where k: "k = Suc k'"
      and l: "stage_inputs g p k' node (inputs (g node)) (AList.update node 0 st) = Inr st'"
      using "1.prems" by (rule traverse_new)
    from "1.IH" [OF False k l]
    have r: "set (inputs (g node)) \<subseteq> fst ` set st'" "insert node (fst ` set st) \<subseteq> fst ` set st'"
      "\<forall>x \<in> fst ` set st' - insert node (fst ` set st). set (inputs (g x)) \<subseteq> fst ` set st'"
      by (simp_all add: dom_update)
    then have "set (inputs (g x)) \<subseteq> fst ` set st'" if "x \<in> fst ` set st' - fst ` set st" for x
      using that by (cases "x = node") simp_all
    with r(2) show ?thesis by simp
  qed
next
  case 2 then show ?case by simp
next
  case (3 g p k node n ns st)
  from "3.prems" obtain st1 crossed s old where t: "stage_traverse g p k n st = Inr st1"
    "is_pipeline_articulation g p node n = Inr crossed" "map_of st1 n = Some s" "map_of st1 node = Some old"
    and l: "stage_inputs g p k node ns (AList.update node (max (hop crossed s) old) st1) = Inr st'"
    by (rule inputs_ConsE)
  have "has_key st1 node" using t(4) by (simp add: has_key_iff)
  then have "fst ` set (AList.update node (max (hop crossed s) old) st1) = fst ` set st1"
    by (simp add: dom_update insert_absorb)
  then have two: "set ns \<subseteq> fst ` set st'" "fst ` set st1 \<subseteq> fst ` set st'"
      "\<forall>x \<in> fst ` set st' - fst ` set st1. set (inputs (g x)) \<subseteq> fst ` set st'"
    using "3.IH"(2) [OF t(1,2) _ _ l] t(3,4) by (simp_all add: py_lookup_Inr_iff)
  from "3.IH"(1) [OF t(1)] have one: "has_key st1 n" "fst ` set st \<subseteq> fst ` set st1"
      "\<forall>x \<in> fst ` set st1 - fst ` set st. set (inputs (g x)) \<subseteq> fst ` set st1" by blast+
  have "set (n # ns) \<subseteq> fst ` set st'" using one(1) two(1,2) by (simp add: subset_iff)
  moreover have "fst ` set st \<subseteq> fst ` set st'" using one(2) two(2) by (rule subset_trans)
  moreover have "set (inputs (g x)) \<subseteq> fst ` set st'" if "x \<in> fst ` set st' - fst ` set st" for x
    using that one(3) two(2,3) by (cases "has_key st1 x") blast+
  ultimately show ?case by blast
qed

lemma stage_distinct:
  shows "stage_traverse g p k node st = Inr st' \<Longrightarrow> distinct (map fst st) \<Longrightarrow> distinct (map fst st')"
    and "stage_inputs g p k node ns st = Inr st' \<Longrightarrow> distinct (map fst st) \<Longrightarrow> distinct (map fst st')"
proof (induction g p k node st and g p k node ns st arbitrary: st' and st'
    rule: stage_traverse_stage_inputs.induct)
  case (1 g p k node st)
  then show ?case
    by (cases "has_key st node") (auto simp: traverse_seen distinct_update elim!: traverse_new)
next
  case 2 then show ?case by simp
next
  case (3 g p k node n ns st)
  from "3.prems"(1) obtain st1 crossed s old where t: "stage_traverse g p k n st = Inr st1"
    "is_pipeline_articulation g p node n = Inr crossed" "map_of st1 n = Some s" "map_of st1 node = Some old"
    and l: "stage_inputs g p k node ns (AList.update node (max (hop crossed s) old) st1) = Inr st'"
    by (rule inputs_ConsE)
  from "3.IH"(2) [OF t(1,2) _ _ l] "3.IH"(1) [OF t(1)] t(3,4) "3.prems"(2) show ?case
    by (simp add: py_lookup_Inr_iff distinct_update)
qed

definition stages_right :: "graph \<Rightarrow> placement \<Rightarrow> stages \<Rightarrow> nat set \<Rightarrow> bool" where
  "stages_right g p st X \<longleftrightarrow> (\<forall>x s. map_of st x = Some s \<longrightarrow> x \<in> X \<longrightarrow> deepest g p x s)"

lemma covers_Cons:
  assumes "covers g p node ns (max (hop crossed s) v) w" and "deepest g p n s"
    and "is_pipeline_articulation g p node n = Inr crossed"
  shows "covers g p node (n # ns) v w"
proof -
  let ?c = "hop crossed s"
  have "max ?c v = ?c \<or> max ?c v = v" by (simp add: max_def)
  with assms show ?thesis unfolding covers_def by (auto simp del: max.bounded_iff) blast+
qed

text \<open>
  The grey nodes hold provisional values; none of them can be reached, so everything a traversal
  reads is final, and what it adds is final too.
\<close>

lemma stage_traverse_right:
  shows "stage_traverse g p k node st = Inr st' \<Longrightarrow> acyclic_graph g \<Longrightarrow>
      stages_right g p st (reached_from g {node}) \<Longrightarrow>
      (\<forall>x. has_key st x \<longrightarrow> map_of st' x = map_of st x) \<and>
      stages_right g p st' (- fst ` set st \<union> reached_from g {node}) \<and>
      fst ` set st' \<subseteq> fst ` set st \<union> reached_from g {node}"
    and "stage_inputs g p k node ns st = Inr st' \<Longrightarrow> acyclic_graph g \<Longrightarrow>
      set ns \<subseteq> set (inputs (g node)) \<Longrightarrow> map_of st node = Some v \<Longrightarrow>
      stages_right g p st (reached_from g (set ns)) \<Longrightarrow>
      (\<exists>w. map_of st' node = Some w \<and> covers g p node ns v w) \<and>
      (\<forall>x. x \<noteq> node \<longrightarrow> has_key st x \<longrightarrow> map_of st' x = map_of st x) \<and>
      stages_right g p st' (- fst ` set st \<union> reached_from g (set ns)) \<and>
      fst ` set st' \<subseteq> fst ` set st \<union> reached_from g (set ns)"
proof (induction g p k node st and g p k node ns st arbitrary: st' and st' v
    rule: stage_traverse_stage_inputs.induct)
  case (1 g p k node st)
  show ?case
  proof (cases "has_key st node")
    case True
    then show ?thesis
      using "1.prems" by (auto simp: traverse_seen stages_right_def dest: map_of_SomeD) (force dest: map_of_SomeD)
  next
    case False
    then obtain k' where k: "k = Suc k'"
      and l: "stage_inputs g p k' node (inputs (g node)) (AList.update node 0 st) = Inr st'"
      using "1.prems"(1) by (rule traverse_new)
    have sub: "reached_from g (set (inputs (g node))) \<subseteq> reached_from g {node} - {node}"
      using "1.prems"(2) by (auto simp: reached_from_def acyclic_graph_def intro: reaches_step)
    have split: "reached_from g {node} \<subseteq> insert node (reached_from g (set (inputs (g node))))"
      by (auto simp: reached_from_def elim: reaches.cases)
    have "stages_right g p (AList.update node 0 st) (reached_from g (set (inputs (g node))))"
      using "1.prems"(3) sub by (auto simp: stages_right_def update_conv')
    from "1.IH" [OF False k l "1.prems"(2) _ _ this, of 0] obtain w
      where w: "map_of st' node = Some w" "covers g p node (inputs (g node)) 0 w"
        and old: "\<forall>x. x \<noteq> node \<longrightarrow> has_key (AList.update node 0 st) x \<longrightarrow> map_of st' x = map_of (AList.update node 0 st) x"
        and right: "stages_right g p st' (- fst ` set (AList.update node 0 st) \<union> reached_from g (set (inputs (g node))))"
        and keys: "fst ` set st' \<subseteq> fst ` set (AList.update node 0 st) \<union> reached_from g (set (inputs (g node)))"
      by (auto simp: update_conv')
    have "deepest g p node w" using w(2) by (rule deepest_if_covers)
    then have "deepest g p x s" if "map_of st' x = Some s" "x \<in> - fst ` set st \<union> reached_from g {node}" for x s
      using right w(1) split that unfolding stages_right_def by (cases "x = node") (auto simp: dom_update)
    then have "stages_right g p st' (- fst ` set st \<union> reached_from g {node})"
      unfolding stages_right_def by blast
    moreover have "\<forall>x. has_key st x \<longrightarrow> map_of st' x = map_of st x"
      using old False by (auto simp: update_conv')
    moreover have "node \<in> reached_from g {node}" by (simp add: reached_from_def reaches_refl)
    ultimately show ?thesis using keys sub by (auto simp: dom_update)
  qed
next
  case (2 g p k node st)
  then show ?case by (auto simp: covers_def stages_right_def reached_from_def dest: map_of_SomeD) (force dest: map_of_SomeD)
next
  case (3 g p k node n ns st)
  from "3.prems"(1) obtain st1 crossed s old where t: "stage_traverse g p k n st = Inr st1"
    and c: "is_pipeline_articulation g p node n = Inr crossed" and s: "map_of st1 n = Some s" "map_of st1 node = Some old"
    and l: "stage_inputs g p k node ns (AList.update node (max (hop crossed s) old) st1) = Inr st'"
    by (rule inputs_ConsE)
  let ?st2 = "AList.update node (max (hop crossed s) old) st1"
  have apart: "\<not> reaches g m node" if "m \<in> set (n # ns)" for m
    using "3.prems"(2,3) that by (auto simp: acyclic_graph_def)
  have "stages_right g p st (reached_from g {n})"
    using "3.prems"(5) by (auto simp: stages_right_def reached_from_def)
  from "3.IH"(1) [OF t "3.prems"(2) this]
  have one: "\<forall>x. has_key st x \<longrightarrow> map_of st1 x = map_of st x"
    "stages_right g p st1 (- fst ` set st \<union> reached_from g {n})"
    "fst ` set st1 \<subseteq> fst ` set st \<union> reached_from g {n}" by blast+
  have old: "old = v" using one(1) "3.prems"(4) s(2) by (force simp: has_key_iff)
  have deep: "deepest g p n s"
    using one(2) s(1) by (auto simp: stages_right_def reached_from_def reaches_refl)
  have "stages_right g p ?st2 (reached_from g (set ns))"
    unfolding stages_right_def
  proof (intro allI impI)
    fix x y assume x: "map_of ?st2 x = Some y" and r: "x \<in> reached_from g (set ns)"
    then have "x \<noteq> node" using apart by (auto simp: reached_from_def)
    with x have y: "map_of st1 x = Some y" by (simp add: update_conv')
    show "deepest g p x y"
    proof (cases "has_key st x")
      case True
      with one(1) y have "map_of st x = Some y" by auto
      with r "3.prems"(5) show ?thesis by (auto simp: stages_right_def reached_from_def)
    next
      case False
      with one(2) y show ?thesis by (auto simp: stages_right_def)
    qed
  qed
  from "3.IH"(2) [OF t c _ _ l "3.prems"(2) _ _ this] s "3.prems"(3)
  obtain w where w: "map_of st' node = Some w" "covers g p node ns (max (hop crossed s) v) w"
    and two: "\<forall>x. x \<noteq> node \<longrightarrow> has_key ?st2 x \<longrightarrow> map_of st' x = map_of ?st2 x"
      "stages_right g p st' (- fst ` set ?st2 \<union> reached_from g (set ns))"
      "fst ` set st' \<subseteq> fst ` set ?st2 \<union> reached_from g (set ns)"
    by (auto simp: py_lookup_Inr_iff update_conv' old)
  have "covers g p node (n # ns) v w" using covers_Cons [OF w(2) deep c] .
  moreover have "\<forall>x. x \<noteq> node \<longrightarrow> has_key st x \<longrightarrow> map_of st' x = map_of st x"
    using two(1) one(1) by (simp add: update_conv' dom_update) (metis has_key_iff)
  moreover have "stages_right g p st' (- fst ` set st \<union> reached_from g (set (n # ns)))"
    unfolding stages_right_def
  proof (intro allI impI)
    fix x y assume x: "map_of st' x = Some y" and r: "x \<in> - fst ` set st \<union> reached_from g (set (n # ns))"
    have ne: "x \<noteq> node"
      using r apart "3.prems"(4) by (auto simp: reached_from_def dest: map_of_SomeD) (force dest: map_of_SomeD)
    show "deepest g p x y"
    proof (cases "has_key ?st2 x \<and> x \<notin> reached_from g (set ns)")
      case True
      with two(1) ne x have "map_of st1 x = Some y" by (auto simp: update_conv')
      moreover have "x \<in> - fst ` set st \<union> reached_from g {n}"
        using r True by (auto simp: reached_from_def)
      ultimately show ?thesis using one(2) by (simp add: stages_right_def)
    next
      case False
      with two(2) x show ?thesis by (auto simp: stages_right_def)
    qed
  qed
  moreover have "fst ` set st' \<subseteq> fst ` set st \<union> reached_from g (set (n # ns))"
    using two(3) one(3) map_of_SomeD [OF "3.prems"(4)] by (force simp: dom_update reached_from_def)
  ultimately show ?case using w(1) by blast
qed

text \<open>With every node placed and the nodes of a closed set as fuel, no step fails.\<close>

lemma articulation_total:
  assumes "raw_ctx p n \<noteq> None" and "raw_ctx p m \<noteq> None"
  shows "\<exists>b. is_pipeline_articulation g p n m = Inr b"
  using assms by (auto simp: is_pipeline_articulation_def workers_of_def ctx_address_def)

lemma stage_enough_fuel:
  assumes "finite S" and "closed_graph g S" and "\<forall>n \<in> S. raw_ctx p n \<noteq> None"
  shows "node \<in> S \<Longrightarrow> card (S - fst ` set st) \<le> k \<Longrightarrow> \<exists>st'. stage_traverse g p k node st = Inr st'"
    and "node \<in> S \<Longrightarrow> set ns \<subseteq> S \<Longrightarrow> has_key st node \<Longrightarrow> card (S - fst ` set st) \<le> k \<Longrightarrow>
      \<exists>st'. stage_inputs g p k node ns st = Inr st'"
  using assms
proof (induction g p k node st and g p k node ns st rule: stage_traverse_stage_inputs.induct)
  case (1 g p k node st)
  show ?case
  proof (cases "has_key st node")
    case True then show ?thesis by (simp add: traverse_seen)
  next
    case False
    have "S - fst ` set (AList.update node 0 st) = (S - fst ` set st) - {node}" by (auto simp: dom_update)
    then have c: "card (S - fst ` set st) = Suc (card (S - fst ` set (AList.update node 0 st)))"
      using False "1.prems"(1,3) card_Suc_Diff1 [of "S - fst ` set st" node] by simp
    with "1.prems"(2) obtain k' where k: "k = Suc k'" by (cases k) auto
    have "set (inputs (g node)) \<subseteq> S" using "1.prems"(1,4) by (simp add: closed_graph_def)
    moreover have "has_key (AList.update node 0 st) node" by (simp add: dom_update)
    moreover have "card (S - fst ` set (AList.update node 0 st)) \<le> k'" using c k "1.prems"(2) by linarith
    ultimately obtain st' where "stage_inputs g p k' node (inputs (g node)) (AList.update node 0 st) = Inr st'"
      using "1.IH" [OF False k "1.prems"(1)] "1.prems"(3-5) by blast
    then show ?thesis using k False by (simp add: stage_traverse.simps)
  qed
next
  case 2 then show ?case by simp
next
  case (3 g p k node n ns st)
  obtain st1 where t: "stage_traverse g p k n st = Inr st1" using "3.IH"(1) "3.prems" by auto
  obtain b where b: "is_pipeline_articulation g p node n = Inr b"
    using articulation_total [of p node n g] "3.prems"(1,2,7) by auto
  have keys: "has_key st1 n" "fst ` set st \<subseteq> fst ` set st1" using stage_keys(1) [OF t] by auto
  then have nd: "has_key st1 node" using "3.prems"(3) by auto
  obtain s old where s: "py_lookup st1 n = Inr s" "py_lookup st1 node = Inr old"
    using keys(1) nd by (auto simp: has_key_iff py_lookup_Inr_iff)
  let ?st2 = "AList.update node (max (hop b s) old) st1"
  have "fst ` set ?st2 = fst ` set st1" using nd by (simp add: dom_update insert_absorb)
  then have "card (S - fst ` set ?st2) \<le> card (S - fst ` set st)"
    using keys(2) "3.prems"(5) by (intro card_mono) auto
  then obtain st' where "stage_inputs g p k node ns ?st2 = Inr st'"
    using "3.IH"(2) [OF t b s] "3.prems" nd by auto
  with t b s show ?case by auto
qed

lemma stages_right_mono: "stages_right g p st X \<Longrightarrow> Y \<subseteq> X \<Longrightarrow> stages_right g p st Y"
  by (auto simp: stages_right_def)

text \<open>A dictionary between two traversals: no grey nodes.\<close>

definition stages_done :: "graph \<Rightarrow> placement \<Rightarrow> stages \<Rightarrow> bool" where
  "stages_done g p st \<longleftrightarrow> stages_right g p st UNIV \<and> (\<forall>x \<in> fst ` set st. set (inputs (g x)) \<subseteq> fst ` set st)"

lemma stage_traverse_done:
  assumes "stage_traverse g p k node st = Inr st'" and "acyclic_graph g" and "stages_done g p st"
  shows "stages_done g p st'" and "fst ` set st' = fst ` set st \<union> reached_from g {node}"
proof -
  have "stages_right g p st (reached_from g {node})"
    using assms(3) by (auto simp: stages_done_def stages_right_def)
  note r = stage_traverse_right(1) [OF assms(1,2) this]
  note keys = stage_keys(1) [OF assms(1)]
  have closed: "\<forall>x \<in> fst ` set st'. set (inputs (g x)) \<subseteq> fst ` set st'"
  proof
    fix x assume x: "x \<in> fst ` set st'"
    show "set (inputs (g x)) \<subseteq> fst ` set st'"
    proof (cases "x \<in> fst ` set st")
      case True
      have "\<forall>x \<in> fst ` set st. set (inputs (g x)) \<subseteq> fst ` set st" using assms(3) unfolding stages_done_def by (rule conjunct2)
      from bspec [OF this True] have "set (inputs (g x)) \<subseteq> fst ` set st" .
      also have "\<dots> \<subseteq> fst ` set st'" using keys by (elim conjE)
      finally show ?thesis .
    next
      case False
      with x have "x \<in> fst ` set st' - fst ` set st" by (rule DiffI)
      with conjunct2 [OF conjunct2 [OF keys]] show ?thesis by (rule bspec)
    qed
  qed
  have "stages_right g p st' UNIV"
    unfolding stages_right_def
  proof (intro allI impI)
    fix x s assume x: "map_of st' x = Some s"
    show "deepest g p x s"
    proof (cases "has_key st x")
      case True
      with r x have "map_of st x = Some s" by auto
      with assms(3) show ?thesis by (simp add: stages_done_def stages_right_def)
    next
      case False with r x show ?thesis by (auto simp: stages_right_def)
    qed
  qed
  with closed show "stages_done g p st'" by (simp add: stages_done_def)
  have "reached_from g {node} \<subseteq> fst ` set st'" using keys by (intro reached_closed closed) auto
  moreover have "fst ` set st' \<subseteq> fst ` set st \<union> reached_from g {node}" using r by (elim conjE)
  moreover have "fst ` set st \<subseteq> fst ` set st'" using keys by (elim conjE)
  ultimately show "fst ` set st' = fst ` set st \<union> reached_from g {node}" by (simp only: subset_antisym Un_subset_iff simp_thms)
qed

lemma stage_index_done:
  assumes "foldE (\<lambda>st node. stage_traverse g p k node st) st ns = Inr st'" and "acyclic_graph g" and "stages_done g p st"
  shows "stages_done g p st' \<and> fst ` set st' = fst ` set st \<union> reached_from g (set ns)"
  using assms(1,3)
proof (induction ns arbitrary: st)
  case Nil then show ?case by (simp add: reached_from_def)
next
  case (Cons n ns)
  then obtain st1 where t: "stage_traverse g p k n st = Inr st1"
    and l: "foldE (\<lambda>st node. stage_traverse g p k node st) st1 ns = Inr st'" by (auto elim: bindE_InrE)
  note one = stage_traverse_done [OF t assms(2) Cons.prems(2)]
  from Cons.IH [OF l one(1)] one(2) show ?case by (auto simp: reached_from_def)
qed

lemma stage_index_total:
  assumes "finite S" and "closed_graph g S" and "\<forall>n \<in> S. raw_ctx p n \<noteq> None" and "set ns \<subseteq> S"
  shows "\<exists>st'. foldE (\<lambda>st node. stage_traverse g p (card S) node st) st ns = Inr st'"
  using assms(4)
proof (induction ns arbitrary: st)
  case (Cons n ns)
  have "card (S - fst ` set st) \<le> card S" using assms(1) by (intro card_mono) auto
  then obtain st1 where "stage_traverse g p (card S) n st = Inr st1"
    using stage_enough_fuel(1) [OF assms(1-3), of n st "card S"] Cons.prems by auto
  with Cons.IH [of st1] Cons.prems show ?case by simp
qed simp

text \<open>C7: On an acyclic graph whose operators all have a device group, numbering the stages ends
  without an exception, numbers exactly the operators that the requested ones depend on, and gives
  each the greatest number of pipeline articulations on a path down its inputs.\<close>

theorem stages_are_longest_paths:
  assumes "finite S" and "closed_graph g S" and "set node_list \<subseteq> S" and "acyclic_graph g"
    and "\<forall>n \<in> S. raw_ctx p n \<noteq> None"
  shows "\<exists>st. stage_index g p (card S) node_list = Inr st \<and>
     fst ` set st = {x. \<exists>n \<in> set node_list. reaches g n x} \<and>
     (\<forall>x s. map_of st x = Some s \<longrightarrow> path_cost g p x s \<and> (\<forall>k. path_cost g p x k \<longrightarrow> k \<le> s))"
proof -
  obtain st where st: "stage_index g p (card S) node_list = Inr st"
    using stage_index_total [OF assms(1,2,5,3)] by (auto simp: stage_index_def)
  have "stages_done g p []" by (simp add: stages_done_def stages_right_def)
  from stage_index_done [OF st [unfolded stage_index_def] assms(4) this] st show ?thesis
    by (auto simp: stages_done_def stages_right_def deepest_def reached_from_def)
qed

section \<open>The place of a device\<close>

lemma set_index_workers [simp]: "workers (set_index c grp) = workers grp"
  by (simp add: set_index_def split: prod.splits)

lemma dp_index_workers: "workers a = workers b \<Longrightarrow> dp_index (set_index c a) = dp_index (set_index c b)"
  by (simp add: set_index_def split: prod.splits)

text \<open>The rank of a device at an operator, when it is a worker there.\<close>

definition rank_at :: "placement \<Rightarrow> ctx \<Rightarrow> nat \<Rightarrow> int option" where
  "rank_at p c node =
     (case raw_ctx p node of None \<Rightarrow> None
      | Some a \<Rightarrow> let grp = set_index c (group_at p a) in if local_dp grp then dp_index grp else None)"

definition nrank_at :: "placement \<Rightarrow> nat \<Rightarrow> nat option" where
  "nrank_at p node = map_option (\<lambda>a. worker_num (group_at p a)) (raw_ctx p node)"

definition same_workers :: "placement \<Rightarrow> placement \<Rightarrow> bool" where
  "same_workers p q \<longleftrightarrow> raw_ctx q = raw_ctx p \<and> (\<forall>a. workers (group_at q a) = workers (group_at p a))"

lemma rank_at_same: "same_workers p q \<Longrightarrow> rank_at q c node = rank_at p c node"
proof -
  assume same: "same_workers p q"
  then have "dp_index (set_index c (group_at q a)) = dp_index (set_index c (group_at p a))" for a
    by (intro dp_index_workers) (simp add: same_workers_def)
  with same show ?thesis by (simp add: same_workers_def rank_at_def local_dp_def Let_def split: option.split)
qed

lemma nrank_at_same: "same_workers p q \<Longrightarrow> nrank_at q node = nrank_at p node"
  by (simp add: same_workers_def nrank_at_def worker_num_def)

text \<open>The operators of the forward pass that run on the device.\<close>

definition runs_here :: "graph \<Rightarrow> placement \<Rightarrow> ctx \<Rightarrow> nat \<Rightarrow> nat \<times> nat \<Rightarrow> bool" where
  "runs_here g p c t e \<longleftrightarrow> kind (g (fst e)) \<noteq> OptimizerOp \<and> rank_at p c (fst e) \<noteq> None \<and> snd e < t"

definition place_of :: "graph \<Rightarrow> placement \<Rightarrow> ctx \<Rightarrow> nat \<Rightarrow> stages \<Rightarrow> my_place \<Rightarrow> bool" where
  "place_of g p c t seen m \<longleftrightarrow>
     set (my_stages m) = snd ` {e \<in> set seen. runs_here g p c t e} \<and>
     (\<forall>e \<in> set seen. runs_here g p c t e \<longrightarrow> my_dp_rank m = rank_at p c (fst e) \<and> my_dp_nrank m = nrank_at p (fst e)) \<and>
     (my_stages m = [] \<longrightarrow> my_dp_rank m = None \<and> my_dp_nrank m = None)"

lemma visit_stage_place:
  assumes "visit_stage g c t (q, m) e = Inr (q', m')" and "same_workers p q" and "place_of g p c t seen m"
  shows "same_workers p q' \<and> place_of g p c t (seen @ [e]) m'"
proof (cases "kind (g (fst e)) = OptimizerOp")
  case True
  with assms show ?thesis by (auto simp: visit_stage_def place_of_def runs_here_def split: prod.splits)
next
  case False
  obtain node stage where e: "e = (node, stage)" by (cases e)
  with False assms(1) obtain a where a: "raw_ctx q node = Some a"
    by (auto simp: visit_stage_def ctx_address_def split: option.splits)
  let ?grp = "set_index c (group_at q a)"
  have "rank_at q c node = (if local_dp ?grp then dp_index ?grp else None)"
    and "nrank_at q node = Some (worker_num ?grp)"
    using a by (simp_all add: rank_at_def nrank_at_def Let_def worker_num_def)
  then have rank: "rank_at p c node = (if local_dp ?grp then dp_index ?grp else None)"
    and nrank: "nrank_at p node = Some (worker_num ?grp)"
    by (simp_all only: rank_at_same [OF assms(2)] nrank_at_same [OF assms(2)])
  have q: "same_workers p q'"
    using assms(1,2) a False e
    by (auto simp: visit_stage_def ctx_address_def Let_def same_workers_def assertE_Inr_iff split: if_splits)
  show ?thesis
  proof (cases "local_dp ?grp \<and> stage < t")
    case True
    then have d: "dp_index ?grp \<noteq> None" by (auto simp: local_dp_def split: option.splits)
    have m': "m' = \<lparr>my_stages = List.insert stage (my_stages m), my_dp_rank = dp_index ?grp, my_dp_nrank = Some (worker_num ?grp)\<rparr>"
      and ok: "my_dp_rank m = dp_index ?grp \<or> my_dp_rank m = None"
        "my_dp_nrank m = Some (worker_num ?grp) \<or> my_dp_nrank m = None"
      using assms(1) a False e True by (auto simp: visit_stage_def ctx_address_def Let_def assertE_Inr_iff)
    have here: "runs_here g p c t e" using False e rank True d by (simp add: runs_here_def)
    have "my_dp_rank m = rank_at p c (fst e') \<and> my_dp_nrank m = nrank_at p (fst e') \<and>
        rank_at p c (fst e') \<noteq> None \<and> nrank_at p (fst e') \<noteq> None"
      if "e' \<in> set seen" "runs_here g p c t e'" for e'
      using assms(3) that by (auto simp: place_of_def runs_here_def rank_at_def nrank_at_def split: option.splits)
    then have "rank_at p c (fst e') = dp_index ?grp \<and> nrank_at p (fst e') = Some (worker_num ?grp)"
      if "e' \<in> set seen" "runs_here g p c t e'" for e'
      using that ok by metis
    moreover have "{e' \<in> set (seen @ [e]). runs_here g p c t e'} = insert e {e' \<in> set seen. runs_here g p c t e'}"
      using here by auto
    then have "set (my_stages m') = snd ` {e' \<in> set (seen @ [e]). runs_here g p c t e'}"
      using assms(3) e m' by (simp add: place_of_def)
    ultimately have "place_of g p c t (seen @ [e]) m'"
      using m' rank nrank True e by (auto simp: place_of_def List.insert_def)
    with q show ?thesis by blast
  next
    case Other: False
    then have "\<not> runs_here g p c t e" using rank e by (auto simp: runs_here_def)
    moreover have "m' = m" using assms(1) a False e Other by (auto simp: visit_stage_def ctx_address_def Let_def)
    ultimately have "place_of g p c t (seen @ [e]) m'" using assms(3) by (auto simp: place_of_def)
    with q show ?thesis by blast
  qed
qed

lemma visit_stages_place:
  assumes "foldE (visit_stage g c t) (q, m) es = Inr (q', m')" and "same_workers p q" and "place_of g p c t seen m"
  shows "same_workers p q' \<and> place_of g p c t (seen @ es) m'"
  using assms
proof (induction es arbitrary: q m seen)
  case (Cons e es)
  then obtain st1 where v: "visit_stage g c t (q, m) e = Inr st1"
    and l: "foldE (visit_stage g c t) st1 es = Inr (q', m')"
    by (auto elim: bindE_InrE)
  obtain q1 m1 where "st1 = (q1, m1)" by (cases st1)
  with visit_stage_place [OF v [unfolded \<open>st1 = (q1, m1)\<close>] Cons.prems(2,3)] Cons.IH [of q1 m1 "seen @ [e]"] l
  show ?case by simp
qed simp

text \<open>The stage that a device is told is the last one of the forward pass that it works for;
  its rank and the number of ranks are those of the device at every operator of the forward pass
  that runs on it, and the stage is below the number of stages, which is at least one.\<close>

theorem stage_info_places_device:
  assumes "get_pipeline_stage_info g p fuel node_list c = Inr (p', s, t, r, n)"
    and "stage_index g p fuel node_list = Inr st"
  shows "s < t \<and> t = max 1 ((Max (snd ` set st) + 1) div 2) \<and>
     (\<exists>node. (node, s) \<in> set st \<and> kind (g node) \<noteq> OptimizerOp \<and> r = rank_at p c node \<and> r \<noteq> None \<and> n = nrank_at p node) \<and>
     (\<forall>(node, s') \<in> set st. kind (g node) \<noteq> OptimizerOp \<and> rank_at p c node \<noteq> None \<and> s' < t \<longrightarrow>
        s' \<le> s \<and> r = rank_at p c node \<and> n = nrank_at p node)"
proof -
  let ?t = "max 1 ((Max (snd ` set st) + 1) div 2)" and ?m0 = "\<lparr>my_stages = [], my_dp_rank = None, my_dp_nrank = None\<rparr>"
  from assms obtain m where l: "foldE (visit_stage g c ?t) (p, ?m0) st = Inr (p', m)"
    and m: "my_stages m \<noteq> []" "s = Max (set (my_stages m))" "t = ?t" "r = my_dp_rank m" "n = my_dp_nrank m"
    by (auto simp: get_pipeline_stage_info_def Let_def elim!: bindE_InrE split: if_splits)
  have "same_workers p p" and "place_of g p c ?t [] ?m0" by (simp_all add: same_workers_def place_of_def)
  from visit_stages_place [OF l this] have place: "place_of g p c t st m" using m(3) by simp
  have "s \<in> set (my_stages m)" using m(1,2) by simp
  then obtain e where e: "e \<in> set st" "runs_here g p c t e" "s = snd e"
    using place by (auto simp: place_of_def)
  have "\<exists>node. (node, s) \<in> set st \<and> kind (g node) \<noteq> OptimizerOp \<and> r = rank_at p c node \<and> r \<noteq> None \<and> n = nrank_at p node"
    using e place m(4,5) by (intro exI [of _ "fst e"]) (auto simp: place_of_def runs_here_def)
  moreover have "s' \<le> s \<and> r = rank_at p c node \<and> n = nrank_at p node"
    if "(node, s') \<in> set st" "kind (g node) \<noteq> OptimizerOp" "rank_at p c node \<noteq> None" "s' < t" for node s'
  proof -
    have here: "runs_here g p c t (node, s')" using that by (simp add: runs_here_def)
    then have "s' \<in> set (my_stages m)" using place that(1) by (force simp: place_of_def)
    then show ?thesis using here that(1) place m(2,4,5) by (force simp: place_of_def)
  qed
  ultimately show ?thesis using e(2,3) m(3) by (auto simp: runs_here_def)
qed

definition pair_groups :: "nat \<Rightarrow> device_group" where
  "pair_groups a =
     (let us = map (\<lambda>i. One (rgpu ''h'' ''h'' i)) (if a = 0 then [0, 1] else [2, 3]) in
      \<lparr>contexts = us, workers = us, servers = [], is_mp = False, mp_dev_num = Some 1, dp_index = None, mp_index = None\<rparr>)"

definition diamond_placement :: placement where
  "diamond_placement = \<lparr>raw_ctx = (\<lambda>n. Some (if n < 2 then 0 else 1)), group_at = pair_groups\<rparr>"

theorem stages_are_longest_paths_witness:
  "\<exists>st. stage_index diamond diamond_placement (card {0, 1, 2, 3 :: nat}) [3] = Inr st \<and>
     fst ` set st = {x. \<exists>n \<in> set [3]. reaches diamond n x} \<and>
     (\<forall>x s. map_of st x = Some s \<longrightarrow>
        path_cost diamond diamond_placement x s \<and> (\<forall>k. path_cost diamond diamond_placement x k \<longrightarrow> k \<le> s))"
  by (rule stages_are_longest_paths [OF _ _ _ diamond_acyclic])
     (auto simp: closed_graph_def diamond_def plain_op_def diamond_placement_def)

definition diamond_stages :: stages where
  "diamond_stages = [(3, 1), (1, 0), (0, 0), (2, 1)]"

lemma diamond_stage_index: "stage_index diamond diamond_placement 5 [3] = Inr diamond_stages"
  by code_simp

lemma diamond_stage_info:
  "\<exists>p'. get_pipeline_stage_info diamond diamond_placement 5 [3] (rgpu ''h'' ''h'' 1) = Inr (p', 0, 1, Some 1, Some 2)"
  unfolding get_pipeline_stage_info_def diamond_stage_index
  by (simp add: diamond_stages_def visit_stage_def diamond_def plain_op_def diamond_placement_def ctx_address_def
      pair_groups_def set_index_def Let_def ctx_eq_def ctx_key_def rgpu_def DLContext_def local_dp_def worker_num_def)

theorem stage_info_places_device_witness:
  "0 < (1 :: nat) \<and> 1 = max 1 ((Max (snd ` set diamond_stages) + 1) div 2) \<and>
     (\<exists>node. (node, 0) \<in> set diamond_stages \<and> kind (diamond node) \<noteq> OptimizerOp \<and>
        Some 1 = rank_at diamond_placement (rgpu ''h'' ''h'' 1) node \<and> Some (1 :: int) \<noteq> None \<and>
        Some 2 = nrank_at diamond_placement node)"
proof -
  obtain p' where "get_pipeline_stage_info diamond diamond_placement 5 [3] (rgpu ''h'' ''h'' 1) = Inr (p', 0, 1, Some 1, Some 2)"
    using diamond_stage_info by blast
  from stage_info_places_device [OF this diamond_stage_index] show ?thesis by blast
qed

section \<open>A straight pipeline\<close>

text \<open>
  A chain of \<open>n\<close> forward operators on \<open>n\<close> devices, \<open>n\<close> backward operators in the opposite
  order on the same devices, and the optimizer that takes the results of all of them.
\<close>

definition pipe_device :: "nat \<Rightarrow> ctx" where
  "pipe_device i = rgpu ''h'' ''h'' (int i)"

definition pipe_group :: "nat \<Rightarrow> device_group" where
  "pipe_group i = \<lparr>contexts = [One (pipe_device i)], workers = [One (pipe_device i)], servers = [], is_mp = False,
     mp_dev_num = Some 1, dp_index = None, mp_index = None\<rparr>"

definition straight_graph :: "nat \<Rightarrow> graph" where
  "straight_graph n j = (if j = 2 * n then plain_op OptimizerOp [n..<2 * n]
                         else plain_op OtherOp (if j = 0 \<or> 2 * n < j then [] else [j - 1]))"

definition device_of :: "nat \<Rightarrow> nat \<Rightarrow> nat" where
  "device_of n j = (if j < n then j else 2 * n - 1 - j)"

definition straight_placement :: "nat \<Rightarrow> placement" where
  "straight_placement n = \<lparr>raw_ctx = (\<lambda>j. Some (device_of n j)), group_at = pipe_group\<rparr>"

definition straight_stage :: "nat \<Rightarrow> nat \<Rightarrow> nat" where
  "straight_stage n j = (if j < n then j else if j < 2 * n then j - 1 else 2 * n - 1)"

lemma pipe_device_eq [simp]: "ctx_eq (pipe_device i) (pipe_device j) \<longleftrightarrow> i = j"
  by (simp add: ctx_eq_def ctx_key_def pipe_device_def rgpu_def DLContext_def)

lemma straight_articulation:
  "is_pipeline_articulation (straight_graph n) (straight_placement n) j m =
     Inr (j = 2 * n \<or> device_of n j \<noteq> device_of n m)"
  by (simp add: is_pipeline_articulation_def straight_graph_def straight_placement_def workers_of_def
      ctx_address_def pipe_group_def plain_op_def share_device_def unit_devices_def)

lemma straight_acyclic: "acyclic_graph (straight_graph n)"
  by (rule ranked_acyclic [of _ id])
     (auto simp: straight_graph_def plain_op_def split: if_splits)

lemma straight_deepest:
  assumes "0 < n" and "j \<le> 2 * n"
  shows "deepest (straight_graph n) (straight_placement n) j (straight_stage n j)"
  using assms(2)
proof (induction j rule: less_induct)
  case (less j)
  let ?g = "straight_graph n" and ?p = "straight_placement n"
  have IH: "deepest ?g ?p m (straight_stage n m)" if "m < j" for m using less that by simp
  have "covers ?g ?p j (inputs (?g j)) 0 (straight_stage n j)"
  proof (cases "j = 2 * n")
    case True
    have last: "hop True (straight_stage n (2 * n - 1)) = straight_stage n j"
      using assms(1) True by (cases n) (auto simp: straight_stage_def hop_def)
    have "hop True (straight_stage n m) \<le> straight_stage n j" if "m \<in> {n..<2 * n}" for m
      using that True by (auto simp: straight_stage_def hop_def)
    moreover have "2 * n - 1 \<in> {n..<2 * n}" using assms(1) by auto
    moreover have "is_pipeline_articulation ?g ?p j m = Inr True" for m using True by (simp add: straight_articulation)
    moreover have "set (inputs (?g j)) = {n..<2 * n}" using True by (simp add: straight_graph_def plain_op_def)
    ultimately show ?thesis
      using IH True last unfolding covers_def by (metis atLeastLessThan_iff le0)
  next
    case False
    show ?thesis
    proof (cases "j = 0")
      case True
      then show ?thesis using assms(1) by (simp add: covers_def straight_graph_def plain_op_def straight_stage_def)
    next
      case pos: False
      have "hop (device_of n j \<noteq> device_of n (j - 1)) (straight_stage n (j - 1)) = straight_stage n j"
        using assms(1) False pos less.prems by (auto simp: hop_def straight_stage_def device_of_def)
      moreover have "inputs (?g j) = [j - 1]" using False pos less.prems by (simp add: straight_graph_def plain_op_def)
      moreover have "is_pipeline_articulation ?g ?p j (j - 1) = Inr (device_of n j \<noteq> device_of n (j - 1))"
        using False by (simp add: straight_articulation)
      ultimately show ?thesis using IH [of "j - 1"] pos unfolding covers_def by auto
    qed
  qed
  then show ?case by (rule deepest_if_covers)
qed

lemma straight_rank:
  "rank_at (straight_placement n) (pipe_device i) j = (if device_of n j = i then Some 0 else None)"
  "nrank_at (straight_placement n) j = Some 1"
  by (auto simp: rank_at_def nrank_at_def straight_placement_def pipe_group_def set_index_def local_dp_def worker_num_def)

lemma straight_visits:
  assumes "same_workers (straight_placement n) q" and "my_dp_rank m \<in> {None, Some 0}" and "my_dp_nrank m \<in> {None, Some 1}"
  shows "\<exists>q' m'. foldE (visit_stage g (pipe_device i) t) (q, m) es = Inr (q', m')"
  using assms
proof (induction es arbitrary: q m)
  case (Cons e es)
  obtain j s where e: "e = (j, s)" by (cases e)
  let ?grp = "set_index (pipe_device i) (group_at q (device_of n j))"
  have a: "raw_ctx q j = Some (device_of n j)" and w: "workers (group_at q b) = [One (pipe_device b)]" for b
    using Cons.prems(1) by (simp_all add: same_workers_def straight_placement_def pipe_group_def)
  have grp: "dp_index ?grp = Some (if device_of n j = i then 0 else - 1)" "worker_num ?grp = 1"
    by (auto simp: set_index_def w worker_num_def)
  then have loc: "local_dp ?grp \<longleftrightarrow> device_of n j = i" by (simp add: local_dp_def)
  have "\<exists>q1 m1. visit_stage g (pipe_device i) t (q, m) e = Inr (q1, m1) \<and>
      same_workers (straight_placement n) q1 \<and> my_dp_rank m1 \<in> {None, Some 0} \<and> my_dp_nrank m1 \<in> {None, Some 1}"
    using Cons.prems a grp loc e
    by (auto simp: visit_stage_def ctx_address_def Let_def same_workers_def worker_num_def)
  then obtain q1 m1 where "visit_stage g (pipe_device i) t (q, m) e = Inr (q1, m1)"
    and "same_workers (straight_placement n) q1" "my_dp_rank m1 \<in> {None, Some 0}" "my_dp_nrank m1 \<in> {None, Some 1}"
    by blast
  with Cons.IH [of q1 m1] show ?case by simp
qed simp

lemma straight_reached:
  assumes "0 < n"
  shows "reached_from (straight_graph n) {2 * n} = {..2 * n}"
proof
  have "reaches (straight_graph n) j x \<Longrightarrow> x \<le> j \<or> 2 * n < j" for j x
    by (induction rule: reaches.induct) (auto simp: straight_graph_def plain_op_def split: if_splits)
  then show "reached_from (straight_graph n) {2 * n} \<subseteq> {..2 * n}"
    by (force simp: reached_from_def)
  have down: "reaches (straight_graph n) (j + k) j" if "j + k < 2 * n" for j k
    using that by (induction k) (auto intro: reaches_refl reaches_step simp: straight_graph_def plain_op_def)
  have "reaches (straight_graph n) (2 * n) x" if "x \<le> 2 * n" for x
  proof (cases "x = 2 * n")
    case False
    have "2 * n - 1 \<in> set (inputs (straight_graph n (2 * n)))" using assms by (auto simp: straight_graph_def plain_op_def)
    moreover have "reaches (straight_graph n) (2 * n - 1) x"
      using down [of x "2 * n - 1 - x"] that False by simp
    ultimately show ?thesis by (rule reaches_step)
  qed (simp add: reaches_refl)
  then show "{..2 * n} \<subseteq> reached_from (straight_graph n) {2 * n}" by (auto simp: reached_from_def)
qed

text \<open>A pipeline of \<open>n\<close> forward operators on \<open>n\<close> devices, followed by the backward operators in
  the opposite order and the optimizer, has \<open>n\<close> stages, and the device of the \<open>i\<close>-th operator is told
  stage \<open>i\<close>, as rank 0 of 1.\<close>

theorem straight_pipeline_has_n_stages:
  assumes "i < n"
  shows "\<exists>p'. get_pipeline_stage_info (straight_graph n) (straight_placement n) (2 * n + 1) [2 * n] (pipe_device i) =
     Inr (p', i, n, Some 0, Some 1)"
proof -
  let ?g = "straight_graph n" and ?p = "straight_placement n" and ?c = "pipe_device i"
  have n: "0 < n" using assms by simp
  have "closed_graph ?g {..2 * n}" by (auto simp: closed_graph_def straight_graph_def plain_op_def)
  then obtain st where st: "stage_index ?g ?p (2 * n + 1) [2 * n] = Inr st"
    using stage_index_total [of "{..2 * n}" ?g ?p "[2 * n]" "[]"] by (auto simp: stage_index_def straight_placement_def)
  have "stages_done ?g ?p []" by (simp add: stages_done_def stages_right_def)
  from stage_index_done [OF st [unfolded stage_index_def] straight_acyclic this]
  have keys: "fst ` set st = {..2 * n}" and "stages_right ?g ?p st UNIV"
    by (simp_all add: straight_reached [OF n] stages_done_def)
  then have val: "map_of st j = Some (straight_stage n j)" if j: "j \<le> 2 * n" for j
  proof -
    obtain y where y: "map_of st j = Some y" using keys j has_key_iff [of j st] by auto
    with \<open>stages_right ?g ?p st UNIV\<close> have "deepest ?g ?p j y" by (simp add: stages_right_def)
    from deepest_unique [OF this straight_deepest [OF n j]] y show ?thesis by simp
  qed
  have "distinct (map fst st)"
    using st stage_distinct(1) [of ?g ?p "2 * n + 1" "2 * n" "[]" st] by (auto simp: stage_index_def elim: bindE_InrE)
  then have entry: "(j, s) \<in> set st \<longleftrightarrow> j \<le> 2 * n \<and> s = straight_stage n j" for j s
    using val keys by (metis atMost_iff fst_conv image_eqI map_of_SomeD map_of_is_SomeI option.inject)
  have "Max (snd ` set st) = 2 * n - 1"
  proof (rule Max_eqI)
    show "y \<le> 2 * n - 1" if "y \<in> snd ` set st" for y using that n by (auto simp: entry straight_stage_def)
    have "(2 * n, 2 * n - 1) \<in> set st" by (simp add: entry straight_stage_def)
    then show "2 * n - 1 \<in> snd ` set st" by force
  qed simp
  then have total: "max 1 ((Max (snd ` set st) + 1) div 2) = n" using n by simp
  let ?m0 = "\<lparr>my_stages = [], my_dp_rank = None, my_dp_nrank = None\<rparr>"
  obtain p' m where l: "foldE (visit_stage ?g ?c n) (?p, ?m0) st = Inr (p', m)"
    using straight_visits [of n ?p ?m0 ?g i n st] by (auto simp: same_workers_def)
  have "same_workers ?p ?p" and "place_of ?g ?p ?c n [] ?m0" by (simp_all add: same_workers_def place_of_def)
  from visit_stages_place [OF l this] have place: "place_of ?g ?p ?c n st m" by simp
  have here: "runs_here ?g ?p ?c n (j, s) \<longleftrightarrow> j \<noteq> 2 * n \<and> device_of n j = i \<and> s < n" for j s
    by (simp add: runs_here_def straight_rank straight_graph_def plain_op_def)
  have first: "(i, i) \<in> set st" "runs_here ?g ?p ?c n (i, i)"
    using assms by (simp_all add: entry here straight_stage_def device_of_def)
  have "s = i" if "(j, s) \<in> set st" "runs_here ?g ?p ?c n (j, s)" for j s
    using that n by (auto simp: entry here straight_stage_def device_of_def split: if_splits)
  then have "set (my_stages m) = {i}" using place first by (force simp: place_of_def)
  moreover have "my_dp_rank m = Some 0" "my_dp_nrank m = Some 1"
    using place first by (auto simp: place_of_def here straight_rank dest!: bspec)
  ultimately show ?thesis using st l total first(1) by (auto simp: get_pipeline_stage_info_def)
qed

section \<open>The launch configuration\<close>

datatype comm_strategy = PS | AllReduce

record launch =
  node_strategy :: "(nat \<times> comm_strategy option) list"
  launch_devices :: "ctx list"
  min_worker_num :: nat
  lcm_worker_num :: nat

text \<open>The recursive \<open>gcd\<close>, and a set of contexts as the list of its elements.\<close>

function gcd_rec :: "nat \<Rightarrow> nat \<Rightarrow> nat" where
  "gcd_rec a b = (if a < b then gcd_rec b a else if b = 0 \<or> a = b then a else gcd_rec b (a mod b))"
  by pat_completeness auto
termination
  by (relation "measure (\<lambda>(a, b). 2 * b + (if a < b then 1 else 0))") (auto, meson mod_less_divisor less_asym)

declare gcd_rec.simps [simp del]

definition add_device :: "ctx \<Rightarrow> ctx list \<Rightarrow> ctx list" where
  "add_device c ds = (if list_ex (ctx_eq c) ds then ds else ds @ [c])"

definition add_unit :: "ctx_unit \<Rightarrow> ctx list \<Rightarrow> ctx list" where
  "add_unit u ds = fold add_device (unit_devices u) ds"

definition add_context :: "device_group \<Rightarrow> ctx list \<Rightarrow> ctx list" where
  "add_context grp ds = fold add_unit (contexts grp) ds"

definition node_workers :: "placement \<Rightarrow> nat \<Rightarrow> nat" where
  "node_workers p node = (case raw_ctx p node of None \<Rightarrow> 1 | Some a \<Rightarrow> worker_num (group_at p a))"

definition strategy_of :: "placement \<Rightarrow> nat \<Rightarrow> comm_strategy option" where
  "strategy_of p node =
     (case raw_ctx p node of
        None \<Rightarrow> None
      | Some a \<Rightarrow>
          if 0 < server_num (group_at p a) \<and> 0 < node_workers p node then Some PS
          else if 1 < node_workers p node then Some AllReduce else None)"

text \<open>The body of \<open>traverse_dfs\<close> before its recursive calls.\<close>

definition count_workers :: "bool \<Rightarrow> nat \<Rightarrow> launch \<Rightarrow> launch result" where
  "count_workers pipeline cur st =
     (if pipeline then
        (let g = gcd_rec cur (lcm_worker_num st) in
         if g = 0 then Inl ZeroDivisionError
         else Inr (st\<lparr>min_worker_num := min cur (min_worker_num st),
                      lcm_worker_num := cur * lcm_worker_num st div g\<rparr>))
      else assertE (cur = min_worker_num st) (Inr st))"

definition visit_launch :: "graph \<Rightarrow> placement \<Rightarrow> bool \<Rightarrow> launch \<Rightarrow> nat \<Rightarrow> launch result" where
  "visit_launch g p pipeline st node =
     bindE (if kind (g node) = DataloaderOp then Inr st else count_workers pipeline (node_workers p node) st) (\<lambda>st.
     let st = st\<lparr>node_strategy := AList.update node (strategy_of p node) (node_strategy st)\<rparr> in
     if kind (g node) \<in> {DispatchOp, DispatchGradientOp, OptimizerOp} then Inr st
     else case raw_ctx p node of
            None \<Rightarrow> Inl TypeError
          | Some a \<Rightarrow> Inr (st\<lparr>launch_devices := add_context (group_at p a) (launch_devices st)\<rparr>))"

fun launch_dfs :: "graph \<Rightarrow> placement \<Rightarrow> bool \<Rightarrow> nat \<Rightarrow> nat \<Rightarrow> launch \<Rightarrow> launch result"
  and launch_loop :: "graph \<Rightarrow> placement \<Rightarrow> bool \<Rightarrow> nat \<Rightarrow> nat list \<Rightarrow> launch \<Rightarrow> launch result"
where
  "launch_dfs g p pipeline k node st =
     (if has_key (node_strategy st) node then Inr st
      else case k of
             0 \<Rightarrow> Inl RuntimeError
           | Suc k' \<Rightarrow> bindE (visit_launch g p pipeline st node) (launch_loop g p pipeline k' (inputs (g node))))"
| "launch_loop g p pipeline k [] st = Inr st"
| "launch_loop g p pipeline k (n # ns) st = bindE (launch_dfs g p pipeline k n st) (launch_loop g p pipeline k ns)"

definition initial_launch :: "device_group \<Rightarrow> launch" where
  "initial_launch default_ctx =
     \<lparr>node_strategy = [], launch_devices = add_context default_ctx [],
      min_worker_num = worker_num default_ctx, lcm_worker_num = worker_num default_ctx\<rparr>"

definition get_launch_config_by_traverse_nodes ::
  "graph \<Rightarrow> placement \<Rightarrow> nat \<Rightarrow> nat list \<Rightarrow> device_group \<Rightarrow> bool \<Rightarrow> (bool \<times> bool \<times> launch) result" where
  "get_launch_config_by_traverse_nodes g p fuel node_list default_ctx pipeline =
     bindE (launch_loop g p pipeline fuel node_list (initial_launch default_ctx)) (\<lambda>st.
       let launchPS = 0 < server_num default_ctx;
           launchMPI = \<not> launchPS \<and> 1 < worker_num default_ctx in
       Inr (launchMPI \<or> Some AllReduce \<in> snd ` set (node_strategy st),
            launchPS \<or> Some PS \<in> snd ` set (node_strategy st), st))"

lemma gcd_rec_gcd: "gcd_rec a b = gcd a b"
proof (induction a b rule: gcd_rec.induct)
  case (1 a b)
  show ?case
  proof (cases "a < b")
    case True
    with "1.IH"(1) show ?thesis by (simp add: gcd_rec.simps [of a b] gcd.commute)
  next
    case le: False
    show ?thesis
    proof (cases "b = 0 \<or> a = b")
      case False
      with le "1.IH"(2) have "gcd_rec a b = gcd b (a mod b)" by (simp add: gcd_rec.simps [of a b])
      also have "\<dots> = gcd a b" by (metis gcd_red_nat)
      finally show ?thesis .
    qed (use le in \<open>auto simp: gcd_rec.simps [of a b]\<close>)
  qed
qed

declare launch_dfs.simps [simp del]

lemma count_workers_strategy: "count_workers pl cur st = Inr st' \<Longrightarrow> node_strategy st' = node_strategy st"
  by (auto simp: count_workers_def Let_def assertE_Inr_iff split: if_splits)

lemma visit_strategy:
  assumes "visit_launch g p pl st node = Inr st'"
  shows "node_strategy st' = AList.update node (strategy_of p node) (node_strategy st)"
  using assms
  by (auto simp: visit_launch_def Let_def dest!: count_workers_strategy elim!: bindE_InrE split: if_splits option.splits)

lemma visit_keys:
  "visit_launch g p pl st node = Inr st' \<Longrightarrow> has_key (node_strategy st') m \<longleftrightarrow> m = node \<or> has_key (node_strategy st) m"
  by (simp only: visit_strategy has_key_update)

lemma visits_keys:
  "foldE (visit_launch g p pl) st xs = Inr st' \<Longrightarrow> has_key (node_strategy st') m \<longleftrightarrow> m \<in> set xs \<or> has_key (node_strategy st) m"
proof (induction xs arbitrary: st)
  case (Cons x xs)
  then obtain st1 where v: "visit_launch g p pl st x = Inr st1" and l: "foldE (visit_launch g p pl) st1 xs = Inr st'"
    by (auto elim: bindE_InrE)
  from Cons.IH [OF l] visit_keys [OF v] show ?case by auto
qed simp

lemma launch_loop_reaches:
  shows "launch_dfs g p pl k node st = Inr st' \<Longrightarrow>
      fst ` set (node_strategy st') \<subseteq> fst ` set (node_strategy st) \<union> reached_from g {node}"
    and "launch_loop g p pl k ns st = Inr st' \<Longrightarrow>
      fst ` set (node_strategy st') \<subseteq> fst ` set (node_strategy st) \<union> reached_from g (set ns)"
proof (induction g p pl k node st and g p pl k ns st arbitrary: st' and st' rule: launch_dfs_launch_loop.induct)
  case (1 g p pl k node st)
  show ?case
  proof (cases "has_key (node_strategy st) node")
    case False
    with "1.prems" obtain k' st1 where k: "k = Suc k'" and v: "visit_launch g p pl st node = Inr st1"
      and l: "launch_loop g p pl k' (inputs (g node)) st1 = Inr st'"
      by (auto simp: launch_dfs.simps elim!: bindE_InrE split: nat.splits)
    have "reached_from g (set (inputs (g node))) \<subseteq> reached_from g {node}"
      by (auto simp: reached_from_def intro: reaches_step)
    moreover have "fst ` set (node_strategy st1) \<subseteq> fst ` set (node_strategy st) \<union> reached_from g {node}"
    proof
      fix m assume "m \<in> fst ` set (node_strategy st1)"
      then show "m \<in> fst ` set (node_strategy st) \<union> reached_from g {node}"
        using visit_keys [OF v, of m] reaches_refl [of g node] by (auto simp only: reached_from_def)
    qed
    ultimately show ?thesis using "1.IH" [OF False k v l] by (meson Un_least Un_upper2 subset_trans)
  qed (use "1.prems" in \<open>simp add: launch_dfs.simps\<close>)
next
  case 2 then show ?case by simp
next
  case (3 g p pl k n ns st)
  from "3.prems" obtain st1 where d: "launch_dfs g p pl k n st = Inr st1" and l: "launch_loop g p pl k ns st1 = Inr st'"
    by (auto elim: bindE_InrE)
  have "reached_from g (set (n # ns)) = reached_from g {n} \<union> reached_from g (set ns)"
    by (auto simp: reached_from_def)
  then show ?case using "3.IH"(1) [OF d] "3.IH"(2) [OF d l] by (simp only:) (meson Un_least Un_upper1 Un_upper2 sup.mono subset_trans sup_assoc subset_refl order.trans)
qed

text \<open>The traversal is a loop over the operators in the order in which it meets them.\<close>

lemma launch_is_fold:
  shows "launch_dfs g p pl k node st = Inr st' \<Longrightarrow>
      \<exists>xs. foldE (visit_launch g p pl) st xs = Inr st' \<and> (node \<in> set xs \<or> has_key (node_strategy st) node) \<and>
           (\<forall>x \<in> set xs. \<forall>m \<in> set (inputs (g x)). m \<in> set xs \<or> has_key (node_strategy st) m)"
    and "launch_loop g p pl k ns st = Inr st' \<Longrightarrow>
      \<exists>xs. foldE (visit_launch g p pl) st xs = Inr st' \<and> (\<forall>n \<in> set ns. n \<in> set xs \<or> has_key (node_strategy st) n) \<and>
           (\<forall>x \<in> set xs. \<forall>m \<in> set (inputs (g x)). m \<in> set xs \<or> has_key (node_strategy st) m)"
proof (induction g p pl k node st and g p pl k ns st arbitrary: st' and st' rule: launch_dfs_launch_loop.induct)
  case (1 g p pl k node st)
  show ?case
  proof (cases "has_key (node_strategy st) node")
    case True
    then have "foldE (visit_launch g p pl) st [] = Inr st'" using "1.prems" by (simp add: launch_dfs.simps)
    with True show ?thesis by (intro exI [of _ "[]"]) simp
  next
    case False
    with "1.prems" obtain k' st1 where k: "k = Suc k'" and v: "visit_launch g p pl st node = Inr st1"
      and l: "launch_loop g p pl k' (inputs (g node)) st1 = Inr st'"
      by (auto simp: launch_dfs.simps elim!: bindE_InrE split: nat.splits)
    from "1.IH" [OF False k v l] obtain xs where xs: "foldE (visit_launch g p pl) st1 xs = Inr st'"
      "\<forall>n \<in> set (inputs (g node)). n \<in> set xs \<or> has_key (node_strategy st1) n"
      "\<forall>x \<in> set xs. \<forall>m \<in> set (inputs (g x)). m \<in> set xs \<or> has_key (node_strategy st1) m"
      by (elim exE conjE) (rule that)
    have "has_key (node_strategy st1) m \<longleftrightarrow> m = node \<or> has_key (node_strategy st) m" for m
      by (rule visit_keys [OF v])
    with xs v show ?thesis by (intro exI [of _ "node # xs"]) (simp, blast)
  qed
next
  case (2 g p pl k st)
  then show ?case by (intro exI [of _ "[]"]) simp
next
  case (3 g p pl k n ns st)
  from "3.prems" obtain st1 where d: "launch_dfs g p pl k n st = Inr st1" and l: "launch_loop g p pl k ns st1 = Inr st'"
    by (auto elim: bindE_InrE)
  from "3.IH"(1) [OF d] obtain xs where xs: "foldE (visit_launch g p pl) st xs = Inr st1"
    "n \<in> set xs \<or> has_key (node_strategy st) n"
    "\<forall>x \<in> set xs. \<forall>m \<in> set (inputs (g x)). m \<in> set xs \<or> has_key (node_strategy st) m"
    by (elim exE conjE) (rule that)
  from "3.IH"(2) [OF d l] obtain ys where ys: "foldE (visit_launch g p pl) st1 ys = Inr st'"
    "\<forall>n \<in> set ns. n \<in> set ys \<or> has_key (node_strategy st1) n"
    "\<forall>x \<in> set ys. \<forall>m \<in> set (inputs (g x)). m \<in> set ys \<or> has_key (node_strategy st1) m"
    by (elim exE conjE) (rule that)
  have keys: "has_key (node_strategy st1) m \<longleftrightarrow> m \<in> set xs \<or> has_key (node_strategy st) m" for m
    by (rule visits_keys [OF xs(1)])
  have "foldE (visit_launch g p pl) st (xs @ ys) = Inr st'" using xs(1) ys(1) by (simp add: foldE_append)
  moreover have "\<forall>m \<in> set (n # ns). m \<in> set (xs @ ys) \<or> has_key (node_strategy st) m"
    using xs(2) ys(2) unfolding keys by auto
  moreover have "\<forall>x \<in> set (xs @ ys). \<forall>m \<in> set (inputs (g x)). m \<in> set (xs @ ys) \<or> has_key (node_strategy st) m"
    using xs(3) ys(3) unfolding keys by (simp add: ball_Un) blast
  ultimately show ?case by blast
qed

lemma add_device_keys: "ctx_key ` set (add_device c ds) = insert (ctx_key c) (ctx_key ` set ds)"
  by (auto simp: add_device_def list_ex_iff ctx_eq_def)

lemma add_unit_keys: "ctx_key ` set (add_unit u ds) = ctx_key ` set (unit_devices u) \<union> ctx_key ` set ds"
proof -
  have "ctx_key ` set (fold add_device cs ds) = ctx_key ` set cs \<union> ctx_key ` set ds" for cs
    by (induction cs arbitrary: ds) (auto simp: add_device_keys)
  then show ?thesis by (simp add: add_unit_def)
qed

definition context_keys :: "device_group \<Rightarrow> (string option \<times> int \<times> int) set" where
  "context_keys grp = (\<Union>u \<in> set (contexts grp). ctx_key ` set (unit_devices u))"

lemma add_context_keys: "ctx_key ` set (add_context grp ds) = context_keys grp \<union> ctx_key ` set ds"
proof -
  have "ctx_key ` set (fold add_unit us ds) = (\<Union>u \<in> set us. ctx_key ` set (unit_devices u)) \<union> ctx_key ` set ds" for us
    by (induction us arbitrary: ds) (auto simp: add_unit_keys)
  then show ?thesis by (simp add: add_context_def context_keys_def)
qed

definition worker_counts :: "graph \<Rightarrow> placement \<Rightarrow> nat \<Rightarrow> nat set \<Rightarrow> nat set" where
  "worker_counts g p w0 X = insert w0 (node_workers p ` {x \<in> X. kind (g x) \<noteq> DataloaderOp})"

definition devices_of_nodes :: "graph \<Rightarrow> placement \<Rightarrow> nat set \<Rightarrow> (string option \<times> int \<times> int) set" where
  "devices_of_nodes g p X =
     (\<Union>x \<in> {x \<in> X. kind (g x) \<notin> {DispatchOp, DispatchGradientOp, OptimizerOp}}.
        case raw_ctx p x of None \<Rightarrow> {} | Some a \<Rightarrow> context_keys (group_at p a))"

definition launch_inv :: "graph \<Rightarrow> placement \<Rightarrow> bool \<Rightarrow> device_group \<Rightarrow> nat set \<Rightarrow> launch \<Rightarrow> bool" where
  "launch_inv g p pl d X st \<longleftrightarrow>
     (\<forall>n s. map_of (node_strategy st) n = Some s \<longrightarrow> s = strategy_of p n) \<and>
     min_worker_num st = Min (worker_counts g p (worker_num d) X) \<and>
     lcm_worker_num st = Lcm (worker_counts g p (worker_num d) X) \<and>
     (\<not> pl \<longrightarrow> worker_counts g p (worker_num d) X = {worker_num d}) \<and>
     ctx_key ` set (launch_devices st) = context_keys d \<union> devices_of_nodes g p X"

lemma worker_counts_insert:
  "worker_counts g p w (insert x X) =
     (if kind (g x) = DataloaderOp then worker_counts g p w X else insert (node_workers p x) (worker_counts g p w X))"
  by (auto simp: worker_counts_def)

lemma count_workers_inv:
  assumes "count_workers pl c st = Inr st'" and "finite W" and "W \<noteq> {}"
    and "min_worker_num st = Min W" and "lcm_worker_num st = Lcm W" and "\<not> pl \<longrightarrow> W = {w}"
  shows "min_worker_num st' = Min (insert c W) \<and> lcm_worker_num st' = Lcm (insert c W) \<and> (\<not> pl \<longrightarrow> insert c W = {w}) \<and>
    launch_devices st' = launch_devices st"
  using assms
  by (auto simp: count_workers_def Let_def gcd_rec_gcd assertE_Inr_iff lcm_nat_def split: if_splits)

lemma visit_launch_inv:
  assumes "visit_launch g p pl st x = Inr st'" and "launch_inv g p pl d X st" and "finite X"
  shows "launch_inv g p pl d (insert x X) st'"
proof -
  let ?W = "worker_counts g p (worker_num d) X"
  from assms(1) obtain st1 where c: "(if kind (g x) = DataloaderOp then Inr st else count_workers pl (node_workers p x) st) = Inr st1"
    by (auto simp: visit_launch_def elim: bindE_InrE)
  have W: "finite ?W" "?W \<noteq> {}" using assms(3) by (simp_all add: worker_counts_def)
  have one: "min_worker_num st1 = Min (worker_counts g p (worker_num d) (insert x X)) \<and>
      lcm_worker_num st1 = Lcm (worker_counts g p (worker_num d) (insert x X)) \<and>
      (\<not> pl \<longrightarrow> worker_counts g p (worker_num d) (insert x X) = {worker_num d}) \<and> launch_devices st1 = launch_devices st"
  proof (cases "kind (g x) = DataloaderOp")
    case True
    with c assms(2) show ?thesis by (simp add: launch_inv_def worker_counts_insert)
  next
    case False
    with c have "count_workers pl (node_workers p x) st = Inr st1" by simp
    from count_workers_inv [OF this W, of "worker_num d"] assms(2) False show ?thesis
      by (simp add: launch_inv_def worker_counts_insert)
  qed
  have dev: "devices_of_nodes g p (insert x X) =
      (if kind (g x) \<in> {DispatchOp, DispatchGradientOp, OptimizerOp} then {}
       else case raw_ctx p x of None \<Rightarrow> {} | Some a \<Rightarrow> context_keys (group_at p a)) \<union> devices_of_nodes g p X"
    by (auto simp: devices_of_nodes_def)
  let ?st2 = "st1\<lparr>node_strategy := AList.update x (strategy_of p x) (node_strategy st1)\<rparr>"
  have body: "(if kind (g x) \<in> {DispatchOp, DispatchGradientOp, OptimizerOp} then Inr ?st2
      else case raw_ctx p x of None \<Rightarrow> Inl TypeError
           | Some a \<Rightarrow> Inr (?st2\<lparr>launch_devices := add_context (group_at p a) (launch_devices ?st2)\<rparr>)) = Inr st'"
    using assms(1) unfolding visit_launch_def c by (simp only: bindE_simps Let_def)
  have devs: "ctx_key ` set (launch_devices st1) = context_keys d \<union> devices_of_nodes g p X"
    using one assms(2) by (simp add: launch_inv_def)
  have rest: "min_worker_num st' = min_worker_num st1 \<and> lcm_worker_num st' = lcm_worker_num st1 \<and>
    ctx_key ` set (launch_devices st') = context_keys d \<union> devices_of_nodes g p (insert x X)"
  proof (cases "kind (g x) \<in> {DispatchOp, DispatchGradientOp, OptimizerOp}")
    case True
    with body have "st' = ?st2" by simp
    then show ?thesis using True devs by (simp add: dev)
  next
    case False
    with body obtain a where "raw_ctx p x = Some a" "st' = ?st2\<lparr>launch_devices := add_context (group_at p a) (launch_devices ?st2)\<rparr>"
      by (simp split: option.splits)
    then show ?thesis using False devs by (auto simp: dev add_context_keys)
  qed
  have "\<forall>n s. map_of (node_strategy st') n = Some s \<longrightarrow> s = strategy_of p n"
    using visit_strategy [OF assms(1)] assms(2) by (simp add: launch_inv_def update_conv')
  with one rest show ?thesis by (simp add: launch_inv_def)
qed

lemma visits_inv:
  assumes "foldE (visit_launch g p pl) st xs = Inr st'" and "launch_inv g p pl d X st" and "finite X"
  shows "launch_inv g p pl d (X \<union> set xs) st'"
  using assms
proof (induction xs arbitrary: st X)
  case (Cons x xs)
  then obtain st1 where v: "visit_launch g p pl st x = Inr st1" and l: "foldE (visit_launch g p pl) st1 xs = Inr st'"
    by (auto elim: bindE_InrE)
  from Cons.IH [OF l visit_launch_inv [OF v Cons.prems(2,3)]] Cons.prems(3) show ?case by simp
qed simp

text \<open>The launch configuration of a graph: the strategies are those of the operators that the
  requested ones depend on, the devices are those of the default context and of the operators that
  run code, the two numbers are the least and the least common multiple of the numbers of workers,
  and without pipeline parallelism all operators have as many workers as the default context.\<close>

theorem launch_config_describes_graph:
  assumes "get_launch_config_by_traverse_nodes g p fuel node_list d pipeline = Inr (mpi, ps, st)"
  shows "fst ` set (node_strategy st) = {x. \<exists>n \<in> set node_list. reaches g n x} \<and>
     (\<forall>n s. map_of (node_strategy st) n = Some s \<longrightarrow> s = strategy_of p n) \<and>
     min_worker_num st = Min (worker_counts g p (worker_num d) (fst ` set (node_strategy st))) \<and>
     lcm_worker_num st = Lcm (worker_counts g p (worker_num d) (fst ` set (node_strategy st))) \<and>
     (\<not> pipeline \<longrightarrow> worker_counts g p (worker_num d) (fst ` set (node_strategy st)) = {worker_num d}) \<and>
     ctx_key ` set (launch_devices st) = context_keys d \<union> devices_of_nodes g p (fst ` set (node_strategy st))"
proof -
  from assms have l: "launch_loop g p pipeline fuel node_list (initial_launch d) = Inr st"
    by (auto simp: get_launch_config_by_traverse_nodes_def Let_def elim: bindE_InrE)
  from launch_is_fold(2) [OF l] obtain xs where xs: "foldE (visit_launch g p pipeline) (initial_launch d) xs = Inr st"
    and "\<forall>n \<in> set node_list. n \<in> set xs" and "\<forall>x \<in> set xs. \<forall>m \<in> set (inputs (g x)). m \<in> set xs"
    by (auto simp: initial_launch_def)
  have "set xs \<subseteq> reached_from g (set node_list)"
    using launch_loop_reaches(2) [OF l] visits_keys [OF xs] by (auto simp: initial_launch_def)
  moreover have "reached_from g (set node_list) \<subseteq> set xs"
    by (rule reached_closed) (use \<open>\<forall>n \<in> set node_list. n \<in> set xs\<close> \<open>\<forall>x \<in> set xs. \<forall>m \<in> set (inputs (g x)). m \<in> set xs\<close> in auto)
  ultimately have set_xs: "set xs = {x. \<exists>n \<in> set node_list. reaches g n x}" by (auto simp: reached_from_def)
  have keys: "fst ` set (node_strategy st) = set xs" using visits_keys [OF xs] by (auto simp: initial_launch_def)
  have "launch_inv g p pipeline d {} (initial_launch d)"
    by (simp add: launch_inv_def initial_launch_def worker_counts_def add_context_keys devices_of_nodes_def)
  from visits_inv [OF xs this] have "launch_inv g p pipeline d (set xs) st" by simp
  then show ?thesis using keys set_xs by (simp add: launch_inv_def)
qed

theorem straight_pipeline_has_n_stages_witness:
  "\<exists>p'. get_pipeline_stage_info (straight_graph 3) (straight_placement 3) (2 * 3 + 1) [2 * 3] (pipe_device 1) =
     Inr (p', 1, 3, Some 0, Some 1)"
  by (rule straight_pipeline_has_n_stages) simp

section \<open>The launch configuration describes the graph\<close>

definition diamond_launch :: launch where
  "diamond_launch = \<lparr>node_strategy = [(3, Some AllReduce), (1, Some AllReduce), (0, Some AllReduce), (2, Some AllReduce)],
     launch_devices = map (rgpu ''h'' ''h'') [0, 1, 2, 3], min_worker_num = 2, lcm_worker_num = 2\<rparr>"

lemma diamond_launch_config:
  "get_launch_config_by_traverse_nodes diamond diamond_placement 4 [3] (pair_groups 0) False = Inr (True, False, diamond_launch)"
  by code_simp

theorem launch_config_describes_graph_witness:
  "fst ` set (node_strategy diamond_launch) = {x. \<exists>n \<in> set [3]. reaches diamond n x} \<and>
     min_worker_num diamond_launch =
       Min (worker_counts diamond diamond_placement (worker_num (pair_groups 0)) (fst ` set (node_strategy diamond_launch)))"
  using launch_config_describes_graph [OF diamond_launch_config] by blast

text \<open>
  Two operators without a GPU worker make the least common multiple zero and end the launch of a
  pipeline with a division by zero, instead of a diagnosis.
\<close>

theorem two_cpu_operators_divide_by_zero:
  assumes "worker_num (group_at p a) = 0" and "raw_ctx p n = Some a" and "kind (g n) = OtherOp"
    and "lcm_worker_num st = 0"
  shows "visit_launch g p True st n = Inl ZeroDivisionError"
  using assms by (simp add: visit_launch_def count_workers_def node_workers_def gcd_rec_gcd Let_def)

theorem two_cpu_operators_divide_by_zero_witness:
  "visit_launch (\<lambda>n. plain_op OtherOp []) \<lparr>raw_ctx = (\<lambda>n. Some 0), group_at = (\<lambda>a. (pipe_group 0)\<lparr>workers := []\<rparr>)\<rparr> True
     (initial_launch ((pipe_group 0)\<lparr>workers := []\<rparr>)) 3 = Inl ZeroDivisionError"
  by (rule two_cpu_operators_divide_by_zero [where a = 0])
     (simp_all add: worker_num_def plain_op_def initial_launch_def)

end
