(* ===== verification/LrScheduler.thy ===== *)
theory LrScheduler imports Complex_Main Prelude begin

text \<open>
  The learning-rate schedules of \<open>hetu/v1/python/hetu/lr_scheduler.py\<close>. A schedule is a record
  of the attributes, \<open>step\<close> returns the rate and the changed record. The arithmetic is that of
  any linearly ordered type with the operations the code uses; no law of a field is used, so the
  statements do not depend on how the products are rounded.
\<close>

section \<open>Fixed rate\<close>

record 'r fixed_scheduler =
  fixed_rate :: 'r

definition FixedScheduler_step :: "'r fixed_scheduler \<Rightarrow> 'r \<times> 'r fixed_scheduler" where
  "FixedScheduler_step s = (fixed_rate s, s)"

definition FixedScheduler_get :: "'r fixed_scheduler \<Rightarrow> 'r" where
  "FixedScheduler_get s = fixed_rate s"

section \<open>Steps\<close>

record 'r step_scheduler =
  step_rate :: 'r
  step_size :: nat
  step_gamma :: 'r
  step_ending :: 'r
  step_reach_end :: bool
  step_cur :: nat

definition StepScheduler_init :: "'r \<Rightarrow> int \<Rightarrow> 'r \<Rightarrow> 'r \<Rightarrow> ('r :: {linorder, zero}) step_scheduler result" where
  "StepScheduler_init lr sz gamma ending =
     assertE (0 < sz \<and> 0 < gamma) (assertE (ending < lr) (assertE (0 \<le> ending)
       (Inr \<lparr>step_rate = lr, step_size = nat sz, step_gamma = gamma, step_ending = ending,
             step_reach_end = False, step_cur = 0\<rparr>)))"

definition StepScheduler_step :: "('r :: {linorder, times}) step_scheduler \<Rightarrow> 'r \<times> 'r step_scheduler" where
  "StepScheduler_step s =
     (if step_reach_end s then (step_ending s, s)
      else let s1 = (if 0 < step_cur s \<and> step_cur s mod step_size s = 0
                     then let r = step_rate s * step_gamma s in
                       if r \<le> step_ending s then s\<lparr>step_reach_end := True, step_rate := step_ending s\<rparr>
                       else s\<lparr>step_rate := r\<rparr>
                     else s);
               s2 = s1\<lparr>step_cur := step_cur s1 + 1\<rparr>
           in (step_rate s2, s2))"

section \<open>Milestones\<close>

record 'r multi_step_scheduler =
  multi_rate :: 'r
  milestones :: "int list"
  multi_gamma :: 'r
  multi_cur :: int

definition MultiStepScheduler_init :: "'r \<Rightarrow> int list \<Rightarrow> 'r \<Rightarrow> 'r multi_step_scheduler result" where
  "MultiStepScheduler_init lr ms gamma =
     bindE (py_nth ms 0) (\<lambda>m. assertE (0 < m)
       (assertE (list_all (\<lambda>i. ms ! (i - 1) < ms ! i) [1..<length ms])
         (Inr \<lparr>multi_rate = lr, milestones = ms, multi_gamma = gamma, multi_cur = 0\<rparr>)))"

definition MultiStepScheduler_step :: "('r :: times) multi_step_scheduler \<Rightarrow> 'r \<times> 'r multi_step_scheduler" where
  "MultiStepScheduler_step s =
     (case milestones s of
        [] \<Rightarrow> (multi_rate s, s)
      | m # ms \<Rightarrow>
          let s1 = (if multi_cur s = m
                    then s\<lparr>milestones := ms, multi_rate := multi_rate s * multi_gamma s\<rparr> else s);
              s2 = s1\<lparr>multi_cur := multi_cur s1 + 1\<rparr>
          in (multi_rate s2, s2))"

section \<open>Exponential decay\<close>

record 'r exponential_scheduler =
  exp_rate :: 'r
  exp_gamma :: 'r
  exp_ending :: 'r
  exp_reach_end :: bool

definition ExponentialScheduler_init :: "'r \<Rightarrow> 'r \<Rightarrow> 'r \<Rightarrow> ('r :: {linorder, zero}) exponential_scheduler result" where
  "ExponentialScheduler_init lr gamma ending =
     assertE (0 < gamma) (assertE (ending < lr) (assertE (0 \<le> ending)
       (Inr \<lparr>exp_rate = lr, exp_gamma = gamma, exp_ending = ending, exp_reach_end = False\<rparr>)))"

definition ExponentialScheduler_step :: "('r :: {linorder, times}) exponential_scheduler \<Rightarrow> 'r \<times> 'r exponential_scheduler" where
  "ExponentialScheduler_step s =
     (if exp_reach_end s then (exp_rate s, s)
      else let r = exp_rate s * exp_gamma s in
        (exp_rate s,
         if r \<le> exp_ending s then s\<lparr>exp_reach_end := True, exp_rate := exp_ending s\<rparr>
         else s\<lparr>exp_rate := r\<rparr>))"

section \<open>Reduction on a plateau\<close>

datatype plateau_mode = ModeMin | ModeMax
datatype threshold_mode = RelThreshold | AbsThreshold

record 'r plateau_scheduler =
  plateau_rate :: 'r
  plateau_mode :: plateau_mode
  factor :: 'r
  patience :: int
  threshold :: 'r
  threshold_mode :: threshold_mode
  cooldown :: int
  plateau_ending :: 'r
  step_in_cooldown :: int
  patience_step :: int
  last_value :: "'r option"
  plateau_reach_end :: bool

definition ReduceOnPlateauScheduler_init ::
  "'r \<Rightarrow> plateau_mode \<Rightarrow> 'r \<Rightarrow> int \<Rightarrow> 'r \<Rightarrow> threshold_mode \<Rightarrow> int \<Rightarrow> 'r \<Rightarrow>
     ('r :: {linorder, zero}) plateau_scheduler result" where
  "ReduceOnPlateauScheduler_init lr mode fac pat thr tmode cool ending =
     assertE (ending < lr) (assertE (0 < fac) (assertE (0 \<le> pat) (assertE (0 \<le> thr)
     (assertE (0 \<le> cool) (assertE (0 \<le> ending)
       (Inr \<lparr>plateau_rate = lr, plateau_mode = mode, factor = fac, patience = pat, threshold = thr,
             threshold_mode = tmode, cooldown = cool, plateau_ending = ending, step_in_cooldown = - 1,
             patience_step = 0, last_value = None, plateau_reach_end = False\<rparr>))))))"

definition best_value :: "plateau_mode \<Rightarrow> ('r :: linorder) option \<Rightarrow> 'r \<Rightarrow> 'r result" where
  "best_value mode best v =
     (case best of
        None \<Rightarrow> Inl TypeError
      | Some w \<Rightarrow> Inr (case mode of ModeMin \<Rightarrow> min w v | ModeMax \<Rightarrow> max w v))"

definition should_change :: "('r :: {linorder, minus, one, times}) plateau_scheduler \<Rightarrow> 'r \<Rightarrow> 'r \<Rightarrow> bool" where
  "should_change s best v =
     (let larger = (case plateau_mode s of ModeMin \<Rightarrow> best | ModeMax \<Rightarrow> v);
          smaller = (case plateau_mode s of ModeMin \<Rightarrow> v | ModeMax \<Rightarrow> best) in
      case threshold_mode s of
        RelThreshold \<Rightarrow> larger < (1 - threshold s) * smaller
      | AbsThreshold \<Rightarrow> larger < smaller - threshold s)"

definition ReduceOnPlateauScheduler_step ::
  "('r :: {linorder, minus, one, times}) plateau_scheduler \<Rightarrow> 'r \<Rightarrow> ('r \<times> 'r plateau_scheduler) result" where
  "ReduceOnPlateauScheduler_step s v =
     (if plateau_reach_end s then Inr (plateau_rate s, s)
      else if 0 \<le> step_in_cooldown s
      then let s1 = s\<lparr>step_in_cooldown := step_in_cooldown s - 1\<rparr> in
        bindE (best_value (plateau_mode s1) (last_value s1) v) (\<lambda>b.
          Inr (plateau_rate s1, s1\<lparr>last_value := Some b\<rparr>))
      else case last_value s of
        None \<Rightarrow> Inr (plateau_rate s, s\<lparr>last_value := Some v\<rparr>)
      | Some best \<Rightarrow>
          let s1 = (if should_change s best v
                    then if patience s \<le> patience_step s
                         then let r = plateau_rate s * factor s;
                                  s0 = s\<lparr>patience_step := 0, plateau_rate := r\<rparr>;
                                  s0' = (if r \<le> plateau_ending s
                                         then s0\<lparr>plateau_rate := plateau_ending s, plateau_reach_end := True\<rparr> else s0)
                              in s0'\<lparr>step_in_cooldown := step_in_cooldown s0' + cooldown s0'\<rparr>
                         else s\<lparr>patience_step := patience_step s + 1\<rparr>
                    else s\<lparr>patience_step := 0\<rparr>)
          in bindE (best_value (plateau_mode s1) (last_value s1) v) (\<lambda>b.
               Inr (plateau_rate s1, s1\<lparr>last_value := Some b\<rparr>)))"

section \<open>The rates that the calls return\<close>

text \<open>The state after \<open>i\<close> calls of \<open>step\<close>, and what the call after them returns.\<close>

definition after_calls :: "('s \<Rightarrow> 'r \<times> 's) \<Rightarrow> nat \<Rightarrow> 's \<Rightarrow> 's" where
  "after_calls step i s = ((\<lambda>s. snd (step s)) ^^ i) s"

definition rate_of_call :: "('s \<Rightarrow> 'r \<times> 's) \<Rightarrow> nat \<Rightarrow> 's \<Rightarrow> 'r" where
  "rate_of_call step i s = fst (step (after_calls step i s))"

lemma after_calls_simps [simp]:
  "after_calls step 0 s = s"
  "after_calls step (Suc i) s = snd (step (after_calls step i s))"
  by (simp_all add: after_calls_def)

text \<open>One decay with the floor \<open>ending\<close>, where the rate then stays.\<close>

definition decay :: "'r \<Rightarrow> 'r \<Rightarrow> 'r \<Rightarrow> ('r :: {linorder, times})" where
  "decay gamma ending r = (if r \<le> ending \<or> r * gamma \<le> ending then ending else r * gamma)"

lemma decay_ending [simp]: "(decay gamma ending ^^ k) ending = ending"
  by (induction k) (auto simp: decay_def)

lemma div_of_step:
  assumes "0 < (z :: nat)"
  shows "i div z = (if 0 < i \<and> i mod z = 0 then (i - 1) div z + 1 else (i - 1) div z)"
proof (cases i)
  case (Suc j)
  then show ?thesis by (simp add: div_Suc)
qed simp

text \<open>The invariant of the step schedule after \<open>i\<close> calls.\<close>

definition step_inv :: "('r :: {linorder, times}) \<Rightarrow> 'r step_scheduler \<Rightarrow> nat \<Rightarrow> bool" where
  "step_inv lr s i \<longleftrightarrow> 0 < step_size s \<and>
     step_rate s = (decay (step_gamma s) (step_ending s) ^^ ((i - 1) div step_size s)) lr \<and>
     (if step_reach_end s then step_rate s = step_ending s else step_cur s = i \<and> step_ending s < step_rate s)"

lemma step_inv_call:
  assumes "step_inv lr s i"
  shows "fst (StepScheduler_step s) = (decay (step_gamma s) (step_ending s) ^^ (i div step_size s)) lr \<and>
     step_inv lr (snd (StepScheduler_step s)) (Suc i) \<and> step_size (snd (StepScheduler_step s)) = step_size s \<and>
     step_gamma (snd (StepScheduler_step s)) = step_gamma s \<and> step_ending (snd (StepScheduler_step s)) = step_ending s"
proof -
  let ?D = "\<lambda>k. (decay (step_gamma s) (step_ending s) ^^ k) lr"
  have size: "0 < step_size s" and rate: "step_rate s = ?D ((i - 1) div step_size s)"
    using assms by (simp_all add: step_inv_def)
  have next_rate: "?D (i div step_size s) =
      (if 0 < i \<and> i mod step_size s = 0 then decay (step_gamma s) (step_ending s) (step_rate s) else step_rate s)"
    by (subst div_of_step [OF size]) (simp add: rate)
  show ?thesis
  proof (cases "step_reach_end s")
    case True
    then have e: "step_rate s = step_ending s" using assms by (metis step_inv_def)
    then have "?D (i div step_size s) = step_ending s" by (simp add: next_rate decay_def)
    then show ?thesis using True e size by (simp add: StepScheduler_step_def step_inv_def)
  next
    case False
    then have cur: "step_cur s = i" and above: "step_ending s < step_rate s" using assms by (metis step_inv_def)+
    show ?thesis
      using False cur above size next_rate rate
      by (auto simp: StepScheduler_step_def step_inv_def Let_def decay_def not_le)
  qed
qed

lemma step_inv_calls:
  assumes "step_inv lr s 0"
  shows "step_inv lr (after_calls StepScheduler_step i s) i \<and> step_size (after_calls StepScheduler_step i s) = step_size s \<and>
     step_gamma (after_calls StepScheduler_step i s) = step_gamma s \<and>
     step_ending (after_calls StepScheduler_step i s) = step_ending s"
  using assms by (induction i) (auto dest: step_inv_call)

lemma StepScheduler_init_inv:
  assumes "StepScheduler_init lr sz gamma ending = Inr s"
  shows "step_inv lr s 0 \<and> int (step_size s) = sz \<and> step_gamma s = gamma \<and> step_ending s = ending"
  using assms by (auto simp: StepScheduler_init_def assertE_Inr_iff step_inv_def)

definition exp_inv :: "('r :: {linorder, times}) \<Rightarrow> 'r exponential_scheduler \<Rightarrow> nat \<Rightarrow> bool" where
  "exp_inv lr s i \<longleftrightarrow> exp_rate s = (decay (exp_gamma s) (exp_ending s) ^^ i) lr \<and>
     (if exp_reach_end s then exp_rate s = exp_ending s else exp_ending s < exp_rate s)"

lemma exp_inv_call:
  assumes "exp_inv lr s i"
  shows "fst (ExponentialScheduler_step s) = (decay (exp_gamma s) (exp_ending s) ^^ i) lr \<and>
     exp_inv lr (snd (ExponentialScheduler_step s)) (Suc i) \<and>
     exp_gamma (snd (ExponentialScheduler_step s)) = exp_gamma s \<and> exp_ending (snd (ExponentialScheduler_step s)) = exp_ending s"
  using assms
  by (auto simp: exp_inv_def ExponentialScheduler_step_def Let_def decay_def not_le split: if_splits)

lemma exp_inv_calls:
  assumes "exp_inv lr s 0"
  shows "exp_inv lr (after_calls ExponentialScheduler_step i s) i \<and>
     exp_gamma (after_calls ExponentialScheduler_step i s) = exp_gamma s \<and>
     exp_ending (after_calls ExponentialScheduler_step i s) = exp_ending s"
  using assms by (induction i) (auto dest: exp_inv_call)

lemma ExponentialScheduler_init_inv:
  assumes "ExponentialScheduler_init lr gamma ending = Inr s"
  shows "exp_inv lr s 0 \<and> exp_gamma s = gamma \<and> exp_ending s = ending"
  using assms by (auto simp: ExponentialScheduler_init_def assertE_Inr_iff exp_inv_def)

text \<open>The milestones that are left are those that the calls have not reached.\<close>

definition multi_inv :: "('r :: times) \<Rightarrow> int list \<Rightarrow> 'r multi_step_scheduler \<Rightarrow> nat \<Rightarrow> bool" where
  "multi_inv lr ms s i \<longleftrightarrow> sorted_wrt (<) ms \<and> milestones s = filter (\<lambda>m. int i \<le> m) ms \<and>
     (milestones s \<noteq> [] \<longrightarrow> multi_cur s = int i) \<and>
     multi_rate s = ((\<lambda>r. r * multi_gamma s) ^^ length (filter (\<lambda>m. m < int i) ms)) lr"

lemma filter_next:
  "filter (\<lambda>m. int (Suc i) \<le> m) ms = filter (\<lambda>m. m \<noteq> int i) (filter (\<lambda>m. int i \<le> m) ms)"
  by (induction ms) auto

lemma length_filter_next:
  "length (filter (\<lambda>m. m < int (Suc i)) ms) =
     length (filter (\<lambda>m. m < int i) ms) + length (filter (\<lambda>m. m = int i) (filter (\<lambda>m. int i \<le> m) ms))"
  by (induction ms) auto

lemma multi_inv_call:
  assumes "multi_inv lr ms s i"
  shows "fst (MultiStepScheduler_step s) = ((\<lambda>r. r * multi_gamma s) ^^ length (filter (\<lambda>m. m \<le> int i) ms)) lr \<and>
     multi_inv lr ms (snd (MultiStepScheduler_step s)) (Suc i) \<and>
     multi_gamma (snd (MultiStepScheduler_step s)) = multi_gamma s"
proof -
  let ?M = "filter (\<lambda>m. int i \<le> m) ms"
  have le: "(\<lambda>m. m \<le> int i) = (\<lambda>m. m < int (Suc i))" by auto
  have sorted: "sorted_wrt (<) ms" and M: "milestones s = ?M" and cur: "?M \<noteq> [] \<longrightarrow> multi_cur s = int i"
    and rate: "multi_rate s = ((\<lambda>r. r * multi_gamma s) ^^ length (filter (\<lambda>m. m < int i) ms)) lr"
    using assms by (auto simp: multi_inv_def)
  show ?thesis
  proof (cases ?M)
    case Nil
    then show ?thesis
      using sorted M rate unfolding le
      by (simp add: MultiStepScheduler_step_def multi_inv_def filter_next length_filter_next del: of_nat_Suc)
  next
    case (Cons m rest)
    have "sorted_wrt (<) (m # rest)" using sorted by (metis Cons sorted_wrt_filter)
    moreover have "int i \<le> m" using Cons by (metis filter_eq_ConsD)
    ultimately have rest: "\<forall>x \<in> set rest. x \<noteq> int i" by auto
    then have "filter (\<lambda>m. m \<noteq> int i) rest = rest" "filter (\<lambda>m. m = int i) rest = []"
      by (simp_all add: filter_id_conv filter_empty_conv)
    then show ?thesis
      using sorted M rate cur unfolding le
      by (simp add: Cons MultiStepScheduler_step_def multi_inv_def filter_next length_filter_next Let_def del: of_nat_Suc)
  qed
qed

lemma multi_inv_calls:
  assumes "multi_inv lr ms s 0"
  shows "multi_inv lr ms (after_calls MultiStepScheduler_step i s) i \<and>
     multi_gamma (after_calls MultiStepScheduler_step i s) = multi_gamma s"
  using assms by (induction i) (auto dest: multi_inv_call)

lemma MultiStepScheduler_init_inv:
  assumes "MultiStepScheduler_init lr ms gamma = Inr s"
  shows "multi_inv lr ms s 0 \<and> multi_gamma s = gamma"
proof -
  from assms have pos: "py_nth ms 0 = Inr (ms ! 0)" "0 < ms ! 0" and up: "\<forall>i \<in> {1..<length ms}. ms ! (i - 1) < ms ! i"
    and s: "s = \<lparr>multi_rate = lr, milestones = ms, multi_gamma = gamma, multi_cur = 0\<rparr>"
    by (auto simp: MultiStepScheduler_init_def assertE_Inr_iff list_all_iff py_nth_def split: if_splits elim!: bindE_InrE)
  have sorted: "sorted_wrt (<) ms"
    unfolding sorted_wrt_iff_nth_Suc_transp [OF transp_on_less] using up by (force simp: Ball_def)
  have "0 < m" if "m \<in> set ms" for m
  proof -
    from that obtain j where "j < length ms" "m = ms ! j" by (auto simp: in_set_conv_nth)
    with pos(2) sorted show ?thesis by (cases j) (auto dest: sorted_wrt_nth_less [of "(<)" ms 0])
  qed
  then have "filter (\<lambda>m. 0 \<le> m) ms = ms" "filter (\<lambda>m. m < 0) ms = []"
    by (fastforce simp: filter_id_conv filter_empty_conv)+
  with sorted s show ?thesis by (simp add: multi_inv_def)
qed

text \<open>The \<open>i\<close>-th call of \<open>step\<close> (from 0) returns the initial rate after as many decays as there are
  whole steps in \<open>i\<close>, as there are milestones up to \<open>i\<close>, or after \<open>i\<close> decays; a rate at or below
  \<open>ending\<close> becomes \<open>ending\<close> and stays there. Nothing about the products is used but the order.\<close>

theorem rates_follow_their_schedule:
  fixes lr :: "'r :: {linorder, zero, times}"
  assumes "StepScheduler_init lr sz gamma ending = Inr s"
    and "MultiStepScheduler_init lr ms gamma = Inr m"
    and "ExponentialScheduler_init lr gamma ending = Inr e"
  shows "rate_of_call StepScheduler_step i s = (decay gamma ending ^^ (i div nat sz)) lr \<and>
     rate_of_call MultiStepScheduler_step i m = ((\<lambda>r. r * gamma) ^^ length (filter (\<lambda>k. k \<le> int i) ms)) lr \<and>
     rate_of_call ExponentialScheduler_step i e = (decay gamma ending ^^ i) lr"
  using StepScheduler_init_inv [OF assms(1)] step_inv_calls [of lr s i] step_inv_call [of lr "after_calls StepScheduler_step i s" i]
    MultiStepScheduler_init_inv [OF assms(2)] multi_inv_calls [of lr ms m i] multi_inv_call [of lr ms "after_calls MultiStepScheduler_step i m" i]
    ExponentialScheduler_init_inv [OF assms(3)] exp_inv_calls [of lr e i] exp_inv_call [of lr "after_calls ExponentialScheduler_step i e" i]
  by (auto simp: rate_of_call_def)

theorem rates_follow_their_schedule_witness:
  "rate_of_call StepScheduler_step 5 \<lparr>step_rate = 80, step_size = 2, step_gamma = 1 / 2, step_ending = 30, step_reach_end = False, step_cur = 0\<rparr> =
       (decay (1 / 2) 30 ^^ (5 div nat 2)) (80 :: rat) \<and>
     rate_of_call MultiStepScheduler_step 5 \<lparr>multi_rate = 80, milestones = [1, 4, 6], multi_gamma = 1 / 2, multi_cur = 0\<rparr> =
       ((\<lambda>r. r * (1 / 2)) ^^ length (filter (\<lambda>k. k \<le> int 5) [1, 4, 6])) (80 :: rat) \<and>
     rate_of_call ExponentialScheduler_step 5 \<lparr>exp_rate = 80, exp_gamma = 1 / 2, exp_ending = 30, exp_reach_end = False\<rparr> =
       (decay (1 / 2) 30 ^^ 5) (80 :: rat)"
  by (rule rates_follow_their_schedule [where sz = 2 and ms = "[1, 4, 6]" and ending = 30])
     (simp_all add: StepScheduler_init_def MultiStepScheduler_init_def ExponentialScheduler_init_def py_nth_def upt_rec)

section \<open>Plateaus\<close>

definition run_plateau :: "('r :: {linorder, minus, one, times}) plateau_scheduler \<Rightarrow> 'r list \<Rightarrow> 'r plateau_scheduler result" where
  "run_plateau = foldE (\<lambda>s v. bindE (ReduceOnPlateauScheduler_step s v) (\<lambda>(r, s'). Inr s'))"

text \<open>The number of calls that a schedule lets pass at least before the next reduction.\<close>

definition wait :: "'r plateau_scheduler \<Rightarrow> int" where
  "wait s = step_in_cooldown s + 1 + (patience s - patience_step s)"

definition plateau_inv :: "('r :: linorder) plateau_scheduler \<Rightarrow> bool" where
  "plateau_inv s \<longleftrightarrow> - 1 \<le> step_in_cooldown s \<and> 0 \<le> cooldown s \<and> 0 \<le> patience_step s \<and> patience_step s \<le> patience s \<and>
     (0 \<le> step_in_cooldown s \<longrightarrow> last_value s \<noteq> None) \<and> plateau_ending s \<le> plateau_rate s"

lemma plateau_step:
  assumes "plateau_inv s"
  shows "\<exists>s'. ReduceOnPlateauScheduler_step s v = Inr (plateau_rate s', s') \<and> plateau_inv s' \<and>
     patience s' = patience s \<and> cooldown s' = cooldown s \<and> plateau_ending s' = plateau_ending s \<and>
     (plateau_rate s' = plateau_rate s \<and> wait s - 1 \<le> wait s' \<or> wait s \<le> 0 \<and> wait s' = patience s + cooldown s)"
  using assms
  by (auto simp: ReduceOnPlateauScheduler_step_def plateau_inv_def wait_def best_value_def Let_def
      split: option.splits plateau_mode.splits)

lemma run_plateau_Cons: "run_plateau s (v # vs) = bindE (ReduceOnPlateauScheduler_step s v) (\<lambda>(r, s'). run_plateau s' vs)"
  by (auto simp: run_plateau_def bindE_def split: sum.splits)

lemma run_plateau_inv:
  assumes "plateau_inv s"
  shows "\<exists>s'. run_plateau s vs = Inr s' \<and> plateau_inv s' \<and> patience s' = patience s \<and> cooldown s' = cooldown s \<and>
     plateau_ending s' = plateau_ending s \<and> (int (length vs) \<le> wait s \<longrightarrow> plateau_rate s' = plateau_rate s)"
  using assms
proof (induction vs arbitrary: s)
  case Nil then show ?case by (simp add: run_plateau_def)
next
  case (Cons v vs)
  obtain s1 where one: "ReduceOnPlateauScheduler_step s v = Inr (plateau_rate s1, s1)" "plateau_inv s1"
    "patience s1 = patience s" "cooldown s1 = cooldown s" "plateau_ending s1 = plateau_ending s"
    "plateau_rate s1 = plateau_rate s \<and> wait s - 1 \<le> wait s1 \<or> wait s \<le> 0 \<and> wait s1 = patience s + cooldown s"
    using plateau_step [OF Cons.prems, of v] by blast
  obtain s2 where two: "run_plateau s1 vs = Inr s2" "plateau_inv s2" "patience s2 = patience s1" "cooldown s2 = cooldown s1"
    "plateau_ending s2 = plateau_ending s1" "int (length vs) \<le> wait s1 \<longrightarrow> plateau_rate s2 = plateau_rate s1"
    using Cons.IH [OF one(2)] by blast
  have "plateau_rate s2 = plateau_rate s" if "int (length (v # vs)) \<le> wait s"
    using that one(6) two(6) by auto
  with one two show ?case by (simp add: run_plateau_Cons)
qed

lemma ReduceOnPlateauScheduler_init_inv:
  "ReduceOnPlateauScheduler_init lr mode fac pat thr tmode cool ending = Inr s \<Longrightarrow>
     plateau_inv s \<and> patience s = pat \<and> cooldown s = cool \<and> plateau_ending s = ending"
  by (auto simp: ReduceOnPlateauScheduler_init_def assertE_Inr_iff plateau_inv_def)

text \<open>C39: \<open>ReduceOnPlateauScheduler\<close> never fails on any sequence of values, its rate never falls
  below \<open>ending\<close>, and a call that changed the rate is followed by at least \<open>patience + cooldown\<close>
  calls that leave it alone.\<close>

theorem plateau_reductions_are_spaced:
  fixes lr :: "'r :: {linorder, zero, minus, one, times}"
  assumes "ReduceOnPlateauScheduler_init lr mode fac pat thr tmode cool ending = Inr s0"
    and "int (length vs) \<le> pat + cool"
  shows "\<exists>s s1 s2. run_plateau s0 us = Inr s \<and> ReduceOnPlateauScheduler_step s v = Inr (plateau_rate s1, s1) \<and>
     run_plateau s1 vs = Inr s2 \<and> ending \<le> plateau_rate s \<and> ending \<le> plateau_rate s2 \<and>
     (plateau_rate s1 = plateau_rate s \<or> plateau_rate s2 = plateau_rate s1)"
proof -
  note init = ReduceOnPlateauScheduler_init_inv [OF assms(1)]
  from run_plateau_inv [of s0 us] init obtain s where s: "run_plateau s0 us = Inr s" "plateau_inv s"
    "patience s = pat" "cooldown s = cool" "plateau_ending s = ending" by auto
  from plateau_step [OF s(2), of v] obtain s1 where s1: "ReduceOnPlateauScheduler_step s v = Inr (plateau_rate s1, s1)"
    "plateau_inv s1" "plateau_ending s1 = plateau_ending s"
    "plateau_rate s1 = plateau_rate s \<or> wait s1 = patience s + cooldown s" by blast
  from run_plateau_inv [OF s1(2), of vs] obtain s2 where s2: "run_plateau s1 vs = Inr s2" "plateau_inv s2"
    "plateau_ending s2 = plateau_ending s1" "int (length vs) \<le> wait s1 \<longrightarrow> plateau_rate s2 = plateau_rate s1" by blast
  have "ending \<le> plateau_rate s" "ending \<le> plateau_rate s2" using s s1(3) s2(2,3) by (auto simp: plateau_inv_def)
  then show ?thesis using s s1 s2 assms(2) by auto
qed

definition sample_plateau :: "rat plateau_scheduler" where
  "sample_plateau = \<lparr>plateau_rate = 80, plateau_mode = ModeMin, factor = 1 / 2, patience = 1, threshold = 0,
     threshold_mode = RelThreshold, cooldown = 2, plateau_ending = 1, step_in_cooldown = - 1, patience_step = 0,
     last_value = None, plateau_reach_end = False\<rparr>"

theorem plateau_reductions_are_spaced_witness:
  "\<exists>s s1 s2. run_plateau sample_plateau [5, 6] = Inr s \<and> ReduceOnPlateauScheduler_step s 7 = Inr (plateau_rate s1, s1) \<and>
     run_plateau s1 [8, 9, 10] = Inr s2 \<and> 1 \<le> plateau_rate s \<and> 1 \<le> plateau_rate s2 \<and>
     (plateau_rate s1 = plateau_rate s \<or> plateau_rate s2 = plateau_rate s1)"
  by (rule plateau_reductions_are_spaced
        [where lr = 80 and mode = ModeMin and fac = "1 / 2" and pat = 1 and thr = 0 and tmode = RelThreshold and cool = 2])
     (simp_all add: ReduceOnPlateauScheduler_init_def sample_plateau_def)

end
