(* ===== verification/LayoutDeduce.thy ===== *)
theory LayoutDeduce imports NodeStatus begin

text \<open>
  How the operators of \<open>hetu/v1/python/hetu/gpu_ops\<close> pass layouts on: the methods
  \<open>forward_deduce_states\<close> (from the inputs to the operator), \<open>backward_deduce_states\<close> (from the
  operator to its inputs) and \<open>deduce_generated_backward_nodes_states\<close> (from an operator to its
  gradients), with the helper functions of \<open>MatrixMult.py\<close> and \<open>Conv2d.py\<close>.

  The methods change \<open>NodeStatus\<close> objects in place and the same object can be the status of
  several nodes, so a status is an address into \<open>status_at\<close>; \<open>fresh\<close> is the next address.
  \<open>links\<close> holds the attributes by which an operator tells its gradient operator two statuses.
\<close>

section \<open>The store\<close>

record op_link =
  grad_link :: "nat option"
  grad_set :: bool
  ori_status :: "nat option"
  tar_status :: "nat option"

record layouts =
  status_at :: "nat \<Rightarrow> node_status"
  fresh :: nat
  links :: "nat \<Rightarrow> op_link"

type_synonym deduction = "layouts \<Rightarrow> layouts result"

definition put_status :: "nat \<Rightarrow> node_status \<Rightarrow> layouts \<Rightarrow> layouts" where
  "put_status a s L = L\<lparr>status_at := (status_at L)(a := s)\<rparr>"

definition change_status :: "nat \<Rightarrow> (node_status \<Rightarrow> node_status result) \<Rightarrow> deduction" where
  "change_status a f L = bindE (f (status_at L a)) (\<lambda>s. Inr (put_status a s L))"

definition new_status :: "node_status \<Rightarrow> layouts \<Rightarrow> nat \<times> layouts" where
  "new_status s L = (fresh L, L\<lparr>status_at := (status_at L)(fresh L := s), fresh := Suc (fresh L)\<rparr>)"

text \<open>\<open>status.valid(deduce_order)\<close> settles the flags of the status.\<close>

definition ask_valid :: "bool \<Rightarrow> nat \<Rightarrow> layouts \<Rightarrow> (bool \<times> layouts) result" where
  "ask_valid ord a L = bindE (valid ord (status_at L a)) (\<lambda>(b, s). Inr (b, put_status a s L))"

definition when_valid :: "bool \<Rightarrow> nat \<Rightarrow> deduction \<Rightarrow> deduction" where
  "when_valid ord a body L = bindE (ask_valid ord a L) (\<lambda>(b, L). if b then body L else Inr L)"

definition andthen :: "deduction \<Rightarrow> deduction \<Rightarrow> deduction" where
  "andthen f g L = bindE (f L) g"

definition copy_status :: "nat \<Rightarrow> nat \<Rightarrow> bool \<Rightarrow> deduction" where
  "copy_status dst src ord L = change_status dst (copy_from (status_at L src) ord) L"

definition combine_status :: "nat \<Rightarrow> nat \<Rightarrow> bool \<Rightarrow> src2dst list \<Rightarrow> deduction" where
  "combine_status dst src ord sds L = change_status dst (set_from_combine (status_at L src) ord sds) L"

text \<open>The same new layout for two statuses.\<close>

definition combine_two :: "nat \<Rightarrow> nat \<Rightarrow> nat \<Rightarrow> bool \<Rightarrow> src2dst list \<Rightarrow> deduction" where
  "combine_two a b src ord sds L =
     (if ord then bindE (combine_order (status_at L src) sds) (\<lambda>os.
        andthen (change_status a (set_order (Some os))) (change_status b (set_order (Some os))) L)
      else bindE (combine_state (status_at L src) sds) (\<lambda>l.
        andthen (change_status a (set_layout l)) (change_status b (set_layout l)) L))"

definition check_status :: "nat \<Rightarrow> int \<Rightarrow> bool \<Rightarrow> deduction" where
  "check_status a n ord L = bindE (check_state n ord (status_at L a)) (\<lambda>_. Inr L)"

definition with_input :: "nat list \<Rightarrow> nat \<Rightarrow> (nat \<Rightarrow> deduction) \<Rightarrow> deduction" where
  "with_input ins i f L = bindE (py_nth ins (int i)) (\<lambda>a. f a L)"

fun each_input :: "(nat \<Rightarrow> deduction) \<Rightarrow> nat list \<Rightarrow> deduction" where
  "each_input f [] = Inr"
| "each_input f (a # as) = andthen (f a) (each_input f as)"

text \<open>\<open>get_combine_from\<close>, and \<open>remove_partial\<close>, which returns the object itself when it is not partial.\<close>

definition combine_when_valid :: "nat \<Rightarrow> nat \<Rightarrow> bool \<Rightarrow> src2dst list \<Rightarrow> deduction" where
  "combine_when_valid dst src ord sds = when_valid ord src (combine_status dst src ord sds)"

definition remove_partial_at :: "nat \<Rightarrow> layouts \<Rightarrow> (nat \<times> layouts) result" where
  "remove_partial_at a L =
     (if \<not> enable_partial (status_at L a) then Inr (a, L)
      else bindE (remove_partial (status_at L a)) (\<lambda>(s, new). Inr (new_status new (put_status a s L))))"

section \<open>Matrix products\<close>

type_synonym dim_map = "(int \<times> int) list"

definition map_dims :: "dim_map \<Rightarrow> int list \<Rightarrow> int list result" where
  "map_dims m os = mapE (py_lookup m) os"

definition order_list :: "node_status \<Rightarrow> int list result" where
  "order_list s = (case order s of None \<Rightarrow> Inl TypeError | Some os \<Rightarrow> Inr os)"

definition state_dict :: "node_status \<Rightarrow> parts result" where
  "state_dict s = (case state s of None \<Rightarrow> Inl AttributeError | Some d \<Rightarrow> Inr d)"

definition list_index :: "'a \<Rightarrow> 'a list \<Rightarrow> nat result" where
  "list_index x xs = (case index_of (\<lambda>y. y = x) xs of None \<Rightarrow> Inl ValueError | Some i \<Rightarrow> Inr i)"

definition insert_at :: "nat \<Rightarrow> 'a \<Rightarrow> 'a list \<Rightarrow> 'a list" where
  "insert_at i x xs = take i xs @ x # drop i xs"

text \<open>
  The order of a product from the mapped orders of its operands: where they differ, the dimension
  that only one operand splits is duplicated in the other; where they agree and the operands are
  duplicated, the copies lie between the two dimensions of the result. \<open>lp\<close> and \<open>rp\<close> are the result
  dimensions that the duplicates of the left and right operand become.
\<close>

definition merge_orders :: "int list \<Rightarrow> int list \<Rightarrow> int \<Rightarrow> int \<Rightarrow> int \<Rightarrow> int \<Rightarrow> int option \<Rightarrow> int list result" where
  "merge_orders lo ro lp rp a b dup =
     (if lo \<noteq> ro then
        bindE (list_index lp lo) (\<lambda>i. bindE (list_index rp ro) (\<lambda>j.
          assertE (lo[i := -1] = ro[j := -1]) (Inr (lo[i := -1]))))
      else if a \<in> set lo then
        bindE (more_than_one dup) (\<lambda>many.
          if \<not> many then Inr lo
          else bindE (list_index a lo) (\<lambda>i. bindE (list_index b lo) (\<lambda>j.
            assertE (min i j + 1 = max i j) (Inr (insert_at (max i j) (-1) lo)))))
      else Inr lo)"

text \<open>\<open>ask_both\<close> is \<open>lstatus.valid(...) and rstatus.valid(...)\<close>, which stops at the first \<open>False\<close>.\<close>

definition when_both_valid :: "bool \<Rightarrow> nat \<Rightarrow> nat \<Rightarrow> deduction \<Rightarrow> deduction" where
  "when_both_valid ord l r body = when_valid ord l (when_valid ord r body)"

definition forward_orders :: "nat \<Rightarrow> nat \<Rightarrow> nat \<Rightarrow> dim_map \<Rightarrow> dim_map \<Rightarrow> int \<Rightarrow> int \<Rightarrow> int \<Rightarrow> int \<Rightarrow> deduction" where
  "forward_orders l r st lmap rmap lp rp a b L =
     bindE (order_list (status_at L l)) (\<lambda>lorder. bindE (order_list (status_at L r)) (\<lambda>rorder.
     bindE (map_dims lmap lorder) (\<lambda>lo. bindE (map_dims rmap rorder) (\<lambda>ro.
     bindE (merge_orders lo ro lp rp a b (duplicate (status_at L l))) (\<lambda>os.
       change_status st (set_order (Some os)) L)))))"

definition matmul_l2res :: "bool \<Rightarrow> dim_map" where
  "matmul_l2res transA = (if transA then [(-1, 1), (1, 0), (0, -2)] else [(-1, 1), (0, 0), (1, -2)])"

definition matmul_r2res :: "bool \<Rightarrow> dim_map" where
  "matmul_r2res transB = (if transB then [(-1, 0), (0, 1), (1, -2)] else [(-1, 0), (0, -2), (1, 1)])"

definition matmul_res2l :: "bool \<Rightarrow> dim_map" where
  "matmul_res2l transA = (if transA then [(-2, 0), (0, 1), (1, -1), (-1, -1)] else [(-2, 1), (0, 0), (1, -1), (-1, -1)])"

definition matmul_res2r :: "bool \<Rightarrow> dim_map" where
  "matmul_res2r transB = (if transB then [(-2, 1), (0, -1), (1, 0), (-1, -1)] else [(-2, 0), (0, -1), (1, 1), (-1, -1)])"

definition matmul_forward_deduce :: "nat list \<Rightarrow> nat \<Rightarrow> bool \<Rightarrow> bool \<Rightarrow> bool \<Rightarrow> deduction" where
  "matmul_forward_deduce ins st ord transA transB =
     with_input ins 0 (\<lambda>l. with_input ins 1 (\<lambda>r.
       when_both_valid ord l r
         (if ord then forward_orders l r st (matmul_l2res transA) (matmul_r2res transB) 1 0 0 1
          else (\<lambda>L.
            bindE (state_dict (status_at L l)) (\<lambda>lstate. bindE (state_dict (status_at L r)) (\<lambda>rstate.
            let lrow = dict_get lstate (of_bool transA) 1; lcol = dict_get lstate (1 - of_bool transA) 1;
                rrow = dict_get rstate (of_bool transB) 1; rcol = dict_get rstate (1 - of_bool transB) 1 in
            assertE (lcol = rrow)
              (change_status st (set_state (Some (TupleState [lrow, rcol])) None (Some lcol)) L)))))))"

text \<open>The layouts of the operands from all parts of the result; -1 collects the duplicates.\<close>

definition count_result :: "int option \<Rightarrow> int result" where
  "count_result v = (case v of None \<Rightarrow> Inl TypeError | Some n \<Rightarrow> Inr n)"

definition all_parts :: "node_status \<Rightarrow> parts result" where
  "all_parts s =
     bindE (state_dict s) (\<lambda>d. bindE (count_result (duplicate s)) (\<lambda>dup.
     bindE (if enable_partial s then count_result (partial s) else Inr 1) (\<lambda>par.
       Inr (AList.update (-2) par (AList.update (-1) dup d)))))"

definition split_parts :: "dim_map \<Rightarrow> parts \<Rightarrow> (parts \<times> int) result" where
  "split_parts m ps =
     foldE (\<lambda>(d, dup) (key, value). bindE (py_lookup m key) (\<lambda>k.
       Inr (if k = -1 then (d, dup * value) else (AList.update k value d, dup)))) ([], 1) ps"

definition operand_states :: "dim_map \<Rightarrow> dim_map \<Rightarrow> nat \<Rightarrow> nat \<Rightarrow> nat \<Rightarrow> deduction" where
  "operand_states lmap rmap st l r L =
     bindE (all_parts (status_at L st)) (\<lambda>ps.
     bindE (split_parts lmap ps) (\<lambda>(ld, ldup). bindE (split_parts rmap ps) (\<lambda>(rd, rdup).
       andthen (change_status l (set_state (Some (DictState ld)) (Some ldup) None))
               (change_status r (set_state (Some (DictState rd)) (Some rdup) None)) L)))"

definition matmul_backward_deduce :: "nat \<Rightarrow> nat list \<Rightarrow> bool \<Rightarrow> bool \<Rightarrow> bool \<Rightarrow> deduction" where
  "matmul_backward_deduce st ins ord transA transB =
     when_valid ord st
       (with_input ins 0 (\<lambda>l. with_input ins 1 (\<lambda>r.
          if ord then (\<lambda>L.
            bindE (order_list (status_at L st)) (\<lambda>os. bindE (map_dims (matmul_res2l transA) os) (\<lambda>lo.
            andthen (change_status l (set_order (Some lo))) (\<lambda>L.
            bindE (order_list (status_at L st)) (\<lambda>os. bindE (map_dims (matmul_res2r transB) os) (\<lambda>ro.
              change_status r (set_order (Some ro)) L))) L)))
          else operand_states (matmul_res2l transA) (matmul_res2r transB) st l r)))"

text \<open>
  The layouts of the gradients. The copies of the result stay copies (dimension -1), the partial
  sums become a split dimension and the other dimension of the operand becomes partial sums.
\<close>

definition make_backward_status :: "int result \<Rightarrow> dim_map \<Rightarrow> node_status \<Rightarrow> node_status result" where
  "make_backward_status par res_map s =
     bindE (node_status_of (dev_num s) None True) (\<lambda>new.
     bindE (case state s of None \<Rightarrow> Inl TypeError | Some d \<Rightarrow> Inr d) (\<lambda>d. bindE par (\<lambda>p.
     bindE (foldE (\<lambda>res key. bindE (py_lookup res_map key) (\<lambda>k.
              Inr (AList.update k (dict_get (AList.update (-2) p d) key 1) res))) [] [-2, 0, 1]) (\<lambda>res.
     bindE (py_lookup res (-2)) (\<lambda>partial.
     bindE (set_state (Some (DictState (AList.delete (-2) res))) (duplicate s) (Some partial) new) (\<lambda>new.
     bindE (order_list s) (\<lambda>os. bindE (map_dims res_map os) (\<lambda>os.
       set_order (Some os) new))))))))"

definition bias_backward_status :: "node_status \<Rightarrow> node_status result" where
  "bias_backward_status s =
     bindE (node_status_of (dev_num s) None True) (\<lambda>new.
     bindE (set_from_combine s False [([-2], -1), ([0], -2), ([1], 0)] new)
       (set_from_combine s True [([-2], -1), ([0], -2), ([1], 0)]))"

definition matmul_res2gen :: "bool \<Rightarrow> bool \<Rightarrow> int \<Rightarrow> dim_map" where
  "matmul_res2gen transA transB index =
     (if index = 0
      then (if transA then [(-2, 0), (0, 1), (1, -2), (-1, -1)] else [(-2, 1), (0, 0), (1, -2), (-1, -1)])
      else (if transB then [(-2, 1), (0, -2), (1, 0), (-1, -1)] else [(-2, 0), (0, -2), (1, 1), (-1, -1)]))"

definition matmul_make_backward_status :: "node_status \<Rightarrow> bool \<Rightarrow> bool \<Rightarrow> int \<Rightarrow> node_status result" where
  "matmul_make_backward_status s transA transB index =
     (if index < 2
      then make_backward_status (Inr (case partial s of None \<Rightarrow> 1 | Some p \<Rightarrow> p)) (matmul_res2gen transA transB index) s
      else assertE (index = 2) (bias_backward_status s))"

section \<open>Convolutions\<close>

text \<open>The loop over the dimensions of both operands: the parts of the result and the partial sums.\<close>

definition conv2d_dim :: "dim_map \<Rightarrow> parts \<Rightarrow> parts \<times> int option \<Rightarrow> int \<Rightarrow> (parts \<times> int option) result" where
  "conv2d_dim m st acc dim =
     (case acc of (new_state, par) \<Rightarrow>
        let cur_value = dict_get st dim 1 in
        bindE (py_lookup m dim) (\<lambda>cur_dim.
          if cur_dim = -2 then
            (case par of None \<Rightarrow> Inr (new_state, Some cur_value)
             | Some p \<Rightarrow> assertE (p = cur_value) (Inr (new_state, par)))
          else assertE (\<not> has_key new_state cur_dim \<or> map_of new_state cur_dim = Some cur_value)
                 (Inr (AList.update cur_dim cur_value new_state, par))))"

definition conv2d_forward_deduce_states :: "nat list \<Rightarrow> nat \<Rightarrow> bool \<Rightarrow> dim_map \<Rightarrow> dim_map \<Rightarrow> deduction" where
  "conv2d_forward_deduce_states ins st ord lmap rmap =
     with_input ins 0 (\<lambda>l. with_input ins 1 (\<lambda>r. \<lambda>L.
       bindE (py_lookup lmap (-1)) (\<lambda>lp. bindE (py_lookup rmap (-1)) (\<lambda>rp.
       when_both_valid ord l r
         (if ord then forward_orders l r st lmap rmap lp rp (1 - lp) (1 - rp)
          else (\<lambda>L.
            bindE (state_dict (status_at L l)) (\<lambda>lstate. bindE (state_dict (status_at L r)) (\<lambda>rstate.
            bindE (foldE (conv2d_dim lmap lstate) ([], None) [0, 1]) (\<lambda>acc.
            bindE (foldE (conv2d_dim rmap rstate) acc [0, 1]) (\<lambda>(new_state, par).
              change_status st (set_state (Some (DictState new_state)) None par) L)))))) L))))"

text \<open>The inner \<open>combine_order\<close>: two adjacent duplicated dimensions become one.\<close>

definition join_duplicates :: "int list \<Rightarrow> int list result" where
  "join_duplicates os =
     (case index_of (\<lambda>k. k = -1) os of
        None \<Rightarrow> Inr os
      | Some i \<Rightarrow>
          if -1 \<in> set (drop (Suc i) os)
          then assertE (index_of (\<lambda>k. k = -1) (drop (Suc i) os) = Some 0) (Inr (remove_at (Suc i) os))
          else Inr os)"

definition conv2d_backward_deduce_states :: "nat \<Rightarrow> nat list \<Rightarrow> bool \<Rightarrow> dim_map \<Rightarrow> dim_map \<Rightarrow> deduction" where
  "conv2d_backward_deduce_states st ins ord lmap rmap =
     when_valid ord st
       (andthen (check_status st 2 ord)
       (with_input ins 0 (\<lambda>l. with_input ins 1 (\<lambda>r.
          if ord then (\<lambda>L.
            bindE (order_list (status_at L st)) (\<lambda>os. bindE (map_dims lmap os) (\<lambda>lo. bindE (join_duplicates lo) (\<lambda>lo.
            andthen (change_status l (set_order (Some lo))) (\<lambda>L.
            bindE (order_list (status_at L st)) (\<lambda>os. bindE (map_dims rmap os) (\<lambda>ro. bindE (join_duplicates ro) (\<lambda>ro.
              change_status r (set_order (Some ro)) L)))) L))))
          else operand_states lmap rmap st l r))))"

definition conv2d_make_backward_status :: "node_status \<Rightarrow> int \<Rightarrow> node_status result" where
  "conv2d_make_backward_status s index =
     (if index < 2
      then make_backward_status (count_result (partial s))
             (if index = 0 then [(0, 0), (1, -2), (-2, 1), (-1, -1)] else [(-2, 1), (0, -2), (1, 0), (-1, -1)]) s
      else assertE (index = 2) (bias_backward_status s))"

section \<open>Reductions and broadcasts\<close>

text \<open>The number of reduced dimensions without \<open>keepdims\<close> that lie before \<open>k\<close>.\<close>

definition removed_before :: "int list \<Rightarrow> bool list \<Rightarrow> int \<Rightarrow> int" where
  "removed_before axes keepdims k = int (length (filter (\<lambda>(x, keep). \<not> keep \<and> x < k) (zip axes keepdims)))"

text \<open>The loop from the last entry to the first: reduced dimensions become partial sums, once.\<close>

fun reduce_order_loop :: "int list \<Rightarrow> (nat \<times> int) list \<Rightarrow> int list \<times> nat \<times> bool \<Rightarrow> int list \<times> nat" where
  "reduce_order_loop axes [] (os, dup_occur, prev_dup) = (os, dup_occur)"
| "reduce_order_loop axes ((i, k) # rest) (os, dup_occur, prev_dup) =
     (if k \<in> set (axes @ [-2])
      then reduce_order_loop axes rest
             (if k = -2 then os else if -2 \<notin> set os then os[i := -2] else remove_at i os,
              if prev_dup then dup_occur else dup_occur + 1, True)
      else reduce_order_loop axes rest (os, dup_occur, False))"

definition reduced_order :: "int list \<Rightarrow> bool list \<Rightarrow> int list \<Rightarrow> int list result" where
  "reduced_order axes keepdims os =
     (case reduce_order_loop axes (rev (enumerate 0 os)) (os, 0, False) of
        (os', dup_occur) \<Rightarrow>
          assertE (dup_occur \<le> 1) (Inr (map (\<lambda>k. k - removed_before axes keepdims k) os')))"

definition reduced_state :: "int list \<Rightarrow> bool list \<Rightarrow> parts \<Rightarrow> int \<Rightarrow> parts \<times> int" where
  "reduced_state axes keepdims d par =
     (let (d1, par1) = fold (\<lambda>k (d, p). if has_key d k then (AList.delete k d, p * dict_get d k 1) else (d, p)) axes (d, par)
      in (fold (\<lambda>k d. let k' = k - removed_before axes keepdims k in
                 if k' \<noteq> k then AList.update k' (dict_get d k 1) (AList.delete k d) else d)
            (sort (map fst d1)) d1, par1))"

definition input_partial :: "node_status \<Rightarrow> int result" where
  "input_partial s = (if enable_partial s then count_result (partial s) else Inr 1)"

definition reduce_forward :: "int list \<Rightarrow> bool list \<Rightarrow> nat \<Rightarrow> nat \<Rightarrow> bool \<Rightarrow> deduction" where
  "reduce_forward axes keepdims i st ord =
     (if ord then (\<lambda>L.
        case order (status_at L i) of
          None \<Rightarrow> Inr L
        | Some os \<Rightarrow> bindE (reduced_order axes keepdims os) (\<lambda>os'. change_status st (set_order (Some os')) L))
      else when_valid False i (\<lambda>L.
        bindE (state_dict (status_at L i)) (\<lambda>d. bindE (input_partial (status_at L i)) (\<lambda>par.
          (case reduced_state axes keepdims d par of (d', par') \<Rightarrow>
             change_status st (set_state (Some (DictState d')) (duplicate (status_at L i)) (Some par')) L)))))"

text \<open>\<open>grad_node.ori_status\<close> and \<open>tar_status\<close> are set once; \<open>strip\<close> is \<open>status.remove_partial()\<close>.\<close>

definition link_gradient :: "nat \<Rightarrow> nat \<Rightarrow> bool \<Rightarrow> nat \<Rightarrow> deduction" where
  "link_gradient node inp strip st L =
     (case grad_link (links L node) of
        None \<Rightarrow> Inr L
      | Some g \<Rightarrow>
          if grad_set (links L node) then Inr L
          else bindE (if strip then remove_partial_at st L else Inr (st, L)) (\<lambda>(tar, L).
            let ls = (links L)(g := (links L g)\<lparr>ori_status := Some inp, tar_status := Some tar\<rparr>) in
            Inr (L\<lparr>links := ls(node := (ls node)\<lparr>grad_set := True\<rparr>)\<rparr>)))"

definition reset_link :: "nat \<Rightarrow> layouts \<Rightarrow> layouts" where
  "reset_link node L = L\<lparr>links := (links L)(node := (links L node)\<lparr>grad_set := False, ori_status := None, tar_status := None\<rparr>)\<rparr>"

definition reset_grad_set :: "nat \<Rightarrow> layouts \<Rightarrow> layouts" where
  "reset_grad_set node L = L\<lparr>links := (links L)(node := (links L node)\<lparr>grad_set := False\<rparr>)\<rparr>"

text \<open>Without the two statuses a broadcast passes the batch dimension on (data parallel only).\<close>

definition pass_batch :: "nat \<Rightarrow> nat \<Rightarrow> bool \<Rightarrow> deduction" where
  "pass_batch src dst ord L =
     (let s = status_at L src in
      if ord then
        (case order s of
           None \<Rightarrow> Inr L
         | Some os \<Rightarrow> andthen (check_status src 1 True) (change_status dst (set_order (Some os))) L)
      else andthen (if state s = None then Inr else check_status src 1 False)
             (change_status dst (set_state (map_option DictState (state s)) (duplicate s) None)) L)"

section \<open>Other operators\<close>

text \<open>\<open>TransposeOp\<close>: the dimensions move with the permutation; -1 stays.\<close>

definition transpose_with :: "(int \<Rightarrow> int result) \<Rightarrow> nat \<Rightarrow> nat \<Rightarrow> bool \<Rightarrow> deduction" where
  "transpose_with f src dst ord =
     when_valid ord src (\<lambda>L.
       if ord then
         (case order (status_at L src) of
            None \<Rightarrow> Inr L
          | Some os \<Rightarrow> bindE (mapE (\<lambda>k. if k = -1 then Inr k else f k) os) (\<lambda>os'. change_status dst (set_order (Some os')) L))
       else bindE (state_dict (status_at L src)) (\<lambda>d.
            bindE (mapE (\<lambda>(k, v). bindE (f k) (\<lambda>k'. Inr (k', v))) d) (\<lambda>d'.
              change_status dst (set_state (Some (DictState (dict_of d'))) (duplicate (status_at L src)) None) L)))"

definition perm_index :: "int list \<Rightarrow> int \<Rightarrow> int result" where
  "perm_index perm k = bindE (list_index k perm) (\<lambda>i. Inr (int i))"

text \<open>\<open>EmbeddingLookUp\<close>, forward.\<close>

definition embedding_order :: "int list \<Rightarrow> int list \<Rightarrow> int option \<Rightarrow> int list result" where
  "embedding_order lorder rorder dup =
     (let partial_index = index_of (\<lambda>k. k = 0) lorder; split_index = index_of (\<lambda>k. k = 0) rorder;
          o1 = (if partial_index = Some 0 then [-2] else if split_index = Some 0 then [0] else []) in
      bindE (more_than_one dup) (\<lambda>many.
        let o2 = (if many then o1 @ [-1] else o1) in
        Inr (if partial_index = Some 1 then o2 @ [-2] else if split_index = Some 1 then o2 @ [0] else o2)))"

definition embedding_forward :: "nat \<Rightarrow> nat \<Rightarrow> nat \<Rightarrow> bool \<Rightarrow> deduction" where
  "embedding_forward tb ids st ord =
     when_valid ord tb (when_valid ord ids (\<lambda>L.
       if ord then
         bindE (order_list (status_at L tb)) (\<lambda>lorder. bindE (order_list (status_at L ids)) (\<lambda>rorder.
         bindE (embedding_order lorder rorder (duplicate (status_at L st))) (\<lambda>os.
           change_status st (set_order (Some os)) L)))
       else
         bindE (state_dict (status_at L tb)) (\<lambda>td. bindE (state_dict (status_at L ids)) (\<lambda>idd.
           change_status st (set_state (Some (DictState [(0, dict_get idd 0 1)])) None (Some (dict_get td 0 1))) L))))"

text \<open>\<open>EmbeddingLookUp_Gradient\<close>, backward: from the gradient, else from one input to the other.\<close>

definition embedding_gradient_backward :: "nat \<Rightarrow> nat \<Rightarrow> nat \<Rightarrow> bool \<Rightarrow> deduction" where
  "embedding_gradient_backward st a b ord L =
     bindE (ask_valid ord st L) (\<lambda>(ok, L).
     if ok then andthen (combine_status a st ord [([0], -1), ([-2], 0)]) (combine_status b st ord [([0], -1), ([-2], 0)]) L
     else bindE (ask_valid ord a L) (\<lambda>(ok, L).
       if ok then copy_status b a ord L else when_valid ord b (copy_status a b ord) L))"

text \<open>\<open>MulOp\<close> uses the inputs that may be partial, or all when none may.\<close>

definition partial_inputs :: "nat list \<Rightarrow> layouts \<Rightarrow> nat list" where
  "partial_inputs ins L = filter (\<lambda>a. enable_partial (status_at L a)) ins"

section \<open>The methods of the operators\<close>

datatype layout_op =
    PlainLayout | BatchNormLayout | BatchNormGradLayout | BatchNormParamLayout | LayerNormLayout
  | LayerNormGradLayout | LayerNormParamLayout | BroadcastToLayout | BroadcastShapeLayout
  | Conv2dLayout | Conv2dGradDataLayout | Conv2dGradFilterLayout | Conv2dAddBiasLayout
  | DivLayout | DivConstLayout | EmbeddingLayout | EmbeddingGradLayout
  | MatMulLayout bool bool | LinearLayout bool bool | MulLayout | OnesLikeLayout
  | ReduceMeanLayout "int list" "bool list" | ReduceSumLayout "int list" "bool list"
  | SoftmaxSparseLayout | SoftmaxSparseGradLayout | TransposeLayout "int list option" | AttentionLayout

text \<open>\<open>node\<close> is the operator, \<open>n\<close> the number of its inputs, \<open>ins\<close> and \<open>st\<close> are the statuses.\<close>

definition Op_forward :: "nat \<Rightarrow> nat list \<Rightarrow> nat \<Rightarrow> bool \<Rightarrow> deduction" where
  "Op_forward n ins st ord L =
     assertE (length ins = n) (each_input (\<lambda>i. copy_status st i ord) ins L)"

definition BatchNorm_forward :: "nat list \<Rightarrow> nat \<Rightarrow> bool \<Rightarrow> deduction" where
  "BatchNorm_forward ins st ord L =
     assertE (length ins = 3) (with_input ins 0 (\<lambda>i. copy_status st i ord) L)"

definition BatchNormGrad_forward :: "nat list \<Rightarrow> nat \<Rightarrow> bool \<Rightarrow> deduction" where
  "BatchNormGrad_forward ins st ord L =
     assertE (length ins = 3)
       (andthen (with_input ins 0 (\<lambda>i. copy_status st i ord)) (with_input ins 1 (\<lambda>i. copy_status st i ord)) L)"

definition BatchNormParam_forward :: "nat list \<Rightarrow> nat \<Rightarrow> bool \<Rightarrow> deduction" where
  "BatchNormParam_forward ins st ord L =
     with_input ins 0 (\<lambda>i. when_valid ord i
       (andthen (check_status i 2 ord) (combine_status st i ord [([0], -2), ([1], 0)]))) L"

definition LayerNorm_forward :: "nat list \<Rightarrow> nat \<Rightarrow> bool \<Rightarrow> deduction" where
  "LayerNorm_forward ins st ord L =
     assertE (length ins = 3) (with_input ins 0 (\<lambda>i. copy_status st i ord) L)"

definition LayerNormGrad_forward :: "nat list \<Rightarrow> nat \<Rightarrow> bool \<Rightarrow> deduction" where
  "LayerNormGrad_forward ins st ord L =
     assertE (length ins = 3)
       (andthen (with_input ins 0 (\<lambda>i. copy_status st i ord)) (with_input ins 1 (\<lambda>i. copy_status st i ord)) L)"

definition LayerNormParam_forward :: "nat list \<Rightarrow> nat \<Rightarrow> bool \<Rightarrow> deduction" where
  "LayerNormParam_forward ins st ord L =
     with_input ins 0 (\<lambda>i. when_valid ord i (combine_status st i ord [([0], -2), ([1], 0)])) L"

definition BroadcastTo_forward :: "nat \<Rightarrow> nat list \<Rightarrow> nat \<Rightarrow> bool \<Rightarrow> deduction" where
  "BroadcastTo_forward n ins st ord L =
     assertE (length ins = n) (with_input ins 1 (\<lambda>i. copy_status st i ord) L)"

definition BroadcastShape_forward :: "nat \<Rightarrow> nat \<Rightarrow> nat list \<Rightarrow> nat \<Rightarrow> bool \<Rightarrow> deduction" where
  "BroadcastShape_forward node n ins st ord L =
     assertE (length ins = n)
       (case ori_status (links L node) of
          Some s \<Rightarrow> copy_status st s ord L
        | None \<Rightarrow> with_input ins 0 (\<lambda>i. pass_batch i st ord) L)"

definition Conv2d_forward :: "nat \<Rightarrow> nat list \<Rightarrow> nat \<Rightarrow> bool \<Rightarrow> deduction" where
  "Conv2d_forward n ins st ord L =
     assertE (length ins = n)
       (conv2d_forward_deduce_states ins st ord [(0, 0), (1, -2), (-1, 1)] [(-1, 0), (0, 1), (1, -2)] L)"

definition Conv2dGradData_forward :: "nat \<Rightarrow> nat list \<Rightarrow> nat \<Rightarrow> bool \<Rightarrow> deduction" where
  "Conv2dGradData_forward n ins st ord L =
     assertE (length ins = n)
       (conv2d_forward_deduce_states (take 2 ins) st ord [(-1, 0), (0, -2), (1, 1)] [(-1, 1), (0, 0), (1, -2)] L)"

definition Conv2dGradFilter_forward :: "nat \<Rightarrow> nat list \<Rightarrow> nat \<Rightarrow> bool \<Rightarrow> deduction" where
  "Conv2dGradFilter_forward n ins st ord L =
     assertE (length ins = n)
       (conv2d_forward_deduce_states (take 2 ins) st ord [(-1, 0), (0, -2), (1, 1)] [(-1, 1), (0, -2), (1, 0)] L)"

definition Conv2dAddBias_forward :: "nat \<Rightarrow> nat list \<Rightarrow> nat \<Rightarrow> bool \<Rightarrow> deduction" where
  "Conv2dAddBias_forward n ins st ord L =
     assertE (length ins = n)
       (conv2d_forward_deduce_states ins st ord [(0, 0), (1, -2), (-1, 1)] [(-1, 0), (0, 1), (1, -2)] L)"

definition Div_forward :: "nat \<Rightarrow> nat list \<Rightarrow> nat \<Rightarrow> bool \<Rightarrow> deduction" where
  "Div_forward n ins st ord L =
     assertE (length ins = n) (with_input ins 0 (\<lambda>i. copy_status st i ord) L)"

definition DivConst_forward :: "deduction" where
  "DivConst_forward L = Inr L"

definition Embedding_forward :: "nat \<Rightarrow> nat list \<Rightarrow> nat \<Rightarrow> bool \<Rightarrow> deduction" where
  "Embedding_forward n ins st ord L =
     assertE (length ins = n)
       (if length ins = 2 then with_input ins 0 (\<lambda>tb. with_input ins 1 (\<lambda>ids. embedding_forward tb ids st ord)) L
        else Inl ValueError)"

definition EmbeddingGrad_forward :: "nat \<Rightarrow> nat list \<Rightarrow> deduction" where
  "EmbeddingGrad_forward n ins L =
     assertE (length ins = n) (Inr L)"

definition MatMul_forward :: "bool \<Rightarrow> bool \<Rightarrow> nat list \<Rightarrow> nat \<Rightarrow> bool \<Rightarrow> deduction" where
  "MatMul_forward ta tb ins st ord L =
     assertE (length ins = 2) (matmul_forward_deduce ins st ord ta tb L)"

definition Linear_forward :: "bool \<Rightarrow> bool \<Rightarrow> nat list \<Rightarrow> nat \<Rightarrow> bool \<Rightarrow> deduction" where
  "Linear_forward ta tb ins st ord L =
     assertE (length ins = 3) (matmul_forward_deduce ins st ord ta tb L)"

definition Mul_forward :: "nat \<Rightarrow> nat list \<Rightarrow> nat \<Rightarrow> bool \<Rightarrow> deduction" where
  "Mul_forward n ins st ord L =
     (if partial_inputs ins L = []
       then assertE (length ins = n) (each_input (\<lambda>i. copy_status st i ord) ins L)
      else each_input (\<lambda>i. copy_status st i ord) (partial_inputs ins L) L)"

definition OnesLike_forward :: "nat \<Rightarrow> nat list \<Rightarrow> nat \<Rightarrow> bool \<Rightarrow> deduction" where
  "OnesLike_forward n ins st ord L =
     assertE (length ins = n)
       (when_valid ord st (with_input ins 0 (\<lambda>i. combine_status st i ord [([-2], -1)])) L)"

definition ReduceMean_forward :: "int list \<Rightarrow> bool list \<Rightarrow> nat list \<Rightarrow> nat \<Rightarrow> bool \<Rightarrow> deduction" where
  "ReduceMean_forward axes keepdims ins st ord L =
     assertE (length ins = 1)
       (with_input ins 0 (\<lambda>i. reduce_forward axes keepdims i st ord) L)"

definition ReduceSum_forward :: "int list \<Rightarrow> bool list \<Rightarrow> nat \<Rightarrow> nat \<Rightarrow> nat list \<Rightarrow> nat \<Rightarrow> bool \<Rightarrow> deduction" where
  "ReduceSum_forward axes keepdims node n ins st ord L =
     assertE (length ins = n)
       (case ori_status (links L node) of
          Some s \<Rightarrow> copy_status st s ord L
        | None \<Rightarrow> with_input ins 0 (\<lambda>i. reduce_forward axes keepdims i st ord) L)"

definition SoftmaxSparse_forward :: "nat \<Rightarrow> nat list \<Rightarrow> nat \<Rightarrow> bool \<Rightarrow> deduction" where
  "SoftmaxSparse_forward n ins st ord L =
     assertE (length ins = n)
       (with_input ins 0 (\<lambda>i. combine_when_valid st i ord [([1], -2)]) L)"

definition SoftmaxSparseGrad_forward :: "nat \<Rightarrow> nat list \<Rightarrow> nat \<Rightarrow> bool \<Rightarrow> deduction" where
  "SoftmaxSparseGrad_forward n ins st ord L =
     assertE (length ins = n) (with_input ins 0 (\<lambda>i. copy_status st i ord) L)"

definition Transpose_forward :: "int list option \<Rightarrow> nat list \<Rightarrow> nat \<Rightarrow> bool \<Rightarrow> deduction" where
  "Transpose_forward perm ins st ord L =
     assertE (length ins = 1) (assertE (perm \<noteq> None)
       (with_input ins 0 (\<lambda>i. transpose_with (perm_index (the perm)) i st ord) L))"

definition Attention_forward :: "nat \<Rightarrow> nat list \<Rightarrow> nat \<Rightarrow> bool \<Rightarrow> deduction" where
  "Attention_forward n ins st ord L =
     assertE (length ins = n) (each_input (\<lambda>i. copy_status st i ord) (take 3 ins) L)"

definition forward_deduce_states :: "layout_op \<Rightarrow> nat \<Rightarrow> nat \<Rightarrow> nat list \<Rightarrow> nat \<Rightarrow> bool \<Rightarrow> deduction" where
  "forward_deduce_states lop node n ins st ord L =
     (case lop of
        PlainLayout \<Rightarrow> Op_forward n ins st ord L
      | BatchNormLayout \<Rightarrow> BatchNorm_forward ins st ord L
      | BatchNormGradLayout \<Rightarrow> BatchNormGrad_forward ins st ord L
      | BatchNormParamLayout \<Rightarrow> BatchNormParam_forward ins st ord L
      | LayerNormLayout \<Rightarrow> LayerNorm_forward ins st ord L
      | LayerNormGradLayout \<Rightarrow> LayerNormGrad_forward ins st ord L
      | LayerNormParamLayout \<Rightarrow> LayerNormParam_forward ins st ord L
      | BroadcastToLayout \<Rightarrow> BroadcastTo_forward n ins st ord L
      | BroadcastShapeLayout \<Rightarrow> BroadcastShape_forward node n ins st ord L
      | Conv2dLayout \<Rightarrow> Conv2d_forward n ins st ord L
      | Conv2dGradDataLayout \<Rightarrow> Conv2dGradData_forward n ins st ord L
      | Conv2dGradFilterLayout \<Rightarrow> Conv2dGradFilter_forward n ins st ord L
      | Conv2dAddBiasLayout \<Rightarrow> Conv2dAddBias_forward n ins st ord L
      | DivLayout \<Rightarrow> Div_forward n ins st ord L
      | DivConstLayout \<Rightarrow> DivConst_forward L
      | EmbeddingLayout \<Rightarrow> Embedding_forward n ins st ord L
      | EmbeddingGradLayout \<Rightarrow> EmbeddingGrad_forward n ins L
      | MatMulLayout ta tb \<Rightarrow> MatMul_forward ta tb ins st ord L
      | LinearLayout ta tb \<Rightarrow> Linear_forward ta tb ins st ord L
      | MulLayout \<Rightarrow> Mul_forward n ins st ord L
      | OnesLikeLayout \<Rightarrow> OnesLike_forward n ins st ord L
      | ReduceMeanLayout axes keepdims \<Rightarrow> ReduceMean_forward axes keepdims ins st ord L
      | ReduceSumLayout axes keepdims \<Rightarrow> ReduceSum_forward axes keepdims node n ins st ord L
      | SoftmaxSparseLayout \<Rightarrow> SoftmaxSparse_forward n ins st ord L
      | SoftmaxSparseGradLayout \<Rightarrow> SoftmaxSparseGrad_forward n ins st ord L
      | TransposeLayout perm \<Rightarrow> Transpose_forward perm ins st ord L
      | AttentionLayout \<Rightarrow> Attention_forward n ins st ord L)"

lemmas forward_methods =
  Op_forward_def BatchNorm_forward_def BatchNormGrad_forward_def BatchNormParam_forward_def
  LayerNorm_forward_def LayerNormGrad_forward_def LayerNormParam_forward_def BroadcastTo_forward_def
  BroadcastShape_forward_def Conv2d_forward_def Conv2dGradData_forward_def Conv2dGradFilter_forward_def
  Conv2dAddBias_forward_def Div_forward_def DivConst_forward_def Embedding_forward_def
  EmbeddingGrad_forward_def MatMul_forward_def Linear_forward_def Mul_forward_def OnesLike_forward_def
  ReduceMean_forward_def ReduceSum_forward_def SoftmaxSparse_forward_def SoftmaxSparseGrad_forward_def
  Transpose_forward_def Attention_forward_def

definition Op_backward :: "nat \<Rightarrow> nat \<Rightarrow> nat list \<Rightarrow> bool \<Rightarrow> deduction" where
  "Op_backward n st ins ord L =
     assertE (length ins = n) (each_input (\<lambda>i. copy_status i st ord) ins L)"

definition BatchNorm_backward :: "nat \<Rightarrow> nat list \<Rightarrow> bool \<Rightarrow> deduction" where
  "BatchNorm_backward st ins ord L =
     assertE (length ins = 3)
       (andthen (with_input ins 0 (\<lambda>i. copy_status i st ord))
          (when_valid ord st (andthen (check_status st 2 ord)
             (with_input ins 1 (\<lambda>i. with_input ins 2 (\<lambda>j. combine_two i j st ord [([0], -1), ([1], 0)]))))) L)"

definition BatchNormGrad_backward :: "nat \<Rightarrow> nat list \<Rightarrow> bool \<Rightarrow> deduction" where
  "BatchNormGrad_backward st ins ord L =
     assertE (length ins = 3)
       (andthen (with_input ins 0 (\<lambda>i. copy_status i st ord))
          (andthen (with_input ins 1 (\<lambda>i. copy_status i st ord))
             (when_valid ord st (andthen (check_status st 2 ord)
                (with_input ins 2 (\<lambda>i. combine_status i st ord [([0], -1), ([1], 0)]))))) L)"

definition BatchNormParam_backward :: "deduction" where
  "BatchNormParam_backward L = Inr L"

definition LayerNorm_backward :: "nat \<Rightarrow> nat list \<Rightarrow> bool \<Rightarrow> deduction" where
  "LayerNorm_backward st ins ord L =
     assertE (length ins = 3)
       (andthen (with_input ins 0 (\<lambda>i. copy_status i st ord))
          (when_valid ord st
             (with_input ins 1 (\<lambda>i. with_input ins 2 (\<lambda>j. combine_two i j st ord [([0], -1), ([1], 0)])))) L)"

definition LayerNormGrad_backward :: "nat \<Rightarrow> nat list \<Rightarrow> bool \<Rightarrow> deduction" where
  "LayerNormGrad_backward st ins ord L =
     assertE (length ins = 3)
       (andthen (with_input ins 0 (\<lambda>i. copy_status i st ord))
          (andthen (with_input ins 1 (\<lambda>i. copy_status i st ord))
             (when_valid ord st (with_input ins 2 (\<lambda>i. combine_status i st ord [([0], -1), ([1], 0)])))) L)"

definition LayerNormParam_backward :: "deduction" where
  "LayerNormParam_backward L = Inr L"

definition BroadcastTo_backward :: "nat \<Rightarrow> nat \<Rightarrow> nat \<Rightarrow> nat list \<Rightarrow> bool \<Rightarrow> deduction" where
  "BroadcastTo_backward node n st ins ord L =
     assertE (length ins = n)
       (andthen (with_input ins 0 (\<lambda>i. link_gradient node i False st)) (with_input ins 1 (\<lambda>i. copy_status i st ord)) L)"

definition BroadcastShape_backward :: "nat \<Rightarrow> nat \<Rightarrow> nat \<Rightarrow> nat list \<Rightarrow> bool \<Rightarrow> deduction" where
  "BroadcastShape_backward node n st ins ord L =
     assertE (length ins = n)
       (andthen (with_input ins 0 (\<lambda>i. link_gradient node i False st))
          (with_input ins 0 (\<lambda>i L. case tar_status (links L node) of
             Some t \<Rightarrow> copy_status i t ord L
           | None \<Rightarrow> pass_batch st i ord L)) L)"

definition Conv2d_backward :: "nat \<Rightarrow> nat \<Rightarrow> nat list \<Rightarrow> bool \<Rightarrow> deduction" where
  "Conv2d_backward n st ins ord L =
     assertE (length ins = n)
       (conv2d_backward_deduce_states st ins ord [(0, 0), (1, -1), (-2, 1), (-1, -1)] [(-2, 1), (0, -1), (1, 0), (-1, -1)] L)"

definition Conv2dGradData_backward :: "nat \<Rightarrow> nat \<Rightarrow> nat list \<Rightarrow> bool \<Rightarrow> deduction" where
  "Conv2dGradData_backward n st ins ord L =
     assertE (length ins = n)
       (conv2d_backward_deduce_states st (take 2 ins) ord [(-2, 0), (0, -1), (1, 1), (-1, -1)] [(-2, 1), (0, 0), (1, -1), (-1, -1)] L)"

definition Conv2dGradFilter_backward :: "nat \<Rightarrow> nat \<Rightarrow> nat list \<Rightarrow> bool \<Rightarrow> deduction" where
  "Conv2dGradFilter_backward n st ins ord L =
     assertE (length ins = n)
       (conv2d_backward_deduce_states st (take 2 ins) ord [(-2, 0), (0, -1), (1, 1), (-1, -1)] [(-2, 0), (0, 1), (1, -1), (-1, -1)] L)"

definition Conv2dAddBias_backward :: "nat \<Rightarrow> nat \<Rightarrow> nat list \<Rightarrow> bool \<Rightarrow> deduction" where
  "Conv2dAddBias_backward n st ins ord L =
     assertE (length ins = n)
       (andthen (conv2d_backward_deduce_states st ins ord [(0, 0), (1, -1), (-2, 1), (-1, -1)] [(-2, 1), (0, -1), (1, 0), (-1, -1)])
          (when_valid ord st (with_input ins 2 (\<lambda>i. combine_status i st ord [([0, -2], -1), ([1], 0)]))) L)"

definition Div_backward :: "nat \<Rightarrow> nat \<Rightarrow> nat list \<Rightarrow> bool \<Rightarrow> deduction" where
  "Div_backward n st ins ord L =
     assertE (length ins = n)
       (andthen (with_input ins 0 (\<lambda>i. copy_status i st ord))
          (when_valid ord st (with_input ins 1 (\<lambda>i. combine_status i st ord [([-2], -1)]))) L)"

definition DivConst_backward :: "nat \<Rightarrow> nat \<Rightarrow> nat list \<Rightarrow> bool \<Rightarrow> deduction" where
  "DivConst_backward n st ins ord L =
     assertE (length ins = n)
       (when_valid ord st (with_input ins 0 (\<lambda>i. combine_status i st ord [([-2], -1)])) L)"

definition Embedding_backward :: "nat \<Rightarrow> nat \<Rightarrow> nat list \<Rightarrow> bool \<Rightarrow> deduction" where
  "Embedding_backward n st ins ord L =
     assertE (length ins = n)
       (andthen (when_valid ord st (check_status st 1 ord))
          (when_valid ord st
             (andthen (with_input ins 0 (\<lambda>i. combine_status i st ord [([0], -1), ([-2], 0)]))
                      (with_input ins 1 (\<lambda>i. combine_status i st ord [([-2], -1)])))) L)"

definition EmbeddingGrad_backward :: "nat \<Rightarrow> nat \<Rightarrow> nat list \<Rightarrow> bool \<Rightarrow> deduction" where
  "EmbeddingGrad_backward n st ins ord L =
     assertE (length ins = n)
       (with_input ins 0 (\<lambda>a. with_input ins 1 (\<lambda>b. embedding_gradient_backward st a b ord)) L)"

definition MatMul_backward :: "bool \<Rightarrow> bool \<Rightarrow> nat \<Rightarrow> nat list \<Rightarrow> bool \<Rightarrow> deduction" where
  "MatMul_backward ta tb st ins ord L =
     assertE (length ins = 2) (matmul_backward_deduce st ins ord ta tb L)"

definition Linear_backward :: "bool \<Rightarrow> bool \<Rightarrow> nat \<Rightarrow> nat list \<Rightarrow> bool \<Rightarrow> deduction" where
  "Linear_backward ta tb st ins ord L =
     assertE (length ins = 3)
       (andthen (matmul_backward_deduce st ins ord ta tb)
          (when_valid ord st (with_input ins 2 (\<lambda>i. combine_status i st ord [([0, -2], -1), ([1], 0)]))) L)"

definition Mul_backward :: "nat \<Rightarrow> nat \<Rightarrow> nat list \<Rightarrow> bool \<Rightarrow> deduction" where
  "Mul_backward n st ins ord L =
     (if partial_inputs ins L = []
       then assertE (length ins = n) (each_input (\<lambda>i. copy_status i st ord) ins L)
      else each_input (\<lambda>i. copy_status i st ord) (partial_inputs ins L) L)"

definition OnesLike_backward :: "deduction" where
  "OnesLike_backward L = Inr L"

definition ReduceMean_backward :: "nat \<Rightarrow> nat \<Rightarrow> nat \<Rightarrow> nat list \<Rightarrow> deduction" where
  "ReduceMean_backward node n st ins L =
     assertE (length ins = n) (with_input ins 0 (\<lambda>i. link_gradient node i True st) L)"

definition ReduceSum_backward :: "nat \<Rightarrow> nat \<Rightarrow> nat \<Rightarrow> nat list \<Rightarrow> bool \<Rightarrow> deduction" where
  "ReduceSum_backward node n st ins ord L =
     assertE (length ins = n)
       (andthen (with_input ins 0 (\<lambda>i. link_gradient node i True st))
          (with_input ins 0 (\<lambda>i L. case tar_status (links L node) of None \<Rightarrow> Inr L | Some t \<Rightarrow> copy_status i t ord L)) L)"

definition SoftmaxSparse_backward :: "nat \<Rightarrow> nat \<Rightarrow> nat list \<Rightarrow> bool \<Rightarrow> deduction" where
  "SoftmaxSparse_backward n st ins ord L =
     assertE (length ins = n)
       (andthen (with_input ins 0 (\<lambda>i. combine_when_valid i st ord [([-2], 1)]))
                (with_input ins 1 (\<lambda>i. combine_when_valid i st ord [([-2], -1)])) L)"

definition SoftmaxSparseGrad_backward :: "nat \<Rightarrow> nat \<Rightarrow> nat list \<Rightarrow> bool \<Rightarrow> deduction" where
  "SoftmaxSparseGrad_backward n st ins ord L =
     assertE (length ins = n)
       (andthen (with_input ins 0 (\<lambda>i. copy_status i st ord))
                (with_input ins 2 (\<lambda>i. combine_when_valid i st ord [([1], -1)])) L)"

definition Transpose_backward :: "int list option \<Rightarrow> nat \<Rightarrow> nat list \<Rightarrow> bool \<Rightarrow> deduction" where
  "Transpose_backward perm st ins ord L =
     assertE (length ins = 1) (assertE (perm \<noteq> None)
       (with_input ins 0 (\<lambda>i. transpose_with (py_nth (the perm)) st i ord) L))"

definition Attention_backward :: "nat \<Rightarrow> nat \<Rightarrow> nat list \<Rightarrow> bool \<Rightarrow> deduction" where
  "Attention_backward n st ins ord L =
     assertE (length ins = n)
       (andthen (each_input (\<lambda>i. copy_status i st ord) (take 3 ins))
          (when_valid ord st (with_input ins 3 (\<lambda>i. combine_status i st ord [([1], -1)]))) L)"

definition backward_deduce_states :: "layout_op \<Rightarrow> nat \<Rightarrow> nat \<Rightarrow> nat \<Rightarrow> nat list \<Rightarrow> bool \<Rightarrow> deduction" where
  "backward_deduce_states lop node n st ins ord L =
     (case lop of
        PlainLayout \<Rightarrow> Op_backward n st ins ord L
      | BatchNormLayout \<Rightarrow> BatchNorm_backward st ins ord L
      | BatchNormGradLayout \<Rightarrow> BatchNormGrad_backward st ins ord L
      | BatchNormParamLayout \<Rightarrow> BatchNormParam_backward L
      | LayerNormLayout \<Rightarrow> LayerNorm_backward st ins ord L
      | LayerNormGradLayout \<Rightarrow> LayerNormGrad_backward st ins ord L
      | LayerNormParamLayout \<Rightarrow> LayerNormParam_backward L
      | BroadcastToLayout \<Rightarrow> BroadcastTo_backward node n st ins ord L
      | BroadcastShapeLayout \<Rightarrow> BroadcastShape_backward node n st ins ord L
      | Conv2dLayout \<Rightarrow> Conv2d_backward n st ins ord L
      | Conv2dGradDataLayout \<Rightarrow> Conv2dGradData_backward n st ins ord L
      | Conv2dGradFilterLayout \<Rightarrow> Conv2dGradFilter_backward n st ins ord L
      | Conv2dAddBiasLayout \<Rightarrow> Conv2dAddBias_backward n st ins ord L
      | DivLayout \<Rightarrow> Div_backward n st ins ord L
      | DivConstLayout \<Rightarrow> DivConst_backward n st ins ord L
      | EmbeddingLayout \<Rightarrow> Embedding_backward n st ins ord L
      | EmbeddingGradLayout \<Rightarrow> EmbeddingGrad_backward n st ins ord L
      | MatMulLayout ta tb \<Rightarrow> MatMul_backward ta tb st ins ord L
      | LinearLayout ta tb \<Rightarrow> Linear_backward ta tb st ins ord L
      | MulLayout \<Rightarrow> Mul_backward n st ins ord L
      | OnesLikeLayout \<Rightarrow> OnesLike_backward L
      | ReduceMeanLayout axes keepdims \<Rightarrow> ReduceMean_backward node n st ins L
      | ReduceSumLayout axes keepdims \<Rightarrow> ReduceSum_backward node n st ins ord L
      | SoftmaxSparseLayout \<Rightarrow> SoftmaxSparse_backward n st ins ord L
      | SoftmaxSparseGradLayout \<Rightarrow> SoftmaxSparseGrad_backward n st ins ord L
      | TransposeLayout perm \<Rightarrow> Transpose_backward perm st ins ord L
      | AttentionLayout \<Rightarrow> Attention_backward n st ins ord L)"

lemmas backward_methods =
  Op_backward_def BatchNorm_backward_def BatchNormGrad_backward_def BatchNormParam_backward_def
  LayerNorm_backward_def LayerNormGrad_backward_def LayerNormParam_backward_def BroadcastTo_backward_def
  BroadcastShape_backward_def Conv2d_backward_def Conv2dGradData_backward_def
  Conv2dGradFilter_backward_def Conv2dAddBias_backward_def Div_backward_def DivConst_backward_def
  Embedding_backward_def EmbeddingGrad_backward_def MatMul_backward_def Linear_backward_def
  Mul_backward_def OnesLike_backward_def ReduceMean_backward_def ReduceSum_backward_def
  SoftmaxSparse_backward_def SoftmaxSparseGrad_backward_def Transpose_backward_def Attention_backward_def

text \<open>The status of a gradient: \<open>index\<close> -1 is the gradient of the output, else of an input.\<close>

definition generated_plain :: "nat list \<Rightarrow> nat \<Rightarrow> int \<Rightarrow> layouts \<Rightarrow> (nat \<times> layouts) result" where
  "generated_plain ins st index L =
     (if index = -1 then remove_partial_at st L else bindE (py_nth ins index) (\<lambda>a. remove_partial_at a L))"

definition generated_norm :: "nat \<Rightarrow> int \<Rightarrow> layouts \<Rightarrow> (nat \<times> layouts) result" where
  "generated_norm st index L =
     (if index \<le> 0 then Inr (st, L)
      else let s = status_at L st in
        bindE (node_status_of (dev_num s) None True) (\<lambda>new.
        bindE (set_from_combine s False [([0], -2), ([1], 0)] new) (\<lambda>new.
        bindE (set_from_combine s True [([0], -2), ([1], 0)] new) (\<lambda>new. Inr (new_status new L)))))"

definition generated_embedding :: "nat \<Rightarrow> int \<Rightarrow> layouts \<Rightarrow> (nat \<times> layouts) result" where
  "generated_embedding st index L =
     assertE (index \<le> 0)
       (if index = -1 then remove_partial_at st L
        else let s = status_at L st in
          bindE (node_status_of (dev_num s) None True) (\<lambda>new.
          bindE (exchange_state s (-2) 0) (\<lambda>l. bindE (set_layout l new) (\<lambda>new.
          bindE (exchange_order s (-2) 0) (\<lambda>os. bindE (set_order (Some os) new) (\<lambda>new. Inr (new_status new L)))))))"

definition deduce_generated :: "layout_op \<Rightarrow> nat list \<Rightarrow> nat \<Rightarrow> int \<Rightarrow> layouts \<Rightarrow> (nat \<times> layouts) result" where
  "deduce_generated lop ins st index L =
     (case lop of
        BatchNormLayout \<Rightarrow> generated_norm st index L
      | LayerNormLayout \<Rightarrow> generated_norm st index L
      | EmbeddingLayout \<Rightarrow> generated_embedding st index L
      | Conv2dLayout \<Rightarrow>
          (if index = -1 then remove_partial_at st L
           else bindE (conv2d_make_backward_status (status_at L st) index) (\<lambda>new. Inr (new_status new L)))
      | Conv2dAddBiasLayout \<Rightarrow>
          (if index = -1 then remove_partial_at st L
           else bindE (conv2d_make_backward_status (status_at L st) index) (\<lambda>new. Inr (new_status new L)))
      | MatMulLayout ta tb \<Rightarrow>
          (if index = -1 then remove_partial_at st L
           else bindE (matmul_make_backward_status (status_at L st) ta tb index) (\<lambda>new. Inr (new_status new L)))
      | LinearLayout ta tb \<Rightarrow>
          (if index = -1 then remove_partial_at st L
           else bindE (matmul_make_backward_status (status_at L st) ta tb index) (\<lambda>new. Inr (new_status new L)))
      | _ \<Rightarrow> generated_plain ins st index L)"

definition reset_status :: "layout_op \<Rightarrow> nat \<Rightarrow> layouts \<Rightarrow> layouts" where
  "reset_status lop node L =
     (case lop of
        BroadcastToLayout \<Rightarrow> reset_grad_set node L
      | ReduceMeanLayout axes keepdims \<Rightarrow> reset_grad_set node L
      | BroadcastShapeLayout \<Rightarrow> reset_link node L
      | ReduceSumLayout axes keepdims \<Rightarrow> reset_link node L
      | _ \<Rightarrow> L)"

section \<open>Deduction only refines\<close>

text \<open>
  \<open>refines s t\<close>: everything that is known in \<open>s\<close> is the same in \<open>t\<close>. The exception is \<open>partial\<close>
  of a status that cannot be partial, which \<open>valid_state\<close> sets to 1.
\<close>

definition keeps :: "'a option \<Rightarrow> 'a option \<Rightarrow> bool" where
  "keeps a b \<longleftrightarrow> a = None \<or> b = a"

definition refines :: "node_status \<Rightarrow> node_status \<Rightarrow> bool" where
  "refines s t \<longleftrightarrow> dev_num t = dev_num s \<and> enable_partial t = enable_partial s \<and> keeps (state s) (state t) \<and>
     keeps (duplicate s) (duplicate t) \<and> (enable_partial s \<longrightarrow> keeps (partial s) (partial t)) \<and>
     keeps (order s) (order t) \<and> (valid_state_flag s \<longrightarrow> valid_state_flag t) \<and> (valid_all_flag s \<longrightarrow> valid_all_flag t)"

named_theorems refining_intros "deductions that only refine"

lemma keeps_refl [simp]: "keeps a a" "keeps None b" by (simp_all add: keeps_def)

lemma keeps_trans: "keeps a b \<Longrightarrow> keeps b c \<Longrightarrow> keeps a c" by (auto simp: keeps_def)

lemma refines_refl [simp, intro]: "refines s s" by (simp add: refines_def)

lemma refines_trans: "refines s t \<Longrightarrow> refines t u \<Longrightarrow> refines s u"
  by (auto simp: refines_def intro: keeps_trans)

lemma try_set_refines:
  "try_set_duplicate d s = Inr t \<Longrightarrow> refines s t"
  "try_set_partial d s = Inr t \<Longrightarrow> refines s t"
  by (auto simp: try_set_duplicate_def try_set_partial_def assertE_Inr_iff refines_def keeps_def)

lemma try_get_duplicate_refines: "try_get_duplicate s = Inr t \<Longrightarrow> refines s t"
  by (auto simp: try_get_duplicate_def Let_def assertE_Inr_iff elim!: bindE_InrE split: if_splits option.splits)
     (blast intro: try_set_refines refines_trans)+

lemma set_duplicate_refines: "set_duplicate d s = Inr t \<Longrightarrow> refines s t"
  by (auto simp: set_duplicate_def assertE_Inr_iff refines_def keeps_def Let_def split: option.splits if_splits
      dest!: try_get_duplicate_refines)

lemma set_partial_refines: "set_partial d s = Inr t \<Longrightarrow> refines s t"
  by (auto simp: set_partial_def assertE_Inr_iff refines_def keeps_def split: option.splits if_splits
      dest!: try_get_duplicate_refines)

lemma set_state_refines:
  assumes "set_state arg dup par s = Inr t"
  shows "refines s t"
proof -
  from assms obtain s1 s2 s3 where one: "(case arg of None \<Rightarrow> Inr s | Some a \<Rightarrow>
      (let d = norm_state a in assertE (state s \<in> {Some d, None}) (Inr (if state s = None then s\<lparr>state := Some d\<rparr> else s)))) = Inr s1"
    and two: "(if dup \<noteq> None then set_duplicate dup s1 else Inr s1) = Inr s2"
    and three: "(if par \<noteq> None then set_partial par s2 else Inr s2) = Inr s3"
    and four: "(if dup = None \<and> par = None then try_get_duplicate s3 else Inr s3) = Inr t"
    unfolding set_state_def by (elim bindE_InrE) (rule that)
  have "refines s s1" using one by (auto simp: refines_def Let_def assertE_Inr_iff split: option.splits if_splits)
  moreover have "refines s1 s2" using two set_duplicate_refines [of dup s1 s2] by (cases "dup = None") simp_all
  moreover have "refines s2 s3" using three set_partial_refines [of par s2 s3] by (cases "par = None") simp_all
  moreover have "refines s3 t"
    using four try_get_duplicate_refines [of s3 t] by (cases "dup = None \<and> par = None") (simp_all only: if_True if_False simp_thms sum.inject refines_refl)
  ultimately show ?thesis by (blast intro: refines_trans)
qed

lemma set_layout_refines: "set_layout l s = Inr t \<Longrightarrow> refines s t"
  by (auto simp: set_layout_def split: prod.splits dest: set_state_refines)

lemma set_order_refines: "set_order arg s = Inr t \<Longrightarrow> refines s t"
  by (auto simp: set_order_def refines_def keeps_def assertE_Inr_iff elim!: bindE_InrE split: option.splits)

lemma copy_from_refines: "copy_from other ord s = Inr t \<Longrightarrow> refines s t"
  by (auto simp: copy_from_def copy_order_from_def copy_state_from_def elim!: bindE_InrE split: if_splits)
     (blast intro: refines_trans set_state_refines set_duplicate_refines set_partial_refines set_order_refines)+

lemma set_from_combine_refines: "set_from_combine other ord sds s = Inr t \<Longrightarrow> refines s t"
  by (auto simp: set_from_combine_def elim!: bindE_InrE split: if_splits intro: set_order_refines set_layout_refines)

lemma valid_state_refines: "valid_state s = (b, t) \<Longrightarrow> refines s t"
  by (auto simp: valid_state_def Let_def refines_def split: if_splits)

lemma valid_all_refines:
  assumes "valid_all s = Inr (b, t)"
  shows "refines s t"
proof (cases "valid_all_flag s")
  case True with assms show ?thesis by (simp add: valid_all_def)
next
  case False
  obtain c s1 where v: "valid_state s = (c, s1)" by (cases "valid_state s")
  have s1: "refines s s1" using v by (rule valid_state_refines)
  have "refines s1 t"
    using assms False v
    by (auto simp: valid_all_def refines_def keeps_def Let_def assertE_Inr_iff elim!: bindE_InrE
        split: bool.splits option.splits if_splits)
  with s1 show ?thesis by (rule refines_trans)
qed

lemma valid_refines: "valid ord s = Inr (b, t) \<Longrightarrow> refines s t"
  by (auto simp: valid_def split: if_splits intro: valid_all_refines valid_state_refines)

section \<open>Deductions on the store only refine\<close>

definition store_refines :: "layouts \<Rightarrow> layouts \<Rightarrow> bool" where
  "store_refines L M \<longleftrightarrow> fresh L \<le> fresh M \<and> (\<forall>a < fresh L. refines (status_at L a) (status_at M a))"

definition refining :: "deduction \<Rightarrow> bool" where
  "refining f \<longleftrightarrow> (\<forall>L M. f L = Inr M \<longrightarrow> store_refines L M)"

lemma store_refines_refl [simp]: "store_refines L L" by (simp add: store_refines_def)

lemma store_refines_trans: "store_refines L M \<Longrightarrow> store_refines M N \<Longrightarrow> store_refines L N"
  by (auto simp: store_refines_def intro: refines_trans)

lemma refiningI: "(\<And>L M. f L = Inr M \<Longrightarrow> store_refines L M) \<Longrightarrow> refining f"
  by (simp add: refining_def)

lemma refiningD: "refining f \<Longrightarrow> f L = Inr M \<Longrightarrow> store_refines L M"
  by (simp add: refining_def)

lemma put_status_refines: "refines (status_at L a) s \<Longrightarrow> store_refines L (put_status a s L)"
  by (simp add: store_refines_def put_status_def)

lemma new_status_refines: "new_status s L = (a, M) \<Longrightarrow> store_refines L M"
  by (auto simp: new_status_def store_refines_def)

lemma refining_Inr [refining_intros]: "refining Inr"
  by (simp add: refining_def)

lemma refining_change [refining_intros]:
  "(\<And>s t. f s = Inr t \<Longrightarrow> refines s t) \<Longrightarrow> refining (change_status a f)"
  by (auto simp: refining_def change_status_def elim!: bindE_InrE intro: put_status_refines)

lemma ask_valid_refines: "ask_valid ord a L = Inr (b, M) \<Longrightarrow> store_refines L M"
  by (auto simp: ask_valid_def elim!: bindE_InrE intro: put_status_refines valid_refines)

lemma refining_when_valid [refining_intros]: "refining body \<Longrightarrow> refining (when_valid ord a body)"
  by (auto simp: refining_def when_valid_def elim!: bindE_InrE dest!: ask_valid_refines
      intro: store_refines_trans split: if_splits)

lemma refining_andthen [refining_intros]: "refining f \<Longrightarrow> refining g \<Longrightarrow> refining (andthen f g)"
  by (auto simp: refining_def andthen_def elim!: bindE_InrE) (blast intro: store_refines_trans)

lemma refining_with_input [refining_intros]: "(\<And>a. refining (f a)) \<Longrightarrow> refining (with_input ins i f)"
  by (auto simp: refining_def with_input_def elim!: bindE_InrE)

lemma refining_each_input [refining_intros]: "(\<And>a. refining (f a)) \<Longrightarrow> refining (each_input f ins)"
  by (induction ins) (auto intro: refining_intros)

lemma refining_copy [refining_intros]: "refining (copy_status dst src ord)"
  using refiningD [OF refining_change, OF copy_from_refines] by (auto simp: refining_def copy_status_def)

lemma refining_combine [refining_intros]: "refining (combine_status dst src ord sds)"
  using refiningD [OF refining_change, OF set_from_combine_refines] by (auto simp: refining_def combine_status_def)

lemma refining_check [refining_intros]: "refining (check_status a n ord)"
  by (auto simp: refining_def check_status_def elim!: bindE_InrE)

lemma refining_assert [refining_intros]: "refining f \<Longrightarrow> refining (\<lambda>L. assertE c (f L))"
  by (auto simp: refining_def assertE_Inr_iff)

lemma refining_bind [refining_intros]: "(\<And>x. refining (f x)) \<Longrightarrow> refining (\<lambda>L. bindE (m L) (\<lambda>x. f x L))"
  by (auto simp: refining_def elim!: bindE_InrE)

lemma refining_if [refining_intros]: "refining f \<Longrightarrow> refining g \<Longrightarrow> refining (if c then f else g)"
  by simp

lemma refining_case_option [refining_intros]:
  "refining f \<Longrightarrow> (\<And>x. refining (g x)) \<Longrightarrow> refining (\<lambda>L. case m L of None \<Rightarrow> f L | Some x \<Rightarrow> g x L)"
  by (auto simp: refining_def split: option.splits)

lemma refining_change_with [refining_intros]:
  "(\<And>x s t. f x s = Inr t \<Longrightarrow> refines s t) \<Longrightarrow> refining (\<lambda>L. change_status a (f (m L)) L)"
  by (auto simp: refining_def change_status_def elim!: bindE_InrE intro: put_status_refines)

lemma refining_combine_two [refining_intros]: "refining (combine_two a b src ord sds)"
  unfolding combine_two_def [abs_def]
  by (cases ord) (auto simp: refining_def andthen_def change_status_def elim!: bindE_InrE
      intro!: store_refines_trans [OF put_status_refines put_status_refines]
      dest: set_order_refines set_layout_refines)

lemma refining_combine_when [refining_intros]: "refining (combine_when_valid dst src ord sds)"
  by (simp add: combine_when_valid_def refining_intros)

lemma refining_forward_orders [refining_intros]: "refining (forward_orders l r st lmap rmap lp rp a b)"
  unfolding forward_orders_def [abs_def] by (intro refining_bind refining_change set_order_refines)

lemma refining_matmul_forward [refining_intros]: "refining (matmul_forward_deduce ins st ord ta tb)"
  unfolding matmul_forward_deduce_def when_both_valid_def Let_def
  by (intro refining_intros set_state_refines)

lemma refining_bind_prod [refining_intros]:
  "(\<And>x y. refining (f x y)) \<Longrightarrow> refining (\<lambda>L. bindE (m L) (\<lambda>(x, y). f x y L))"
  by (auto simp: refining_def elim!: bindE_InrE)

lemma refining_operand_states [refining_intros]: "refining (operand_states lm rm st l r)"
  unfolding operand_states_def [abs_def]
  by (intro refining_bind refining_bind_prod refining_andthen refining_change set_state_refines)

lemma refining_matmul_backward [refining_intros]: "refining (matmul_backward_deduce st ins ord ta tb)"
  unfolding matmul_backward_deduce_def
  by (intro refining_when_valid refining_with_input refining_if refining_bind refining_andthen refining_change
      set_order_refines refining_operand_states)

lemma refining_conv2d_forward [refining_intros]: "refining (conv2d_forward_deduce_states ins st ord lm rm)"
  unfolding conv2d_forward_deduce_states_def when_both_valid_def
  by (intro refining_when_valid refining_with_input refining_if refining_bind refining_bind_prod refining_change
      set_state_refines refining_forward_orders)

lemma refining_conv2d_backward [refining_intros]: "refining (conv2d_backward_deduce_states st ins ord lm rm)"
  unfolding conv2d_backward_deduce_states_def
  by (intro refining_when_valid refining_with_input refining_if refining_bind refining_andthen refining_change
      set_order_refines refining_operand_states refining_check)

lemma refining_reduce_forward [refining_intros]: "refining (reduce_forward axes keepdims i st ord)"
  unfolding reduce_forward_def case_prod_beta
  by (intro refining_when_valid refining_if refining_bind refining_change refining_case_option refining_Inr
      set_order_refines)
     (auto simp: refining_def change_status_def elim!: bindE_InrE intro!: put_status_refines dest: set_state_refines)

lemma refining_pass_batch [refining_intros]: "refining (pass_batch src dst ord)"
  by (cases ord)
     (auto simp: refining_def pass_batch_def Let_def andthen_def check_status_def change_status_def elim!: bindE_InrE
        split: option.splits if_splits intro!: put_status_refines dest: set_order_refines set_state_refines)

lemma refining_transpose [refining_intros]: "refining (transpose_with f src dst ord)"
  unfolding transpose_with_def
  by (intro refining_when_valid)
     (auto simp: refining_def change_status_def elim!: bindE_InrE split: option.splits if_splits intro!: put_status_refines
        dest: set_order_refines set_state_refines)

lemma refining_embedding_forward [refining_intros]: "refining (embedding_forward tb ids st ord)"
  unfolding embedding_forward_def
  by (intro refining_when_valid)
     (auto simp: refining_def change_status_def elim!: bindE_InrE split: if_splits intro!: put_status_refines
        dest: set_order_refines set_state_refines)

lemma refining_ask [refining_intros]:
  "(\<And>b. refining (f b)) \<Longrightarrow> refining (\<lambda>L. bindE (ask_valid ord a L) (\<lambda>(b, L). f b L))"
  by (auto simp: refining_def elim!: bindE_InrE) (blast intro: store_refines_trans ask_valid_refines)

lemma refining_embedding_gradient [refining_intros]: "refining (embedding_gradient_backward st a b ord)"
  unfolding embedding_gradient_backward_def [abs_def]
  by (rule refining_ask [where f = "\<lambda>ok L. if ok
          then andthen (combine_status a st ord [([0], -1), ([-2], 0)]) (combine_status b st ord [([0], -1), ([-2], 0)]) L
          else bindE (ask_valid ord a L) (\<lambda>(ok, L). if ok then copy_status b a ord L else when_valid ord b (copy_status a b ord) L)"])
     (auto simp: refining_def elim!: bindE_InrE split: if_splits
        dest!: ask_valid_refines refiningD [OF refining_andthen [OF refining_combine refining_combine]]
          refiningD [OF refining_copy] refiningD [OF refining_when_valid [OF refining_copy]]
        intro: store_refines_trans)

lemma remove_partial_refines:
  assumes "remove_partial s = Inr (t, new)"
  shows "refines s t"
proof (cases "enable_partial s")
  case False with assms show ?thesis by (simp add: remove_partial_def)
next
  case True
  obtain b s1 where v: "valid_state s = (b, s1)" by (cases "valid_state s")
  with assms True obtain c where "valid_all s1 = Inr (c, t)"
    by (auto simp: remove_partial_def elim!: bindE_InrE split: if_splits)
  with v show ?thesis by (blast intro: refines_trans valid_state_refines valid_all_refines)
qed

lemma remove_partial_at_refines: "remove_partial_at a L = Inr (b, M) \<Longrightarrow> store_refines L M"
  by (auto simp: remove_partial_at_def elim!: bindE_InrE dest!: remove_partial_refines split: if_splits)
     (metis new_status_refines put_status_refines store_refines_trans)

lemma refining_link [refining_intros]: "refining (link_gradient node inp strip st)"
  by (cases strip)
     (auto simp: refining_def link_gradient_def Let_def store_refines_def elim!: bindE_InrE split: option.splits if_splits
        dest!: remove_partial_at_refines)

lemma refining_each_partial [refining_intros]: "(\<And>a. refining (f a)) \<Longrightarrow> refining (\<lambda>L. each_input f (partial_inputs ins L) L)"
  using refining_each_input [of f] by (auto simp: refining_def)

lemma refining_if_with [refining_intros]: "refining f \<Longrightarrow> refining g \<Longrightarrow> refining (\<lambda>L. if c L then f L else g L)"
  by (auto simp: refining_def)

lemma refining_pair_if [refining_intros]: "refining f \<Longrightarrow> refining (\<lambda>L. if c then f L else Inl e)"
  by (auto simp: refining_def)

lemma forward_refines: "refining (forward_deduce_states lop node n ins st ord)"
  unfolding forward_deduce_states_def [abs_def] forward_methods
  by (cases lop; simp only: layout_op.case; intro refining_intros)

lemma backward_refines: "refining (backward_deduce_states lop node n st ins ord)"
  unfolding backward_deduce_states_def [abs_def] backward_methods
  by (cases lop; simp only: layout_op.case; intro refining_intros)

lemma generated_refines: "deduce_generated lop ins st index L = Inr (a, M) \<Longrightarrow> store_refines L M"
  by (cases lop)
     (auto simp: deduce_generated_def generated_plain_def generated_norm_def generated_embedding_def Let_def assertE_Inr_iff
        elim!: bindE_InrE split: if_splits dest: remove_partial_at_refines new_status_refines)

end
