(* ===== verification/GraphLayout.thy ===== *)
theory GraphLayout imports GraphOrder LayoutDeduce begin

text \<open>
  \<open>GraphStatus\<close> of \<open>hetu/v1/python/hetu/context.py\<close>: the layouts of all nodes of a graph. A node
  has a current status, and a consumer may want it in another one, the target status of the edge.
  \<open>infer_states\<close> makes all of them known by passing layouts along the edges until nothing is
  missing, first the parts and then the order of the loops.

  A traversal takes the depth of its recursion as fuel and ends like Python's with a
  \<open>RuntimeError\<close>. The loop over the orders, which has no bound in the code, takes a number of turns
  and returns \<open>None\<close> when they are used up.
\<close>

section \<open>The maps\<close>

record graph_status =
  cur_state :: "(nat \<times> nat) list"
  tar_state :: "nat \<Rightarrow> (nat \<times> nat) list"

definition get_input_statuses :: "graph \<Rightarrow> graph_status \<Rightarrow> nat \<Rightarrow> nat list result" where
  "get_input_statuses g gs node =
     mapE (\<lambda>n. bindE (py_lookup (cur_state gs) n) (\<lambda>a. Inr (dict_get (tar_state gs n) node a))) (inputs (g node))"

section \<open>One traversal\<close>

text \<open>The interface of the operators: the two methods that deduce layouts.\<close>

type_synonym deduce_method = "nat \<Rightarrow> nat \<Rightarrow> nat list \<Rightarrow> bool \<Rightarrow> deduction"

definition op_forward :: "(nat \<Rightarrow> layout_op) \<Rightarrow> graph \<Rightarrow> deduce_method" where
  "op_forward lay g node st ins ord = forward_deduce_states (lay node) node (length (inputs (g node))) ins st ord"

definition op_backward :: "(nat \<Rightarrow> layout_op) \<Rightarrow> graph \<Rightarrow> deduce_method" where
  "op_backward lay g node st ins ord = backward_deduce_states (lay node) node (length (inputs (g node))) st ins ord"

text \<open>The default order, which one node of a traversal may get: \<open>chance\<close> says whether it is still free.\<close>

definition take_chance :: "bool \<Rightarrow> nat \<Rightarrow> bool \<times> layouts \<Rightarrow> (bool \<times> layouts) result" where
  "take_chance ord a cl =
     (case cl of (chance, L) \<Rightarrow>
        if ord \<and> chance then
          bindE (ask_valid True a L) (\<lambda>(ok, L).
            if ok then Inr (chance, L)
            else bindE (change_status a get_default_order L) (\<lambda>L. Inr (False, L)))
        else Inr (chance, L))"

definition visit_down :: "deduce_method \<Rightarrow> graph \<Rightarrow> graph_status \<Rightarrow> bool \<Rightarrow> nat \<Rightarrow> bool \<times> layouts \<Rightarrow> (bool \<times> layouts) result" where
  "visit_down bwd g gs ord node cl =
     bindE (py_lookup (cur_state gs) node) (\<lambda>a.
     bindE (take_chance ord a cl) (\<lambda>(chance, L).
     bindE (get_input_statuses g gs node) (\<lambda>ins.
     bindE (bwd node a ins ord L) (\<lambda>L. Inr (chance, L)))))"

definition visit_up :: "deduce_method \<Rightarrow> graph \<Rightarrow> graph_status \<Rightarrow> bool \<Rightarrow> nat \<Rightarrow> bool \<times> layouts \<Rightarrow> (bool \<times> layouts) result" where
  "visit_up fwd g gs ord node cl =
     (case cl of (chance, L) \<Rightarrow>
        bindE (py_lookup (cur_state gs) node) (\<lambda>a.
        bindE (get_input_statuses g gs node) (\<lambda>ins.
        bindE (fwd node a ins ord L) (\<lambda>L. Inr (chance, L)))))"

type_synonym infer_state = "nat list \<times> bool \<times> layouts"

fun infer_node_states ::
    "deduce_method \<Rightarrow> deduce_method \<Rightarrow> graph \<Rightarrow> graph_status \<Rightarrow> bool \<Rightarrow> nat \<Rightarrow> nat \<Rightarrow> infer_state \<Rightarrow> infer_state result"
  and infer_inputs ::
    "deduce_method \<Rightarrow> deduce_method \<Rightarrow> graph \<Rightarrow> graph_status \<Rightarrow> bool \<Rightarrow> nat \<Rightarrow> nat list \<Rightarrow> infer_state \<Rightarrow> infer_state result"
where
  "infer_node_states fwd bwd g gs ord k node (visited, cl) =
     (if node \<in> set visited then Inr (visited, cl)
      else if kind (g node) = DataloaderOp then Inr (node # visited, cl)
      else case k of
             0 \<Rightarrow> Inl RuntimeError
           | Suc k' \<Rightarrow>
               if kind (g node) = OptimizerOp
               then infer_inputs fwd bwd g gs ord k' (inputs (g node)) (node # visited, cl)
               else bindE (visit_down bwd g gs ord node cl) (\<lambda>cl.
                    bindE (infer_inputs fwd bwd g gs ord k' (inputs (g node)) (node # visited, cl)) (\<lambda>(visited, cl).
                    bindE (visit_up fwd g gs ord node cl) (\<lambda>cl. Inr (visited, cl)))))"
| "infer_inputs fwd bwd g gs ord k [] st = Inr st"
| "infer_inputs fwd bwd g gs ord k (n # ns) st =
     bindE (infer_node_states fwd bwd g gs ord k n st) (\<lambda>st. infer_inputs fwd bwd g gs ord k ns st)"

text \<open>The pass over the statuses that were not valid: the valid ones leave.\<close>

fun settle :: "bool \<Rightarrow> nat list \<Rightarrow> layouts \<Rightarrow> (nat list \<times> layouts) result" where
  "settle ord [] L = Inr ([], L)"
| "settle ord (a # as) L =
     bindE (ask_valid ord a L) (\<lambda>(ok, L).
     bindE (settle ord as L) (\<lambda>(rest, L). Inr (if ok then rest else a # rest, L)))"

lemma settle_shorter: "settle ord as L = Inr (rest, M) \<Longrightarrow> length rest \<le> length as"
  by (induction as arbitrary: L rest M) (fastforce elim!: bindE_InrE)+

text \<open>
  The loop over the parts: a turn without progress raises. The loop over the orders: a turn
  without progress gives the next one a chance.
\<close>

function state_loop ::
  "deduce_method \<Rightarrow> deduce_method \<Rightarrow> graph \<Rightarrow> graph_status \<Rightarrow> nat \<Rightarrow> nat list \<Rightarrow> nat list \<Rightarrow> layouts \<Rightarrow> layouts result" where
  "state_loop fwd bwd g gs fuel node_list missing L =
     bindE (infer_inputs fwd bwd g gs False fuel node_list ([], False, L)) (\<lambda>(visited, chance, L).
     bindE (settle False missing L) (\<lambda>(missing', L).
       if missing' = [] then Inr L
       else assertE (length missing' < length missing) (state_loop fwd bwd g gs fuel node_list missing' L)))"
  by pat_completeness auto
termination
  by (relation "measure (\<lambda>(fwd, bwd, g, gs, fuel, node_list, missing, L). length missing)") auto

declare state_loop.simps [simp del]

fun order_loop ::
  "deduce_method \<Rightarrow> deduce_method \<Rightarrow> graph \<Rightarrow> graph_status \<Rightarrow> nat \<Rightarrow> nat list \<Rightarrow> nat \<Rightarrow> nat list \<Rightarrow> bool \<Rightarrow> layouts \<Rightarrow>
     layouts result option" where
  "order_loop fwd bwd g gs fuel node_list 0 missing chance L = None"
| "order_loop fwd bwd g gs fuel node_list (Suc turns) missing chance L =
     (case infer_inputs fwd bwd g gs True fuel node_list ([], chance, L) of
        Inl e \<Rightarrow> Some (Inl e)
      | Inr (visited, chance, L) \<Rightarrow>
          (case settle True missing L of
             Inl e \<Rightarrow> Some (Inl e)
           | Inr (missing', L) \<Rightarrow>
               if missing' = [] then Some (Inr L)
               else order_loop fwd bwd g gs fuel node_list turns missing' (chance \<or> length missing' = length missing) L))"

definition infer_states ::
  "deduce_method \<Rightarrow> deduce_method \<Rightarrow> graph \<Rightarrow> graph_status \<Rightarrow> nat \<Rightarrow> nat list \<Rightarrow> nat \<Rightarrow> nat list \<Rightarrow> layouts \<Rightarrow>
     layouts result option" where
  "infer_states fwd bwd g gs fuel node_list turns invalid L =
     (case state_loop fwd bwd g gs fuel node_list invalid L of
        Inl e \<Rightarrow> Some (Inl e)
      | Inr L \<Rightarrow> order_loop fwd bwd g gs fuel node_list turns invalid False L)"

section \<open>Settled statuses\<close>

text \<open>A status that \<open>valid_all\<close> accepts, and goes on to accept however it is refined.\<close>

definition order_fits :: "parts \<Rightarrow> bool \<Rightarrow> bool \<Rightarrow> int list \<Rightarrow> bool" where
  "order_fits d dup hp os \<longleftrightarrow>
     length os = length d + (if dup then 1 else 0) + (if hp then 1 else 0) \<and> list_all (\<lambda>k. k \<in> set os) (map fst d) \<and>
     (dup \<longrightarrow> -1 \<in> set os) \<and> (hp \<longrightarrow> -2 \<in> set os)"

definition settled :: "node_status \<Rightarrow> bool" where
  "settled s \<longleftrightarrow> valid_all_flag s \<or> valid_state_flag s \<and>
     (\<exists>d dup hp os. state s = Some d \<and> more_than_one (duplicate s) = Inr dup \<and> has_par s = Inr hp \<and> order s = Some os \<and>
        order_fits d dup hp os)"

lemma settled_cases:
  assumes "settled s"
  obtains "valid_all_flag s" | d dup hp os where "valid_state_flag s" "state s = Some d" "more_than_one (duplicate s) = Inr dup"
    "has_par s = Inr hp" "order s = Some os" "order_fits d dup hp os"
  using assms unfolding settled_def by blast

lemma settledI:
  "valid_state_flag s \<Longrightarrow> state s = Some d \<Longrightarrow> more_than_one (duplicate s) = Inr dup \<Longrightarrow> has_par s = Inr hp \<Longrightarrow>
   order s = Some os \<Longrightarrow> order_fits d dup hp os \<Longrightarrow> settled s"
  unfolding settled_def by blast

lemma settled_refines:
  assumes "settled s" and "refines s t"
  shows "settled t"
  using assms(1)
proof (cases rule: settled_cases)
  case 1 with assms(2) show ?thesis by (simp add: settled_def refines_def)
next
  case (2 d dup hp os)
  have "has_par t = Inr hp"
    using 2(4) assms(2) by (auto simp: has_par_def refines_def keeps_def more_than_one_def split: if_splits option.splits)
  moreover have "valid_state_flag t" "state t = Some d" "order t = Some os" "more_than_one (duplicate t) = Inr dup"
    using 2 assms(2) by (auto simp: refines_def keeps_def more_than_one_def split: option.splits)
  ultimately show ?thesis using 2(6) by (blast intro: settledI)
qed

text \<open>\<open>valid_all\<close> after its tests of the parts.\<close>

definition order_check :: "parts \<Rightarrow> bool \<Rightarrow> bool \<Rightarrow> node_status \<Rightarrow> (bool \<times> node_status) result" where
  "order_check d dup hp s =
     (let dims = length d + (if dup then 1 else 0) + (if hp then 1 else 0) in
      case order s of
        None \<Rightarrow>
          if dims = 0 then Inr (True, s\<lparr>order := Some []\<rparr>)
          else if dims = 1
          then Inr (True, s\<lparr>order := Some (map fst d @ (if dup then [-1] else []) @ (if hp then [-2] else []))\<rparr>)
          else Inr (False, s)
      | Some os \<Rightarrow> assertE (order_fits d dup hp os) (Inr (True, s\<lparr>valid_all_flag := True\<rparr>)))"

lemma valid_all_order_check:
  assumes "\<not> valid_all_flag s" and "valid_state s = (True, s1)"
  shows "valid_all s = bindE (more_than_one (duplicate s1)) (\<lambda>dup. bindE (has_par s1) (\<lambda>hp.
    case state s1 of None \<Rightarrow> Inl TypeError | Some d \<Rightarrow> order_check d dup hp s1))"
proof -
  have nest: "assertE a (assertE b (assertE c (assertE e m))) = assertE (a \<and> b \<and> c \<and> e) m" for a b c e :: bool and m :: "'z result"
    by (simp add: assertE_def)
  show ?thesis using assms by (simp only: valid_all_def order_check_def order_fits_def if_False split_conv bool.case Let_def nest)
qed

lemma valid_state_settles: "valid_state s = (True, t) \<Longrightarrow> valid_state_flag t"
  by (auto simp: valid_state_def Let_def split: if_splits)

lemma valid_state_False:
  "valid_state s = (False, t) \<Longrightarrow> state t = None \<or> duplicate t = None \<or> enable_partial t \<and> partial t = None"
  by (auto simp: valid_state_def Let_def split: if_splits)

lemma valid_all_shape:
  assumes "valid_all s = Inr (b, t)" and "\<not> valid_all_flag s"
  obtains "\<not> b" "valid_state s = (False, t)"
  | s1 d dup hp where "valid_state s = (True, s1)" "valid_state_flag s1" "state s1 = Some d"
      "more_than_one (duplicate s1) = Inr dup" "has_par s1 = Inr hp" "order_check d dup hp s1 = Inr (b, t)"
proof -
  obtain c s1 where v: "valid_state s = (c, s1)" by (cases "valid_state s")
  show thesis
  proof (cases c)
    case True
    from assms valid_all_order_check [OF assms(2) v [unfolded True [THEN eqTrueI]]] obtain dup hp
      where p: "more_than_one (duplicate s1) = Inr dup" "has_par s1 = Inr hp"
        "(case state s1 of None \<Rightarrow> Inl TypeError | Some d \<Rightarrow> order_check d dup hp s1) = Inr (b, t)"
      by (auto elim!: bindE_InrE)
    then obtain d where "state s1 = Some d" "order_check d dup hp s1 = Inr (b, t)" by (cases "state s1") simp_all
    with p v True that(2) valid_state_settles [of s s1] show thesis by simp
  next
    case False
    with v assms have "\<not> b" "t = s1" by (simp_all add: valid_all_def)
    with that(1) v False show thesis by simp
  qed
qed

lemma settled_valid:
  assumes "settled s"
  shows "\<exists>t. valid_all s = Inr (True, t)"
proof (cases "valid_all_flag s")
  case True then show ?thesis by (simp add: valid_all_def)
next
  case False
  from assms False obtain d dup hp os where s: "valid_state_flag s" "state s = Some d" "more_than_one (duplicate s) = Inr dup"
    "has_par s = Inr hp" "order s = Some os" "order_fits d dup hp os"
    by (auto elim: settled_cases)
  obtain s1 where v: "valid_state s = (True, s1)"
    and s1: "s1 = (if enable_partial s then s else s\<lparr>partial := Some 1\<rparr>)"
    using s(1) by (simp add: valid_state_def Let_def)
  have "has_par s1 = has_par s" "state s1 = state s" "duplicate s1 = duplicate s" "order s1 = order s"
    unfolding s1 has_par_def by simp_all
  then have "valid_all s = order_check d dup hp s1" "order_check d dup hp s1 = Inr (True, s1\<lparr>valid_all_flag := True\<rparr>)"
    using s(2-6) by (simp_all add: valid_all_order_check [OF False v] order_check_def)
  then show ?thesis by simp
qed

lemma order_check_settles:
  assumes "order_check d dup hp s = Inr (True, t)" and "valid_state_flag s" "state s = Some d"
    "more_than_one (duplicate s) = Inr dup" "has_par s = Inr hp"
  shows "settled t"
proof (cases "order s")
  case None
  let ?os = "map fst d @ (if dup then [-1] else []) @ (if hp then [-2] else [])"
  have t: "t = s\<lparr>order := Some ?os\<rparr>"
    using assms(1) None by (cases dup; cases hp; cases d) (simp_all add: order_check_def Let_def split: if_splits)
  have "order_fits d dup hp ?os" by (cases dup; cases hp) (simp_all add: order_fits_def list_all_iff)
  moreover have "has_par t = Inr hp" using assms(5) t by (cases "enable_partial s") (simp_all add: has_par_def)
  ultimately show ?thesis using assms(2-4) by (intro settledI [of t d dup hp ?os]) (simp_all add: t)
next
  case (Some os)
  with assms(1) have "t = s\<lparr>valid_all_flag := True\<rparr>" by (auto simp: order_check_def Let_def assertE_Inr_iff)
  then show ?thesis by (simp add: settled_def)
qed

lemma valid_all_settles:
  assumes "valid_all s = Inr (True, t)"
  shows "settled t"
proof (cases "valid_all_flag s")
  case True with assms show ?thesis by (simp add: valid_all_def settled_def)
next
  case False
  from assms False show ?thesis
    by (cases rule: valid_all_shape) (simp, blast intro: order_check_settles)
qed

lemma default_order_settles:
  assumes "valid_all s = Inr (False, s1)" and "get_default_order s1 = Inr t"
  shows "settled t \<and> refines s1 t"
proof -
  from assms(2) obtain d dup hp where p: "state s1 = Some d" "more_than_one (duplicate s1) = Inr dup" "has_par s1 = Inr hp"
    and t: "t = s1\<lparr>order := Some ((if hp then [-2] else []) @ (if dup then [-1] else []) @ sort (map fst d))\<rparr>"
    by (auto simp: get_default_order_def elim!: bindE_InrE split: option.splits)
  have nf: "\<not> valid_all_flag s" using assms(1) by (auto simp: valid_all_def)
  from assms(1) nf show ?thesis
  proof (cases rule: valid_all_shape)
    case 1
    with valid_state_False p have False by (fastforce simp: more_than_one_def has_par_def split: if_splits option.splits)
    then show ?thesis ..
  next
    case (2 s2 d' dup' hp')
    then have s1: "s1 = s2" "order s1 = None" by (auto simp: order_check_def Let_def assertE_Inr_iff split: option.splits if_splits)
    have "has_par t = Inr hp" using p(3) t by (cases "enable_partial s1") (simp_all add: has_par_def)
    moreover have "order_fits d dup hp ((if hp then [-2] else []) @ (if dup then [-1] else []) @ sort (map fst d))"
      by (cases dup; cases hp) (simp_all add: order_fits_def list_all_iff)
    ultimately have "settled t"
      using p(1,2) 2(2) s1(1) by (intro settledI [of t d dup hp]) (simp_all add: t)
    moreover have "refines s1 t" using t s1(2) by (simp add: refines_def)
    ultimately show ?thesis by blast
  qed
qed

section \<open>The contract of the operators\<close>

text \<open>
  All that the inference needs of an operator: its two methods change a status only by filling in
  what is not known. \<open>infer_post\<close> says what a part of a traversal does, from one state to the next.
\<close>

definition addresses_ok :: "graph_status \<Rightarrow> layouts \<Rightarrow> bool" where
  "addresses_ok gs L \<longleftrightarrow> (\<forall>a \<in> snd ` set (cur_state gs). a < fresh L)"

definition op_node :: "graph \<Rightarrow> nat \<Rightarrow> bool" where
  "op_node g n \<longleftrightarrow> kind (g n) \<noteq> DataloaderOp \<and> kind (g n) \<noteq> OptimizerOp"

definition settled_node :: "graph_status \<Rightarrow> layouts \<Rightarrow> nat \<Rightarrow> bool" where
  "settled_node gs L n \<longleftrightarrow> (\<exists>a. map_of (cur_state gs) n = Some a \<and> settled (status_at L a))"

definition newly_settled :: "graph \<Rightarrow> graph_status \<Rightarrow> layouts \<Rightarrow> layouts \<Rightarrow> bool" where
  "newly_settled g gs L M \<longleftrightarrow>
     (\<exists>n a. op_node g n \<and> map_of (cur_state gs) n = Some a \<and> \<not> settled (status_at L a) \<and> settled (status_at M a))"

definition infer_post :: "graph \<Rightarrow> graph_status \<Rightarrow> bool \<Rightarrow> infer_state \<Rightarrow> infer_state \<Rightarrow> bool" where
  "infer_post g gs ord s t \<longleftrightarrow>
     (case (s, t) of ((v, c, L), (v', c', M)) \<Rightarrow>
        store_refines L M \<and> set v \<subseteq> set v' \<and> (c' \<longrightarrow> c) \<and>
        (ord \<and> c' \<longrightarrow> (\<forall>x \<in> set v' - set v. op_node g x \<longrightarrow> settled_node gs M x)) \<and>
        (ord \<and> c \<and> \<not> c' \<longrightarrow> newly_settled g gs L M))"

lemma addresses_ok_refines: "addresses_ok gs L \<Longrightarrow> store_refines L M \<Longrightarrow> addresses_ok gs M"
  by (fastforce simp: addresses_ok_def store_refines_def)

lemma current_address: "addresses_ok gs L \<Longrightarrow> map_of (cur_state gs) n = Some a \<Longrightarrow> a < fresh L"
  by (force simp: addresses_ok_def dest: map_of_SomeD)

lemma settled_stays:
  "store_refines L M \<Longrightarrow> a < fresh L \<Longrightarrow> settled (status_at L a) \<Longrightarrow> settled (status_at M a)"
  by (auto simp: store_refines_def intro: settled_refines)

lemma settled_node_stays:
  "addresses_ok gs L \<Longrightarrow> store_refines L M \<Longrightarrow> settled_node gs L n \<Longrightarrow> settled_node gs M n"
  by (auto simp: settled_node_def intro: settled_stays dest: current_address)

lemma newly_settled_earlier:
  "addresses_ok gs L \<Longrightarrow> store_refines L M \<Longrightarrow> newly_settled g gs M N \<Longrightarrow> newly_settled g gs L N"
  by (auto simp: newly_settled_def) (metis current_address settled_stays)

lemma newly_settled_later:
  "addresses_ok gs M \<Longrightarrow> store_refines M N \<Longrightarrow> newly_settled g gs L M \<Longrightarrow> newly_settled g gs L N"
  by (auto simp: newly_settled_def) (metis current_address settled_stays)

lemma infer_post_refl: "infer_post g gs ord s s"
  by (simp add: infer_post_def split: prod.split)

lemma infer_post_trans:
  assumes "infer_post g gs ord (v1, c1, L1) (v2, c2, L2)" and "infer_post g gs ord (v2, c2, L2) (v3, c3, L3)"
    and ok: "addresses_ok gs L1"
  shows "infer_post g gs ord (v1, c1, L1) (v3, c3, L3)"
proof -
  from assms(1) have one: "store_refines L1 L2" "set v1 \<subseteq> set v2" "c2 \<longrightarrow> c1"
    "ord \<and> c2 \<longrightarrow> (\<forall>x \<in> set v2 - set v1. op_node g x \<longrightarrow> settled_node gs L2 x)" "ord \<and> c1 \<and> \<not> c2 \<longrightarrow> newly_settled g gs L1 L2"
    by (simp_all add: infer_post_def)
  from assms(2) have two: "store_refines L2 L3" "set v2 \<subseteq> set v3" "c3 \<longrightarrow> c2"
    "ord \<and> c3 \<longrightarrow> (\<forall>x \<in> set v3 - set v2. op_node g x \<longrightarrow> settled_node gs L3 x)" "ord \<and> c2 \<and> \<not> c3 \<longrightarrow> newly_settled g gs L2 L3"
    by (simp_all add: infer_post_def)
  have ok2: "addresses_ok gs L2" using ok one(1) by (rule addresses_ok_refines)
  have "settled_node gs L3 x" if "ord" "c3" "x \<in> set v3 - set v1" "op_node g x" for x
  proof (cases "x \<in> set v2")
    case True
    then have "settled_node gs L2 x" using that one(4) two(3) by blast
    then show ?thesis by (rule settled_node_stays [OF ok2 two(1)])
  next
    case False then show ?thesis using that two(4) by blast
  qed
  moreover have "newly_settled g gs L1 L3" if "ord" "c1" "\<not> c3"
  proof (cases c2)
    case True
    with that two(5) show ?thesis using newly_settled_earlier [OF ok one(1)] by blast
  next
    case False
    with that one(5) show ?thesis using newly_settled_later [OF ok2 two(1)] by blast
  qed
  ultimately show ?thesis
    using one(1-3) two(1-3) store_refines_trans [OF one(1) two(1)] unfolding infer_post_def by simp
qed

lemma take_chance_spec:
  assumes "take_chance ord a (c, L) = Inr (c', M)"
  shows "store_refines L M \<and> (c' \<longrightarrow> c) \<and>
    (ord \<and> c \<longrightarrow> settled (status_at M a) \<and> (\<not> c' \<longrightarrow> \<not> settled (status_at L a)))"
proof (cases "ord \<and> c")
  case False with assms show ?thesis by (auto simp: take_chance_def split: if_splits)
next
  case True
  with assms obtain ok s where v: "valid_all (status_at L a) = Inr (ok, s)"
    and rest: "(if ok then Inr (True, put_status a s L)
      else bindE (change_status a get_default_order (put_status a s L)) (\<lambda>L. Inr (False, L))) = Inr (c', M)"
    by (auto simp: take_chance_def ask_valid_def valid_def elim!: bindE_InrE)
  have s: "refines (status_at L a) s" using v by (rule valid_all_refines)
  show ?thesis
  proof (cases ok)
    case True
    with v rest s valid_all_settles show ?thesis using \<open>ord \<and> c\<close> by (auto simp: put_status_refines) (simp add: put_status_def)
  next
    case False
    with rest obtain t where t: "get_default_order s = Inr t" "c' = False" "M = put_status a t (put_status a s L)"
      by (auto simp: change_status_def put_status_def elim!: bindE_InrE)
    from default_order_settles v False t(1) have "settled t" "refines s t" by auto
    moreover have "M = put_status a t L" using t(3) by (simp add: put_status_def)
    moreover have "\<not> settled (status_at L a)" using v False settled_valid by fastforce
    ultimately show ?thesis
      using s t(2) put_status_refines [of L a t] refines_trans by (auto simp: put_status_def)
  qed
qed

locale layout_methods =
  fixes fwd bwd :: deduce_method
  assumes fwd_refines: "refining (fwd node st ins ord)"
    and bwd_refines: "refining (bwd node st ins ord)"
begin

lemma visit_down_spec:
  assumes "visit_down bwd g gs ord node (c, L) = Inr (c', M)" and "addresses_ok gs L" and "op_node g node"
  shows "infer_post g gs ord (v, c, L) (node # v, c', M)"
proof -
  from assms(1) obtain a c1 L1 ins where a: "map_of (cur_state gs) node = Some a"
    and t: "take_chance ord a (c, L) = Inr (c1, L1)" and b: "bwd node a ins ord L1 = Inr M" and c': "c' = c1"
    by (auto simp: visit_down_def py_lookup_Inr_iff elim!: bindE_InrE)
  note t = take_chance_spec [OF t]
  have r: "store_refines L1 M" using b by (rule refiningD [OF bwd_refines])
  have af: "a < fresh L1"
    using current_address [OF assms(2) a] t by (simp add: store_refines_def)
  have "settled (status_at M a)" if "ord" "c" using that t settled_stays [OF r af] by blast
  with t r a c' assms(3) show ?thesis
    unfolding infer_post_def by (auto simp: settled_node_def newly_settled_def intro: store_refines_trans)
qed

lemma visit_up_spec:
  assumes "visit_up fwd g gs ord node (c, L) = Inr (c', M)"
  shows "infer_post g gs ord (v, c, L) (v, c', M)"
  using assms refiningD [OF fwd_refines]
  by (auto simp: visit_up_def infer_post_def elim!: bindE_InrE)

end

lemma infer_unfold:
  assumes "infer_node_states fwd bwd g gs ord k node (v, cl) = Inr t"
  obtains "node \<in> set v" "t = (v, cl)"
  | "node \<notin> set v" "kind (g node) = DataloaderOp" "t = (node # v, cl)"
  | k' where "node \<notin> set v" "kind (g node) = OptimizerOp" "k = Suc k'"
      "infer_inputs fwd bwd g gs ord k' (inputs (g node)) (node # v, cl) = Inr t"
  | k' c1 v2 c2 c3 where "node \<notin> set v" "op_node g node" "k = Suc k'" "visit_down bwd g gs ord node cl = Inr c1"
      "infer_inputs fwd bwd g gs ord k' (inputs (g node)) (node # v, c1) = Inr (v2, c2)"
      "visit_up fwd g gs ord node c2 = Inr c3" "t = (v2, c3)"
  using assms by (auto simp: op_node_def elim!: bindE_InrE split: if_splits nat.splits)

declare infer_node_states.simps [simp del]

lemma infer_spec:
  shows "infer_node_states fwd bwd g gs ord k node s = Inr t \<Longrightarrow> layout_methods fwd bwd \<Longrightarrow>
      addresses_ok gs (snd (snd s)) \<Longrightarrow> infer_post g gs ord s t"
    and "infer_inputs fwd bwd g gs ord k ns s = Inr t \<Longrightarrow> layout_methods fwd bwd \<Longrightarrow>
      addresses_ok gs (snd (snd s)) \<Longrightarrow> infer_post g gs ord s t"
proof (induction fwd bwd g gs ord k node s and fwd bwd g gs ord k ns s arbitrary: t and t
    rule: infer_node_states_infer_inputs.induct)
  case (1 fwd bwd g gs ord k node v cl)
  obtain c L where cl: "cl = (c, L)" by (cases cl)
  have ok: "addresses_ok gs L" using "1.prems"(3) cl by simp
  from "1.prems"(1) show ?case
  proof (cases rule: infer_unfold)
    case 1 then show ?thesis by (simp add: infer_post_refl)
  next
    case 2 then show ?thesis by (auto simp: infer_post_def op_node_def cl newly_settled_def)
  next
    case (3 k')
    have "infer_post g gs ord (node # v, cl) t"
      by (rule "1.IH"(1)) (use 3 "1.prems" in \<open>auto simp: cl\<close>)
    moreover have "infer_post g gs ord (v, c, L) (node # v, c, L)"
      using 3(2) by (auto simp: infer_post_def op_node_def newly_settled_def)
    ultimately show ?thesis
      using infer_post_trans [OF _ _ ok] by (cases t) (simp add: cl)
  next
    case (4 k' c1 v2 c2 c3)
    obtain b1 L1 b2 L2 b3 L3 where bs: "c1 = (b1, L1)" "c2 = (b2, L2)" "c3 = (b3, L3)"
      by (cases c1; cases c2; cases c3)
    have one: "infer_post g gs ord (v, c, L) (node # v, b1, L1)"
      by (rule layout_methods.visit_down_spec [OF "1.prems"(2)]) (use 4 bs ok cl in auto)
    have ok1: "addresses_ok gs L1"
      by (rule addresses_ok_refines [OF ok]) (use one in \<open>simp add: infer_post_def\<close>)
    have two: "infer_post g gs ord (node # v, b1, L1) (v2, b2, L2)"
      by (rule "1.IH"(2)) (use 4 "1.prems" bs ok1 in \<open>auto simp: op_node_def\<close>)
    have three: "infer_post g gs ord (v2, b2, L2) (v2, b3, L3)"
      by (rule layout_methods.visit_up_spec [OF "1.prems"(2)]) (use 4 bs in auto)
    show ?thesis
      using infer_post_trans [OF infer_post_trans [OF one two ok] three ok] 4(7) bs cl by simp
  qed
next
  case (2 fwd bwd g gs ord k st)
  then show ?case by (simp add: infer_post_refl)
next
  case (3 fwd bwd g gs ord k n ns st)
  from "3.prems"(1) obtain s1 where n: "infer_node_states fwd bwd g gs ord k n st = Inr s1"
    and ns: "infer_inputs fwd bwd g gs ord k ns s1 = Inr t" by (auto elim: bindE_InrE)
  obtain v c L v1 c1 L1 v2 c2 L2 where st: "st = (v, c, L)" "s1 = (v1, c1, L1)" "t = (v2, c2, L2)"
    by (cases st; cases s1; cases t) auto
  have ok: "addresses_ok gs L" using "3.prems"(3) st by simp
  have one: "infer_post g gs ord (v, c, L) (v1, c1, L1)" using "3.IH"(1) [OF n] "3.prems" st by simp
  have "addresses_ok gs L1" by (rule addresses_ok_refines [OF ok]) (use one in \<open>simp add: infer_post_def\<close>)
  then have two: "infer_post g gs ord (v1, c1, L1) (v2, c2, L2)" using "3.IH"(2) [OF n ns] "3.prems" st by simp
  from infer_post_trans [OF one two ok] st show ?case by simp
qed

text \<open>What a traversal visits.\<close>

lemma infer_visited:
  shows "infer_node_states fwd bwd g gs ord k node s = Inr t \<Longrightarrow>
      node \<in> set (fst t) \<and> set (fst s) \<subseteq> set (fst t) \<and>
      (\<forall>x \<in> set (fst t) - set (fst s). kind (g x) \<noteq> DataloaderOp \<longrightarrow> set (inputs (g x)) \<subseteq> set (fst t))"
    and "infer_inputs fwd bwd g gs ord k ns s = Inr t \<Longrightarrow>
      set ns \<subseteq> set (fst t) \<and> set (fst s) \<subseteq> set (fst t) \<and>
      (\<forall>x \<in> set (fst t) - set (fst s). kind (g x) \<noteq> DataloaderOp \<longrightarrow> set (inputs (g x)) \<subseteq> set (fst t))"
proof (induction fwd bwd g gs ord k node s and fwd bwd g gs ord k ns s arbitrary: t and t
    rule: infer_node_states_infer_inputs.induct)
  case (1 fwd bwd g gs ord k node v cl)
  have whole: ?case if r: "set (inputs (g node)) \<subseteq> set (fst t) \<and> set (node # v) \<subseteq> set (fst t) \<and>
      (\<forall>x \<in> set (fst t) - set (node # v). kind (g x) \<noteq> DataloaderOp \<longrightarrow> set (inputs (g x)) \<subseteq> set (fst t))"
  proof -
    have "set (inputs (g x)) \<subseteq> set (fst t)" if "x \<in> set (fst t) - set v" "kind (g x) \<noteq> DataloaderOp" for x
      using r that by (cases "x = node") auto
    with r show ?thesis by simp
  qed
  from "1.prems" show ?case
  proof (cases rule: infer_unfold)
    case 1 then show ?thesis by simp
  next
    case 2 then show ?thesis by auto
  next
    case (3 k')
    have "set (inputs (g node)) \<subseteq> set (fst t) \<and> set (fst (node # v, cl)) \<subseteq> set (fst t) \<and>
      (\<forall>x \<in> set (fst t) - set (fst (node # v, cl)). kind (g x) \<noteq> DataloaderOp \<longrightarrow> set (inputs (g x)) \<subseteq> set (fst t))"
      by (rule "1.IH"(1)) (use 3 in auto)
    then show ?thesis by (intro whole) simp
  next
    case (4 k' c1 v2 c2 c3)
    have "set (inputs (g node)) \<subseteq> set (fst (v2, c2)) \<and> set (fst (node # v, c1)) \<subseteq> set (fst (v2, c2)) \<and>
      (\<forall>x \<in> set (fst (v2, c2)) - set (fst (node # v, c1)). kind (g x) \<noteq> DataloaderOp \<longrightarrow> set (inputs (g x)) \<subseteq> set (fst (v2, c2)))"
      by (rule "1.IH"(2)) (use 4 in \<open>auto simp: op_node_def\<close>)
    then show ?thesis by (intro whole) (simp add: 4(7))
  qed
next
  case 2 then show ?case by simp
next
  case (3 fwd bwd g gs ord k n ns st)
  from "3.prems" obtain s1 where n: "infer_node_states fwd bwd g gs ord k n st = Inr s1"
    and ns: "infer_inputs fwd bwd g gs ord k ns s1 = Inr t" by (auto elim: bindE_InrE)
  note one = "3.IH"(1) [OF n] and two = "3.IH"(2) [OF n ns]
  have "set (inputs (g x)) \<subseteq> set (fst t)" if "x \<in> set (fst t) - set (fst st)" "kind (g x) \<noteq> DataloaderOp" for x
  proof (cases "x \<in> set (fst s1)")
    case True
    with that one have "set (inputs (g x)) \<subseteq> set (fst s1)" by simp
    with two show ?thesis by (meson subset_trans)
  next
    case False with that two show ?thesis by simp
  qed
  with one two show ?case by auto
qed

lemma infer_reaches_all:
  assumes "infer_inputs fwd bwd g gs ord k ns ([], cl) = Inr (v', cl')" and "\<forall>n. kind (g n) = DataloaderOp \<longrightarrow> inputs (g n) = []"
  shows "reached_from g (set ns) \<subseteq> set v'"
proof (rule reached_closed)
  note r = infer_visited(2) [OF assms(1)]
  show "set ns \<subseteq> set v'" using r by simp
  show "\<forall>x \<in> set v'. set (inputs (g x)) \<subseteq> set v'"
  proof
    fix x assume "x \<in> set v'"
    then show "set (inputs (g x)) \<subseteq> set v'" using r assms(2) by (cases "kind (g x) = DataloaderOp") auto
  qed
qed

text \<open>The pass over the open statuses takes out a settled one.\<close>

lemma settle_refines: "settle ord as L = Inr (rest, M) \<Longrightarrow> store_refines L M \<and> set rest \<subseteq> set as"
proof (induction as arbitrary: L rest M)
  case (Cons a as)
  from Cons.prems obtain ok L1 r where a: "ask_valid ord a L = Inr (ok, L1)" and r: "settle ord as L1 = Inr (r, M)"
    and rest: "rest = (if ok then r else a # r)"
    by (auto elim!: bindE_InrE)
  from Cons.IH [OF r] ask_valid_refines [OF a] rest show ?case by (auto intro: store_refines_trans)
qed simp

lemma settle_settles:
  assumes "settle True as L = Inr (rest, M)" and "\<forall>a \<in> set as. a < fresh L"
  shows "(\<forall>a \<in> set as - set rest. settled (status_at M a)) \<and>
    ((\<exists>a \<in> set as. settled (status_at L a)) \<longrightarrow> length rest < length as)"
  using assms
proof (induction as arbitrary: L rest M)
  case (Cons a as)
  from Cons.prems(1) obtain ok L1 r where a: "ask_valid True a L = Inr (ok, L1)" and r: "settle True as L1 = Inr (r, M)"
    and rest: "rest = (if ok then r else a # r)"
    by (auto elim!: bindE_InrE)
  from a obtain s where s: "valid_all (status_at L a) = Inr (ok, s)" "L1 = put_status a s L"
    by (auto simp: ask_valid_def valid_def elim!: bindE_InrE)
  have L1: "store_refines L L1" using a by (rule ask_valid_refines)
  then have fr: "\<forall>b \<in> set as. b < fresh L1" "a < fresh L1" using Cons.prems(2) by (auto simp: store_refines_def)
  note IH = Cons.IH [OF r fr(1)]
  have shorter: "length r \<le> length as" using r by (rule settle_shorter)
  have M: "store_refines L1 M" using settle_refines [OF r] by blast
  have "settled (status_at M b)" if "b \<in> set (a # as) - set rest" for b
  proof (cases "b \<in> set as - set r")
    case True then show ?thesis using IH by blast
  next
    case False
    with that rest have "ok" "b = a" by (auto split: if_splits)
    then have "settled (status_at L1 a)" using s valid_all_settles by (simp add: put_status_def)
    then show ?thesis using settled_stays [OF M fr(2)] \<open>b = a\<close> by simp
  qed
  moreover have "length rest < length (a # as)" if "\<exists>b \<in> set (a # as). settled (status_at L b)"
  proof (cases ok)
    case True then show ?thesis using rest shorter by simp
  next
    case False
    then have "\<not> settled (status_at L a)" using s(1) settled_valid by fastforce
    with that obtain b where "b \<in> set as" "settled (status_at L b)" by auto
    then have "settled (status_at L1 b)" using settled_stays [OF L1] Cons.prems(2) by simp
    with \<open>b \<in> set as\<close> IH rest False show ?thesis by auto
  qed
  ultimately show ?case by blast
qed simp

section \<open>The loops end\<close>

text \<open>
  At the start of a turn every operator has a settled status or one that is still open, and every
  open one is the current status of an operator that the traversal comes to.
\<close>

definition open_inv :: "graph \<Rightarrow> graph_status \<Rightarrow> nat list \<Rightarrow> nat list \<Rightarrow> layouts \<Rightarrow> bool" where
  "open_inv g gs ns missing L \<longleftrightarrow>
     addresses_ok gs L \<and>
     (\<forall>n a. op_node g n \<and> map_of (cur_state gs) n = Some a \<longrightarrow> a \<in> set missing \<or> settled (status_at L a)) \<and>
     (\<forall>a \<in> set missing. \<exists>n. op_node g n \<and> map_of (cur_state gs) n = Some a \<and> n \<in> reached_from g (set ns))"

lemma open_inv_address: "open_inv g gs ns missing L \<Longrightarrow> a \<in> set missing \<Longrightarrow> a < fresh L"
  using current_address unfolding open_inv_def by blast

lemma open_inv_addresses:
  assumes "open_inv g gs ns missing L" and "store_refines L M"
  shows "\<forall>a \<in> set missing. a < fresh M"
proof
  fix a assume "a \<in> set missing"
  with assms(1) have "a < fresh L" by (rule open_inv_address)
  also have "fresh L \<le> fresh M" using assms(2) by (simp add: store_refines_def)
  finally show "a < fresh M" .
qed

lemma open_inv_refines:
  assumes "open_inv g gs ns missing L" and "store_refines L M"
  shows "open_inv g gs ns missing M"
proof -
  have ok: "addresses_ok gs L" using assms(1) by (simp add: open_inv_def)
  have "a \<in> set missing \<or> settled (status_at M a)" if "op_node g n" "map_of (cur_state gs) n = Some a" for n a
    using assms(1) that settled_stays [OF assms(2) current_address [OF ok that(2)]] unfolding open_inv_def by blast
  with assms(1) addresses_ok_refines [OF ok assms(2)] show ?thesis unfolding open_inv_def by blast
qed

lemma open_inv_step:
  assumes "open_inv g gs ns missing L" and "store_refines L M"
    and "settle True missing M = Inr (missing', N)"
  shows "open_inv g gs ns missing' N \<and> store_refines L N \<and> (\<forall>a \<in> set missing - set missing'. settled (status_at N a))"
proof -
  note N = settle_refines [OF assms(3)]
  have r: "store_refines L N" using assms(2) N by (blast intro: store_refines_trans)
  have "\<forall>a \<in> set missing. a < fresh M" by (rule open_inv_addresses [OF assms(1,2)])
  note out = settle_settles [OF assms(3) this]
  have "a \<in> set missing' \<or> settled (status_at N a)" if n: "op_node g n" "map_of (cur_state gs) n = Some a" for n a
  proof (cases "a \<in> set missing")
    case True then show ?thesis using out by blast
  next
    case False
    with n assms(1) have "settled (status_at L a)" "a < fresh L"
      using current_address unfolding open_inv_def by blast+
    then show ?thesis using settled_stays [OF r] by blast
  qed
  moreover have "addresses_ok gs N" using assms(1) r addresses_ok_refines by (auto simp: open_inv_def)
  moreover have "\<forall>a \<in> set missing'. \<exists>n. op_node g n \<and> map_of (cur_state gs) n = Some a \<and> n \<in> reached_from g (set ns)"
    using assms(1) N unfolding open_inv_def by blast
  ultimately have "open_inv g gs ns missing' N" unfolding open_inv_def by blast
  with r out show ?thesis by blast
qed

text \<open>A turn that has the chance settles an open status.\<close>

lemma chance_makes_progress:
  assumes "infer_post g gs True ([], True, L) (v', c', M)" and "open_inv g gs ns missing L" and "missing \<noteq> []"
    and "reached_from g (set ns) \<subseteq> set v'" and "settle True missing M = Inr (missing', N)"
  shows "length missing' < length missing"
proof -
  have "\<exists>a \<in> set missing. settled (status_at M a)"
  proof (cases c')
    case True
    with assms(1) have all: "\<forall>x \<in> set v'. op_node g x \<longrightarrow> settled_node gs M x" by (simp add: infer_post_def)
    obtain a where "a \<in> set missing" using assms(3) by (cases missing) auto
    with assms(2) obtain n where "op_node g n" "map_of (cur_state gs) n = Some a" "n \<in> reached_from g (set ns)"
      unfolding open_inv_def by blast
    with all assms(4) have "settled (status_at M a)" by (auto simp: settled_node_def)
    with \<open>a \<in> set missing\<close> show ?thesis by blast
  next
    case False
    with assms(1) have "newly_settled g gs L M" by (simp add: infer_post_def)
    with assms(2) show ?thesis unfolding newly_settled_def open_inv_def by blast
  qed
  moreover have "\<forall>a \<in> set missing. a < fresh M"
    by (rule open_inv_addresses [OF assms(2)]) (use assms(1) in \<open>simp add: infer_post_def\<close>)
  ultimately show ?thesis using settle_settles [OF assms(5)] by blast
qed

lemma order_loop_ends:
  assumes m: "layout_methods fwd bwd" and dl: "\<forall>n. kind (g n) = DataloaderOp \<longrightarrow> inputs (g n) = []"
  shows "open_inv g gs ns missing L \<Longrightarrow> 2 * length missing + (if chance then 0 else 1) < turns \<Longrightarrow>
     \<exists>r. order_loop fwd bwd g gs fuel ns turns missing chance L = Some r \<and>
         (\<forall>M. r = Inr M \<longrightarrow> store_refines L M \<and> (\<forall>a \<in> set missing. settled (status_at M a)))"
proof (induction turns arbitrary: missing chance L)
  case (Suc turns)
  show ?case
  proof (cases "infer_inputs fwd bwd g gs True fuel ns ([], chance, L)")
    case (Inr t)
    then obtain v' c' M where t: "infer_inputs fwd bwd g gs True fuel ns ([], chance, L) = Inr (v', c', M)" by (cases t) auto
    have ok: "addresses_ok gs L" using Suc.prems(1) by (simp add: open_inv_def)
    have post: "infer_post g gs True ([], chance, L) (v', c', M)" using infer_spec(2) [OF t m] ok by simp
    then have LM: "store_refines L M" and cc: "c' \<longrightarrow> chance" by (simp_all add: infer_post_def)
    show ?thesis
    proof (cases "settle True missing M")
      case (Inr u)
      then obtain missing' N where u: "settle True missing M = Inr (missing', N)" by (cases u) auto
      note step = open_inv_step [OF Suc.prems(1) LM u]
      show ?thesis
      proof (cases "missing' = []")
        case True
        then show ?thesis using step t u by simp
      next
        case False
        have shorter: "length missing' \<le> length missing" using u by (rule settle_shorter)
        have "length missing' < length missing" if "chance"
          by (rule chance_makes_progress [OF post [unfolded that [THEN eqTrueI]] Suc.prems(1) _ infer_reaches_all [OF t dl] u])
            (use False shorter in auto)
        then have "2 * length missing' + (if c' \<or> length missing' = length missing then 0 else 1) < turns"
          using Suc.prems(2) shorter cc by (auto split: if_splits)
        with Suc.IH [of missing' N "c' \<or> length missing' = length missing"] step obtain r where
          r: "order_loop fwd bwd g gs fuel ns turns missing' (c' \<or> length missing' = length missing) N = Some r"
            "\<forall>P. r = Inr P \<longrightarrow> store_refines N P \<and> (\<forall>a \<in> set missing'. settled (status_at P a))" by blast
        have "store_refines L P \<and> (\<forall>a \<in> set missing. settled (status_at P a))" if "r = Inr P" for P
        proof -
          have NP: "store_refines N P" "\<forall>a \<in> set missing'. settled (status_at P a)" using r(2) that by blast+
          have "settled (status_at P a)" if "a \<in> set missing" for a
          proof (cases "a \<in> set missing'")
            case False
            with step that have "settled (status_at N a)" by blast
            moreover have "a < fresh N" using open_inv_address [OF Suc.prems(1) that] step by (auto simp: store_refines_def)
            ultimately show ?thesis using settled_stays [OF NP(1)] by blast
          qed (use NP(2) in blast)
          with step NP(1) show ?thesis by (blast intro: store_refines_trans)
        qed
        with r(1) t u False show ?thesis by simp
      qed
    qed (use t in simp)
  qed simp
qed simp

lemma state_loop_refines:
  "state_loop fwd bwd g gs fuel ns missing L = Inr M \<Longrightarrow> layout_methods fwd bwd \<Longrightarrow> addresses_ok gs L \<Longrightarrow>
   store_refines L M"
proof (induction fwd bwd g gs fuel ns missing L rule: state_loop.induct)
  case (1 fwd bwd g gs fuel ns missing L)
  from "1.prems"(1) obtain v c L1 missing' L2 where t: "infer_inputs fwd bwd g gs False fuel ns ([], False, L) = Inr (v, c, L1)"
    and u: "settle False missing L1 = Inr (missing', L2)"
    and rest: "(if missing' = [] then Inr L2
      else assertE (length missing' < length missing) (state_loop fwd bwd g gs fuel ns missing' L2)) = Inr M"
    by (subst (asm) state_loop.simps) (auto elim!: bindE_InrE)
  have "infer_post g gs False ([], False, L) (v, c, L1)" using infer_spec(2) [OF t "1.prems"(2)] "1.prems"(3) by simp
  then have "store_refines L L1" by (simp add: infer_post_def)
  then have L2: "store_refines L L2" using settle_refines [OF u] by (blast intro: store_refines_trans)
  show ?case
  proof (cases "missing' = []")
    case True with rest L2 show ?thesis by simp
  next
    case False
    with rest have l: "length missing' < length missing" "state_loop fwd bwd g gs fuel ns missing' L2 = Inr M"
      by (simp_all add: assertE_Inr_iff)
    have "store_refines L2 M"
      by (rule "1.IH" [OF t _ _ u]) (use False l "1.prems" addresses_ok_refines [OF _ L2] in auto)
    with L2 show ?thesis by (rule store_refines_trans)
  qed
qed

lemma op_methods: "layout_methods (op_forward lay g) (op_backward lay g)"
  by unfold_locales (auto simp: refining_def op_forward_def op_backward_def dest: refiningD [OF forward_refines] refiningD [OF backward_refines])

interpretation op_layouts: layout_methods "op_forward lay g" "op_backward lay g" for lay g
  by (rule op_methods)

text \<open>The number of nodes is enough fuel: more of it does not change the result.\<close>

lemma infer_fuel:
  shows "finite S \<Longrightarrow> closed_graph g S \<Longrightarrow> node \<in> S \<Longrightarrow> card (S - set (fst s)) \<le> k \<Longrightarrow>
      infer_node_states fwd bwd g gs ord k node s = infer_node_states fwd bwd g gs ord (Suc k) node s"
    and "finite S \<Longrightarrow> closed_graph g S \<Longrightarrow> set ns \<subseteq> S \<Longrightarrow> card (S - set (fst s)) \<le> k \<Longrightarrow>
      infer_inputs fwd bwd g gs ord k ns s = infer_inputs fwd bwd g gs ord (Suc k) ns s"
proof (induction fwd bwd g gs ord k node s and fwd bwd g gs ord k ns s rule: infer_node_states_infer_inputs.induct)
  case (1 fwd bwd g gs ord k node v cl)
  show ?case
  proof (cases "node \<in> set v \<or> kind (g node) = DataloaderOp")
    case True then show ?thesis by (auto simp: infer_node_states.simps)
  next
    case False
    have "S - set (node # v) = (S - set v) - {node}" by auto
    then have c: "card (S - set v) = Suc (card (S - set (node # v)))"
      using False "1.prems"(1,3) card_Suc_Diff1 [of "S - set v" node] by simp
    with "1.prems"(4) obtain k' where k: "k = Suc k'" by (cases k) auto
    have sub: "set (inputs (g node)) \<subseteq> S" using "1.prems"(2,3) by (simp add: closed_graph_def)
    have le: "card (S - set (node # v)) \<le> k'" using c k "1.prems"(4) by simp
    show ?thesis
    proof (cases "kind (g node) = OptimizerOp")
      case True
      have "infer_inputs fwd bwd g gs ord k' (inputs (g node)) (node # v, cl) = infer_inputs fwd bwd g gs ord k (inputs (g node)) (node # v, cl)"
        using "1.IH"(1) [OF _ _ k True "1.prems"(1,2) sub] False le k by simp
      then show ?thesis using True False k by (simp add: infer_node_states.simps)
    next
      case op: False
      have "infer_inputs fwd bwd g gs ord k' (inputs (g node)) (node # v, c1) = infer_inputs fwd bwd g gs ord k (inputs (g node)) (node # v, c1)"
        if "visit_down bwd g gs ord node cl = Inr c1" for c1
        using "1.IH"(2) [OF _ _ k op that "1.prems"(1,2) sub] False le k by simp
      then show ?thesis using op False k by (cases "visit_down bwd g gs ord node cl") (simp_all add: infer_node_states.simps)
    qed
  qed
next
  case 2 then show ?case by simp
next
  case (3 fwd bwd g gs ord k n ns st)
  have n: "infer_node_states fwd bwd g gs ord k n st = infer_node_states fwd bwd g gs ord (Suc k) n st"
    using "3.IH"(1) "3.prems" by simp
  show ?case
  proof (cases "infer_node_states fwd bwd g gs ord k n st")
    case (Inr t)
    have "S - set (fst t) \<subseteq> S - set (fst st)" using infer_visited(1) [OF Inr] by auto
    then have "card (S - set (fst t)) \<le> k" using "3.prems"(1,4) by (meson card_mono finite_Diff le_trans)
    with "3.IH"(2) [OF Inr] "3.prems"(1-3) have "infer_inputs fwd bwd g gs ord k ns t = infer_inputs fwd bwd g gs ord (Suc k) ns t" by simp
    moreover have "infer_node_states fwd bwd g gs ord (Suc k) n st = Inr t" using n Inr by simp
    ultimately show ?thesis using Inr by simp
  qed (use n in simp)
qed

lemma infer_fuel_any:
  assumes "finite S" and "closed_graph g S" and "set ns \<subseteq> S" and "card S \<le> k"
  shows "infer_inputs fwd bwd g gs ord k ns ([], cl) = infer_inputs fwd bwd g gs ord (card S) ns ([], cl)"
  using assms(4)
proof (induction k rule: dec_induct)
  case (step k)
  with infer_fuel(2) [OF assms(1-3), of "([], cl)" k fwd bwd gs ord] show ?case by simp
qed simp

lemma state_loop_fuel:
  assumes "finite S" and "closed_graph g S" and "set ns \<subseteq> S" and "card S \<le> k"
  shows "state_loop fwd bwd g gs k ns missing L = state_loop fwd bwd g gs (card S) ns missing L"
proof (induction "length missing" arbitrary: missing L rule: less_induct)
  case less
  show ?case
    by (subst (1 2) state_loop.simps) (auto simp: infer_fuel_any [OF assms] bindE_def assertE_def less split: sum.splits prod.splits)
qed

lemma order_loop_fuel:
  assumes "finite S" and "closed_graph g S" and "set ns \<subseteq> S" and "card S \<le> k"
  shows "order_loop fwd bwd g gs k ns turns missing chance L = order_loop fwd bwd g gs (card S) ns turns missing chance L"
  by (induction turns arbitrary: missing chance L) (simp_all add: infer_fuel_any [OF assms] split: sum.splits prod.splits)

lemma infer_states_fuel:
  assumes "finite S" and "closed_graph g S" and "set ns \<subseteq> S" and "card S \<le> k"
  shows "infer_states fwd bwd g gs k ns turns missing L = infer_states fwd bwd g gs (card S) ns turns missing L"
  by (simp add: infer_states_def state_loop_fuel [OF assms] order_loop_fuel [OF assms] split: sum.split)


text \<open>A placeholder with two parts and an operator that takes its layout over.\<close>

definition sample_graph :: graph where
  "sample_graph n = (if n = 1 then plain_op AddByConstOp [0] else plain_op PlaceholderOp [])"

definition sample_maps :: graph_status where
  "sample_maps = \<lparr>cur_state = [(0, 0), (1, 1)], tar_state = (\<lambda>_. [])\<rparr>"

definition sample_layouts :: layouts where
  "sample_layouts =
     \<lparr>status_at = (\<lambda>a. \<lparr>dev_num = 2, enable_partial = False, state = (if a = 0 then Some [(0, 2)] else None),
        duplicate = (if a = 0 then Some 1 else None), partial = None, order = (if a = 0 then Some [0] else None),
        valid_state_flag = (a = 0), valid_all_flag = (a = 0)\<rparr>),
      fresh = 2, links = (\<lambda>_. \<lparr>grad_link = None, grad_set = False, ori_status = None, tar_status = None\<rparr>)\<rparr>"

lemma sample_open: "open_inv sample_graph sample_maps [1] [1] sample_layouts"
proof -
  have "1 \<in> reached_from sample_graph {1}" by (auto simp: reached_from_def intro: reaches_refl)
  moreover have "settled (status_at sample_layouts 0)" by (simp add: settled_def sample_layouts_def)
  moreover have "op_node sample_graph 1" by (simp add: op_node_def sample_graph_def plain_op_def)
  ultimately show ?thesis
    by (auto simp: open_inv_def addresses_ok_def sample_maps_def sample_layouts_def split: if_splits)
qed


end
