(* ===== verification/ProductLayout.thy ===== *)
theory ProductLayout imports DeviceIndex LayoutDeduce begin

text \<open>
  What the layouts that \<open>matmul_forward_deduce\<close> and \<open>matmul_backward_deduce\<close> of
  \<open>hetu/v1/python/hetu/gpu_ops/MatrixMult.py\<close> deduce mean on the devices: each device computes its
  block of the product from its blocks of the operands, so the blocks must belong together.
\<close>

section \<open>The index of a device in a loop\<close>

definition dim_size :: "node_status \<Rightarrow> int \<Rightarrow> int" where
  "dim_size s k = (case get_dim_int s k of Inl e \<Rightarrow> 1 | Inr n \<Rightarrow> n)"

text \<open>The part of dimension \<open>k\<close> that device \<open>g\<close> holds; a dimension that is not split has part 0.\<close>

definition block :: "node_status \<Rightarrow> int \<Rightarrow> int \<Rightarrow> int" where
  "block s g k = (case loop_index s g k of None \<Rightarrow> 0 | Some i \<Rightarrow> i)"

text \<open>The loops of \<open>os\<close> are the dimensions that are split, and they number all \<open>n\<close> devices.\<close>

definition placed :: "node_status \<Rightarrow> int \<Rightarrow> int list \<Rightarrow> bool" where
  "placed s n os \<longleftrightarrow> laid_out s os (map (dim_size s) os) \<and> prod_list (map (dim_size s) os) = n \<and>
     state s \<noteq> None \<and> duplicate s \<noteq> None \<and> (\<forall>k \<in> set os. dim_size s k \<noteq> 1) \<and>
     (\<forall>k \<in> {0, 1, -1} \<union> (if enable_partial s then {-2} else {}). dim_size s k \<noteq> 1 \<longrightarrow> k \<in> set os)"

fun coord :: "(int \<Rightarrow> int) \<Rightarrow> int list \<Rightarrow> int \<Rightarrow> int \<Rightarrow> int" where
  "coord f [] g k = 0"
| "coord f (x # xs) g k = (if x = k then g div prod_list (map f xs) mod f x else coord f xs g k)"

lemma coord_absent: "k \<notin> set os \<Longrightarrow> coord f os g k = 0"
  by (induction os) auto

lemma coord_cong: "(\<And>x. x \<in> set os \<Longrightarrow> f x = h x) \<Longrightarrow> coord f os g k = coord h os g k"
proof (induction os)
  case (Cons x os)
  have "prod_list (map f os) = prod_list (map h os)" using Cons.prems by (simp cong: map_cong)
  with Cons show ?case by simp
qed simp

lemma coord_filter: "coord f (filter (\<lambda>x. f x \<noteq> 1) os) g k = coord f os g k"
proof (induction os)
  case (Cons x os)
  have "prod_list (map f (filter (\<lambda>x. f x \<noteq> 1) os)) = prod_list (map f os)" by (induction os) auto
  moreover have "f k = 1 \<Longrightarrow> coord f (filter (\<lambda>x. f x \<noteq> 1) os) g k = 0" by (rule coord_absent) simp
  ultimately show ?case using Cons by auto
qed simp

lemma coord_map:
  "inj_on m (insert k (set os)) \<Longrightarrow> (\<And>x. x \<in> set os \<Longrightarrow> h (m x) = f x) \<Longrightarrow> coord h (map m os) g (m k) = coord f os g k"
proof (induction os)
  case (Cons x os)
  have "prod_list (map (h \<circ> m) os) = prod_list (map f os)" using Cons.prems(2) by (simp cong: map_cong)
  moreover have "m x = m k \<longleftrightarrow> x = k" using Cons.prems(1) by (auto simp: inj_on_def)
  moreover have "inj_on m (insert k (set os))" using Cons.prems(1) by (auto simp: inj_on_def)
  ultimately show ?case using Cons by simp
qed simp

lemma coord_nth:
  "distinct os \<Longrightarrow> i < length os \<Longrightarrow> coord f os g (os ! i) = radix (map f os) g ! i"
  by (induction os arbitrary: i) (auto simp: nth_Cons split: nat.splits)

lemma block_coord:
  assumes "laid_out s os (map f os)"
  shows "block s g k = coord f os g k"
proof (cases "k \<in> set os")
  case True
  then obtain i where "i < length os" "os ! i = k" by (auto simp: in_set_conv_nth)
  then show ?thesis
    using loop_index_nth [OF assms, of i g] coord_nth [of os i f g] assms by (auto simp: block_def laid_out_def)
next
  case False
  then have "k \<notin> fst ` set (zip (rev os) (rev (radix (map f os) g)))" by (auto dest: set_zip_leftD)
  then have "loop_index s g k = None"
    by (simp add: loop_index_def map_dev_to_index_eq [OF assms] map_of_eq_None_iff)
  with False show ?thesis by (simp add: block_def coord_absent)
qed

section \<open>Merging two orders\<close>

text \<open>
  The sizes of the dimensions of the left operand, of the right operand and of the result, all by
  the name that the result gives the dimension: 0 its rows, 1 its columns, -1 its copies, -2 its
  partial sums. The left operand is copied over the columns, the right one over the rows.
\<close>

definition left_sizes :: "int \<Rightarrow> int \<Rightarrow> int \<Rightarrow> int \<Rightarrow> int \<Rightarrow> int" where
  "left_sizes r c k d x = (if x = 0 then r else if x = 1 then c * d else if x = -2 then k else 1)"

definition right_sizes :: "int \<Rightarrow> int \<Rightarrow> int \<Rightarrow> int \<Rightarrow> int \<Rightarrow> int" where
  "right_sizes r c k d x = (if x = 0 then r * d else if x = 1 then c else if x = -2 then k else 1)"

definition result_sizes :: "int \<Rightarrow> int \<Rightarrow> int \<Rightarrow> int \<Rightarrow> int \<Rightarrow> int" where
  "result_sizes r c k d x = (if x = 0 then r else if x = 1 then c else if x = -2 then k else if x = -1 then d else 1)"

lemmas sizes_defs = left_sizes_def right_sizes_def result_sizes_def

text \<open>\<open>lists_loops f xs\<close>: the order \<open>xs\<close> lists the dimensions that are split.\<close>

definition lists_loops :: "(int \<Rightarrow> int) \<Rightarrow> int list \<Rightarrow> bool" where
  "lists_loops f xs \<longleftrightarrow> distinct xs \<and> set xs \<subseteq> {0, 1, -2} \<and> (\<forall>x \<in> {0, 1, -2}. x \<in> set xs \<longleftrightarrow> f x \<noteq> 1)"

definition blocks_meet :: "int \<Rightarrow> int \<Rightarrow> int \<Rightarrow> int \<Rightarrow> int list \<Rightarrow> int list \<Rightarrow> int list \<Rightarrow> int \<Rightarrow> bool" where
  "blocks_meet r c k d lo ro os g \<longleftrightarrow>
     coord (left_sizes r c k d) lo g 0 = coord (result_sizes r c k d) os g 0 \<and>
     coord (right_sizes r c k d) ro g 1 = coord (result_sizes r c k d) os g 1 \<and>
     coord (left_sizes r c k d) lo g (-2) = coord (result_sizes r c k d) os g (-2) \<and>
     coord (right_sizes r c k d) ro g (-2) = coord (result_sizes r c k d) os g (-2)"

lemma distinct_three:
  assumes "distinct xs" and "set xs \<subseteq> {0, 1, -2 :: int}"
  shows "xs \<in> {[], [0], [1], [-2], [0, 1], [1, 0], [0, -2], [-2, 0], [1, -2], [-2, 1],
     [0, 1, -2], [1, 0, -2], [0, -2, 1], [1, -2, 0], [-2, 0, 1], [-2, 1, 0]}"
proof -
  have "card (set xs) \<le> card {0, 1, -2 :: int}" using assms(2) by (intro card_mono) auto
  then have "length xs \<le> 3" using assms(1) by (simp add: distinct_card)
  then consider "xs = []" | a where "xs = [a]" | a b where "xs = [a, b]" | a b c where "xs = [a, b, c]"
    by (cases xs rule: remdups_adj.cases) (auto simp: Suc_le_length_iff length_Suc_conv numeral_3_eq_3 le_Suc_eq, (metis)?)
  then show ?thesis by cases (use assms in auto)
qed

lemma index_of_Nil: "index_of p [] = None"
  by (simp add: index_of_def)

lemma index_of_Cons: "index_of p (x # xs) = (if p x then Some 0 else map_option Suc (index_of p xs))"
proof -
  have "[0..<Suc (length xs)] = 0 # map Suc [0..<length xs]"
    by (simp add: map_Suc_upt upt_conv_Cons del: upt_Suc)
  then show ?thesis
    by (simp add: index_of_def filter_map comp_def del: upt_Suc split: list.split)
qed

lemma list_index_simps:
  "list_index x [] = Inl ValueError"
  "list_index x (y # ys) = (if y = x then Inr 0 else bindE (list_index x ys) (\<lambda>i. Inr (Suc i)))"
  by (auto simp: list_index_def index_of_Nil index_of_Cons split: option.splits)

lemma list_index_Inr: "list_index x xs = Inr i \<Longrightarrow> i < length xs \<and> xs ! i = x"
  by (induction xs arbitrary: i) (auto simp: list_index_simps elim!: bindE_InrE split: if_splits)

lemma update_distinct: "distinct xs \<Longrightarrow> i < length xs \<Longrightarrow> xs ! i \<noteq> y \<Longrightarrow> xs ! i \<notin> set (xs[i := y])"
  by (auto simp: in_set_conv_nth nth_list_update nth_eq_iff_index_eq)

lemma update_keeps: "x \<in> set xs \<Longrightarrow> xs ! i \<noteq> x \<Longrightarrow> x \<in> set (xs[i := y])"
  by (metis in_set_conv_nth length_list_update nth_list_update_neq)

text \<open>Where the orders differ, neither the rows nor the columns of the result are split.\<close>

lemma merge_differing:
  assumes "merge_orders lo ro 1 0 0 1 dup = Inr os" and "lo \<noteq> ro"
    and "distinct lo" "set lo \<subseteq> {0, 1, -2}" "distinct ro" "set ro \<subseteq> {0, 1, -2}"
  shows "lo = [1] \<and> ro = [0] \<and> os = [-1] \<or> lo = [1, -2] \<and> ro = [0, -2] \<and> os = [-1, -2] \<or>
    lo = [-2, 1] \<and> ro = [-2, 0] \<and> os = [-2, -1]"
proof -
  obtain i j where ij: "list_index 1 lo = Inr i" "list_index 0 ro = Inr j" "lo[i := -1] = ro[j := -1]" "os = lo[i := -1]"
    using assms(1,2) by (auto simp: merge_orders_def assertE_Inr_iff elim!: bindE_InrE)
  have i: "i < length lo" "lo ! i = 1" and j: "j < length ro" "ro ! j = 0"
    using list_index_Inr [OF ij(1)] list_index_Inr [OF ij(2)] by simp_all
  have "0 \<notin> set lo" using update_distinct [of ro j "-1"] update_keeps [of 0 lo i "-1"] assms(5) i j ij(3) by auto
  moreover have "1 \<notin> set ro" using update_distinct [of lo i "-1"] update_keeps [of 1 ro j "-1"] assms(3) i j ij(3) by auto
  moreover have "1 \<in> set lo" "0 \<in> set ro" using i j nth_mem by metis+
  ultimately have "0 \<notin> set lo" "1 \<in> set lo" "1 \<notin> set ro" "0 \<in> set ro" by blast+
  note member = this
  have "lo \<in> {[1], [1, -2], [-2, 1]}"
    using distinct_three [OF assms(3,4)] member(1,2) by (elim insertE emptyE) simp_all
  moreover have "ro \<in> {[0], [0, -2], [-2, 0]}"
    using distinct_three [OF assms(5,6)] member(3,4) by (elim insertE emptyE) simp_all
  ultimately show ?thesis using ij by (elim insertE emptyE) (auto simp: list_index_simps)
qed

text \<open>The copies are put between the rows and the columns, which must be neighbours.\<close>

lemma merge_duplicated:
  assumes "merge_orders lo lo 1 0 0 1 (Some a) = Inr os" and "1 < a" "0 \<in> set lo" "1 \<in> set lo"
    and "distinct lo" "set lo \<subseteq> {0, 1, -2}"
  shows "(lo, os) \<in> {([0, 1], [0, -1, 1]), ([1, 0], [1, -1, 0]), ([0, 1, -2], [0, -1, 1, -2]), ([1, 0, -2], [1, -1, 0, -2]),
    ([-2, 0, 1], [-2, 0, -1, 1]), ([-2, 1, 0], [-2, 1, -1, 0])}"
proof -
  have "lo \<in> {[0, 1], [1, 0], [0, 1, -2], [1, 0, -2], [0, -2, 1], [1, -2, 0], [-2, 0, 1], [-2, 1, 0]}"
    using distinct_three [OF assms(5,6)] assms(3,4) by (elim insertE emptyE) simp_all
  then show ?thesis
    using assms(1,2)
    by (elim insertE emptyE)
       (simp_all add: merge_orders_def more_than_one_def list_index_simps insert_at_def)
qed

lemma merge_orders_meet:
  assumes "merge_orders lo ro 1 0 0 1 (Some (c * d)) = Inr os"
    and "0 < r" "0 < c" "0 < k" "0 < d"
    and lo: "lists_loops (left_sizes r c k d) lo" and ro: "lists_loops (right_sizes r c k d) ro"
  shows "blocks_meet r c k d lo ro os g \<and> distinct os \<and> set os \<subseteq> {0, 1, -1, -2} \<and>
    (\<forall>x \<in> {0, 1, -1, -2}. result_sizes r c k d x \<noteq> 1 \<longrightarrow> x \<in> set os)"
proof (cases "lo = ro")
  case True
  then have rs: "r = 1 \<longleftrightarrow> r * d = 1" and cs: "c * d = 1 \<longleftrightarrow> c = 1"
    using lo ro by (auto simp: lists_loops_def sizes_defs)
  show ?thesis
  proof (cases "0 \<in> set lo \<and> 1 < c * d")
    case True
    then have "1 \<in> set lo" using lo by (auto simp: lists_loops_def sizes_defs)
    then have "(lo, os) \<in> {([0, 1], [0, -1, 1]), ([1, 0], [1, -1, 0]), ([0, 1, -2], [0, -1, 1, -2]), ([1, 0, -2], [1, -1, 0, -2]),
        ([-2, 0, 1], [-2, 0, -1, 1]), ([-2, 1, 0], [-2, 1, -1, 0])}"
      using merge_duplicated [of lo "c * d" os] assms(1) \<open>lo = ro\<close> True lo by (simp add: lists_loops_def)
    then show ?thesis
      using \<open>lo = ro\<close> lo
      by (elim insertE emptyE) (auto simp: blocks_meet_def lists_loops_def sizes_defs ac_simps)
  next
    case False
    have os: "os = lo" using assms(1) \<open>lo = ro\<close> False
      by (auto simp: merge_orders_def more_than_one_def split: if_splits)
    have d: "d = 1"
    proof (cases "0 \<in> set lo")
      case True
      moreover have "0 < c * d" using assms(3,5) by simp
      ultimately have "c * d = 1" using False by linarith
      then show ?thesis using assms(3,5) by (simp add: zmult_eq_1_iff)
    next
      case False
      then have "r = 1" "r * d = 1" using lo rs by (auto simp: lists_loops_def sizes_defs)
      then show ?thesis by simp
    qed
    have "coord (left_sizes r c k d) lo g x = coord (result_sizes r c k d) lo g x"
      "coord (right_sizes r c k d) lo g x = coord (result_sizes r c k d) lo g x" for x
      using lo d by (auto intro!: coord_cong simp: lists_loops_def sizes_defs)
    then show ?thesis using os \<open>lo = ro\<close> lo d by (auto simp: blocks_meet_def lists_loops_def sizes_defs)
  qed
next
  case False
  have "lo = [1] \<and> ro = [0] \<and> os = [-1] \<or> lo = [1, -2] \<and> ro = [0, -2] \<and> os = [-1, -2] \<or>
      lo = [-2, 1] \<and> ro = [-2, 0] \<and> os = [-2, -1]"
    using merge_differing [OF assms(1) False] lo ro by (simp add: lists_loops_def)
  then show ?thesis
    using lo ro by (elim disjE conjE) (auto simp: blocks_meet_def lists_loops_def sizes_defs)
qed

section \<open>From the statuses\<close>

text \<open>\<open>valid\<close> settles flags and the partial sums of a status that has none: the layout stays.\<close>

definition same_layout :: "node_status \<Rightarrow> node_status \<Rightarrow> bool" where
  "same_layout s t \<longleftrightarrow> dev_num t = dev_num s \<and> enable_partial t = enable_partial s \<and> state t = state s \<and>
     duplicate t = duplicate s \<and> order t = order s"

definition known :: "node_status \<Rightarrow> bool" where
  "known s \<longleftrightarrow> \<not> enable_partial s \<and> state s \<noteq> None \<and> duplicate s \<noteq> None \<and> order s \<noteq> None"

lemma same_layout_refl [simp]: "same_layout s s" by (simp add: same_layout_def)

lemma same_layout_trans: "same_layout s t \<Longrightarrow> same_layout t u \<Longrightarrow> same_layout s u" by (simp add: same_layout_def)

lemma known_same: "same_layout s t \<Longrightarrow> known t = known s" by (simp add: same_layout_def known_def)

lemma valid_state_known: "known s \<Longrightarrow> valid_state s = (b, t) \<Longrightarrow> b \<and> same_layout s t"
  by (auto simp: known_def valid_state_def same_layout_def Let_def split: if_splits)

lemma valid_all_known:
  assumes "known s" and "valid_all s = Inr (b, t)"
  shows "b \<and> same_layout s t"
proof (cases "valid_all_flag s")
  case True with assms(2) show ?thesis by (simp add: valid_all_def)
next
  case False
  obtain c s1 where v: "valid_state s = (c, s1)" by (cases "valid_state s")
  then have c: "c" "same_layout s s1" using valid_state_known [OF assms(1) v] by simp_all
  with assms v False show ?thesis
    by (auto simp: valid_all_def known_def same_layout_def Let_def assertE_Inr_iff elim!: bindE_InrE split: option.splits)
qed

lemma ask_valid_known:
  assumes "ask_valid ord a L = Inr (b, M)" and "known (status_at L a)"
  shows "b \<and> (\<forall>x. same_layout (status_at L x) (status_at M x)) \<and> (\<forall>x. x \<noteq> a \<longrightarrow> status_at M x = status_at L x)"
  using assms valid_all_known [OF assms(2)] valid_state_known [OF assms(2)]
  by (auto simp: ask_valid_def valid_def put_status_def elim!: bindE_InrE split: if_splits prod.splits)

lemma when_both_valid_known:
  assumes "when_both_valid ord l r body L = Inr M" and "known (status_at L l)" "known (status_at L r)"
  obtains K where "body K = Inr M" and "\<forall>x. same_layout (status_at L x) (status_at K x)"
    and "\<forall>x. x \<noteq> l \<and> x \<noteq> r \<longrightarrow> status_at K x = status_at L x"
proof -
  from assms(1) obtain b J where J: "ask_valid ord l L = Inr (b, J)"
    and rest: "(if b then when_valid ord r body J else Inr J) = Inr M"
    by (auto simp: when_both_valid_def when_valid_def elim!: bindE_InrE)
  note l = ask_valid_known [OF J assms(2)]
  then have "known (status_at J r)" using assms(3) known_same by blast
  moreover from rest l obtain b' K where K: "ask_valid ord r J = Inr (b', K)" and body: "(if b' then body K else Inr K) = Inr M"
    by (auto simp: when_valid_def elim!: bindE_InrE)
  ultimately have r: "b' \<and> (\<forall>x. same_layout (status_at J x) (status_at K x)) \<and> (\<forall>x. x \<noteq> r \<longrightarrow> status_at K x = status_at J x)"
    using ask_valid_known by blast
  show thesis by (rule that [of K]) (use body l r in \<open>auto intro: same_layout_trans\<close>)
qed

text \<open>The names that the result gives the dimensions of the operands.\<close>

definition left_name :: "bool \<Rightarrow> int \<Rightarrow> int" where
  "left_name ta k = (if k = -1 then 1 else if k = of_bool ta then 0 else -2)"

definition right_name :: "bool \<Rightarrow> int \<Rightarrow> int" where
  "right_name tb k = (if k = -1 then 0 else if k = of_bool tb then -2 else 1)"

lemma map_dims_left: "map_dims (matmul_l2res ta) os = Inr lo \<Longrightarrow> lo = map (left_name ta) os \<and> set os \<subseteq> {0, 1, -1}"
  by (induction os arbitrary: lo; cases ta)
     (auto simp: map_dims_def matmul_l2res_def left_name_def py_lookup_def elim!: bindE_InrE split: if_splits option.splits)

lemma map_dims_right: "map_dims (matmul_r2res tb) os = Inr ro \<Longrightarrow> ro = map (right_name tb) os \<and> set os \<subseteq> {0, 1, -1}"
  by (induction os arbitrary: ro; cases tb)
     (auto simp: map_dims_def matmul_r2res_def right_name_def py_lookup_def elim!: bindE_InrE split: if_splits option.splits)

lemma left_name_inj: "inj_on (left_name ta) {0, 1, -1}"
  by (cases ta) (auto simp: inj_on_def left_name_def)

lemma right_name_inj: "inj_on (right_name tb) {0, 1, -1}"
  by (cases tb) (auto simp: inj_on_def right_name_def)

lemma prod_list_loops:
  assumes "distinct os" and "set os \<subseteq> S" and "finite S" and "\<And>x. x \<in> S \<Longrightarrow> f x \<noteq> 1 \<Longrightarrow> x \<in> set os"
  shows "prod_list (map f os) = (\<Prod>x\<in>S. f x :: int)"
proof -
  have "prod_list (map f os) = prod f (set os)" using assms(1) by (simp add: prod.distinct_set_conv_list)
  also have "\<dots> = prod f S" using assms(2-4) by (intro prod.mono_neutral_left) auto
  finally show ?thesis .
qed

lemma placed_positive: "placed s n os \<Longrightarrow> x \<in> {0, 1, -1} \<Longrightarrow> 0 < dim_size s x"
  by (cases "dim_size s x = 1") (auto simp: placed_def laid_out_def all_pos_def split: if_splits)

lemma placed_operand:
  assumes "placed s n os" and "set os \<subseteq> {0, 1, -1}"
  shows "n = dim_size s (of_bool t) * dim_size s (1 - of_bool t) * dim_size s (-1)"
    and "0 < dim_size s 0 \<and> 0 < dim_size s 1 \<and> 0 < dim_size s (-1)"
    and "\<forall>x \<in> {0, 1, -1}. x \<in> set os \<longleftrightarrow> dim_size s x \<noteq> 1"
    and "distinct os"
proof -
  have "n = (\<Prod>x\<in>{0, 1, -1}. dim_size s x)"
    using assms prod_list_loops [of os "{0, 1, -1}" "dim_size s"] by (auto simp: placed_def laid_out_def split: if_splits)
  then show "n = dim_size s (of_bool t) * dim_size s (1 - of_bool t) * dim_size s (-1)" by (cases t) simp_all
  show "0 < dim_size s 0 \<and> 0 < dim_size s 1 \<and> 0 < dim_size s (-1)" using placed_positive [OF assms(1)] by simp
  show "\<forall>x \<in> {0, 1, -1}. x \<in> set os \<longleftrightarrow> dim_size s x \<noteq> 1"
    using assms by (auto simp: placed_def split: if_splits)
  show "distinct os" using assms by (simp add: placed_def laid_out_def)
qed

lemma placed_block: "placed s n os \<Longrightarrow> block s g k = coord (dim_size s) os g k"
  by (simp add: placed_def block_coord)

lemma dim_size_simps:
  "dim_size s (-1) = (case duplicate s of None \<Rightarrow> 1 | Some d \<Rightarrow> d)"
  "dim_size s (-2) = (case partial s of None \<Rightarrow> 1 | Some d \<Rightarrow> d)"
  "k \<noteq> -1 \<Longrightarrow> k \<noteq> -2 \<Longrightarrow> dim_size s k = (case state s of None \<Rightarrow> 1 | Some d \<Rightarrow> dict_get d k 1)"
  by (simp_all add: dim_size_def get_dim_int_def get_dim_def split: option.splits)

lemma dim_size_same: "same_layout s t \<Longrightarrow> k \<noteq> -2 \<Longrightarrow> dim_size t k = dim_size s k"
  by (cases "k = -1") (simp_all add: dim_size_simps same_layout_def)

lemma placed_same:
  assumes "placed s n os" and "set os \<subseteq> {0, 1, -1}" and "\<not> enable_partial s" and "same_layout s t"
  shows "placed t n os"
proof -
  have get: "get_dim_int t k = get_dim_int s k" if "k \<noteq> -2" for k
    using assms(4) that by (simp add: get_dim_int_def get_dim_def same_layout_def)
  then have dims: "dims_of t os = dims_of s os" using assms(2) unfolding dims_of_def by (intro mapE_cong) auto
  have sizes: "map (dim_size t) os = map (dim_size s) os"
    using assms(2) dim_size_same [OF assms(4)] by (intro map_cong) auto
  have "\<forall>k \<in> {0, 1, -1} \<union> set os. dim_size t k = dim_size s k"
    using assms(2) dim_size_same [OF assms(4)] by auto
  then show ?thesis using assms(1,3,4) unfolding placed_def laid_out_def sizes dims by (simp add: same_layout_def)
qed

text \<open>The result before anything is known of it.\<close>

definition blank_status :: "int \<Rightarrow> node_status" where
  "blank_status n = \<lparr>dev_num = n, enable_partial = True, state = None, duplicate = None, partial = None, order = None,
     valid_state_flag = False, valid_all_flag = False\<rparr>"

definition product_status :: "int \<Rightarrow> int \<Rightarrow> int \<Rightarrow> int \<Rightarrow> int \<Rightarrow> node_status" where
  "product_status n r c k d = \<lparr>dev_num = n, enable_partial = True, state = Some (norm_state (TupleState [r, c])), duplicate = Some d,
     partial = Some k, order = None, valid_state_flag = True, valid_all_flag = False\<rparr>"

lemma set_product_state:
  assumes "0 < r" "0 < c" "0 < k" "r * c * k dvd n"
  shows "set_state (Some (TupleState [r, c])) None (Some k) (blank_status n) = Inr (product_status n r c k (n div (r * c * k)))"
proof -
  have parts: "num_parts (norm_state (TupleState [r, c])) = r * c" by (simp add: norm_state_def num_parts_def upt_rec)
  have "n mod (r * c) = 0" using assms(4) by (meson dvd_eq_mod_eq_0 dvd_mult_left)
  moreover have "n div (r * c) div k = n div (r * c * k)" using assms(1-3) by (simp add: zdiv_zmult2_eq)
  ultimately show ?thesis
    using assms(1-3) parts
    by (simp add: set_state_def blank_status_def product_status_def set_partial_def try_get_duplicate_def try_set_duplicate_def
        floordiv_def Let_def)
qed

lemma product_sizes:
  "x \<in> {0, 1, -1, -2} \<Longrightarrow> dim_size (product_status n r c k d) x = result_sizes r c k d x"
  by (auto simp: dim_size_simps product_status_def norm_state_def dict_get_def result_sizes_def upt_rec)

lemma split_dims_known:
  assumes "state s \<noteq> None"
  shows "split_dims s os = Inr (filter (\<lambda>x. dim_size s x \<noteq> 1) os)"
proof (induction os)
  case (Cons x os)
  have "\<exists>v. get_dim s x = Inr v \<and> (v \<in> {Some 1, None} \<longleftrightarrow> dim_size s x = 1)"
    using assms by (auto simp: get_dim_def dim_size_def get_dim_int_def split: option.splits)
  with Cons show ?case by auto
qed simp

lemma placed_product:
  assumes "distinct os" and "set os \<subseteq> {0, 1, -1, -2}"
    and "\<forall>x \<in> {0, 1, -1, -2}. result_sizes r c k d x \<noteq> 1 \<longrightarrow> x \<in> set os"
    and "0 < r" "0 < c" "0 < k" "0 < d"
  shows "placed ((product_status (r * c * k * d) r c k d)\<lparr>order := Some (filter (\<lambda>x. result_sizes r c k d x \<noteq> 1) os)\<rparr>)
    (r * c * k * d) (filter (\<lambda>x. result_sizes r c k d x \<noteq> 1) os)"
proof -
  let ?os = "filter (\<lambda>x. result_sizes r c k d x \<noteq> 1) os"
  let ?s = "(product_status (r * c * k * d) r c k d)\<lparr>order := Some ?os\<rparr>"
  have size: "dim_size ?s x = result_sizes r c k d x" if "x \<in> {0, 1, -1, -2}" for x
    using product_sizes [OF that, of "r * c * k * d" r c k d] that by (auto simp: dim_size_simps)
  have sizes: "map (dim_size ?s) ?os = map (result_sizes r c k d) ?os" using assms(2) size by (intro map_cong) auto
  have "get_dim_int ?s x = Inr (dim_size ?s x)" for x
    by (simp add: dim_size_def get_dim_int_def get_dim_def product_status_def)
  then have dims: "dims_of ?s ?os = Inr (map (dim_size ?s) ?os)" unfolding dims_of_def by (intro mapE_all_Inr) simp
  have "prod_list (map (result_sizes r c k d) ?os) = (\<Prod>x\<in>{0, 1, -1, -2}. result_sizes r c k d x)"
    using assms(1-3) by (intro prod_list_loops) auto
  also have "\<dots> = r * c * k * d" by (simp add: result_sizes_def)
  finally have n: "prod_list (map (result_sizes r c k d) ?os) = r * c * k * d" .
  have pos: "all_pos (map (result_sizes r c k d) ?os)" using assms(4-7) by (auto simp: all_pos_def result_sizes_def)
  have all: "\<forall>x \<in> {0, 1, -1} \<union> {-2}. result_sizes r c k d x \<noteq> 1 \<longrightarrow> x \<in> set ?os" using assms(3) by simp
  have all_size: "\<forall>x \<in> {0, 1, -1} \<union> {-2}. dim_size ?s x \<noteq> 1 \<longrightarrow> x \<in> set ?os" using all size by simp
  have ne: "\<forall>x \<in> set ?os. dim_size ?s x \<noteq> 1" using assms(2) size by auto
  have "laid_out ?s ?os (map (dim_size ?s) ?os)" using dims pos assms(1) unfolding laid_out_def sizes by simp
  moreover have "prod_list (map (dim_size ?s) ?os) = r * c * k * d" unfolding sizes by (rule n)
  moreover have "state ?s \<noteq> None" "duplicate ?s \<noteq> None" "enable_partial ?s" by (simp_all add: product_status_def)
  moreover have "\<forall>k \<in> {0, 1, -1} \<union> (if enable_partial ?s then {-2} else {}). dim_size ?s k \<noteq> 1 \<longrightarrow> k \<in> set ?os"
    using all_size \<open>enable_partial ?s\<close> by (simp only: if_True)
  ultimately show ?thesis unfolding placed_def using ne by (intro conjI)
qed

lemma dim_size_order [simp]: "dim_size (s\<lparr>order := x\<rparr>) k = dim_size s k"
  by (simp add: dim_size_def get_dim_int_def get_dim_def)

lemma product_block:
  assumes "distinct os" and "set os \<subseteq> {0, 1, -1, -2}"
    and "\<forall>x \<in> {0, 1, -1, -2}. result_sizes r c k d x \<noteq> 1 \<longrightarrow> x \<in> set os"
    and "0 < r" "0 < c" "0 < k" "0 < d" and "n = r * c * k * d"
    and s: "s = (product_status n r c k d)\<lparr>order := Some (filter (\<lambda>x. dim_size (product_status n r c k d) x \<noteq> 1) os)\<rparr>"
  shows "\<exists>oc. placed s n oc \<and> (\<forall>g x. block s g x = coord (result_sizes r c k d) os g x)"
proof -
  let ?oc = "filter (\<lambda>x. result_sizes r c k d x \<noteq> 1) os"
  have "filter (\<lambda>x. dim_size (product_status n r c k d) x \<noteq> 1) os = ?oc"
    using assms(2) product_sizes by (intro filter_cong) auto
  then have s: "s = (product_status n r c k d)\<lparr>order := Some ?oc\<rparr>" using s by simp
  then have pl: "placed s n ?oc" using placed_product [OF assms(1-7)] assms(8) by simp
  have "block s g x = coord (result_sizes r c k d) os g x" for g x
  proof -
    have "block s g x = coord (dim_size s) ?oc g x" by (rule placed_block [OF pl])
    also have "\<dots> = coord (result_sizes r c k d) ?oc g x"
      unfolding s using assms(2) product_sizes by (intro coord_cong) auto
    also have "\<dots> = coord (result_sizes r c k d) os g x" by (rule coord_filter)
    finally show ?thesis .
  qed
  with pl show ?thesis by blast
qed

lemma operand_block:
  assumes "placed s n os" and "set os \<subseteq> {0, 1, -1}" and "\<not> enable_partial s" and "same_layout s t"
  shows "block t g x = coord (dim_size s) os g x"
  using placed_block [OF placed_same [OF assms]] assms(2) dim_size_same [OF assms(4)] by (auto intro!: coord_cong)

text \<open>The sizes of the operands are those that \<open>left_sizes\<close> and \<open>right_sizes\<close> say.\<close>

lemma operand_loops:
  assumes l: "placed sl n oa" "map_dims (matmul_l2res ta) oa = Inr lo"
    and r: "placed sr n ob" "map_dims (matmul_r2res tb) ob = Inr ro"
    and rr: "rr = dim_size sl (of_bool ta)" and cc: "cc = dim_size sr (1 - of_bool tb)"
    and kk: "kk = dim_size sl (1 - of_bool ta)" "kk = dim_size sr (of_bool tb)" and "rr * cc * kk dvd n" and "dd = n div (rr * cc * kk)"
  shows "0 < rr" "0 < cc" "0 < kk" "0 < dd" "n = rr * cc * kk * dd" "dim_size sl (-1) = cc * dd"
    and "lists_loops (left_sizes rr cc kk dd) lo" "lists_loops (right_sizes rr cc kk dd) ro"
    and "coord (left_sizes rr cc kk dd) lo g 0 = coord (dim_size sl) oa g (of_bool ta)"
    and "coord (left_sizes rr cc kk dd) lo g (-2) = coord (dim_size sl) oa g (1 - of_bool ta)"
    and "coord (right_sizes rr cc kk dd) ro g 1 = coord (dim_size sr) ob g (1 - of_bool tb)"
    and "coord (right_sizes rr cc kk dd) ro g (-2) = coord (dim_size sr) ob g (of_bool tb)"
proof -
  have lo: "lo = map (left_name ta) oa" "set oa \<subseteq> {0, 1, -1}" using map_dims_left [OF l(2)] by simp_all
  have ro: "ro = map (right_name tb) ob" "set ob \<subseteq> {0, 1, -1}" using map_dims_right [OF r(2)] by simp_all
  note L = placed_operand [OF l(1) lo(2)] and R = placed_operand [OF r(1) ro(2)]
  show pos: "0 < rr" "0 < cc" "0 < kk" using L(2) R(2) rr cc kk by (cases ta; cases tb; simp)+
  show n: "n = rr * cc * kk * dd" using assms(9,10) by simp
  have nl: "n = rr * kk * dim_size sl (-1)" using L(1) [of ta] rr kk by simp
  have "0 < n" using nl pos L(2) by simp
  moreover have "0 < rr * cc * kk" using pos by simp
  ultimately show d: "0 < dd" using n by (metis zero_less_mult_pos)
  have "rr * kk * dim_size sl (-1) = rr * cc * kk * dd" using nl n by (rule trans [OF sym])
  then have "(rr * kk) * dim_size sl (-1) = (rr * kk) * (cc * dd)" by (simp only: ac_simps)
  then show left: "dim_size sl (-1) = cc * dd" using pos by simp
  have "kk * cc * dim_size sr (-1) = rr * cc * kk * dd" using R(1) [of tb, folded cc kk(2)] n by (rule trans [OF sym])
  then have "(kk * cc) * dim_size sr (-1) = (kk * cc) * (rr * dd)" by (simp only: ac_simps)
  then have right: "dim_size sr (-1) = rr * dd" using pos by simp
  have ln: "left_sizes rr cc kk dd (left_name ta x) = dim_size sl x" if "x \<in> {0, 1, -1}" for x
    using that left rr kk by (cases ta) (auto simp: left_sizes_def left_name_def)
  have rn: "right_sizes rr cc kk dd (right_name tb x) = dim_size sr x" if "x \<in> {0, 1, -1}" for x
    using that right cc kk by (cases tb) (auto simp: right_sizes_def right_name_def)
  have "left_name ta ` {0, 1, -1} = {0, 1, -2}" "right_name tb ` {0, 1, -1} = {0, 1, -2}"
    by (cases ta; cases tb; auto simp: left_name_def right_name_def)+
  then have img: "\<exists>x \<in> {0, 1, -1}. y = left_name ta x" "\<exists>x \<in> {0, 1, -1}. y = right_name tb x" if "y \<in> {0, 1, -2}" for y
    using that by blast+
  show "lists_loops (left_sizes rr cc kk dd) lo"
    unfolding lists_loops_def lo(1)
  proof (intro conjI ballI)
    show "distinct (map (left_name ta) oa)" using L(4) inj_on_subset [OF left_name_inj lo(2)] by (simp add: distinct_map)
    show "set (map (left_name ta) oa) \<subseteq> {0, 1, -2}" using lo(2) by (auto simp: left_name_def)
    fix y :: int assume "y \<in> {0, 1, -2}"
    then obtain x where x: "x \<in> {0, 1, -1}" "y = left_name ta x" using img by blast
    then have "y \<in> set (map (left_name ta) oa) \<longleftrightarrow> x \<in> set oa"
      using left_name_inj [of ta] lo(2) by (auto simp: inj_on_def)
    with x show "y \<in> set (map (left_name ta) oa) \<longleftrightarrow> left_sizes rr cc kk dd y \<noteq> 1" using L(3) ln by simp
  qed
  show "lists_loops (right_sizes rr cc kk dd) ro"
    unfolding lists_loops_def ro(1)
  proof (intro conjI ballI)
    show "distinct (map (right_name tb) ob)" using R(4) inj_on_subset [OF right_name_inj ro(2)] by (simp add: distinct_map)
    show "set (map (right_name tb) ob) \<subseteq> {0, 1, -2}" using ro(2) by (auto simp: right_name_def)
    fix y :: int assume "y \<in> {0, 1, -2}"
    then obtain x where x: "x \<in> {0, 1, -1}" "y = right_name tb x" using img by blast
    then have "y \<in> set (map (right_name tb) ob) \<longleftrightarrow> x \<in> set ob"
      using right_name_inj [of tb] ro(2) by (auto simp: inj_on_def)
    with x show "y \<in> set (map (right_name tb) ob) \<longleftrightarrow> right_sizes rr cc kk dd y \<noteq> 1" using R(3) rn by simp
  qed
  have li: "inj_on (left_name ta) (insert x (set oa))" "inj_on (right_name tb) (insert x (set ob))" if "x \<in> {0, 1, -1}" for x
    using that lo(2) ro(2) left_name_inj right_name_inj by (meson inj_on_subset insert_subset)+
  have cl: "coord (left_sizes rr cc kk dd) lo g (left_name ta x) = coord (dim_size sl) oa g x" if "x \<in> {0, 1, -1}" for x
    unfolding lo(1) using li(1) [OF that] ln lo(2) by (intro coord_map) auto
  have cr: "coord (right_sizes rr cc kk dd) ro g (right_name tb x) = coord (dim_size sr) ob g x" if "x \<in> {0, 1, -1}" for x
    unfolding ro(1) using li(2) [OF that] rn ro(2) by (intro coord_map) auto
  show "coord (left_sizes rr cc kk dd) lo g 0 = coord (dim_size sl) oa g (of_bool ta)"
    using cl [of "of_bool ta"] by (cases ta) (simp_all add: left_name_def)
  show "coord (left_sizes rr cc kk dd) lo g (-2) = coord (dim_size sl) oa g (1 - of_bool ta)"
    using cl [of "1 - of_bool ta"] by (cases ta) (simp_all add: left_name_def)
  show "coord (right_sizes rr cc kk dd) ro g 1 = coord (dim_size sr) ob g (1 - of_bool tb)"
    using cr [of "1 - of_bool tb"] by (cases tb) (simp_all add: right_name_def)
  show "coord (right_sizes rr cc kk dd) ro g (-2) = coord (dim_size sr) ob g (of_bool tb)"
    using cr [of "of_bool tb"] by (cases tb) (simp_all add: right_name_def)
qed

lemma known_placed: "placed s n os \<Longrightarrow> \<not> enable_partial s \<Longrightarrow> known s \<and> order s = Some os"
  by (auto simp: placed_def laid_out_def known_def)

lemma placed_duplicate: "placed s n os \<Longrightarrow> duplicate s = Some (dim_size s (-1))"
  by (auto simp: placed_def dim_size_simps)

lemma forward_state_phase:
  assumes l: "known (status_at L l)" and r: "known (status_at L r)"
    and st: "status_at L st = blank_status n" "st \<noteq> l" "st \<noteq> r"
    and size: "rr = dim_size (status_at L l) (of_bool ta)" "cc = dim_size (status_at L r) (1 - of_bool tb)"
      "kk = dim_size (status_at L l) (1 - of_bool ta)" "0 < rr" "0 < cc" "0 < kk" "rr * cc * kk dvd n"
    and run: "matmul_forward_deduce [l, r] st False ta tb L = Inr M"
  shows "status_at M st = product_status n rr cc kk (n div (rr * cc * kk))" and "kk = dim_size (status_at L r) (of_bool tb)"
    and "x \<noteq> st \<Longrightarrow> same_layout (status_at L x) (status_at M x)"
proof -
  from run l r obtain K where K: "\<forall>x. same_layout (status_at L x) (status_at K x)"
      "\<forall>x. x \<noteq> l \<and> x \<noteq> r \<longrightarrow> status_at K x = status_at L x" and body:
    "bindE (state_dict (status_at K l)) (\<lambda>lstate. bindE (state_dict (status_at K r)) (\<lambda>rstate.
            let lrow = dict_get lstate (of_bool ta) 1; lcol = dict_get lstate (1 - of_bool ta) 1;
                rrow = dict_get rstate (of_bool tb) 1; rcol = dict_get rstate (1 - of_bool tb) 1 in
            assertE (lcol = rrow)
              (change_status st (set_state (Some (TupleState [lrow, rcol])) None (Some lcol)) K))) = Inr M"
    by (auto simp: matmul_forward_deduce_def with_input_def py_nth_def elim!: when_both_valid_known)
  have sl: "same_layout (status_at L l) (status_at K l)" and sr: "same_layout (status_at L r) (status_at K r)" using K(1) by auto
  obtain dl dr where d: "state (status_at L l) = Some dl" "state (status_at L r) = Some dr" using l r by (auto simp: known_def)
  have e: "dict_get dl (of_bool ta) 1 = rr" "dict_get dl (1 - of_bool ta) 1 = kk" "dict_get dr (1 - of_bool tb) 1 = cc"
      "dict_get dr (of_bool tb) 1 = dim_size (status_at L r) (of_bool tb)"
    unfolding size(1-3) using d by (cases ta; cases tb; simp add: dim_size_simps)+
  have "state_dict (status_at K l) = Inr dl" "state_dict (status_at K r) = Inr dr"
    using d sl sr by (simp_all add: state_dict_def same_layout_def)
  then have "assertE (kk = dim_size (status_at L r) (of_bool tb))
      (change_status st (set_state (Some (TupleState [rr, cc])) None (Some kk)) K) = Inr M"
    using body by (simp only: bindE_simps Let_def e)
  then have eq: "kk = dim_size (status_at L r) (of_bool tb)"
    and set: "change_status st (set_state (Some (TupleState [rr, cc])) None (Some kk)) K = Inr M"
    unfolding assertE_Inr_iff by blast+
  show "kk = dim_size (status_at L r) (of_bool tb)" by (rule eq)
  have "status_at K st = blank_status n" using K(2) st by simp
  with set set_product_state [OF size(4-7)] have M: "M = put_status st (product_status n rr cc kk (n div (rr * cc * kk))) K"
    by (simp add: change_status_def)
  then show "status_at M st = product_status n rr cc kk (n div (rr * cc * kk))" by (simp add: put_status_def)
  show "x \<noteq> st \<Longrightarrow> same_layout (status_at L x) (status_at M x)" using M K(1) by (simp add: put_status_def)
qed

lemma forward_order_phase:
  assumes l: "known (status_at M l)" "order (status_at M l) = Some oa" and r: "known (status_at M r)" "order (status_at M r) = Some ob"
    and st: "st \<noteq> l" "st \<noteq> r" "state (status_at M st) \<noteq> None"
    and run: "matmul_forward_deduce [l, r] st True ta tb M = Inr N"
  obtains lo ro os where "map_dims (matmul_l2res ta) oa = Inr lo" "map_dims (matmul_r2res tb) ob = Inr ro"
    "merge_orders lo ro 1 0 0 1 (duplicate (status_at M l)) = Inr os"
    "status_at N st = (status_at M st)\<lparr>order := Some (filter (\<lambda>x. dim_size (status_at M st) x \<noteq> 1) os)\<rparr>"
    "\<forall>x. x \<noteq> st \<longrightarrow> same_layout (status_at M x) (status_at N x)"
proof -
  from run l(1) r(1) obtain K where K: "\<forall>x. same_layout (status_at M x) (status_at K x)"
      "\<forall>x. x \<noteq> l \<and> x \<noteq> r \<longrightarrow> status_at K x = status_at M x"
    and body: "forward_orders l r st (matmul_l2res ta) (matmul_r2res tb) 1 0 0 1 K = Inr N"
    by (auto simp: matmul_forward_deduce_def with_input_def py_nth_def elim!: when_both_valid_known)
  have same: "order (status_at K l) = Some oa" "order (status_at K r) = Some ob" "duplicate (status_at K l) = duplicate (status_at M l)"
    "status_at K st = status_at M st"
    using K l r st by (auto simp: same_layout_def)
  from body same obtain lo ro os where m: "map_dims (matmul_l2res ta) oa = Inr lo" "map_dims (matmul_r2res tb) ob = Inr ro"
      "merge_orders lo ro 1 0 0 1 (duplicate (status_at M l)) = Inr os" and set: "change_status st (set_order (Some os)) K = Inr N"
    by (auto simp: forward_orders_def order_list_def elim!: bindE_InrE)
  have N: "N = put_status st ((status_at M st)\<lparr>order := Some (filter (\<lambda>x. dim_size (status_at M st) x \<noteq> 1) os)\<rparr>) K"
    using set same(4) split_dims_known [OF st(3)] by (auto simp: change_status_def set_order_def assertE_Inr_iff elim!: bindE_InrE)
  show thesis by (rule that [OF m]) (use N K(1) in \<open>simp_all add: put_status_def\<close>)
qed

text \<open>C5: The layout that a matrix product deduces for its result is the right one. Take two operands
  that are laid out on all devices, and let the parts of the result divide their number. When the
  forward deduction gives the parts and the order of the result, these again number all devices, and on
  every device the rows of the result are those of its block of the left operand, the columns are
  those of its block of the right operand, and both blocks have the same part of the dimension that is
  summed over, which is the partial sum that the device holds.\<close>

theorem product_blocks_meet:
  assumes "placed (status_at L l) n oa" and "\<not> enable_partial (status_at L l)"
    and "placed (status_at L r) n ob" and "\<not> enable_partial (status_at L r)"
    and "status_at L st = blank_status n" and "st \<noteq> l" and "st \<noteq> r"
    and "dim_size (status_at L l) (of_bool ta) * dim_size (status_at L r) (1 - of_bool tb) * dim_size (status_at L l) (1 - of_bool ta) dvd n"
    and "forward_deduce_states (MatMulLayout ta tb) node k [l, r] st False L = Inr M"
    and "forward_deduce_states (MatMulLayout ta tb) node k [l, r] st True M = Inr N"
  shows "\<exists>oc. placed (status_at N st) n oc \<and>
    (\<forall>g. block (status_at N l) g (of_bool ta) = block (status_at N st) g 0 \<and>
         block (status_at N r) g (1 - of_bool tb) = block (status_at N st) g 1 \<and>
         block (status_at N l) g (1 - of_bool ta) = block (status_at N st) g (-2) \<and>
         block (status_at N r) g (of_bool tb) = block (status_at N st) g (-2))"
proof -
  have kl: "known (status_at L l)" "order (status_at L l) = Some oa" and kr: "known (status_at L r)" "order (status_at L r) = Some ob"
    using known_placed assms(1-4) by blast+
  define rr cc kk where size: "rr = dim_size (status_at L l) (of_bool ta)" "cc = dim_size (status_at L r) (1 - of_bool tb)"
    "kk = dim_size (status_at L l) (1 - of_bool ta)"
  have pos: "0 < rr" "0 < cc" "0 < kk" unfolding size using placed_positive assms(1,3) by simp_all
  have dvd: "rr * cc * kk dvd n" using assms(8) unfolding size .
  define dd where "dd = n div (rr * cc * kk)"
  have run1: "matmul_forward_deduce [l, r] st False ta tb L = Inr M" and run2: "matmul_forward_deduce [l, r] st True ta tb M = Inr N"
    using assms(9,10) by (simp_all add: forward_deduce_states_def MatMul_forward_def)
  note S = forward_state_phase [OF kl(1) kr(1) assms(5-7) size pos dvd run1, folded dd_def]
  have same1: "same_layout (status_at L l) (status_at M l)" "same_layout (status_at L r) (status_at M r)" using S(3) assms(6,7) by auto
  then have k1: "known (status_at M l)" "order (status_at M l) = Some oa" "known (status_at M r)" "order (status_at M r) = Some ob"
    using kl kr by (simp_all add: same_layout_def known_def)
  have "state (status_at M st) \<noteq> None" by (simp add: S(1) product_status_def)
  from forward_order_phase [OF k1 assms(6,7) this run2] obtain lo ro os where m: "map_dims (matmul_l2res ta) oa = Inr lo"
      "map_dims (matmul_r2res tb) ob = Inr ro" "merge_orders lo ro 1 0 0 1 (duplicate (status_at M l)) = Inr os"
      "status_at N st = (status_at M st)\<lparr>order := Some (filter (\<lambda>x. dim_size (status_at M st) x \<noteq> 1) os)\<rparr>"
      "\<forall>x. x \<noteq> st \<longrightarrow> same_layout (status_at M x) (status_at N x)" .
  note O = operand_loops [OF assms(1) m(1) assms(3) m(2) size S(2) dvd dd_def]
  have "duplicate (status_at M l) = Some (cc * dd)"
    using placed_duplicate [OF assms(1)] O(6) same1(1) by (simp add: same_layout_def)
  note meet = merge_orders_meet [OF m(3) [unfolded this] pos O(4) O(7,8)]
  from meet have os: "distinct os" "set os \<subseteq> {0, 1, -1, -2}"
      "\<forall>x \<in> {0, 1, -1, -2}. result_sizes rr cc kk dd x \<noteq> 1 \<longrightarrow> x \<in> set os" and bm: "blocks_meet rr cc kk dd lo ro os g" for g
    by blast+
  from product_block [OF os pos O(4,5) m(4) [unfolded S(1)]] obtain oc where oc: "placed (status_at N st) n oc"
    and bs: "block (status_at N st) g x = coord (result_sizes rr cc kk dd) os g x" for g x by blast
  have same: "same_layout (status_at L l) (status_at N l)" "same_layout (status_at L r) (status_at N r)"
    using same_layout_trans [OF same1(1)] same_layout_trans [OF same1(2)] m(5) assms(6,7) by auto
  have sub: "set oa \<subseteq> {0, 1, -1}" "set ob \<subseteq> {0, 1, -1}" using map_dims_left [OF m(1)] map_dims_right [OF m(2)] by simp_all
  note bl = operand_block [OF assms(1) sub(1) assms(2) same(1)] and br = operand_block [OF assms(3) sub(2) assms(4) same(2)]
  show ?thesis
    using oc bm O(9-12) unfolding bl br bs blocks_meet_def by metis
qed

section \<open>A split product with copies\<close>

definition split_status :: "int \<Rightarrow> parts \<Rightarrow> int \<Rightarrow> int list \<Rightarrow> node_status" where
  "split_status n d dup os = \<lparr>dev_num = n, enable_partial = False, state = Some d, duplicate = Some dup, partial = None,
     order = Some os, valid_state_flag = False, valid_all_flag = False\<rparr>"

text \<open>
  The left operand has \<open>r\<close> parts of its rows, the right one \<open>c\<close> parts of its dimension \<open>col\<close>: its
  columns (1) in a matrix product, its output channels (0) in a convolution.
\<close>

definition rows_and_columns :: "int \<Rightarrow> int \<Rightarrow> int \<Rightarrow> int \<Rightarrow> layouts" where
  "rows_and_columns col r c d =
     \<lparr>status_at = (\<lambda>_. blank_status (r * c * d))
        (0 := split_status (r * c * d) [(0, r)] (c * d) [0, -1], 1 := split_status (r * c * d) [(col, c)] (r * d) [-1, col]),
      fresh = 3, links = (\<lambda>_. \<lparr>grad_link = None, grad_set = False, ori_status = None, tar_status = None\<rparr>)\<rparr>"

theorem product_blocks_meet_witness:
  "\<exists>M N. forward_deduce_states (MatMulLayout False False) 9 2 [0, 1] 2 False (rows_and_columns 1 2 2 2) = Inr M \<and>
    forward_deduce_states (MatMulLayout False False) 9 2 [0, 1] 2 True M = Inr N \<and>
    (\<exists>oc. placed (status_at N 2) 8 oc \<and>
    (\<forall>g. block (status_at N 0) g (of_bool False) = block (status_at N 2) g 0 \<and>
         block (status_at N 1) g (1 - of_bool False) = block (status_at N 2) g 1 \<and>
         block (status_at N 0) g (1 - of_bool False) = block (status_at N 2) g (-2) \<and>
         block (status_at N 1) g (of_bool False) = block (status_at N 2) g (-2)))"
proof -
  let ?f = "forward_deduce_states (MatMulLayout False False) 9 2 [0, 1] 2"
  have "case bindE (?f False (rows_and_columns 1 2 2 2)) (?f True) of Inl e \<Rightarrow> False | Inr N \<Rightarrow> True" by code_simp
  then obtain M N where MN: "?f False (rows_and_columns 1 2 2 2) = Inr M" "?f True M = Inr N"
    by (cases "?f False (rows_and_columns 1 2 2 2)") (auto split: sum.splits)
  have "placed (split_status 8 [(0, 2)] 4 [0, -1]) 8 [0, -1]" "placed (split_status 8 [(1, 2)] 4 [-1, 1]) 8 [-1, 1]"
    by (simp_all add: placed_def laid_out_def dims_of_def split_status_def dim_size_simps get_dim_int_def get_dim_def dict_get_def all_pos_def)
  then have p: "placed (status_at (rows_and_columns 1 2 2 2) 0) 8 [0, -1]" "placed (status_at (rows_and_columns 1 2 2 2) 1) 8 [-1, 1]"
    by (simp_all add: rows_and_columns_def)
  show ?thesis
    using product_blocks_meet [OF p(1) _ p(2) _ _ _ _ _ MN] MN
    by (simp add: rows_and_columns_def split_status_def dim_size_simps dict_get_def)
qed

lemmas valid_defs = ask_valid_def valid_def valid_state_def valid_all_def more_than_one_def has_par_def

lemmas setter_defs = set_state_def norm_state_def set_partial_def set_duplicate_def try_get_duplicate_def try_set_duplicate_def
  floordiv_def num_parts_def set_order_def get_dim_def dict_get_def

lemmas deduction_defs = valid_defs setter_defs forward_deduce_states_def backward_deduce_states_def with_input_def py_nth_def
  when_both_valid_def when_valid_def put_status_def state_dict_def change_status_def blank_status_def split_status_def
  forward_orders_def order_list_def map_dims_def py_lookup_def merge_orders_def list_index_simps insert_at_def all_parts_def
  count_result_def operand_states_def andthen_def split_parts_def rows_and_columns_def Let_def

lemmas matmul_defs = MatMul_forward_def MatMul_backward_def matmul_forward_deduce_def matmul_backward_deduce_def matmul_l2res_def matmul_r2res_def matmul_res2l_def
  matmul_res2r_def

lemmas conv2d_defs = Conv2d_forward_def Conv2d_backward_def conv2d_forward_deduce_states_def conv2d_backward_deduce_states_def conv2d_dim_def check_status_def
  check_state_def join_duplicates_def index_of_Cons index_of_Nil remove_at_def

lemma sizes_above_one: "1 < r \<Longrightarrow> 1 < c \<Longrightarrow> 1 < (d :: int) \<Longrightarrow> 0 < r \<and> 0 < c \<and> 0 < d \<and> 1 < c * d \<and> 1 < r * d"
  using less_1_mult [of c d] less_1_mult [of r d] by simp

text \<open>C40: A matrix product refuses the layout that it has itself deduced when the result is split in rows and
  columns and copied: the forward deduction puts the copies between the rows and the columns, but the
  backward deduction counts rows (or columns) and copies of the result as two loops over copies of an
  operand, which cannot be equal to the order of that operand. The inference of layouts, which runs both
  deductions on every node, ends with an \<open>AssertionError\<close>.\<close>

theorem product_refuses_its_own_layout:
  assumes "1 < r" and "1 < c" and "1 < d"
  shows "\<exists>M. bindE (forward_deduce_states (MatMulLayout False False) node 2 [0, 1] 2 False (rows_and_columns 1 r c d))
                (forward_deduce_states (MatMulLayout False False) node 2 [0, 1] 2 True) = Inr M \<and>
     order (status_at M 2) = Some [0, -1, 1] \<and>
     bindE (backward_deduce_states (MatMulLayout False False) node 2 2 [0, 1] False M)
       (backward_deduce_states (MatMulLayout False False) node 2 2 [0, 1] True) = Inl AssertionError"
  using assms sizes_above_one [OF assms] by (simp add: deduction_defs matmul_defs)

theorem product_refuses_its_own_layout_witness:
  "\<exists>M. bindE (forward_deduce_states (MatMulLayout False False) 9 2 [0, 1] 2 False (rows_and_columns 1 2 3 2))
                (forward_deduce_states (MatMulLayout False False) 9 2 [0, 1] 2 True) = Inr M \<and>
     order (status_at M 2) = Some [0, -1, 1] \<and>
     bindE (backward_deduce_states (MatMulLayout False False) 9 2 2 [0, 1] False M)
       (backward_deduce_states (MatMulLayout False False) 9 2 2 [0, 1] True) = Inl AssertionError"
  by (rule product_refuses_its_own_layout) simp_all

text \<open>A convolution, whose backward deduction joins adjacent loops over copies, accepts it.\<close>

theorem convolution_accepts_its_own_layout:
  assumes "1 < r" and "1 < c" and "1 < d"
  shows "\<exists>M N. bindE (forward_deduce_states Conv2dLayout node 2 [0, 1] 2 False (rows_and_columns 0 r c d))
                (forward_deduce_states Conv2dLayout node 2 [0, 1] 2 True) = Inr M \<and>
     order (status_at M 2) = Some [0, -1, 1] \<and>
     bindE (backward_deduce_states Conv2dLayout node 2 2 [0, 1] False M)
       (backward_deduce_states Conv2dLayout node 2 2 [0, 1] True) = Inr N"
  using assms sizes_above_one [OF assms] by (simp add: deduction_defs conv2d_defs)

text \<open>
  The parts of a product may need fewer devices than there are: \<open>try_get_duplicate\<close> divides without
  a test whether the partial sums divide the remaining devices. Here the eight blocks of the
  result are laid out on twelve devices, and the status counts as valid.
\<close>

definition uneven_product :: layouts where
  "uneven_product = (rows_and_columns 1 2 2 3)
     \<lparr>status_at := (\<lambda>_. blank_status 12)
        (0 := split_status 12 [(0, 2), (1, 2)] 3 [0, -1, 1], 1 := split_status 12 [(0, 2), (1, 2)] 3 [-1, 1, 0])\<rparr>"

theorem eight_blocks_on_twelve_devices:
  "\<exists>M t. bindE (forward_deduce_states (MatMulLayout False False) node 2 [0, 1] 2 False uneven_product)
          (forward_deduce_states (MatMulLayout False False) node 2 [0, 1] 2 True) = Inr M \<and>
     valid_all (status_at M 2) = Inr (True, t) \<and> dev_num t = 12 \<and> state t = Some [(0, 2), (1, 2)] \<and>
     duplicate t = Some 1 \<and> partial t = Some 2 \<and> order t = Some [0, 1, -2]"
  by (simp add: uneven_product_def deduction_defs matmul_defs)

end
