(* ===== verification/StagePartition.thy ===== *)
theory StagePartition imports Complex_Main Prelude begin

text \<open>
  The searches for a partition of the layers into pipeline stages of
  \<open>hetu/v1/python/hetu/distributed_strategies\<close>: \<open>GPipeSearching\<close> of \<open>gpipe.py\<close>, which makes the
  stages as even as possible, and \<open>PipeDreamSearching.pipedream_simple\<close> of \<open>pipedream.py\<close>, which
  looks for the least time of the slowest stage. Both are dynamic programs over the accumulated
  times of the layers (\<open>accum_time\<close>, whose entry \<open>j\<close> is the time of the first \<open>j\<close> layers).

  The measured times are elements of any ordered ring: what is proved holds for exact arithmetic.
\<close>

section \<open>GPipe\<close>

definition need :: "'b option \<Rightarrow> 'b result" where
  "need v = (case v of None \<Rightarrow> Inl TypeError | Some x \<Rightarrow> Inr x)"

definition segment_square :: "'a::linordered_idom list \<Rightarrow> nat \<Rightarrow> nat \<Rightarrow> 'a" where
  "segment_square accum_time a b = (accum_time ! b - accum_time ! a) ^ 2"

type_synonym 'a gpipe_row = "('a option \<times> nat) list"

text \<open>The first row: one device. The entry of row \<open>i\<close> and column \<open>j\<close> with its split point.\<close>

definition gpipe_first :: "'a::linordered_idom list \<Rightarrow> nat \<Rightarrow> 'a gpipe_row" where
  "gpipe_first accum_time num_group = map (\<lambda>j. (Some (segment_square accum_time 0 (j + 1)), 0)) [0..<num_group]"

definition gpipe_entry :: "'a::linordered_idom list \<Rightarrow> 'a gpipe_row \<Rightarrow> nat \<Rightarrow> nat \<Rightarrow> ('a option \<times> nat) result" where
  "gpipe_entry accum_time prev i j =
     bindE (mapE (\<lambda>k. bindE (need (fst (prev ! k))) (\<lambda>v. Inr (v + segment_square accum_time (k + 1) (j + 1), k)))
       [i - 1..<j]) (\<lambda>cands.
     Inr (case first_min fst cands of None \<Rightarrow> (None, 0) | Some (v, k) \<Rightarrow> (Some v, k)))"

definition gpipe_row :: "'a::linordered_idom list \<Rightarrow> nat \<Rightarrow> 'a gpipe_row \<Rightarrow> nat \<Rightarrow> 'a gpipe_row result" where
  "gpipe_row accum_time num_group prev i =
     mapE (\<lambda>j. if j < i then Inr (None, 0) else gpipe_entry accum_time prev i j) [0..<num_group]"

definition gpipe_table :: "'a::linordered_idom list \<Rightarrow> nat \<Rightarrow> nat \<Rightarrow> 'a gpipe_row list result" where
  "gpipe_table accum_time num_group num_workers =
     foldE (\<lambda>rows i. bindE (gpipe_row accum_time num_group (last rows) i) (\<lambda>row. Inr (rows @ [row])))
       [gpipe_first accum_time num_group] [1..<num_workers]"

text \<open>Back from the last layer: the split points, each the last layer of its device.\<close>

definition gpipe_points :: "'a gpipe_row list \<Rightarrow> nat \<Rightarrow> nat \<Rightarrow> nat list" where
  "gpipe_points rows num_group num_workers =
     fold (\<lambda>i points. snd (rows ! i ! hd points) # points) (rev [1..<num_workers]) [num_group - 1]"

text \<open>The device of every layer.\<close>

fun place_layers :: "nat \<Rightarrow> nat \<Rightarrow> nat list \<Rightarrow> (nat \<times> nat) list" where
  "place_layers dev start [] = []"
| "place_layers dev start (point # points) =
     map (\<lambda>j. (j, dev)) [start..<point + 1] @ place_layers (dev + 1) (point + 1) points"

definition gpipe_searching :: "'a::linordered_idom list \<Rightarrow> nat \<Rightarrow> nat \<Rightarrow> ('a \<times> nat list \<times> (nat \<times> nat) list) result" where
  "gpipe_searching accum_time num_group num_workers =
     assertE (num_workers \<le> num_group)
       (if num_workers = 0 then Inl IndexError
        else bindE (gpipe_table accum_time num_group num_workers) (\<lambda>rows.
             bindE (need (fst (rows ! (num_workers - 1) ! (num_group - 1)))) (\<lambda>final_result.
             let points = gpipe_points rows num_group num_workers in
             Inr (final_result, points, place_layers 0 0 points))))"

section \<open>The least sum of squares\<close>

text \<open>\<open>ends i j qs\<close>: the layers up to \<open>j\<close> in \<open>i + 1\<close> stages that end with the layers \<open>qs\<close>.\<close>

definition ends :: "nat \<Rightarrow> nat \<Rightarrow> nat list \<Rightarrow> bool" where
  "ends i j qs \<longleftrightarrow> length qs = Suc i \<and> sorted_wrt (<) qs \<and> last qs = j"

fun sum_squares :: "'a::linordered_idom list \<Rightarrow> nat \<Rightarrow> nat list \<Rightarrow> 'a" where
  "sum_squares accum_time start [] = 0"
| "sum_squares accum_time start (q # qs) = segment_square accum_time start (q + 1) + sum_squares accum_time (q + 1) qs"

lemma sum_squares_snoc:
  "qs \<noteq> [] \<Longrightarrow> sum_squares acc start (qs @ [j]) = sum_squares acc start qs + segment_square acc (last qs + 1) (j + 1)"
  by (induction qs arbitrary: start) (auto simp: add.assoc)

lemma ends_snoc:
  assumes "ends (Suc i) j qs"
  obtains ps k where "qs = ps @ [j]" and "ends i k ps" and "k < j"
proof -
  have "qs \<noteq> []" using assms by (auto simp: ends_def)
  then obtain ps where qs: "qs = ps @ [j]" using assms by (metis append_butlast_last_id ends_def)
  moreover have "ps \<noteq> []" "length ps = Suc i" using assms qs by (auto simp: ends_def)
  ultimately show thesis using assms that [of ps "last ps"] by (auto simp: ends_def sorted_wrt_append)
qed

lemma sorted_last: "sorted_wrt (<) xs \<Longrightarrow> x \<in> set xs \<Longrightarrow> x \<le> last (xs :: nat list)"
  by (induction xs rule: rev_induct) (auto simp: sorted_wrt_append less_imp_le)

lemma ends_append: "ends i k ps \<Longrightarrow> k < j \<Longrightarrow> ends (Suc i) j (ps @ [j])"
  using sorted_last [of ps] by (fastforce simp: ends_def sorted_wrt_append)

text \<open>The partition that the split points of the table lead back to.\<close>

fun trace :: "'a gpipe_row list \<Rightarrow> nat \<Rightarrow> nat \<Rightarrow> nat list" where
  "trace rows 0 j = [j]"
| "trace rows (Suc i) j = trace rows i (snd (rows ! Suc i ! j)) @ [j]"

lemma trace_append: "i < length rows \<Longrightarrow> trace (rows @ [row]) i j = trace rows i j"
  by (induction i arbitrary: j) (simp_all add: nth_append)

definition entry_ok :: "'a::linordered_idom list \<Rightarrow> 'a gpipe_row list \<Rightarrow> nat \<Rightarrow> nat \<Rightarrow> bool" where
  "entry_ok acc rows i j \<longleftrightarrow> (\<exists>c. fst (rows ! i ! j) = Some c \<and> ends i j (trace rows i j) \<and>
     sum_squares acc 0 (trace rows i j) = c \<and> (\<forall>qs. ends i j qs \<longrightarrow> c \<le> sum_squares acc 0 qs))"

definition table_ok :: "'a::linordered_idom list \<Rightarrow> nat \<Rightarrow> nat \<Rightarrow> 'a gpipe_row list \<Rightarrow> bool" where
  "table_ok acc num_group n rows \<longleftrightarrow> length rows = n \<and> (\<forall>row \<in> set rows. length row = num_group) \<and>
     (\<forall>i < n. \<forall>j < num_group. i \<le> j \<longrightarrow> entry_ok acc rows i j)"

lemma first_ok: "table_ok acc num_group 1 [gpipe_first acc num_group]"
proof -
  have one: "qs = [j]" if "ends 0 j qs" for j qs
    using that by (cases qs) (auto simp: ends_def)
  have "segment_square acc 0 (Suc j) \<le> sum_squares acc 0 qs" if "ends 0 j qs" for j qs
    using one [OF that] by simp
  moreover have "ends 0 j [j]" for j by (simp add: ends_def)
  ultimately show ?thesis by (simp add: table_ok_def entry_ok_def gpipe_first_def)
qed

lemma gpipe_entry_ok:
  assumes ok: "table_ok acc num_group (Suc i) rows" and j: "Suc i \<le> j" "j < num_group"
    and row: "\<And>e. gpipe_entry acc (last rows) (Suc i) j = Inr e \<Longrightarrow> row ! j = e"
  shows "\<exists>e. gpipe_entry acc (last rows) (Suc i) j = Inr e" and "entry_ok acc (rows @ [row]) (Suc i) j"
proof -
  have len: "length rows = Suc i" using ok by (simp add: table_ok_def)
  then have "rows \<noteq> []" by auto
  with len have last: "last rows = rows ! i" by (simp add: last_conv_nth)
  define best where "best k = the (fst (rows ! i ! k))" for k
  have entry: "entry_ok acc rows i k" if "i \<le> k" "k < j" for k using ok that j by (simp add: table_ok_def)
  have "fst (last rows ! k) = Some (best k)" if "k \<in> set [Suc i - 1..<j]" for k
    using entry [of k] that last by (auto simp: entry_ok_def best_def)
  then have cands: "mapE (\<lambda>k. bindE (need (fst (last rows ! k))) (\<lambda>v. Inr (v + segment_square acc (k + 1) (j + 1), k))) [Suc i - 1..<j]
      = Inr (map (\<lambda>k. (best k + segment_square acc (k + 1) (j + 1), k)) [Suc i - 1..<j])"
    by (intro mapE_all_Inr) (simp add: need_def)
  let ?cs = "map (\<lambda>k. (best k + segment_square acc (k + 1) (j + 1), k)) [Suc i - 1..<j]"
  have "?cs \<noteq> []" using j by simp
  then obtain c where c: "first_min fst ?cs = Some c" "c \<in> set ?cs" "\<forall>y \<in> set ?cs. fst c \<le> fst y" by (rule first_min_obtain)
  then obtain k where k: "c = (best k + segment_square acc (k + 1) (j + 1), k)" "i \<le> k" "k < j" by auto
  have run: "gpipe_entry acc (last rows) (Suc i) j = Inr (Some (best k + segment_square acc (k + 1) (j + 1)), k)"
    unfolding gpipe_entry_def cands using c(1) k(1) by simp
  then show "\<exists>e. gpipe_entry acc (last rows) (Suc i) j = Inr e" by blast
  have new: "(rows @ [row]) ! Suc i ! j = (Some (best k + segment_square acc (k + 1) (j + 1)), k)"
    using row [OF run] len by (simp add: nth_append)
  have tr: "trace (rows @ [row]) (Suc i) j = trace rows i k @ [j]"
    using new len by (simp add: trace_append)
  from entry [OF k(2,3)] have old: "ends i k (trace rows i k)" "sum_squares acc 0 (trace rows i k) = best k"
    by (auto simp: entry_ok_def best_def)
  have "best k + segment_square acc (k + 1) (j + 1) \<le> sum_squares acc 0 qs" if qs: "ends (Suc i) j qs" for qs
  proof -
    from qs obtain ps l where ps: "qs = ps @ [j]" "ends i l ps" "l < j" by (rule ends_snoc)
    have "ps \<noteq> []" using ps(2) by (auto simp: ends_def)
    then have "i \<le> l" using ps(2) sorted_wrt_less_idx [of ps i] by (auto simp: ends_def last_conv_nth)
    have "best l \<le> sum_squares acc 0 ps" using entry [OF \<open>i \<le> l\<close> ps(3)] ps(2) by (auto simp: entry_ok_def best_def)
    moreover have "fst c \<le> best l + segment_square acc (l + 1) (j + 1)" using c(3) \<open>i \<le> l\<close> ps(3) by force
    moreover have "ps \<noteq> []" "last ps = l" using ps(2) by (auto simp: ends_def)
    ultimately show ?thesis using k(1) ps(1) by (simp add: sum_squares_snoc)
  qed
  moreover have "trace rows i k \<noteq> []" "last (trace rows i k) = k" using old(1) by (auto simp: ends_def)
  ultimately show "entry_ok acc (rows @ [row]) (Suc i) j"
    using new tr old k(3) ends_append [OF old(1)] by (auto simp: entry_ok_def sum_squares_snoc)
qed

lemma entry_ok_append: "entry_ok acc rows i j \<Longrightarrow> i < length rows \<Longrightarrow> entry_ok acc (rows @ [row]) i j"
  by (simp add: entry_ok_def trace_append nth_append)

lemma gpipe_row_ok:
  assumes ok: "table_ok acc num_group (Suc i) rows"
  shows "\<exists>row. gpipe_row acc num_group (last rows) (Suc i) = Inr row \<and> table_ok acc num_group (Suc (Suc i)) (rows @ [row])"
proof -
  let ?f = "\<lambda>j. if j < Suc i then Inr (None, 0) else gpipe_entry acc (last rows) (Suc i) j"
  have "\<exists>e. ?f j = Inr e" if "j \<in> set [0..<num_group]" for j
    using gpipe_entry_ok(1) [OF ok, of j "(replicate num_group undefined)[j := projr (gpipe_entry acc (last rows) (Suc i) j)]"] that by (cases "j < Suc i") auto
  then have "?f j = Inr (projr (?f j))" if "j \<in> set [0..<num_group]" for j using that by fastforce
  then have run: "gpipe_row acc num_group (last rows) (Suc i) = Inr (map (\<lambda>j. projr (?f j)) [0..<num_group])"
    unfolding gpipe_row_def by (rule mapE_all_Inr)
  let ?row = "map (\<lambda>j. projr (?f j)) [0..<num_group]"
  have "entry_ok acc (rows @ [?row]) (Suc i) j" if "Suc i \<le> j" "j < num_group" for j
    using gpipe_entry_ok(2) [OF ok that, of ?row] that by simp
  moreover have "entry_ok acc (rows @ [?row]) k j" if "k < Suc i" "j < num_group" "k \<le> j" for j k
    using ok that by (intro entry_ok_append) (simp_all add: table_ok_def)
  ultimately have "table_ok acc num_group (Suc (Suc i)) (rows @ [?row])"
    using ok by (auto simp: table_ok_def less_Suc_eq)
  with run show ?thesis by blast
qed

lemma gpipe_table_ok:
  "\<exists>rows. gpipe_table acc num_group (Suc n) = Inr rows \<and> table_ok acc num_group (Suc n) rows"
proof (induction n)
  case 0 show ?case using first_ok by (simp add: gpipe_table_def)
next
  case (Suc n)
  then obtain rows where rows: "gpipe_table acc num_group (Suc n) = Inr rows" "table_ok acc num_group (Suc n) rows" by blast
  from gpipe_row_ok [OF rows(2)] obtain row where row: "gpipe_row acc num_group (last rows) (Suc n) = Inr row"
    "table_ok acc num_group (Suc (Suc n)) (rows @ [row])" by blast
  have "[1..<Suc (Suc n)] = [1..<Suc n] @ [Suc n]" by simp
  then have "gpipe_table acc num_group (Suc (Suc n)) = bindE (gpipe_table acc num_group (Suc n)) (\<lambda>rows.
      bindE (gpipe_row acc num_group (last rows) (Suc n)) (\<lambda>row. Inr (rows @ [row])))"
    unfolding gpipe_table_def by (simp only: foldE_append) (auto simp: bindE_def split: sum.splits)
  with rows row show ?case by simp
qed

lemma points_trace: "fold (\<lambda>i points. snd (rows ! i ! hd points) # points) (rev [1..<Suc n]) (j # rest) = trace rows n j @ rest"
proof (induction n arbitrary: j rest)
  case (Suc n)
  have "rev [1..<Suc (Suc n)] = Suc n # rev [1..<Suc n]" by simp
  then show ?case using Suc by simp
qed simp

lemma map_of_constant: "j \<in> set xs \<Longrightarrow> map_of (map (\<lambda>j. (j, d)) xs) j = Some d"
  by (induction xs) auto

lemma place_layers_device:
  "sorted_wrt (<) points \<Longrightarrow> (\<forall>q \<in> set points. start \<le> q) \<Longrightarrow> i < length points \<Longrightarrow>
   (if i = 0 then start else points ! (i - 1) + 1) \<le> j \<Longrightarrow> j \<le> points ! i \<Longrightarrow>
   map_of (place_layers dev start points) j = Some (dev + i)"
proof (induction points arbitrary: dev start i)
  case (Cons q points)
  show ?case
  proof (cases i)
    case 0
    then have "j \<in> set [start..<q + 1]" using Cons.prems by auto
    then have "map_of (map (\<lambda>j. (j, dev)) [start..<q + 1]) j = Some dev" by (rule map_of_constant)
    with 0 show ?thesis by (simp del: upt_Suc add: map_add_Some_iff)
  next
    case (Suc i')
    have "q < j"
    proof (cases i')
      case 0 with Suc Cons.prems(4) show ?thesis by simp
    next
      case (Suc k)
      with \<open>i = Suc i'\<close> Cons.prems(3) have "points ! k \<in> set points" by simp
      then have "q < points ! k" using Cons.prems(1) by simp
      with Suc \<open>i = Suc i'\<close> Cons.prems(4) show ?thesis by simp
    qed
    then have "map_of (map (\<lambda>j. (j, dev)) [start..<q + 1]) j = None" by (auto simp: map_of_eq_None_iff)
    moreover have "map_of (place_layers (dev + 1) (q + 1) points) j = Some (dev + 1 + i')"
      using Cons.prems Suc by (intro Cons.IH) (auto simp: nth_Cons split: nat.splits)
    ultimately show ?thesis using Suc by (simp del: upt_Suc add: map_add_def)
  qed
qed simp

text \<open>C14: GPipe's partition is the most even one. For every number of devices that is not larger than
  the number of layers, the search returns one stage per device, in order, each with at least one layer
  and ending with the last layer; the sum of the squared stage times of this partition is the reported
  result and no other partition has a smaller one. Every layer is put on the device of its stage.\<close>

theorem gpipe_partition_is_optimal:
  assumes "0 < num_workers" and "num_workers \<le> num_group"
  shows "\<exists>cost points devices. gpipe_searching accum_time num_group num_workers = Inr (cost, points, devices) \<and>
     ends (num_workers - 1) (num_group - 1) points \<and> cost = sum_squares accum_time 0 points \<and>
     (\<forall>qs. ends (num_workers - 1) (num_group - 1) qs \<longrightarrow> cost \<le> sum_squares accum_time 0 qs) \<and>
     (\<forall>i < num_workers. \<forall>j. (if i = 0 then 0 else points ! (i - 1) + 1) \<le> j \<and> j \<le> points ! i \<longrightarrow> map_of devices j = Some i)"
proof -
  obtain n where n: "num_workers = Suc n" using assms(1) by (cases num_workers) auto
  obtain rows where rows: "gpipe_table accum_time num_group (Suc n) = Inr rows" "table_ok accum_time num_group (Suc n) rows"
    using gpipe_table_ok by blast
  have "entry_ok accum_time rows n (num_group - 1)" using rows(2) assms(2) n by (simp add: table_ok_def)
  then obtain c where c: "fst (rows ! n ! (num_group - 1)) = Some c" "ends n (num_group - 1) (trace rows n (num_group - 1))"
    "sum_squares accum_time 0 (trace rows n (num_group - 1)) = c" "\<forall>qs. ends n (num_group - 1) qs \<longrightarrow> c \<le> sum_squares accum_time 0 qs"
    by (auto simp: entry_ok_def)
  let ?ps = "trace rows n (num_group - 1)"
  have "gpipe_points rows num_group (Suc n) = ?ps" using points_trace [of rows n "num_group - 1" "[]"] by (simp add: gpipe_points_def)
  then have run: "gpipe_searching accum_time num_group num_workers = Inr (c, ?ps, place_layers 0 0 ?ps)"
    using assms(2) n rows(1) c(1) by (simp add: gpipe_searching_def need_def Let_def)
  have "map_of (place_layers 0 0 ?ps) j = Some i"
    if "i < num_workers" "(if i = 0 then 0 else ?ps ! (i - 1) + 1) \<le> j" "j \<le> ?ps ! i" for i j
    using place_layers_device [of ?ps 0 i j 0] c(2) that n by (simp add: ends_def)
  with run c n show ?thesis by auto
qed

theorem gpipe_partition_is_optimal_witness:
  "\<exists>cost points devices. gpipe_searching [0, 4, 5, 8, 10 :: int] 4 2 = Inr (cost, points, devices) \<and>
     ends 1 3 points \<and> cost = sum_squares [0, 4, 5, 8, 10] 0 points \<and> cost \<le> sum_squares [0, 4, 5, 8, 10] 0 [2, 3]"
proof -
  have "ends (2 - 1) (4 - 1) [2, 3]" by (simp add: ends_def)
  then show ?thesis using gpipe_partition_is_optimal [of 2 4 "[0, 4, 5, 8, 10 :: int]"] by auto
qed

end
