(* ===== verification/PipelineSearch.thy ===== *)
theory PipelineSearch imports StagePartition begin

text \<open>
  \<open>PipeDreamSearching.pipedream_simple\<close> of \<open>hetu/v1/python/hetu/distributed_strategies/pipedream.py\<close>:
  all stages get the same number of workers (\<open>key\<close>: GPUs per host and hosts), and for each such number
  a dynamic program looks for the split of the layers with the fastest slowest stage.

  Layers are numbered from 1, as in the code. The simulator's times are parameters: \<open>allreduce_time\<close>
  of a layer on the devices of a key, and \<open>cross_time\<close> of the tensor that passes from one layer to
  another within a host or between hosts, \<open>None\<close> when no tensor does.
\<close>

section \<open>The search\<close>

type_synonym stage_key = "nat \<times> nat"

record 'a pipedream_env =
  num_group :: nat
  host_gpus :: nat
  host_num :: nat
  batch_num :: int
  accum_time :: "'a list"
  overlap :: bool
  allreduce_time :: "nat \<Rightarrow> stage_key \<Rightarrow> 'a"
  cross_time :: "nat \<Rightarrow> nat \<Rightarrow> bool \<Rightarrow> 'a option"

definition get_range_allreduce_time :: "('a::linordered_idom) pipedream_env \<Rightarrow> nat \<Rightarrow> nat \<Rightarrow> stage_key \<Rightarrow> 'a" where
  "get_range_allreduce_time env start ending key =
     (if key = (1, 1) then 0 else sum_list (map (\<lambda>ind. allreduce_time env ind key) [start - 1..<ending]))"

definition get_group_comm_time :: "('a::linordered_idom) pipedream_env \<Rightarrow> nat \<Rightarrow> nat \<Rightarrow> nat \<Rightarrow> bool \<Rightarrow> 'a result" where
  "get_group_comm_time env start middle ending cross_hosts =
     (if cross_hosts \<and> host_num env < 2 then Inl IndexError
      else Inr (2 * sum_list (map (\<lambda>lind. sum_list (map (\<lambda>rind.
             case cross_time env lind rind cross_hosts of None \<Rightarrow> 0 | Some t \<Rightarrow> t) [middle..<ending])) [start - 1..<middle])))"

definition stage_time :: "('a::linordered_idom) pipedream_env \<Rightarrow> stage_key \<Rightarrow> nat \<Rightarrow> nat \<Rightarrow> 'a" where
  "stage_time env key i j =
     (let t = accum_time env ! j - accum_time env ! (i - 1); r = get_range_allreduce_time env i j key in
      if overlap env then max t r else t + r)"

text \<open>
  A row of the program for stage \<open>p\<close>: for every last layer \<open>j\<close> the time of the slowest stage, the
  communication so far and the layer at which the preceding stage ends.
\<close>

type_synonym 'a stage_row = "('a \<times> 'a \<times> nat) option list"

definition row_entry :: "'a stage_row \<Rightarrow> nat \<Rightarrow> ('a \<times> 'a \<times> nat) result" where
  "row_entry row j = (if j < length row then (case row ! j of None \<Rightarrow> Inl KeyError | Some e \<Rightarrow> Inr e) else Inl KeyError)"

definition first_row :: "('a::linordered_idom) pipedream_env \<Rightarrow> stage_key \<Rightarrow> 'a stage_row" where
  "first_row env key = map (\<lambda>j. if 1 \<le> j then Some (stage_time env key 1 j, 0, 0) else None) [0..<num_group env + 1]"

definition stage_entry :: "('a::linordered_idom) pipedream_env \<Rightarrow> stage_key \<Rightarrow> 'a stage_row \<Rightarrow> nat \<Rightarrow> nat \<Rightarrow> ('a \<times> 'a \<times> nat) result" where
  "stage_entry env key prev p j =
     bindE (mapE (\<lambda>s.
         bindE (row_entry prev s) (\<lambda>(maxcomp, comm, _).
         bindE (get_group_comm_time env 1 s j (p mod (host_gpus env div fst key) = 0)) (\<lambda>c.
         let cur_comm = c + comm in
         Inr (max (max maxcomp (stage_time env key (s + 1) j)) cur_comm, cur_comm, s)))) [p..<j]) (\<lambda>cands.
     case first_min fst cands of
       None \<Rightarrow> Inl AssertionError
     | Some (cur_max_comp, cur_comm, s) \<Rightarrow> assertE (0 < s) (Inr (cur_max_comp, cur_comm, s)))"

definition stage_row :: "('a::linordered_idom) pipedream_env \<Rightarrow> stage_key \<Rightarrow> 'a stage_row \<Rightarrow> nat \<Rightarrow> 'a stage_row result" where
  "stage_row env key prev p =
     mapE (\<lambda>j. if j < 1 + p then Inr None else bindE (stage_entry env key prev p j) (\<lambda>e. Inr (Some e))) [0..<num_group env + 1]"

definition stage_table :: "('a::linordered_idom) pipedream_env \<Rightarrow> stage_key \<Rightarrow> nat \<Rightarrow> 'a stage_row list result" where
  "stage_table env key parts =
     foldE (\<lambda>rows p. bindE (stage_row env key (last rows) p) (\<lambda>row. Inr (rows @ [row]))) [first_row env key] [1..<parts]"

definition stage_parts :: "'a pipedream_env \<Rightarrow> stage_key \<Rightarrow> nat" where
  "stage_parts env key = host_gpus env * host_num env div (fst key * snd key)"

definition try_key :: "('a::linordered_idom) pipedream_env \<Rightarrow> stage_key \<Rightarrow> ('a \<times> 'a stage_row list \<times> stage_key) result" where
  "try_key env key =
     (let parts = stage_parts env key in
      bindE (stage_table env key parts) (\<lambda>rows.
      bindE (row_entry (rows ! (parts - 1)) (num_group env)) (\<lambda>(maxcomp, comm, _).
      let cur_coeff = batch_num env div int (fst key * snd key) - 1 in
      Inr (of_int cur_coeff * maxcomp + comm + stage_time env key 1 (num_group env), rows, key))))"

function powers_from :: "nat \<Rightarrow> nat \<Rightarrow> nat list" where
  "powers_from m n = (if m = 0 \<or> n < m then [] else m # powers_from (m * 2) n)"
  by pat_completeness auto
termination by (relation "measure (\<lambda>(m, n). n + 1 - m)") auto

declare powers_from.simps [simp del]

definition stage_keys :: "'a pipedream_env \<Rightarrow> stage_key list" where
  "stage_keys env = concat (map (\<lambda>m1. map (\<lambda>m2. (m1, m2)) (powers_from 1 (host_num env))) (powers_from 1 (host_gpus env)))"

text \<open>The layers of every stage, from the last stage to the first; the devices of every stage.\<close>

definition split_at :: "'a stage_row list \<Rightarrow> nat \<Rightarrow> nat \<Rightarrow> nat result" where
  "split_at rows p cur_end = bindE (row_entry (rows ! p) cur_end) (\<lambda>(_, _, s). Inr s)"

definition stage_layers :: "'a stage_row list \<Rightarrow> nat \<Rightarrow> nat \<Rightarrow> (nat \<times> nat) list result" where
  "stage_layers rows parts groups =
     bindE (foldE (\<lambda>(layers, cur_end) p. bindE (split_at rows p cur_end) (\<lambda>s. Inr (layers @ [(s + 1, cur_end)], s)))
       ([], groups) (rev [1..<parts])) (\<lambda>(layers, cur_end). Inr (rev (layers @ [(1, cur_end)])))"

fun stage_devices :: "'a pipedream_env \<Rightarrow> stage_key \<Rightarrow> nat \<times> nat \<times> nat \<times> nat \<Rightarrow> nat \<Rightarrow> (nat \<times> nat) list list" where
  "stage_devices env key st 0 = []"
| "stage_devices env key (gpu_lind, gpu_rind, host_lind, host_rind) (Suc n) =
     (let devices = concat (map (\<lambda>h. map (\<lambda>i. (h, i)) [gpu_lind..<gpu_rind]) [host_lind..<min host_rind (host_num env)]) in
      devices #
      (if gpu_rind = host_gpus env
       then stage_devices env key (0, fst key, host_rind, host_rind + snd key) n
       else stage_devices env key (gpu_rind, gpu_rind + fst key, host_lind, host_rind) n))"

definition pipedream_simple ::
  "('a::linordered_idom) pipedream_env \<Rightarrow> ('a \<times> stage_key \<times> (nat \<times> nat) list \<times> (nat \<times> nat) list list) result" where
  "pipedream_simple env =
     bindE (mapE (try_key env) (filter (\<lambda>key. stage_parts env key \<le> num_group env) (stage_keys env))) (\<lambda>cands.
     case first_min fst cands of
       None \<Rightarrow> Inl TypeError
     | Some (best_result, rows, key) \<Rightarrow>
         bindE (stage_layers rows (stage_parts env key) (num_group env)) (\<lambda>layers.
           Inr (best_result, key, layers, stage_devices env key (0, fst key, 0, snd key) (length layers))))"

definition context_of :: "(nat \<times> nat) list \<Rightarrow> (nat \<times> nat) list list \<Rightarrow> (nat \<times> (nat \<times> nat) list) list" where
  "context_of layers devices =
     concat (map (\<lambda>((lind, rind), ds). map (\<lambda>i. (i, ds)) [lind - 1..<rind]) (zip layers devices))"

section \<open>The value of a partition\<close>

text \<open>
  \<open>qs\<close> lists the last layers of the stages. The communication before stage \<open>p\<close> is that of all layers
  up to the end of stage \<open>p\<close> across its start; the estimate is at least the accumulated one.
\<close>

definition crosses :: "'a pipedream_env \<Rightarrow> stage_key \<Rightarrow> nat \<Rightarrow> bool" where
  "crosses env key p \<longleftrightarrow> p mod (host_gpus env div fst key) = 0"

definition cut_time :: "('a::linordered_idom) pipedream_env \<Rightarrow> nat \<Rightarrow> nat \<Rightarrow> bool \<Rightarrow> 'a" where
  "cut_time env s j cross = projr (get_group_comm_time env 1 s j cross)"

definition value_step :: "('a::linordered_idom) pipedream_env \<Rightarrow> stage_key \<Rightarrow> 'a \<times> 'a \<times> nat \<times> nat \<Rightarrow> nat \<Rightarrow> 'a \<times> 'a \<times> nat \<times> nat" where
  "value_step env key v j =
     (case v of (peak, comm, prev, p) \<Rightarrow>
        if p = 0 then (stage_time env key 1 j, 0, j, 1)
        else let comm' = cut_time env prev j (crosses env key p) + comm in
          (max (max peak (stage_time env key (prev + 1) j)) comm', comm', j, p + 1))"

definition partition_value :: "('a::linordered_idom) pipedream_env \<Rightarrow> stage_key \<Rightarrow> nat list \<Rightarrow> 'a \<times> 'a \<times> nat \<times> nat" where
  "partition_value env key qs = foldl (value_step env key) (0, 0, 0, 0) qs"

definition peak_of :: "('a::linordered_idom) pipedream_env \<Rightarrow> stage_key \<Rightarrow> nat list \<Rightarrow> 'a" where
  "peak_of env key qs = fst (partition_value env key qs)"

definition comm_of :: "('a::linordered_idom) pipedream_env \<Rightarrow> stage_key \<Rightarrow> nat list \<Rightarrow> 'a" where
  "comm_of env key qs = fst (snd (partition_value env key qs))"

text \<open>The last layers of \<open>p + 1\<close> stages that cover the layers from 1 to \<open>j\<close>.\<close>

definition cuts :: "nat \<Rightarrow> nat \<Rightarrow> nat list \<Rightarrow> bool" where
  "cuts p j qs \<longleftrightarrow> ends p j qs \<and> 0 \<notin> set qs"

lemma partition_value_shape:
  "qs \<noteq> [] \<Longrightarrow> partition_value env key qs = (peak_of env key qs, comm_of env key qs, last qs, length qs)"
proof (induction qs rule: rev_induct)
  case (snoc q qs)
  show ?case
  proof (cases "qs = []")
    case True then show ?thesis by (simp add: partition_value_def peak_of_def comm_of_def value_step_def)
  next
    case False
    have "partition_value env key (qs @ [q]) = value_step env key (partition_value env key qs) q"
      by (simp add: partition_value_def)
    with snoc.IH [OF False] show ?thesis
      using False by (simp add: peak_of_def comm_of_def value_step_def Let_def split: prod.splits)
  qed
qed simp

lemma peak_single [simp]: "peak_of env key [j] = stage_time env key 1 j" "comm_of env key [j] = 0"
  by (simp_all add: peak_of_def comm_of_def partition_value_def value_step_def)

lemma partition_value_snoc:
  assumes "qs \<noteq> []"
  shows "partition_value env key (qs @ [j]) = value_step env key (peak_of env key qs, comm_of env key qs, last qs, length qs) j"
  using partition_value_shape [OF assms, of env key] by (simp add: partition_value_def)

lemma comm_snoc:
  assumes "qs \<noteq> []"
  shows "comm_of env key (qs @ [j]) = cut_time env (last qs) j (crosses env key (length qs)) + comm_of env key qs"
  unfolding comm_of_def [of env key "qs @ [j]"] partition_value_snoc [OF assms] using assms by (simp add: value_step_def Let_def)

lemma peak_snoc:
  assumes "qs \<noteq> []"
  shows "peak_of env key (qs @ [j]) =
     max (max (peak_of env key qs) (stage_time env key (last qs + 1) j)) (comm_of env key (qs @ [j]))"
  unfolding comm_snoc [OF assms] peak_of_def [of env key "qs @ [j]"] partition_value_snoc [OF assms]
  using assms by (simp add: value_step_def Let_def)

section \<open>The table\<close>

text \<open>The partition that the split points lead back to.\<close>

fun stage_trace :: "'a stage_row list \<Rightarrow> nat \<Rightarrow> nat \<Rightarrow> nat list" where
  "stage_trace rows 0 j = [j]"
| "stage_trace rows (Suc p) j = stage_trace rows p (snd (snd (the (rows ! Suc p ! j)))) @ [j]"

lemma stage_trace_append: "p < length rows \<Longrightarrow> stage_trace (rows @ [row]) p j = stage_trace rows p j"
  by (induction p arbitrary: j) (simp_all add: nth_append)

text \<open>
  An entry is the value of its partition. Without communication no other partition has a smaller
  peak.
\<close>

definition no_comm :: "('a::linordered_idom) pipedream_env \<Rightarrow> bool" where
  "no_comm env \<longleftrightarrow> (\<forall>i j x. cross_time env i j x = None \<or> cross_time env i j x = Some 0)"

definition stage_entry_ok :: "('a::linordered_idom) pipedream_env \<Rightarrow> stage_key \<Rightarrow> 'a stage_row list \<Rightarrow> nat \<Rightarrow> nat \<Rightarrow> bool" where
  "stage_entry_ok env key rows p j \<longleftrightarrow> (\<exists>s. rows ! p ! j =
       Some (peak_of env key (stage_trace rows p j), comm_of env key (stage_trace rows p j), s)) \<and>
     cuts p j (stage_trace rows p j) \<and>
     (no_comm env \<longrightarrow> (\<forall>qs. cuts p j qs \<longrightarrow> peak_of env key (stage_trace rows p j) \<le> peak_of env key qs))"

definition stage_table_ok :: "('a::linordered_idom) pipedream_env \<Rightarrow> stage_key \<Rightarrow> nat \<Rightarrow> 'a stage_row list \<Rightarrow> bool" where
  "stage_table_ok env key n rows \<longleftrightarrow> length rows = n \<and> (\<forall>row \<in> set rows. length row = num_group env + 1) \<and>
     (\<forall>p < n. \<forall>j \<le> num_group env. p < j \<longrightarrow> stage_entry_ok env key rows p j)"

lemma cuts_single: "cuts 0 j qs \<longleftrightarrow> qs = [j] \<and> 0 < j"
  by (cases qs) (auto simp: cuts_def ends_def)

lemma cuts_snoc:
  assumes "cuts (Suc p) j qs"
  obtains ps s where "qs = ps @ [j]" "cuts p s ps" "s < j" "p < s"
proof -
  have e: "ends (Suc p) j qs" and z: "0 \<notin> set qs" using assms by (simp_all add: cuts_def)
  from ends_snoc [OF e] obtain ps s where ps: "qs = ps @ [j]" "ends p s ps" "s < j" .
  have "ps \<noteq> []" using ps(2) by (auto simp: ends_def)
  then have "ps ! 0 \<in> set ps" by simp
  moreover have "0 \<notin> set ps" using z ps(1) by simp
  ultimately have "0 < ps ! 0" by (metis neq0_conv)
  have "\<forall>i < length ps. i < ps ! i"
  proof (intro allI impI)
    fix i assume "i < length ps"
    then show "i < ps ! i"
    proof (induction i)
      case 0 show ?case by fact
    next
      case (Suc i)
      have "ps ! i < ps ! Suc i" using ps(2) Suc.prems by (simp add: ends_def sorted_wrt_nth_less)
      with Suc show ?case by simp
    qed
  qed
  then have "p < s" using ps(2) \<open>ps \<noteq> []\<close> by (auto simp: ends_def last_conv_nth)
  with ps z that [of ps s] show thesis by (auto simp: cuts_def)
qed

lemma cuts_append: "cuts p s ps \<Longrightarrow> s < j \<Longrightarrow> cuts (Suc p) j (ps @ [j])"
  by (auto simp: cuts_def ends_append)

lemma cuts_length: "cuts p s ps \<Longrightarrow> length ps = Suc p \<and> last ps = s \<and> ps \<noteq> []"
  by (auto simp: cuts_def ends_def)

lemma first_stage_ok: "stage_table_ok env key 1 [first_row env key]"
proof -
  have "first_row env key ! j = Some (stage_time env key 1 j, 0, 0)" if "j \<le> num_group env" "0 < j" for j
    unfolding first_row_def using that by (subst nth_map) (simp_all del: upt_Suc)
  then show ?thesis by (auto simp: stage_table_ok_def stage_entry_ok_def cuts_single first_row_def simp del: upt_Suc)
qed

text \<open>Between hosts there are at least two of them.\<close>

definition hosts_ok :: "'a pipedream_env \<Rightarrow> stage_key \<Rightarrow> nat \<Rightarrow> bool" where
  "hosts_ok env key parts \<longleftrightarrow> (\<forall>p. 0 < p \<and> p < parts \<and> crosses env key p \<longrightarrow> 2 \<le> host_num env)"

lemma get_group_comm_time_Inr:
  "(cross \<Longrightarrow> 2 \<le> host_num env) \<Longrightarrow> get_group_comm_time env 1 s j cross = Inr (cut_time env s j cross)"
  by (cases cross) (simp_all add: cut_time_def get_group_comm_time_def)

lemma no_comm_cut: "no_comm env \<Longrightarrow> (cross \<Longrightarrow> 2 \<le> host_num env) \<Longrightarrow> cut_time env s j cross = 0"
proof -
  assume "no_comm env" and h: "cross \<Longrightarrow> 2 \<le> host_num env"
  then have "(case cross_time env i k cross of None \<Rightarrow> 0 | Some t \<Rightarrow> t) = 0" for i k
    unfolding no_comm_def by (metis option.simps(4,5))
  with h show ?thesis by (cases cross) (simp_all add: cut_time_def get_group_comm_time_def)
qed

lemma no_comm_comm_of:
  assumes "no_comm env" and "\<forall>p. 0 < p \<and> p < length qs \<and> crosses env key p \<longrightarrow> 2 \<le> host_num env"
  shows "comm_of env key qs = 0"
  using assms(2)
proof (induction qs rule: rev_induct)
  case Nil show ?case by (simp add: comm_of_def partition_value_def)
next
  case (snoc q qs)
  show ?case
  proof (cases "qs = []")
    case False
    then have "crosses env key (length qs) \<Longrightarrow> 2 \<le> host_num env" using snoc.prems by auto
    then have "cut_time env (last qs) q (crosses env key (length qs)) = 0" by (rule no_comm_cut [OF assms(1)])
    moreover have "comm_of env key qs = 0" using snoc.prems by (intro snoc.IH) auto
    ultimately show ?thesis using False by (simp add: comm_snoc)
  qed simp
qed

lemma stage_entry_step:
  assumes ok: "stage_table_ok env key (Suc p) rows" and j: "Suc p < j" "j \<le> num_group env"
    and hosts: "crosses env key (Suc p) \<longrightarrow> 2 \<le> host_num env"
  obtains s where "Suc p \<le> s" "s < j"
    and "stage_entry env key (last rows) (Suc p) j =
      Inr (peak_of env key (stage_trace rows p s @ [j]), comm_of env key (stage_trace rows p s @ [j]), s)"
    and "\<forall>l. Suc p \<le> l \<and> l < j \<longrightarrow> peak_of env key (stage_trace rows p s @ [j]) \<le> peak_of env key (stage_trace rows p l @ [j])"
proof -
  have len: "length rows = Suc p" using ok by (simp add: stage_table_ok_def)
  then have "rows \<noteq> []" by auto
  with len have last: "last rows = rows ! p" by (simp add: last_conv_nth)
  have rl: "length (rows ! p) = num_group env + 1" using ok len by (simp add: stage_table_ok_def)
  let ?t = "\<lambda>s. stage_trace rows p s @ [j]"
  let ?f = "\<lambda>s. bindE (row_entry (last rows) s) (\<lambda>(maxcomp, comm, _).
         bindE (get_group_comm_time env 1 s j (Suc p mod (host_gpus env div fst key) = 0)) (\<lambda>c.
         let cur_comm = c + comm in
         Inr (max (max maxcomp (stage_time env key (s + 1) j)) cur_comm, cur_comm, s)))"
  have cand: "?f s = Inr (peak_of env key (?t s), comm_of env key (?t s), s)" if "s \<in> set [Suc p..<j]" for s
  proof -
    have e: "stage_entry_ok env key rows p s" using ok that j by (simp add: stage_table_ok_def)
    then obtain q where q: "rows ! p ! s = Some (peak_of env key (stage_trace rows p s), comm_of env key (stage_trace rows p s), q)"
      and c: "cuts p s (stage_trace rows p s)" by (auto simp: stage_entry_ok_def)
    have "row_entry (last rows) s = Inr (peak_of env key (stage_trace rows p s), comm_of env key (stage_trace rows p s), q)"
      using q last rl that j by (simp add: row_entry_def)
    moreover have "get_group_comm_time env 1 s j (crosses env key (Suc p)) = Inr (cut_time env s j (crosses env key (Suc p)))"
      using hosts by (intro get_group_comm_time_Inr) simp
    ultimately show ?thesis
      using cuts_length [OF c] by (simp add: crosses_def [symmetric] Let_def comm_snoc peak_snoc)
  qed
  have cands: "mapE ?f [Suc p..<j] = Inr (map (\<lambda>s. (peak_of env key (?t s), comm_of env key (?t s), s)) [Suc p..<j])"
    by (rule mapE_all_Inr [OF cand])
  let ?cs = "map (\<lambda>s. (peak_of env key (?t s), comm_of env key (?t s), s)) [Suc p..<j]"
  have "?cs \<noteq> []" using j by simp
  then obtain c where c: "first_min fst ?cs = Some c" "c \<in> set ?cs" "\<forall>y \<in> set ?cs. fst c \<le> fst y" by (rule first_min_obtain)
  then obtain s where s: "c = (peak_of env key (?t s), comm_of env key (?t s), s)" "Suc p \<le> s" "s < j" by auto
  have run: "stage_entry env key (last rows) (Suc p) j = Inr c"
    unfolding stage_entry_def cands using c(1) s by simp
  have "peak_of env key (?t s) \<le> peak_of env key (?t l)" if "Suc p \<le> l" "l < j" for l
  proof -
    have "(peak_of env key (?t l), comm_of env key (?t l), l) \<in> set ?cs" using that by auto
    with c(3) have "fst c \<le> fst (peak_of env key (?t l), comm_of env key (?t l), l)" by blast
    with s(1) show ?thesis by simp
  qed
  with s run that [of s] show thesis by blast
qed

lemma peak_snoc_mono:
  assumes "no_comm env" and hosts: "\<forall>p. 0 < p \<and> p < Suc (length ps) \<and> crosses env key p \<longrightarrow> 2 \<le> host_num env"
    and "ps \<noteq> []" "qs \<noteq> []" "last ps = last qs" "length ps = length qs" "peak_of env key ps \<le> peak_of env key qs"
  shows "peak_of env key (ps @ [j]) \<le> peak_of env key (qs @ [j])"
proof -
  have "comm_of env key (ps @ [j]) = 0" "comm_of env key (qs @ [j]) = 0"
    using assms(6) hosts by (auto intro!: no_comm_comm_of [OF assms(1)])
  then show ?thesis using assms(3-7) by (simp add: peak_snoc max.coboundedI1 max.coboundedI2)
qed

lemma stage_row_ok:
  assumes ok: "stage_table_ok env key (Suc p) rows" and hosts: "hosts_ok env key (Suc (Suc p))"
  shows "\<exists>row. stage_row env key (last rows) (Suc p) = Inr row \<and> stage_table_ok env key (Suc (Suc p)) (rows @ [row])"
proof -
  have len: "length rows = Suc p" using ok by (simp add: stage_table_ok_def)
  have cross: "crosses env key (Suc p) \<longrightarrow> 2 \<le> host_num env" using hosts by (auto simp: hosts_ok_def)
  let ?f = "\<lambda>j. if j < 1 + Suc p then Inr None else bindE (stage_entry env key (last rows) (Suc p) j) (\<lambda>e. Inr (Some e))"
  let ?row = "map (\<lambda>j. projr (?f j)) [0..<num_group env + 1]"
  have "?f j = Inr (projr (?f j))" if "j \<in> set [0..<num_group env + 1]" for j
  proof (cases "j < 1 + Suc p")
    case False
    then have "Suc p < j" "j \<le> num_group env" using that by auto
    from stage_entry_step [OF ok this cross] obtain s where "stage_entry env key (last rows) (Suc p) j =
        Inr (peak_of env key (stage_trace rows p s @ [j]), comm_of env key (stage_trace rows p s @ [j]), s)" .
    with False show ?thesis by simp
  qed simp
  then have run: "stage_row env key (last rows) (Suc p) = Inr ?row"
    unfolding stage_row_def by (rule mapE_all_Inr)
  have new: "stage_entry_ok env key (rows @ [?row]) (Suc p) j" if j: "Suc p < j" "j \<le> num_group env" for j
  proof -
    from stage_entry_step [OF ok j cross] obtain s where s: "Suc p \<le> s" "s < j"
      and e: "stage_entry env key (last rows) (Suc p) j =
        Inr (peak_of env key (stage_trace rows p s @ [j]), comm_of env key (stage_trace rows p s @ [j]), s)"
      and min: "\<forall>l. Suc p \<le> l \<and> l < j \<longrightarrow> peak_of env key (stage_trace rows p s @ [j]) \<le> peak_of env key (stage_trace rows p l @ [j])" .
    have "?row ! j = projr (?f j)" using j by (subst nth_map) (simp_all del: upt_Suc)
    then have entry: "(rows @ [?row]) ! Suc p ! j =
        Some (peak_of env key (stage_trace rows p s @ [j]), comm_of env key (stage_trace rows p s @ [j]), s)"
      using e j len by (simp add: nth_append)
    then have tr: "stage_trace (rows @ [?row]) (Suc p) j = stage_trace rows p s @ [j]"
      using len by (simp add: stage_trace_append)
    have old: "stage_entry_ok env key rows p l" if "Suc p \<le> l" "l < j" for l using ok that j by (simp add: stage_table_ok_def)
    have c: "cuts p l (stage_trace rows p l)" if "Suc p \<le> l" "l < j" for l using old [OF that] by (simp add: stage_entry_ok_def)
    have "peak_of env key (stage_trace rows p s @ [j]) \<le> peak_of env key qs" if "no_comm env" and qs: "cuts (Suc p) j qs" for qs
    proof -
      from qs obtain ps l where ps: "qs = ps @ [j]" "cuts p l ps" "l < j" "p < l" by (rule cuts_snoc)
      then have l: "Suc p \<le> l" by simp
      have le: "peak_of env key (stage_trace rows p l) \<le> peak_of env key ps"
        using old [OF l ps(3)] ps(2) \<open>no_comm env\<close> by (simp add: stage_entry_ok_def)
      have "peak_of env key (stage_trace rows p l @ [j]) \<le> peak_of env key (ps @ [j])"
        using cuts_length [OF c [OF l ps(3)]] cuts_length [OF ps(2)] hosts le
        by (intro peak_snoc_mono [OF \<open>no_comm env\<close>]) (auto simp: hosts_ok_def)
      with min l ps(1,3) show ?thesis by force
    qed
    with entry tr cuts_append [OF c [OF s] s(2)] show ?thesis unfolding stage_entry_ok_def by auto
  qed
  have "stage_entry_ok env key (rows @ [?row]) q j" if "q < Suc p" "j \<le> num_group env" "q < j" for q j
    using ok that len by (simp add: stage_table_ok_def stage_entry_ok_def stage_trace_append nth_append)
  with new have "stage_table_ok env key (Suc (Suc p)) (rows @ [?row])"
    using ok by (auto simp: stage_table_ok_def less_Suc_eq)
  with run show ?thesis by blast
qed

lemma stage_table_ok:
  "hosts_ok env key (Suc n) \<Longrightarrow> \<exists>rows. stage_table env key (Suc n) = Inr rows \<and> stage_table_ok env key (Suc n) rows"
proof (induction n)
  case 0 show ?case using first_stage_ok by (simp add: stage_table_def)
next
  case (Suc n)
  have "hosts_ok env key (Suc n)" using Suc.prems unfolding hosts_ok_def by (metis less_Suc_eq)
  with Suc.IH obtain rows where rows: "stage_table env key (Suc n) = Inr rows" "stage_table_ok env key (Suc n) rows" by blast
  from stage_row_ok [OF rows(2) Suc.prems] obtain row where row: "stage_row env key (last rows) (Suc n) = Inr row"
    "stage_table_ok env key (Suc (Suc n)) (rows @ [row])" by blast
  have "[1..<Suc (Suc n)] = [1..<Suc n] @ [Suc n]" by simp
  then have "stage_table env key (Suc (Suc n)) = bindE (stage_table env key (Suc n)) (\<lambda>rows.
      bindE (stage_row env key (last rows) (Suc n)) (\<lambda>row. Inr (rows @ [row])))"
    unfolding stage_table_def by (simp only: foldE_append) (auto simp: bindE_def split: sum.splits)
  with rows row show ?case by simp
qed

section \<open>The keys\<close>

lemma powers_from_bounds: "m \<in> set (powers_from k n) \<Longrightarrow> 0 < m \<and> m \<le> n"
proof (induction k n rule: powers_from.induct)
  case (1 k n)
  show ?case
  proof (cases "k = 0 \<or> n < k")
    case True then show ?thesis using "1.prems" by (subst (asm) powers_from.simps) simp
  next
    case False
    then have "m = k \<or> m \<in> set (powers_from (k * 2) n)" using "1.prems" by (subst (asm) powers_from.simps) auto
    with False "1.IH" show ?thesis by auto
  qed
qed

lemma stage_keys_bounds:
  assumes "key \<in> set (stage_keys env)"
  shows "0 < fst key \<and> fst key \<le> host_gpus env \<and> 0 < snd key \<and> snd key \<le> host_num env"
  using assms by (auto simp: stage_keys_def dest: powers_from_bounds)

lemma stage_parts_pos: "key \<in> set (stage_keys env) \<Longrightarrow> 0 < stage_parts env key"
  using stage_keys_bounds [of key env] by (auto simp: stage_parts_def div_greater_zero_iff intro: mult_le_mono)

lemma keys_hosts_ok:
  assumes "key \<in> set (stage_keys env)"
  shows "hosts_ok env key (stage_parts env key)"
  unfolding hosts_ok_def
proof (intro allI impI)
  fix p assume p: "0 < p \<and> p < stage_parts env key \<and> crosses env key p"
  show "2 \<le> host_num env"
  proof (rule ccontr)
    assume "\<not> 2 \<le> host_num env"
    with stage_keys_bounds [OF assms] have "host_num env = 1" "snd key = 1" by auto
    then have "stage_parts env key = host_gpus env div fst key" by (simp add: stage_parts_def)
    with p have "0 < p" "p < host_gpus env div fst key" "p mod (host_gpus env div fst key) = 0" by (simp_all add: crosses_def)
    then show False by (metis mod_less neq0_conv)
  qed
qed

section \<open>The stages of the result\<close>

fun ranges :: "nat \<Rightarrow> nat list \<Rightarrow> (nat \<times> nat) list" where
  "ranges start [] = []"
| "ranges start (q # qs) = (start + 1, q) # ranges q qs"

lemma ranges_snoc: "ranges start (qs @ [j]) = ranges start qs @ [(last (start # qs) + 1, j)]"
  by (induction qs arbitrary: start) auto

lemma length_ranges [simp]: "length (ranges start qs) = length qs"
  by (induction qs arbitrary: start) auto

lemma stage_entry_found:
  assumes "stage_table_ok env key n rows" and "p < n" "p < j" "j \<le> num_group env"
  shows "\<exists>a b s. row_entry (rows ! p) j = Inr (a, b, s) \<and> rows ! p ! j = Some (a, b, s)"
proof -
  have "stage_entry_ok env key rows p j" using assms by (simp add: stage_table_ok_def)
  moreover have "length (rows ! p) = num_group env + 1" using assms by (simp add: stage_table_ok_def)
  ultimately show ?thesis using assms(4) by (auto simp: stage_entry_ok_def row_entry_def)
qed

lemma layers_fold:
  assumes "stage_table_ok env key n rows"
  shows "p < n \<Longrightarrow> p < j \<Longrightarrow> j \<le> num_group env \<Longrightarrow>
    foldE (\<lambda>(layers, cur_end) p. bindE (split_at rows p cur_end) (\<lambda>s. Inr (layers @ [(s + 1, cur_end)], s))) (layers, j) (rev [1..<Suc p])
      = Inr (layers @ rev (tl (ranges 0 (stage_trace rows p j))), hd (stage_trace rows p j))"
proof (induction p arbitrary: j layers)
  case (Suc p)
  obtain a b s where s: "row_entry (rows ! Suc p) j = Inr (a, b, s)" "rows ! Suc p ! j = Some (a, b, s)"
    using stage_entry_found [OF assms Suc.prems] by blast
  have tr: "stage_trace rows (Suc p) j = stage_trace rows p s @ [j]" using s(2) by simp
  have "cuts (Suc p) j (stage_trace rows (Suc p) j)"
    using assms Suc.prems unfolding stage_table_ok_def stage_entry_ok_def by blast
  then obtain ps l where "stage_trace rows p s @ [j] = ps @ [j]" "cuts p l ps" "l < j" "p < l" unfolding tr by (rule cuts_snoc)
  then have c: "cuts p l (stage_trace rows p s)" "l < j" "p < l" by simp_all
  have "last (stage_trace rows p s) = s" by (cases p) simp_all
  then have l: "l = s" using cuts_length [OF c(1)] by simp
  have ne: "stage_trace rows p s \<noteq> []" using cuts_length [OF c(1)] by simp
  have "tl (ranges 0 (stage_trace rows p s @ [j])) = tl (ranges 0 (stage_trace rows p s)) @ [(s + 1, j)]"
    using ne \<open>last _ = s\<close> by (cases "stage_trace rows p s") (auto simp: ranges_snoc)
  moreover have "rev [1..<Suc (Suc p)] = Suc p # rev [1..<Suc p]" by simp
  ultimately show ?case
    using Suc.IH [of s "layers @ [(s + 1, j)]"] Suc.prems c l s tr ne by (simp add: split_at_def)
qed simp

lemma stage_layers_ranges:
  assumes "stage_table_ok env key (Suc n) rows" and "n < num_group env"
  shows "stage_layers rows (Suc n) (num_group env) = Inr (ranges 0 (stage_trace rows n (num_group env)))"
proof -
  have "stage_trace rows n (num_group env) \<noteq> []" by (cases n) simp_all
  then show ?thesis
    using layers_fold [OF assms(1), of n "num_group env" "[]"] assms(2)
    by (cases "stage_trace rows n (num_group env)") (auto simp: stage_layers_def)
qed

definition estimate :: "('a::linordered_idom) pipedream_env \<Rightarrow> stage_key \<Rightarrow> nat list \<Rightarrow> 'a" where
  "estimate env key qs =
     of_int (batch_num env div int (fst key * snd key) - 1) * peak_of env key qs + comm_of env key qs + stage_time env key 1 (num_group env)"

definition usable :: "'a pipedream_env \<Rightarrow> stage_key \<Rightarrow> bool" where
  "usable env key \<longleftrightarrow> key \<in> set (stage_keys env) \<and> stage_parts env key \<le> num_group env"

lemma try_key_ok:
  assumes "usable env key"
  shows "\<exists>rows qs. try_key env key = Inr (estimate env key qs, rows, key) \<and> cuts (stage_parts env key - 1) (num_group env) qs \<and>
    stage_layers rows (stage_parts env key) (num_group env) = Inr (ranges 0 qs) \<and>
    (no_comm env \<longrightarrow> (\<forall>ps. cuts (stage_parts env key - 1) (num_group env) ps \<longrightarrow> peak_of env key qs \<le> peak_of env key ps))"
proof -
  have key: "key \<in> set (stage_keys env)" and le: "stage_parts env key \<le> num_group env" using assms by (auto simp: usable_def)
  obtain n where n: "stage_parts env key = Suc n" using stage_parts_pos [OF key] by (cases "stage_parts env key") auto
  from stage_table_ok [of env key n] keys_hosts_ok [OF key] n obtain rows
    where rows: "stage_table env key (Suc n) = Inr rows" "stage_table_ok env key (Suc n) rows" by auto
  let ?qs = "stage_trace rows n (num_group env)"
  have ok: "stage_entry_ok env key rows n (num_group env)" using rows(2) le n by (simp add: stage_table_ok_def)
  have "length (rows ! n) = num_group env + 1" using rows(2) by (simp add: stage_table_ok_def)
  then obtain s where "row_entry (rows ! n) (num_group env) = Inr (peak_of env key ?qs, comm_of env key ?qs, s)"
    using ok by (auto simp: stage_entry_ok_def row_entry_def)
  then have "try_key env key = Inr (estimate env key ?qs, rows, key)"
    using rows(1) n by (simp add: try_key_def Let_def estimate_def)
  moreover have "stage_layers rows (Suc n) (num_group env) = Inr (ranges 0 ?qs)" using rows(2) le n by (intro stage_layers_ranges) auto
  ultimately show ?thesis using ok n unfolding stage_entry_ok_def by (metis diff_Suc_1)
qed

lemma parts_coefficient:
  assumes "usable env key" and "int (host_gpus env * host_num env) \<le> batch_num env"
  shows "0 \<le> batch_num env div int (fst key * snd key) - 1"
proof -
  have k: "0 < fst key * snd key" "fst key * snd key \<le> host_gpus env * host_num env"
    using stage_keys_bounds [of key env] assms(1) by (auto simp: usable_def intro: mult_le_mono)
  then have "int (fst key * snd key) \<le> batch_num env" using assms(2) by linarith
  then have "int (fst key * snd key) div int (fst key * snd key) \<le> batch_num env div int (fst key * snd key)"
    using k(1) by (intro zdiv_mono1) auto
  then show ?thesis using k(1) by simp
qed

text \<open>C13: When some number of workers per stage leaves no more stages than layers, the search of PipeDream
  returns such a number and a split of all layers into that many consecutive stages, none of them empty;
  the reported time is the estimate of exactly this split. When the transfers between the layers take
  no time (and there are at least as many micro-batches as devices), no split for any number of
  workers has a smaller estimate.\<close>

theorem pipedream_finds_a_partition:
  assumes "\<exists>key. usable env key"
  shows "\<exists>best key qs devices. pipedream_simple env = Inr (best, key, ranges 0 qs, devices) \<and> usable env key \<and>
     cuts (stage_parts env key - 1) (num_group env) qs \<and> best = estimate env key qs \<and>
     (no_comm env \<and> int (host_gpus env * host_num env) \<le> batch_num env \<longrightarrow>
        (\<forall>other ps. usable env other \<and> cuts (stage_parts env other - 1) (num_group env) ps \<longrightarrow> best \<le> estimate env other ps))"
proof -
  let ?keys = "filter (\<lambda>key. stage_parts env key \<le> num_group env) (stage_keys env)"
  have us: "usable env key \<longleftrightarrow> key \<in> set ?keys" for key by (auto simp: usable_def)
  define result where "result key = projr (try_key env key)" for key
  have run: "try_key env key = Inr (result key)" if "key \<in> set ?keys" for key
    using try_key_ok [of env key] that us by (auto simp: result_def)
  then have cands: "mapE (try_key env) ?keys = Inr (map result ?keys)" by (rule mapE_all_Inr)
  have "map result ?keys \<noteq> []" using assms us by (metis list.map_disc_iff length_greater_0_conv length_pos_if_in_set)
  then obtain c where c: "first_min fst (map result ?keys) = Some c" "c \<in> set (map result ?keys)"
    "\<forall>y \<in> set (map result ?keys). fst c \<le> fst y" by (rule first_min_obtain)
  then obtain key where key: "usable env key" "c = result key" using us by auto
  from try_key_ok [OF key(1)] obtain rows qs where q: "c = (estimate env key qs, rows, key)"
    "cuts (stage_parts env key - 1) (num_group env) qs" "stage_layers rows (stage_parts env key) (num_group env) = Inr (ranges 0 qs)"
    using key(2) by (auto simp: result_def)
  have "estimate env key qs \<le> estimate env other ps"
    if free: "no_comm env" "int (host_gpus env * host_num env) \<le> batch_num env"
      and o: "usable env other" "cuts (stage_parts env other - 1) (num_group env) ps" for other ps
  proof -
    from try_key_ok [OF o(1)] obtain rows' qs' where q': "result other = (estimate env other qs', rows', other)"
      "cuts (stage_parts env other - 1) (num_group env) qs'" "peak_of env other qs' \<le> peak_of env other ps"
      using free(1) o(2) by (auto simp: result_def)
    have "other \<in> set ?keys" using o(1) us by blast
    then have "result other \<in> set (map result ?keys)" unfolding set_map by (rule imageI)
    then have "fst c \<le> fst (result other)" using c(3) by blast
    then have "estimate env key qs \<le> estimate env other qs'" using q(1) q'(1) by simp
    also have "\<dots> \<le> estimate env other ps"
    proof -
      have h: "\<forall>p. 0 < p \<and> p < length ps \<and> crosses env other p \<longrightarrow> 2 \<le> host_num env"
        "\<forall>p. 0 < p \<and> p < length qs' \<and> crosses env other p \<longrightarrow> 2 \<le> host_num env"
        using keys_hosts_ok [of other env] o(1) cuts_length [OF o(2)] cuts_length [OF q'(2)] stage_parts_pos [of other env]
        by (auto simp: hosts_ok_def usable_def)
      have "of_int (batch_num env div int (fst other * snd other) - 1) * peak_of env other qs'
          \<le> of_int (batch_num env div int (fst other * snd other) - 1) * peak_of env other ps"
        using q'(3) parts_coefficient [OF o(1) free(2)] by (intro mult_left_mono) simp_all
      then show ?thesis
        unfolding estimate_def no_comm_comm_of [OF free(1) h(1)] no_comm_comm_of [OF free(1) h(2)] by simp
    qed
    finally show ?thesis .
  qed
  moreover have "pipedream_simple env = Inr (estimate env key qs, key, ranges 0 qs, stage_devices env key (0, fst key, 0, snd key) (length (ranges 0 qs)))"
    unfolding pipedream_simple_def cands using c(1) q(1,3) by simp
  ultimately show ?thesis using key(1) q(2) by blast
qed

section \<open>The devices of the stages\<close>

definition stage_block :: "'a pipedream_env \<Rightarrow> stage_key \<Rightarrow> nat \<Rightarrow> (nat \<times> nat) list" where
  "stage_block env key p =
     (let per = host_gpus env div fst key in
      concat (map (\<lambda>h. map (\<lambda>i. (h, i)) [p mod per * fst key..<p mod per * fst key + fst key])
        [p div per * snd key..<min (p div per * snd key + snd key) (host_num env)]))"

definition placement :: "'a pipedream_env \<Rightarrow> stage_key \<Rightarrow> nat \<Rightarrow> nat \<times> nat \<times> nat \<times> nat" where
  "placement env key p =
     (let per = host_gpus env div fst key in
      (p mod per * fst key, p mod per * fst key + fst key, p div per * snd key, p div per * snd key + snd key))"

lemma stage_devices_step:
  assumes "fst key dvd host_gpus env" and "0 < host_gpus env"
  shows "stage_devices env key (placement env key p) (Suc n) = stage_block env key p # stage_devices env key (placement env key (Suc p)) n"
proof -
  define per where "per = host_gpus env div fst key"
  have per: "per * fst key = host_gpus env" "0 < per" "0 < fst key"
    using assms unfolding per_def by (auto simp: div_greater_zero_iff dvd_imp_le intro!: Nat.gr0I)
  have full: "p mod per * fst key + fst key = host_gpus env \<longleftrightarrow> Suc (p mod per) = per"
    using per by (metis add.commute mult_Suc mult_cancel2 neq0_conv)
  show ?thesis
  proof (cases "Suc (p mod per) = per")
    case True
    then have "Suc p mod per = 0" "Suc p div per = Suc (p div per)" by (simp_all add: mod_Suc div_Suc)
    with True full show ?thesis
      by (simp add: placement_def stage_block_def per_def [symmetric] Let_def add.commute)
  next
    case False
    then have "Suc p mod per = Suc (p mod per)" "Suc p div per = p div per" by (simp_all add: mod_Suc div_Suc)
    with False full show ?thesis
      by (simp add: placement_def stage_block_def per_def [symmetric] Let_def add.commute)
  qed
qed

lemma stage_devices_blocks:
  assumes "fst key dvd host_gpus env" and "0 < host_gpus env"
  shows "stage_devices env key (placement env key p) n = map (stage_block env key) [p..<p + n]"
proof (induction n arbitrary: p)
  case 0 show ?case by (simp add: placement_def Let_def)
next
  case (Suc n)
  have "[p..<p + Suc n] = p # [Suc p..<Suc p + n]" by (simp add: upt_conv_Cons)
  then show ?case unfolding stage_devices_step [OF assms] using Suc.IH [of "Suc p"] by simp
qed

lemma set_pairs: "(h, i) \<in> set (concat (map (\<lambda>h. map (\<lambda>i. (h, i)) gs) hs)) \<longleftrightarrow> h \<in> set hs \<and> i \<in> set gs"
  by auto

lemma stage_block_member:
  assumes "fst key dvd host_gpus env" and "0 < host_gpus env" and "0 < snd key"
  shows "(h, i) \<in> set (stage_block env key p) \<longleftrightarrow>
    h < host_num env \<and> i < host_gpus env \<and> p = h div snd key * (host_gpus env div fst key) + i div fst key"
proof -
  define per where "per = host_gpus env div fst key"
  have per: "per * fst key = host_gpus env" "0 < per" "0 < fst key"
    using assms unfolding per_def by (auto simp: div_greater_zero_iff dvd_imp_le intro!: Nat.gr0I)
  have "(h, i) \<in> set (stage_block env key p) \<longleftrightarrow> h div snd key = p div per \<and> h < host_num env \<and> i div fst key = p mod per"
    using div_slot [OF assms(3), of "p div per" h] div_slot [OF per(3), of "p mod per" i]
    unfolding stage_block_def per_def [symmetric] Let_def set_pairs set_upt by auto
  also have "\<dots> \<longleftrightarrow> h < host_num env \<and> i < host_gpus env \<and> p = h div snd key * per + i div fst key"
  proof
    assume e: "h div snd key = p div per \<and> h < host_num env \<and> i div fst key = p mod per"
    have "i div fst key < per" using e per(2) by simp
    then have "i < host_gpus env" using per by (metis div_less_iff_less_mult)
    with e show "h < host_num env \<and> i < host_gpus env \<and> p = h div snd key * per + i div fst key" by simp
  next
    assume e: "h < host_num env \<and> i < host_gpus env \<and> p = h div snd key * per + i div fst key"
    then have "i div fst key < per" using per by (simp add: div_less_iff_less_mult)
    with e show "h div snd key = p div per \<and> h < host_num env \<and> i div fst key = p mod per" by simp
  qed
  finally show ?thesis unfolding per_def .
qed

text \<open>C15: When the workers per stage divide the GPUs of a host and the number of hosts, every GPU of every
  host belongs to exactly one stage, and every device of a stage exists.\<close>

theorem stages_share_the_devices:
  assumes "fst key dvd host_gpus env" and "snd key dvd host_num env" and "0 < host_gpus env" and "0 < host_num env"
    and "devices = stage_devices env key (0, fst key, 0, snd key) (stage_parts env key)"
  shows "length devices = stage_parts env key \<and>
     (\<forall>p < length devices. set (devices ! p) \<subseteq> {(h, i). h < host_num env \<and> i < host_gpus env}) \<and>
     (\<forall>h < host_num env. \<forall>i < host_gpus env. \<exists>!p. p < length devices \<and> (h, i) \<in> set (devices ! p))"
proof -
  define per where "per = host_gpus env div fst key"
  have pos: "0 < fst key" "0 < snd key" using assms(1-4) by (auto intro!: Nat.gr0I)
  have parts: "stage_parts env key = host_num env div snd key * per"
  proof -
    have "host_gpus env * host_num env = (fst key * per) * (snd key * (host_num env div snd key))"
      using assms(1,2) by (simp add: per_def)
    also have "\<dots> = (host_num env div snd key * per) * (fst key * snd key)" by (simp only: ac_simps)
    finally show ?thesis using pos by (simp add: stage_parts_def)
  qed
  have dev: "devices = map (stage_block env key) [0..<stage_parts env key]"
    using stage_devices_blocks [OF assms(1,3), of 0 "stage_parts env key"] assms(5) by (simp add: placement_def Let_def)
  note member = stage_block_member [OF assms(1,3) pos(2), folded per_def]
  have "\<exists>!p. p < stage_parts env key \<and> (h, i) \<in> set (stage_block env key p)" if h: "h < host_num env" and i: "i < host_gpus env" for h i
  proof -
    let ?p = "h div snd key * per + i div fst key"
    have "h div snd key < host_num env div snd key" using h assms(2) by (intro less_mult_imp_div_less) simp
    moreover have "i div fst key < per" using i assms(1) unfolding per_def by (intro less_mult_imp_div_less) simp
    ultimately have "?p < stage_parts env key"
      unfolding parts by (metis add.commute add_less_mono1 less_le_trans mult_Suc mult_le_mono1 Suc_leI)
    then show ?thesis using member h i by auto
  qed
  moreover have "set (stage_block env key p) \<subseteq> {(h, i). h < host_num env \<and> i < host_gpus env}" for p using member by auto
  ultimately show ?thesis unfolding dev by (simp cong: conj_cong)
qed

section \<open>Samples\<close>

text \<open>Four layers on one host with two GPUs.\<close>

definition sample_env :: "int pipedream_env" where
  "sample_env = \<lparr>num_group = 4, host_gpus = 2, host_num = 1, batch_num = 4, accum_time = [0, 4, 5, 8, 10], overlap = True,
     allreduce_time = (\<lambda>_ _. 3), cross_time = (\<lambda>_ _ _. None)\<rparr>"

lemma sample_usable: "usable sample_env (1, 1)"
  by (simp add: usable_def stage_keys_def stage_parts_def sample_env_def powers_from.simps)

theorem pipedream_finds_a_partition_witness:
  "\<exists>best key qs devices. pipedream_simple sample_env = Inr (best, key, ranges 0 qs, devices) \<and> usable sample_env key \<and>
     best = estimate sample_env key qs \<and> best \<le> estimate sample_env (1, 1) [2, 4]"
proof -
  have "no_comm sample_env" "int (host_gpus sample_env * host_num sample_env) \<le> batch_num sample_env"
    "cuts (stage_parts sample_env (1, 1) - 1) (num_group sample_env) [2, 4]"
    by (simp_all add: no_comm_def sample_env_def stage_parts_def cuts_def ends_def)
  moreover have "\<exists>key. usable sample_env key" using sample_usable by blast
  note pipedream_finds_a_partition [OF this]
  ultimately show ?thesis using sample_usable by meson
qed

definition sample_devices :: "(nat \<times> nat) list list" where
  "sample_devices = stage_devices sample_env (1, 1) (0, 1, 0, 1) (stage_parts sample_env (1, 1))"

theorem stages_share_the_devices_witness:
  "length sample_devices = 2 \<and> set (sample_devices ! 1) \<subseteq> {(h, i). h < 1 \<and> i < 2} \<and>
     (\<exists>!p. p < length sample_devices \<and> (0, 1) \<in> set (sample_devices ! p))"
proof -
  have "fst (1, 1) dvd host_gpus sample_env" "snd (1, 1) dvd host_num sample_env" "0 < host_gpus sample_env" "0 < host_num sample_env"
    by (simp_all add: sample_env_def)
  moreover have "sample_devices = stage_devices sample_env (1, 1) (0, fst (1, 1), 0, snd (1, 1)) (stage_parts sample_env (1, 1))"
    by (simp add: sample_devices_def)
  note shared = stages_share_the_devices [OF calculation this]
  have sizes: "stage_parts sample_env (1, 1) = 2" "host_num sample_env = 1" "host_gpus sample_env = 2"
    by (simp_all add: sample_env_def stage_parts_def)
  have two: "length sample_devices = 2" using shared unfolding sizes by (elim conjE)
  moreover have "set (sample_devices ! 1) \<subseteq> {(h, i). h < 1 \<and> i < 2}"
    using shared [THEN conjunct2, THEN conjunct1, rule_format, of 1] two unfolding sizes by simp
  moreover have "\<exists>!p. p < length sample_devices \<and> (0, 1) \<in> set (sample_devices ! p)"
    using shared [THEN conjunct2, THEN conjunct2, rule_format, of 0 1] unfolding sizes by simp
  ultimately show ?thesis by blast
qed

text \<open>
  The number of GPUs of a host is not tested to be a power of two. With two hosts of three GPUs the
  search prefers stages of two GPUs and hands out GPUs that do not exist, while the second host idles.
\<close>

definition three_gpus :: "int pipedream_env" where
  "three_gpus = \<lparr>num_group = 3, host_gpus = 3, host_num = 2, batch_num = 6, accum_time = [0, 1, 2, 3], overlap = True,
     allreduce_time = (\<lambda>_ key. if key = (2, 1) then 0 else 10), cross_time = (\<lambda>_ _ _. None)\<rparr>"

theorem three_gpus_per_host_break_the_placement:
  "map_prod id (snd \<circ> snd) (projr (pipedream_simple three_gpus)) =
     (5, [[(0, 0), (0, 1)], [(0, 2), (0, 3)], [(0, 4), (0, 5)]])"
  by code_simp

end
