(* ===== verification/GraphElimination.thy ===== *)
theory GraphElimination imports Complex_Main Prelude begin

text \<open>
  The search of OptCNN, \<open>OptCNNSearching\<close> of
  \<open>hetu/v1/python/hetu/distributed_strategies/optcnn.py\<close>. Each node of a coarse graph can be run in
  several ways (its keys), each with a cost, and each edge has a cost for every pair of keys of its
  ends. \<open>shrink_graph\<close> eliminates nodes with at most one input and one output until one node is left,
  falls back on trying every key of a source, and the choice of every node is found on the way back.

  An edge object is the pair of its ends: \<open>graph_edges\<close> holds one edge for each pair, and the gives
  \<open>inputs\<close> and \<open>outputs\<close> of a node hold these edges, here as the nodes at their other ends. The graph is
  a value, so a deep copy of it is the graph itself. The order in which Python walks through
  a set is the parameter \<open>visit\<close>; each deep copy has orders of its own, so \<open>visit\<close> also takes the keys
  that were fixed on the way to the copy. A node without keys raises at once; in the code the missing
  minimum raises when it is added.
\<close>

section \<open>The coarse graph\<close>

type_synonym ('k, 't) edge_costs = "(('k \<times> 'k) \<times> 't) list"

record ('k, 't) coarse_graph =
  costs :: "nat \<Rightarrow> ('k \<times> 't) list"
  node_inputs :: "nat \<Rightarrow> nat list"
  node_outputs :: "nat \<Rightarrow> nat list"
  graph_edges :: "((nat \<times> nat) \<times> ('k, 't) edge_costs) list"

record 'k eliminated =
  gone :: nat
  in_node :: "nat option"
  out_node :: "nat option"
  best_keys :: "(('k option \<times> 'k option) \<times> 'k) list"

definition keys :: "('k, 't) coarse_graph \<Rightarrow> nat \<Rightarrow> 'k list" where
  "keys g n = map fst (costs g n)"

definition has_single_io :: "('k, 't) coarse_graph \<Rightarrow> nat \<Rightarrow> bool" where
  "has_single_io g n \<longleftrightarrow> length (node_inputs g n) \<le> 1 \<and> length (node_outputs g n) \<le> 1"

definition add_costs :: "('a \<times> 't::plus) list \<Rightarrow> ('a \<times> 't) list \<Rightarrow> ('a \<times> 't) list result" where
  "add_costs ds es = mapE (\<lambda>(k, v). bindE (py_lookup es k) (\<lambda>w. Inr (k, v + w))) ds"

text \<open>\<open>combine_ar_time\<close>: the time of the all-reduce is added, or hidden behind the computation.\<close>

definition combine_ar_time :: "bool \<Rightarrow> ('k \<times> 't::linordered_ab_group_add) list \<Rightarrow> ('k \<times> 't) list \<Rightarrow> ('k \<times> 't) list result" where
  "combine_ar_time overlap ar_time cs =
     foldE (\<lambda>cs (key, t). bindE (py_lookup cs key) (\<lambda>c. Inr (AList.update key (if overlap then max c t else c + t) cs))) cs ar_time"

text \<open>An edge of the traversal: a new one, or one more between the same nodes.\<close>

definition add_edge :: "nat \<Rightarrow> nat \<Rightarrow> ('k, 't::plus) edge_costs \<Rightarrow> ('k, 't) coarse_graph \<Rightarrow> ('k, 't) coarse_graph result" where
  "add_edge i j new_costs g =
     (case map_of (graph_edges g) (i, j) of
        Some old \<Rightarrow> bindE (add_costs old new_costs) (\<lambda>cs. Inr (g\<lparr>graph_edges := AList.update (i, j) cs (graph_edges g)\<rparr>))
      | None \<Rightarrow> Inr (g\<lparr>graph_edges := AList.update (i, j) new_costs (graph_edges g),
                       node_outputs := (node_outputs g)(i := node_outputs g i @ [j]),
                       node_inputs := (node_inputs g)(j := node_inputs g j @ [i])\<rparr>))"

section \<open>Elimination of a node\<close>

definition opt_keys :: "('k, 't) coarse_graph \<Rightarrow> nat option \<Rightarrow> 'k option list" where
  "opt_keys g end = (case end of None \<Rightarrow> [None] | Some n \<Rightarrow> map Some (keys g n))"

text \<open>The cost of a key of the node between two keys of its neighbours.\<close>

definition through_cost ::
  "('k, 't::linordered_ab_group_add) edge_costs \<Rightarrow> ('k, 't) edge_costs \<Rightarrow> 'k option \<Rightarrow> 'k option \<Rightarrow> 'k \<times> 't \<Rightarrow> ('k \<times> 't) result" where
  "through_cost in_edge out_edge in_key out_key mid =
     (case mid of (mid_key, t) \<Rightarrow>
        bindE (case in_key of None \<Rightarrow> Inr t | Some k \<Rightarrow> bindE (py_lookup in_edge (k, mid_key)) (\<lambda>c. Inr (t + c))) (\<lambda>t.
        bindE (case out_key of None \<Rightarrow> Inr t | Some k \<Rightarrow> bindE (py_lookup out_edge (mid_key, k)) (\<lambda>c. Inr (t + c))) (\<lambda>t.
          Inr (mid_key, t))))"

definition best_choice ::
  "('k \<times> 't) list \<Rightarrow> ('k, 't::linordered_ab_group_add) edge_costs \<Rightarrow> ('k, 't) edge_costs \<Rightarrow> 'k option \<times> 'k option \<Rightarrow> ('k \<times> 't) result" where
  "best_choice cs in_edge out_edge ends =
     bindE (mapE (through_cost in_edge out_edge (fst ends) (snd ends)) cs) (\<lambda>mids.
       case first_min snd mids of None \<Rightarrow> Inl TypeError | Some m \<Rightarrow> Inr m)"

definition edge_of :: "('k, 't) coarse_graph \<Rightarrow> nat \<times> nat \<Rightarrow> ('k, 't) edge_costs result" where
  "edge_of g e = py_lookup (graph_edges g) e"

definition drop_node :: "nat \<Rightarrow> ('k, 't) coarse_graph \<Rightarrow> ('k, 't) coarse_graph" where
  "drop_node n g = g\<lparr>graph_edges := filter (\<lambda>((i, j), c). i \<noteq> n \<and> j \<noteq> n) (graph_edges g)\<rparr>"

definition replace :: "nat \<Rightarrow> nat \<Rightarrow> nat list \<Rightarrow> nat list" where
  "replace a b xs = map (\<lambda>x. if x = a then b else x) xs"

text \<open>The three cases: the cost goes into the neighbour, or a new edge joins the two neighbours.\<close>

definition fold_into ::
  "('k \<Rightarrow> 'k option \<times> 'k option) \<Rightarrow> (('k option \<times> 'k option) \<times> 't::linordered_ab_group_add) list \<Rightarrow> ('k \<times> 't) list \<Rightarrow> ('k \<times> 't) list result" where
  "fold_into f best_costs cs = mapE (\<lambda>(k, t). bindE (py_lookup best_costs (f k)) (\<lambda>c. Inr (k, t + c))) cs"

definition join_ends :: "(('k option \<times> 'k option) \<times> 't) list \<Rightarrow> ('k, 't) edge_costs" where
  "join_ends best_costs = map (\<lambda>((a, b), t). ((the a, the b), t)) best_costs"

definition attach ::
  "nat \<Rightarrow> nat option \<Rightarrow> nat option \<Rightarrow> (('k option \<times> 'k option) \<times> 't::linordered_ab_group_add) list \<Rightarrow>
     ('k, 't) coarse_graph \<Rightarrow> ('k, 't) coarse_graph result" where
  "attach n i j best_costs g =
     (case (i, j) of
        (None, None) \<Rightarrow> Inr g
      | (None, Some out) \<Rightarrow>
          bindE (fold_into (\<lambda>k. (None, Some k)) best_costs (costs g out)) (\<lambda>cs.
            Inr (g\<lparr>costs := (costs g)(out := cs), node_inputs := (node_inputs g)(out := remove1 n (node_inputs g out))\<rparr>))
      | (Some inp, None) \<Rightarrow>
          bindE (fold_into (\<lambda>k. (Some k, None)) best_costs (costs g inp)) (\<lambda>cs.
            Inr (g\<lparr>costs := (costs g)(inp := cs), node_outputs := (node_outputs g)(inp := remove1 n (node_outputs g inp))\<rparr>))
      | (Some inp, Some out) \<Rightarrow>
          (case map_of (graph_edges g) (inp, out) of
             None \<Rightarrow>
               Inr (g\<lparr>graph_edges := AList.update (inp, out) (join_ends best_costs) (graph_edges g),
                      node_outputs := (node_outputs g)(inp := replace n out (node_outputs g inp)),
                      node_inputs := (node_inputs g)(out := replace n inp (node_inputs g out))\<rparr>)
           | Some old \<Rightarrow>
               bindE (add_costs old (join_ends best_costs)) (\<lambda>cs.
               Inr (g\<lparr>graph_edges := AList.update (inp, out) cs (graph_edges g),
                      node_outputs := (node_outputs g)(inp := remove1 n (node_outputs g inp)),
                      node_inputs := (node_inputs g)(out := remove1 n (node_inputs g out))\<rparr>))))"

definition only :: "nat list \<Rightarrow> nat option" where
  "only xs = (case xs of [] \<Rightarrow> None | x # _ \<Rightarrow> Some x)"

definition eliminate_node ::
  "nat \<Rightarrow> ('k, 't::linordered_ab_group_add) coarse_graph \<times> nat list \<times> 'k eliminated list \<Rightarrow>
     (('k, 't) coarse_graph \<times> nat list \<times> 'k eliminated list) result" where
  "eliminate_node n st =
     (case st of (g, remaining, deleted) \<Rightarrow>
        assertE (length (node_inputs g n) \<le> 1) (assertE (length (node_outputs g n) \<le> 1)
          (let i = only (node_inputs g n); j = only (node_outputs g n) in
           if i = None \<and> j = None then Inr st
           else
             bindE (case i of None \<Rightarrow> Inr [] | Some inp \<Rightarrow> edge_of g (inp, n)) (\<lambda>in_edge.
             bindE (case j of None \<Rightarrow> Inr [] | Some out \<Rightarrow> edge_of g (n, out)) (\<lambda>out_edge.
             bindE (mapE (\<lambda>ends. bindE (best_choice (costs g n) in_edge out_edge ends) (\<lambda>m. Inr (ends, m)))
               (List.product (opt_keys g i) (opt_keys g j))) (\<lambda>best.
             bindE (attach n i j (map (\<lambda>(ends, k, t). (ends, t)) best) (drop_node n g)) (\<lambda>g'.
               Inr (g', remove1 n remaining,
                 deleted @ [\<lparr>gone = n, in_node = i, out_node = j, best_keys = map (\<lambda>(ends, k, t). (ends, k)) best\<rparr>]))))))))"

section \<open>The loop\<close>

definition shrink_pass ::
  "(nat list \<Rightarrow> nat list) \<Rightarrow> ('k, 't::linordered_ab_group_add) coarse_graph \<times> nat list \<times> 'k eliminated list \<Rightarrow>
     (('k, 't) coarse_graph \<times> nat list \<times> 'k eliminated list) result" where
  "shrink_pass visit st =
     foldE (\<lambda>st n. if has_single_io (fst st) n then eliminate_node n st else Inr st) st (visit (fst (snd st)))"

text \<open>
  Trying a key of a source: its cost and that of the edge are added to every neighbour. The source is
  the first node without inputs.
\<close>

definition fix_key :: "nat \<Rightarrow> 'k \<times> 't \<Rightarrow> ('k, 't::linordered_ab_group_add) coarse_graph \<Rightarrow> ('k, 't) coarse_graph result" where
  "fix_key n kt g =
     (case kt of (key, cur_node_time) \<Rightarrow>
        bindE (foldE (\<lambda>h out.
            bindE (edge_of g (n, out)) (\<lambda>out_edge.
            bindE (mapE (\<lambda>(out_key, t). bindE (py_lookup out_edge (key, out_key)) (\<lambda>c. Inr (out_key, t + (cur_node_time + c)))) (costs h out)) (\<lambda>cs.
              Inr (h\<lparr>costs := (costs h)(out := cs), node_inputs := (node_inputs h)(out := remove1 n (node_inputs h out))\<rparr>))))
          g (node_outputs g n)) (\<lambda>h. Inr (drop_node n h)))"

definition find_source :: "(nat list \<Rightarrow> nat list) \<Rightarrow> ('k, 't) coarse_graph \<Rightarrow> nat list \<Rightarrow> nat result" where
  "find_source visit g remaining =
     (case filter (\<lambda>n. node_inputs g n = []) (visit remaining) of [] \<Rightarrow> Inl AssertionError | n # _ \<Rightarrow> Inr n)"

definition last_choice :: "('k, 't::linordered_ab_group_add) coarse_graph \<Rightarrow> nat list \<Rightarrow> 'k eliminated list \<Rightarrow>
    ('t \<times> 'k \<times> nat \<times> 'k eliminated list) result" where
  "last_choice g remaining deleted =
     (case remaining of
        [] \<Rightarrow> Inl KeyError
      | cur_node # _ \<Rightarrow>
          assertE (node_inputs g cur_node = [] \<and> node_outputs g cur_node = [])
            (case first_min snd (costs g cur_node) of
               None \<Rightarrow> Inl TypeError
             | Some (key, t) \<Rightarrow> Inr (t, key, cur_node, deleted)))"

function shrink_graph ::
  "('k list \<Rightarrow> nat list \<Rightarrow> nat list) \<Rightarrow> 'k list \<Rightarrow> ('k, 't::linordered_ab_group_add) coarse_graph \<Rightarrow> nat list \<Rightarrow>
     'k eliminated list \<Rightarrow> ('t \<times> 'k \<times> nat \<times> 'k eliminated list) result" where
  "shrink_graph visit fixed g remaining deleted =
     (if length remaining \<le> 1 then last_choice g remaining deleted
      else bindE (shrink_pass (visit fixed) (g, remaining, deleted)) (\<lambda>(g, remaining', deleted).
        if length remaining' < length remaining then shrink_graph visit fixed g remaining' deleted
        else bindE (find_source (visit fixed) g remaining') (\<lambda>n.
          if n \<notin> set remaining' \<or> length remaining < length remaining' then Inl KeyError
          else
            bindE (mapE (\<lambda>kt. bindE (fix_key n kt g) (\<lambda>h.
               bindE (shrink_graph visit (fixed @ [fst kt]) h (remove1 n remaining') []) (\<lambda>r. Inr (fst kt, r)))) (costs g n)) (\<lambda>results.
            case first_min (\<lambda>(k, t, _). t) results of
              None \<Rightarrow> Inl TypeError
            | Some (k, t, final_key, last_node, del) \<Rightarrow>
                Inr (t, final_key, last_node,
                  deleted @ [\<lparr>gone = n, in_node = None, out_node = None, best_keys = [((None, None), k)]\<rparr>] @ del)))))"
  by pat_completeness auto
termination
  by (relation "measure (\<lambda>(visit, fixed, g, remaining, deleted). length remaining)") (auto simp: length_remove1 dest: length_pos_if_in_set)

declare shrink_graph.simps [simp del]

text \<open>\<open>wrapped_get_best_key\<close>: the key of every node, from the last node back.\<close>

definition choose_key :: "(nat \<times> 'k) list \<Rightarrow> 'k eliminated \<Rightarrow> (nat \<times> 'k) list result" where
  "choose_key chosen e =
     bindE (case in_node e of None \<Rightarrow> Inr None | Some n \<Rightarrow> bindE (py_lookup chosen n) (\<lambda>k. Inr (Some k))) (\<lambda>ind1.
     bindE (case out_node e of None \<Rightarrow> Inr None | Some n \<Rightarrow> bindE (py_lookup chosen n) (\<lambda>k. Inr (Some k))) (\<lambda>ind2.
     bindE (py_lookup (best_keys e) (ind1, ind2)) (\<lambda>k. Inr (AList.update (gone e) k chosen))))"

definition search_part ::
  "('k list \<Rightarrow> nat list \<Rightarrow> nat list) \<Rightarrow> ('k, 't::linordered_ab_group_add) coarse_graph \<Rightarrow> nat list \<Rightarrow> ('t \<times> (nat \<times> 'k) list) result" where
  "search_part visit g nodes =
     bindE (shrink_graph visit [] g nodes []) (\<lambda>(min_time, best_key, cur_node, deleted).
     bindE (foldE choose_key [(cur_node, best_key)] (rev deleted)) (\<lambda>chosen. Inr (min_time, chosen)))"

section \<open>The cost of a choice\<close>

definition cost_at :: "('a \<times> 't) list \<Rightarrow> 'a \<Rightarrow> 't" where
  "cost_at cs k = the (map_of cs k)"

definition edges_of :: "('k, 't) coarse_graph \<Rightarrow> (nat \<times> nat) set" where
  "edges_of g = fst ` set (graph_edges g)"

definition edge_cost :: "('k, 't) coarse_graph \<Rightarrow> nat \<times> nat \<Rightarrow> 'k \<Rightarrow> 'k \<Rightarrow> 't" where
  "edge_cost g e k l = cost_at (the (map_of (graph_edges g) e)) (k, l)"

definition total_cost :: "('k, 't::linordered_ab_group_add) coarse_graph \<Rightarrow> nat set \<Rightarrow> (nat \<Rightarrow> 'k) \<Rightarrow> 't" where
  "total_cost g R a = (\<Sum>n\<in>R. cost_at (costs g n) (a n)) + (\<Sum>e\<in>edges_of g. edge_cost g e (a (fst e)) (a (snd e)))"

definition node_ok :: "('k, 't) coarse_graph \<Rightarrow> nat \<Rightarrow> bool" where
  "node_ok g n \<longleftrightarrow> costs g n \<noteq> [] \<and> distinct (keys g n) \<and>
     distinct (node_inputs g n) \<and> set (node_inputs g n) = {i. (i, n) \<in> edges_of g} \<and>
     distinct (node_outputs g n) \<and> set (node_outputs g n) = {j. (n, j) \<in> edges_of g}"

definition edge_ok :: "('k, 't) coarse_graph \<Rightarrow> nat set \<Rightarrow> nat \<times> nat \<Rightarrow> bool" where
  "edge_ok g R e \<longleftrightarrow> fst e \<in> R \<and> snd e \<in> R \<and>
     (\<exists>c. map_of (graph_edges g) e = Some c \<and> fst ` set c = set (keys g (fst e)) \<times> set (keys g (snd e)))"

definition graph_ok :: "('k, 't) coarse_graph \<Rightarrow> nat set \<Rightarrow> bool" where
  "graph_ok g R \<longleftrightarrow> finite R \<and> acyclic (edges_of g) \<and> (\<forall>n \<in> R. node_ok g n) \<and> (\<forall>e \<in> edges_of g. edge_ok g R e)"

definition choice_ok :: "('k, 't) coarse_graph \<Rightarrow> nat set \<Rightarrow> (nat \<Rightarrow> 'k) \<Rightarrow> bool" where
  "choice_ok g R a \<longleftrightarrow> (\<forall>n \<in> R. a n \<in> set (keys g n))"

lemma map_of_image:
  assumes "x \<in> set xs" and "h x = y" and "\<And>z. z \<in> set xs \<Longrightarrow> h z = y \<Longrightarrow> f z = v"
  shows "map_of (map (\<lambda>z. (h z, f z)) xs) y = Some v"
  using assms by (induction xs) auto

lemma map_of_filter_key: "map_of (filter (\<lambda>(k, v). P k) xs) k = (if P k then map_of xs k else None)"
  by (induction xs) auto

lemma cost_at_member: "distinct (map fst cs) \<Longrightarrow> (k, t) \<in> set cs \<Longrightarrow> cost_at cs k = t"
  by (simp add: cost_at_def)

lemma py_lookup_cost: "k \<in> fst ` set cs \<Longrightarrow> py_lookup cs k = Inr (cost_at cs k)"
  using map_of_eq_None_iff [of cs k] by (auto simp: py_lookup_def cost_at_def split: option.splits)

lemma finite_edges [simp]: "finite (edges_of g)"
  by (simp add: edges_of_def)

section \<open>The best choice between two keys\<close>

definition through ::
  "('k \<times> 't::linordered_ab_group_add) list \<Rightarrow> ('k, 't) edge_costs \<Rightarrow> ('k, 't) edge_costs \<Rightarrow> 'k option \<times> 'k option \<Rightarrow> 'k \<Rightarrow> 't" where
  "through cs in_edge out_edge ends k =
     cost_at cs k + (case fst ends of None \<Rightarrow> 0 | Some x \<Rightarrow> cost_at in_edge (x, k)) +
     (case snd ends of None \<Rightarrow> 0 | Some y \<Rightarrow> cost_at out_edge (k, y))"

lemma best_choice_ok:
  assumes "cs \<noteq> []" and "distinct (map fst cs)"
    and "\<And>x k. fst ends = Some x \<Longrightarrow> k \<in> fst ` set cs \<Longrightarrow> (x, k) \<in> fst ` set in_edge"
    and "\<And>y k. snd ends = Some y \<Longrightarrow> k \<in> fst ` set cs \<Longrightarrow> (k, y) \<in> fst ` set out_edge"
  shows "\<exists>k. best_choice cs in_edge out_edge ends = Inr (k, through cs in_edge out_edge ends k) \<and> k \<in> fst ` set cs \<and>
    (\<forall>l \<in> fst ` set cs. through cs in_edge out_edge ends k \<le> through cs in_edge out_edge ends l)"
proof -
  let ?w = "through cs in_edge out_edge ends"
  have "through_cost in_edge out_edge (fst ends) (snd ends) m = Inr (fst m, ?w (fst m))" if "m \<in> set cs" for m
  proof -
    obtain k t where m: "m = (k, t)" by (cases m)
    have "k \<in> fst ` set cs" using that m by force
    moreover have "cost_at cs k = t" using cost_at_member [OF assms(2)] that m by blast
    ultimately show ?thesis
      using m assms(3) [of _ k] assms(4) [of _ k] by (auto simp: through_cost_def through_def py_lookup_cost split: option.splits)
  qed
  then have mids: "mapE (through_cost in_edge out_edge (fst ends) (snd ends)) cs = Inr (map (\<lambda>m. (fst m, ?w (fst m))) cs)"
    by (rule mapE_all_Inr)
  let ?ms = "map (\<lambda>m. (fst m, ?w (fst m))) cs"
  have "?ms \<noteq> []" using assms(1) by simp
  then obtain m where m: "first_min snd ?ms = Some m" "m \<in> set ?ms" "\<forall>y \<in> set ?ms. snd m \<le> snd y" by (rule first_min_obtain)
  then obtain k where k: "m = (k, ?w k)" "k \<in> fst ` set cs" by auto
  have "best_choice cs in_edge out_edge ends = Inr (k, ?w k)" using mids m(1) k(1) by (simp add: best_choice_def)
  moreover have "?w k \<le> ?w l" if "l \<in> fst ` set cs" for l using m(3) k(1) that by auto
  ultimately show ?thesis using k(2) by blast
qed

section \<open>Parts of the total\<close>

lemma cost_at_map:
  assumes "k \<in> fst ` set cs"
  shows "cost_at (map (\<lambda>(k, t). (k, f k t)) cs) k = f k (cost_at cs k)"
proof -
  have "map_of (map (\<lambda>(k, t). (k, f k t)) cs) k = map_option (f k) (map_of cs k)" by (induction cs) auto
  then show ?thesis using map_of_eq_None_iff [of cs k] assms by (auto simp: cost_at_def)
qed

lemma keys_map: "map fst (map (\<lambda>(k, t). (k, f k t)) cs) = map fst cs"
  by (induction cs) auto

lemma add_costs_ok:
  assumes "fst ` set old = fst ` set new"
  shows "add_costs old new = Inr (map (\<lambda>(k, t). (k, t + cost_at new k)) old)"
  unfolding add_costs_def
proof (rule mapE_all_Inr)
  fix e assume "e \<in> set old"
  then have "fst e \<in> fst ` set new" using assms by blast
  then show "(case e of (k, v) \<Rightarrow> bindE (py_lookup new k) (\<lambda>w. Inr (k, v + w))) = Inr (case e of (k, t) \<Rightarrow> (k, t + cost_at new k))"
    by (cases e) (simp add: py_lookup_cost)
qed

lemma fold_into_ok:
  assumes "\<And>k. k \<in> fst ` set cs \<Longrightarrow> f k \<in> fst ` set best"
  shows "fold_into f best cs = Inr (map (\<lambda>(k, t). (k, t + cost_at best (f k))) cs)"
  unfolding fold_into_def
proof (rule mapE_all_Inr)
  fix e assume "e \<in> set cs"
  then have "f (fst e) \<in> fst ` set best" using assms by blast
  then show "(case e of (k, t) \<Rightarrow> bindE (py_lookup best (f k)) (\<lambda>c. Inr (k, t + c))) = Inr (case e of (k, t) \<Rightarrow> (k, t + cost_at best (f k)))"
    by (cases e) (simp add: py_lookup_cost)
qed

lemma total_costs:
  assumes "finite S" and "m \<in> S" and "a m \<in> fst ` set (costs g m)"
    and "costs g' = (costs g)(m := map (\<lambda>(k, t). (k, t + d k)) (costs g m))" and "graph_edges g' = graph_edges g"
  shows "total_cost g' S a = total_cost g S a + d (a m)"
proof -
  have rest: "(\<Sum>n\<in>S - {m}. cost_at (costs g' n) (a n)) = (\<Sum>n\<in>S - {m}. cost_at (costs g n) (a n))"
    by (rule sum.cong) (simp_all add: assms(4))
  have m: "cost_at (costs g' m) (a m) = cost_at (costs g m) (a m) + d (a m)"
    using cost_at_map [OF assms(3), of "\<lambda>k t. t + d k"] by (simp add: assms(4))
  show ?thesis
    using rest m by (simp add: total_cost_def edges_of_def edge_cost_def assms(5) sum.remove [OF assms(1,2)] algebra_simps)
qed

lemma edges_of_update: "graph_edges g' = AList.update e cs (graph_edges g) \<Longrightarrow> edges_of g' = insert e (edges_of g)"
  using dom_map_of_conv_image_fst [of "AList.update e cs (graph_edges g)"] dom_map_of_conv_image_fst [of "graph_edges g"]
  by (auto simp: edges_of_def update_conv' dest: sym)

lemma total_edge:
  assumes "(i, j) \<in> edges_of g \<Longrightarrow> cost_at cs (a i, a j) = edge_cost g (i, j) (a i) (a j) + d"
    and "(i, j) \<notin> edges_of g \<Longrightarrow> cost_at cs (a i, a j) = d"
    and "costs g' = costs g" and g': "graph_edges g' = AList.update (i, j) cs (graph_edges g)"
  shows "total_cost g' S a = total_cost g S a + d"
proof -
  let ?w = "\<lambda>h e. edge_cost h e (a (fst e)) (a (snd e))"
  have rest: "(\<Sum>e\<in>edges_of g - {(i, j)}. ?w g' e) = (\<Sum>e\<in>edges_of g - {(i, j)}. ?w g e)"
    by (rule sum.cong) (auto simp: edge_cost_def update_conv' g')
  have new: "?w g' (i, j) = cost_at cs (a i, a j)" by (simp add: edge_cost_def update_conv' g')
  have "(\<Sum>e\<in>insert (i, j) (edges_of g). ?w g' e) = (\<Sum>e\<in>edges_of g. ?w g e) + d"
  proof (cases "(i, j) \<in> edges_of g")
    case True
    then show ?thesis
      using rest new assms(1) by (simp add: insert_absorb sum.remove [of "edges_of g" "(i, j)"] algebra_simps)
  next
    case False
    then show ?thesis using rest new assms(2) by (simp add: algebra_simps)
  qed
  then show ?thesis by (simp add: total_cost_def edges_of_update [OF g'] assms(3) algebra_simps)
qed

lemma edges_of_drop: "edges_of (drop_node n g) = {e \<in> edges_of g. fst e \<noteq> n \<and> snd e \<noteq> n}"
  by (force simp: edges_of_def drop_node_def)

lemma drop_node_simps [simp]:
  "costs (drop_node n g) = costs g" "node_inputs (drop_node n g) = node_inputs g" "node_outputs (drop_node n g) = node_outputs g"
  by (simp_all add: drop_node_def)

lemma map_of_drop: "i \<noteq> n \<Longrightarrow> j \<noteq> n \<Longrightarrow> map_of (graph_edges (drop_node n g)) (i, j) = map_of (graph_edges g) (i, j)"
proof -
  assume n: "i \<noteq> n" "j \<noteq> n"
  have "map_of (filter (\<lambda>((i, j), c). i \<noteq> n \<and> j \<noteq> n) xs) (i, j) = map_of xs (i, j)" for xs :: "((nat \<times> nat) \<times> 'c) list"
    using n by (induction xs) auto
  then show ?thesis by (simp add: drop_node_def)
qed

section \<open>Elimination keeps the least total\<close>

text \<open>The edges of a node that is eliminated.\<close>

definition in_costs :: "('k, 't) coarse_graph \<Rightarrow> nat \<Rightarrow> ('k, 't) edge_costs" where
  "in_costs g n = (case only (node_inputs g n) of None \<Rightarrow> [] | Some i \<Rightarrow> the (map_of (graph_edges g) (i, n)))"

definition out_costs :: "('k, 't) coarse_graph \<Rightarrow> nat \<Rightarrow> ('k, 't) edge_costs" where
  "out_costs g n = (case only (node_outputs g n) of None \<Rightarrow> [] | Some j \<Rightarrow> the (map_of (graph_edges g) (n, j)))"

lemma only_iff: "length xs \<le> 1 \<Longrightarrow> only xs = Some x \<longleftrightarrow> x \<in> set xs"
  by (cases xs) (auto simp: only_def)

lemma graph_ok_node: "graph_ok g R \<Longrightarrow> n \<in> R \<Longrightarrow> node_ok g n"
  by (simp add: graph_ok_def)

lemma graph_ok_edge: "graph_ok g R \<Longrightarrow> (i, j) \<in> edges_of g \<Longrightarrow> i \<in> R \<and> j \<in> R \<and> i \<noteq> j \<and> (j, i) \<notin> edges_of g \<and>
    (\<exists>c. map_of (graph_edges g) (i, j) = Some c \<and> fst ` set c = set (keys g i) \<times> set (keys g j))"
  by (auto simp: graph_ok_def edge_ok_def acyclic_def) (metis r_into_trancl' trancl_into_trancl)

lemma edges_at:
  assumes "graph_ok g R" and "n \<in> R" and "has_single_io g n"
  shows "(i, n) \<in> edges_of g \<longleftrightarrow> only (node_inputs g n) = Some i" and "(n, j) \<in> edges_of g \<longleftrightarrow> only (node_outputs g n) = Some j"
  using graph_ok_node [OF assms(1,2)] assms(3) by (simp_all add: node_ok_def has_single_io_def only_iff)

lemma total_split:
  assumes ok: "graph_ok g R" and n: "n \<in> R" "has_single_io g n"
  shows "total_cost g R (a(n := k)) = total_cost (drop_node n g) (R - {n}) a +
    through (costs g n) (in_costs g n) (out_costs g n)
      (map_option a (only (node_inputs g n)), map_option a (only (node_outputs g n))) k"
proof -
  let ?w = "\<lambda>e. edge_cost g e ((a(n := k)) (fst e)) ((a(n := k)) (snd e))"
  let ?E = "edges_of (drop_node n g)" and ?I = "{e \<in> edges_of g. snd e = n}" and ?O = "{e \<in> edges_of g. fst e = n}"
  have loop: "(n, n) \<notin> edges_of g" using graph_ok_edge [OF ok] by blast
  have parts: "edges_of g = ?E \<union> (?I \<union> ?O)" by (auto simp: edges_of_drop)
  have "sum ?w (edges_of g) = sum ?w ?E + sum ?w (?I \<union> ?O)"
    by (subst parts, rule sum.union_disjoint) (auto simp: edges_of_drop)
  moreover have "sum ?w (?I \<union> ?O) = sum ?w ?I + sum ?w ?O" using loop by (intro sum.union_disjoint) auto
  moreover have "?I = (case only (node_inputs g n) of None \<Rightarrow> {} | Some i \<Rightarrow> {(i, n)})"
    using edges_at(1) [OF ok n] by (auto split: option.splits)
  then have "sum ?w ?I = (case map_option a (only (node_inputs g n)) of None \<Rightarrow> 0 | Some x \<Rightarrow> cost_at (in_costs g n) (x, k))"
    using loop edges_at(1) [OF ok n] by (auto simp: edge_cost_def in_costs_def split: option.splits)
  moreover have "?O = (case only (node_outputs g n) of None \<Rightarrow> {} | Some j \<Rightarrow> {(n, j)})"
    using edges_at(2) [OF ok n] by (auto split: option.splits)
  then have "sum ?w ?O = (case map_option a (only (node_outputs g n)) of None \<Rightarrow> 0 | Some y \<Rightarrow> cost_at (out_costs g n) (k, y))"
    using loop edges_at(2) [OF ok n] by (auto simp: edge_cost_def out_costs_def split: option.splits)
  moreover have "sum ?w ?E = (\<Sum>e\<in>?E. edge_cost (drop_node n g) e (a (fst e)) (a (snd e)))"
    by (rule sum.cong) (auto simp: edges_of_drop edge_cost_def map_of_drop)
  moreover have "finite R" using ok by (simp add: graph_ok_def)
  then have "(\<Sum>m\<in>R. cost_at (costs g m) ((a(n := k)) m)) = cost_at (costs g n) k + (\<Sum>m\<in>R - {n}. cost_at (costs g m) (a m))"
    using n(1) sum.cong [of "R - {n}" "R - {n}" "\<lambda>m. cost_at (costs g m) ((a(n := k)) m)" "\<lambda>m. cost_at (costs g m) (a m)"]
    by (simp add: sum.remove [of R n])
  ultimately show ?thesis by (simp add: total_cost_def through_def algebra_simps)
qed

text \<open>The best choices for all pairs of neighbouring keys.\<close>

definition pairs :: "('k, 't) coarse_graph \<Rightarrow> nat \<Rightarrow> ('k option \<times> 'k option) list" where
  "pairs g n = List.product (opt_keys g (only (node_inputs g n))) (opt_keys g (only (node_outputs g n)))"

definition choices_ok :: "('k, 't::linordered_ab_group_add) coarse_graph \<Rightarrow> nat \<Rightarrow> ('k option \<times> 'k option \<Rightarrow> 'k) \<Rightarrow> bool" where
  "choices_ok g n f \<longleftrightarrow> (\<forall>ends \<in> set (pairs g n). f ends \<in> set (keys g n) \<and>
     best_choice (costs g n) (in_costs g n) (out_costs g n) ends =
       Inr (f ends, through (costs g n) (in_costs g n) (out_costs g n) ends (f ends)) \<and>
     (\<forall>l \<in> set (keys g n). through (costs g n) (in_costs g n) (out_costs g n) ends (f ends) \<le>
        through (costs g n) (in_costs g n) (out_costs g n) ends l))"

lemma choices_exist:
  assumes ok: "graph_ok g R" and n: "n \<in> R" "has_single_io g n"
  shows "\<exists>f. choices_ok g n f"
proof -
  have "\<exists>k. best_choice (costs g n) (in_costs g n) (out_costs g n) ends =
      Inr (k, through (costs g n) (in_costs g n) (out_costs g n) ends k) \<and> k \<in> fst ` set (costs g n) \<and>
    (\<forall>l \<in> fst ` set (costs g n). through (costs g n) (in_costs g n) (out_costs g n) ends k \<le>
        through (costs g n) (in_costs g n) (out_costs g n) ends l)" if pair: "ends \<in> set (pairs g n)" for ends
  proof (rule best_choice_ok)
    show "costs g n \<noteq> []" "distinct (map fst (costs g n))"
      using graph_ok_node [OF ok n(1)] by (simp_all add: node_ok_def keys_def)
  next
    fix x k assume x: "fst ends = Some x" "k \<in> fst ` set (costs g n)"
    then obtain i where i: "only (node_inputs g n) = Some i" "x \<in> set (keys g i)"
      using pair x(1) by (cases "only (node_inputs g n)") (auto simp: pairs_def opt_keys_def)
    then obtain c where "map_of (graph_edges g) (i, n) = Some c" "fst ` set c = set (keys g i) \<times> set (keys g n)"
      using graph_ok_edge [OF ok, of i n] edges_at(1) [OF ok n, of i] by blast
    then show "(x, k) \<in> fst ` set (in_costs g n)" using i x(2) by (simp add: in_costs_def keys_def)
  next
    fix y k assume y: "snd ends = Some y" "k \<in> fst ` set (costs g n)"
    then obtain j where j: "only (node_outputs g n) = Some j" "y \<in> set (keys g j)"
      using pair y(1) by (cases "only (node_outputs g n)") (auto simp: pairs_def opt_keys_def)
    then obtain c where "map_of (graph_edges g) (n, j) = Some c" "fst ` set c = set (keys g n) \<times> set (keys g j)"
      using graph_ok_edge [OF ok, of n j] edges_at(2) [OF ok n, of j] by blast
    then show "(k, y) \<in> fst ` set (out_costs g n)" using j y(2) by (simp add: out_costs_def keys_def)
  qed
  then show ?thesis unfolding choices_ok_def keys_def set_map by metis
qed

lemma cost_at_table: "x \<in> set xs \<Longrightarrow> cost_at (map (\<lambda>x. (x, w x)) xs) x = w x"
  unfolding cost_at_def by (induction xs) auto

lemma pairs_member:
  "e \<in> set (pairs g n) \<longleftrightarrow>
     fst e \<in> (case only (node_inputs g n) of None \<Rightarrow> {None} | Some i \<Rightarrow> Some ` set (keys g i)) \<and>
     snd e \<in> (case only (node_outputs g n) of None \<Rightarrow> {None} | Some j \<Rightarrow> Some ` set (keys g j))"
  by (cases e) (simp add: pairs_def opt_keys_def split: option.split)

lemma graph_ok_without:
  assumes ok: "graph_ok g R" and "edges_of g' \<subseteq> (edges_of g)\<^sup>+"
    and "\<And>m. m \<in> R - {n} \<Longrightarrow> node_ok g' m" and "\<And>e. e \<in> edges_of g' \<Longrightarrow> edge_ok g' (R - {n}) e"
  shows "graph_ok g' (R - {n})"
proof -
  have "acyclic ((edges_of g)\<^sup>+)" using ok by (simp add: graph_ok_def acyclic_def)
  then have "acyclic (edges_of g')" by (rule acyclic_subset) (rule assms(2))
  then show ?thesis using ok assms(3,4) by (auto simp: graph_ok_def)
qed

text \<open>An edge that stays.\<close>

lemma edge_ok_kept:
  assumes "graph_ok g R" and "e \<in> edges_of (drop_node n g)" and "map_of (graph_edges g') e = map_of (graph_edges (drop_node n g)) e"
    and "\<And>m. keys g' m = keys g m"
  shows "edge_ok g' (R - {n}) e"
  using assms by (cases e) (auto simp: graph_ok_def edge_ok_def edges_of_drop map_of_drop)

definition attached ::
  "('k, 't::linordered_ab_group_add) coarse_graph \<Rightarrow> nat set \<Rightarrow> nat \<Rightarrow> ('k option \<times> 'k option \<Rightarrow> 't) \<Rightarrow> ('k, 't) coarse_graph \<Rightarrow> bool" where
  "attached g R n w g' \<longleftrightarrow> graph_ok g' (R - {n}) \<and> (\<forall>m. keys g' m = keys g m) \<and>
     (\<forall>a. choice_ok g (R - {n}) a \<longrightarrow> total_cost g' (R - {n}) a = total_cost (drop_node n g) (R - {n}) a +
        w (map_option a (only (node_inputs g n)), map_option a (only (node_outputs g n))))"

lemma attach_right:
  assumes ok: "graph_ok g R" and n: "n \<in> R" "has_single_io g n"
    and i: "only (node_inputs g n) = None" and j: "only (node_outputs g n) = Some out"
  shows "\<exists>g'. attach n None (Some out) (map (\<lambda>e. (e, w e)) (pairs g n)) (drop_node n g) = Inr g' \<and> attached g R n w g'"
proof -
  let ?bc = "map (\<lambda>e. (e, w e)) (pairs g n)"
  let ?cs = "map (\<lambda>(k, t). (k, t + cost_at ?bc (None, Some k))) (costs g out)"
  define g' where "g' = (drop_node n g)\<lparr>costs := (costs g)(out := ?cs), node_inputs := (node_inputs g)(out := remove1 n (node_inputs g out))\<rparr>"
  have pair: "(None, Some k) \<in> set (pairs g n)" if "k \<in> fst ` set (costs g out)" for k
    using that by (auto simp: pairs_member i j keys_def)
  have "fold_into (\<lambda>k. (None, Some k)) ?bc (costs g out) = Inr ?cs"
    by (rule fold_into_ok) (use pair in \<open>force simp: image_image\<close>)
  then have run: "attach n None (Some out) ?bc (drop_node n g) = Inr g'" by (simp add: attach_def g'_def)
  have out: "(n, out) \<in> edges_of g" "out \<in> R" "out \<noteq> n" using edges_at(2) [OF ok n, of out] j graph_ok_edge [OF ok, of n out] by auto
  have into: "(x, n) \<notin> edges_of g" for x using edges_at(1) [OF ok n, of x] i by simp
  have other: "(n, y) \<in> edges_of g \<longleftrightarrow> y = out" for y using edges_at(2) [OF ok n, of y] j by auto
  have edges: "graph_edges g' = graph_edges (drop_node n g)" "edges_of g' = edges_of (drop_node n g)"
    by (simp_all add: g'_def edges_of_def)
  have keys: "keys g' m = keys g m" for m by (simp add: g'_def keys_def keys_map del: map_map)
  have "node_ok g' m" if m: "m \<in> R - {n}" for m
  proof -
    have "node_ok g m" using graph_ok_node [OF ok] m by blast
    moreover have "costs g' m \<noteq> []" using \<open>node_ok g m\<close> by (auto simp: g'_def node_ok_def)
    ultimately show ?thesis
      using m keys [of m] into [of m] other [of m] unfolding node_ok_def edges(2)
      by (auto simp: g'_def edges_of_drop)
  qed
  moreover have "edges_of g' \<subseteq> (edges_of g)\<^sup>+" by (auto simp: edges edges_of_drop)
  ultimately have "graph_ok g' (R - {n})"
    using graph_ok_without [OF ok] edge_ok_kept [OF ok, of _ n g'] edges keys by metis
  moreover have "total_cost g' (R - {n}) a = total_cost (drop_node n g) (R - {n}) a + w (None, Some (a out))" if a: "choice_ok g (R - {n}) a" for a
  proof -
    have k: "a out \<in> fst ` set (costs g out)" using a out by (simp add: choice_ok_def keys_def)
    have "total_cost g' (R - {n}) a = total_cost (drop_node n g) (R - {n}) a + cost_at ?bc (None, Some (a out))"
      by (rule total_costs) (use ok out k edges in \<open>auto simp: graph_ok_def g'_def\<close>)
    then show ?thesis using cost_at_table [OF pair [OF k], of w] by simp
  qed
  ultimately show ?thesis using run keys by (auto simp: attached_def i j)
qed

lemma attach_left:
  assumes ok: "graph_ok g R" and n: "n \<in> R" "has_single_io g n"
    and i: "only (node_inputs g n) = Some inp" and j: "only (node_outputs g n) = None"
  shows "\<exists>g'. attach n (Some inp) None (map (\<lambda>e. (e, w e)) (pairs g n)) (drop_node n g) = Inr g' \<and> attached g R n w g'"
proof -
  let ?bc = "map (\<lambda>e. (e, w e)) (pairs g n)"
  let ?cs = "map (\<lambda>(k, t). (k, t + cost_at ?bc (Some k, None))) (costs g inp)"
  define g' where "g' = (drop_node n g)\<lparr>costs := (costs g)(inp := ?cs), node_outputs := (node_outputs g)(inp := remove1 n (node_outputs g inp))\<rparr>"
  have pair: "(Some k, None) \<in> set (pairs g n)" if "k \<in> fst ` set (costs g inp)" for k
    using that by (auto simp: pairs_member i j keys_def)
  have "fold_into (\<lambda>k. (Some k, None)) ?bc (costs g inp) = Inr ?cs"
    by (rule fold_into_ok) (use pair in \<open>force simp: image_image\<close>)
  then have run: "attach n (Some inp) None ?bc (drop_node n g) = Inr g'" by (simp add: attach_def g'_def)
  have inp: "(inp, n) \<in> edges_of g" "inp \<in> R" "inp \<noteq> n" using edges_at(1) [OF ok n, of inp] i graph_ok_edge [OF ok, of inp n] by auto
  have onto: "(n, y) \<notin> edges_of g" for y using edges_at(2) [OF ok n, of y] j by simp
  have other: "(x, n) \<in> edges_of g \<longleftrightarrow> x = inp" for x using edges_at(1) [OF ok n, of x] i by auto
  have edges: "graph_edges g' = graph_edges (drop_node n g)" "edges_of g' = edges_of (drop_node n g)"
    by (simp_all add: g'_def edges_of_def)
  have keys: "keys g' m = keys g m" for m by (simp add: g'_def keys_def keys_map del: map_map)
  have "node_ok g' m" if m: "m \<in> R - {n}" for m
  proof -
    have "node_ok g m" using graph_ok_node [OF ok] m by blast
    moreover have "costs g' m \<noteq> []" using \<open>node_ok g m\<close> by (auto simp: g'_def node_ok_def)
    ultimately show ?thesis
      using m keys [of m] onto [of m] other [of m] unfolding node_ok_def edges(2)
      by (auto simp: g'_def edges_of_drop)
  qed
  moreover have "edges_of g' \<subseteq> (edges_of g)\<^sup>+" by (auto simp: edges edges_of_drop)
  ultimately have "graph_ok g' (R - {n})"
    using graph_ok_without [OF ok] edge_ok_kept [OF ok, of _ n g'] edges keys by metis
  moreover have "total_cost g' (R - {n}) a = total_cost (drop_node n g) (R - {n}) a + w (Some (a inp), None)" if a: "choice_ok g (R - {n}) a" for a
  proof -
    have k: "a inp \<in> fst ` set (costs g inp)" using a inp by (simp add: choice_ok_def keys_def)
    have "total_cost g' (R - {n}) a = total_cost (drop_node n g) (R - {n}) a + cost_at ?bc (Some (a inp), None)"
      by (rule total_costs) (use ok inp k edges in \<open>auto simp: graph_ok_def g'_def\<close>)
    then show ?thesis using cost_at_table [OF pair [OF k], of w] by simp
  qed
  ultimately show ?thesis using run keys by (auto simp: attached_def i j)
qed

text \<open>An edge joins the neighbours.\<close>

lemma join_ends_ok:
  assumes "only (node_inputs g n) = Some inp" and "only (node_outputs g n) = Some out"
  shows "fst ` set (join_ends (map (\<lambda>e. (e, w e)) (pairs g n))) = set (keys g inp) \<times> set (keys g out)"
    and "x \<in> set (keys g inp) \<Longrightarrow> y \<in> set (keys g out) \<Longrightarrow>
      cost_at (join_ends (map (\<lambda>e. (e, w e)) (pairs g n))) (x, y) = w (Some x, Some y)"
proof -
  have pairs: "pairs g n = map (\<lambda>(x, y). (Some x, Some y)) (List.product (keys g inp) (keys g out))"
    unfolding pairs_def opt_keys_def assms option.case product_concat_map by (simp add: map_concat comp_def)
  have join: "join_ends (map (\<lambda>e. (e, w e)) (pairs g n)) = map (\<lambda>e. (e, w (Some (fst e), Some (snd e)))) (List.product (keys g inp) (keys g out))"
    unfolding pairs join_ends_def by (simp add: case_prod_unfold)
  show "fst ` set (join_ends (map (\<lambda>e. (e, w e)) (pairs g n))) = set (keys g inp) \<times> set (keys g out)"
    unfolding join by (simp add: image_image)
  assume "x \<in> set (keys g inp)" "y \<in> set (keys g out)"
  then show "cost_at (join_ends (map (\<lambda>e. (e, w e)) (pairs g n))) (x, y) = w (Some x, Some y)"
    unfolding join by (subst cost_at_table) simp_all
qed

lemma attach_join:
  assumes ok: "graph_ok g R" and n: "n \<in> R" "has_single_io g n"
    and i: "only (node_inputs g n) = Some inp" and j: "only (node_outputs g n) = Some out"
    and g': "costs g' = costs g" "graph_edges g' = AList.update (inp, out) cs (graph_edges (drop_node n g))"
    and cs: "fst ` set cs = set (keys g inp) \<times> set (keys g out)"
      "\<And>x y. x \<in> set (keys g inp) \<Longrightarrow> y \<in> set (keys g out) \<Longrightarrow> cost_at cs (x, y) =
         (if (inp, out) \<in> edges_of g then edge_cost g (inp, out) x y else 0) + w (Some x, Some y)"
    and io: "\<And>m. m \<in> R - {n} \<Longrightarrow> distinct (node_inputs g' m) \<and>
        set (node_inputs g' m) = set (node_inputs g m) - {n} \<union> (if m = out then {inp} else {})"
      "\<And>m. m \<in> R - {n} \<Longrightarrow> distinct (node_outputs g' m) \<and>
        set (node_outputs g' m) = set (node_outputs g m) - {n} \<union> (if m = inp then {out} else {})"
  shows "attached g R n w g'"
proof -
  have inp: "(inp, n) \<in> edges_of g" "inp \<in> R" "inp \<noteq> n" using edges_at(1) [OF ok n, of inp] i graph_ok_edge [OF ok, of inp n] by auto
  have out: "(n, out) \<in> edges_of g" "out \<in> R" "out \<noteq> n" using edges_at(2) [OF ok n, of out] j graph_ok_edge [OF ok, of n out] by auto
  have keys: "keys g' m = keys g m" for m by (simp add: keys_def g')
  have edges: "edges_of g' = insert (inp, out) (edges_of (drop_node n g))" by (rule edges_of_update [OF g'(2)])
  have drop: "(inp, out) \<in> edges_of (drop_node n g) \<longleftrightarrow> (inp, out) \<in> edges_of g" using inp out by (simp add: edges_of_drop)
  have old: "edge_cost (drop_node n g) (inp, out) x y = edge_cost g (inp, out) x y" for x y
    using inp out by (simp add: edge_cost_def map_of_drop)
  have "node_ok g' m" if m: "m \<in> R - {n}" for m
  proof -
    have "node_ok g m" using graph_ok_node [OF ok] m by blast
    then show ?thesis
      using m io [OF m] keys [of m] unfolding node_ok_def edges by (auto simp: g' edges_of_drop)
  qed
  moreover have "edge_ok g' (R - {n}) e" if e: "e \<in> edges_of g'" for e
  proof (cases "e = (inp, out)")
    case True
    then show ?thesis using inp out cs(1) keys by (auto simp: edge_ok_def g' update_conv')
  next
    case False
    then show ?thesis using e edges keys by (intro edge_ok_kept [OF ok]) (auto simp: g' update_conv')
  qed
  moreover have "(inp, out) \<in> (edges_of g)\<^sup>+" using inp(1) out(1) by (meson trancl.intros)
  then have "edges_of g' \<subseteq> (edges_of g)\<^sup>+" by (auto simp: edges edges_of_drop)
  ultimately have "graph_ok g' (R - {n})" using graph_ok_without [OF ok] by blast
  moreover have "total_cost g' (R - {n}) a = total_cost (drop_node n g) (R - {n}) a + w (Some (a inp), Some (a out))" if a: "choice_ok g (R - {n}) a" for a
  proof (rule total_edge [where i = inp and j = out and cs = cs])
    have "a inp \<in> set (keys g inp)" "a out \<in> set (keys g out)" using a inp out by (auto simp: choice_ok_def)
    note cs = cs(2) [OF this]
    show "cost_at cs (a inp, a out) = edge_cost (drop_node n g) (inp, out) (a inp) (a out) + w (Some (a inp), Some (a out))"
      if "(inp, out) \<in> edges_of (drop_node n g)" using cs that by (simp add: drop old)
    show "cost_at cs (a inp, a out) = w (Some (a inp), Some (a out))"
      if "(inp, out) \<notin> edges_of (drop_node n g)" using cs that by (simp add: drop)
  qed (simp_all add: g')
  ultimately show ?thesis using keys by (simp add: attached_def i j)
qed

lemma replace_set: "set (replace a b xs) = (if a \<in> set xs then insert b (set xs - {a}) else set xs)"
  by (auto simp: replace_def)

lemma replace_distinct: "distinct xs \<Longrightarrow> b \<notin> set xs \<Longrightarrow> distinct (replace a b xs)"
  by (induction xs) (auto simp: replace_def)

lemma attach_both:
  assumes ok: "graph_ok g R" and n: "n \<in> R" "has_single_io g n"
    and i: "only (node_inputs g n) = Some inp" and j: "only (node_outputs g n) = Some out"
  shows "\<exists>g'. attach n (Some inp) (Some out) (map (\<lambda>e. (e, w e)) (pairs g n)) (drop_node n g) = Inr g' \<and> attached g R n w g'"
proof -
  let ?new = "join_ends (map (\<lambda>e. (e, w e)) (pairs g n))"
  have inp: "(inp, n) \<in> edges_of g" "inp \<in> R" "inp \<noteq> n" using edges_at(1) [OF ok n, of inp] i graph_ok_edge [OF ok, of inp n] by auto
  have out: "(n, out) \<in> edges_of g" "out \<in> R" "out \<noteq> n" using edges_at(2) [OF ok n, of out] j graph_ok_edge [OF ok, of n out] by auto
  have into: "(x, n) \<in> edges_of g \<longleftrightarrow> x = inp" for x using edges_at(1) [OF ok n, of x] i by auto
  have onto: "(n, y) \<in> edges_of g \<longleftrightarrow> y = out" for y using edges_at(2) [OF ok n, of y] j by auto
  have nodes: "node_ok g m" if "m \<in> R - {n}" for m using graph_ok_node [OF ok] that by blast
  have sets: "set (node_inputs g m) = {x. (x, m) \<in> edges_of g}" "set (node_outputs g m) = {y. (m, y) \<in> edges_of g}"
    "distinct (node_inputs g m)" "distinct (node_outputs g m)" if "m \<in> R - {n}" for m
    using nodes [OF that] by (simp_all add: node_ok_def)
  have old: "map_of (graph_edges (drop_node n g)) (inp, out) = map_of (graph_edges g) (inp, out)"
    using inp out by (simp add: map_of_drop)
  show ?thesis
  proof (cases "map_of (graph_edges g) (inp, out)")
    case None
    then have none: "(inp, out) \<notin> edges_of g" by (simp add: edges_of_def map_of_eq_None_iff)
    let ?g = "(drop_node n g)\<lparr>graph_edges := AList.update (inp, out) ?new (graph_edges (drop_node n g)),
      node_outputs := (node_outputs g)(inp := replace n out (node_outputs g inp)),
      node_inputs := (node_inputs g)(out := replace n inp (node_inputs g out))\<rparr>"
    have "attached g R n w ?g"
    proof (rule attach_join [OF ok n i j])
      fix m assume m: "m \<in> R - {n}"
      show "distinct (node_inputs ?g m) \<and> set (node_inputs ?g m) = set (node_inputs g m) - {n} \<union> (if m = out then {inp} else {})"
        using sets [OF m] none onto [of m] by (cases "m = out") (auto simp: replace_set replace_distinct)
      show "distinct (node_outputs ?g m) \<and> set (node_outputs ?g m) = set (node_outputs g m) - {n} \<union> (if m = inp then {out} else {})"
        using sets [OF m] none into [of m] by (cases "m = inp") (auto simp: replace_set replace_distinct)
    next
      show "fst ` set ?new = set (keys g inp) \<times> set (keys g out)" by (rule join_ends_ok [OF i j])
    next
      fix x y assume "x \<in> set (keys g inp)" "y \<in> set (keys g out)"
      then show "cost_at ?new (x, y) = (if (inp, out) \<in> edges_of g then edge_cost g (inp, out) x y else 0) + w (Some x, Some y)"
        using none by (subst join_ends_ok [OF i j]) simp_all
    qed simp_all
    then show ?thesis using None old by (simp add: attach_def)
  next
    case (Some c)
    then have some: "(inp, out) \<in> edges_of g" by (force simp: edges_of_def dest: map_of_SomeD)
    have keys: "fst ` set c = set (keys g inp) \<times> set (keys g out)" using graph_ok_edge [OF ok some] Some by simp
    let ?cs = "map (\<lambda>(k, t). (k, t + cost_at ?new k)) c"
    let ?g = "(drop_node n g)\<lparr>graph_edges := AList.update (inp, out) ?cs (graph_edges (drop_node n g)),
      node_outputs := (node_outputs g)(inp := remove1 n (node_outputs g inp)),
      node_inputs := (node_inputs g)(out := remove1 n (node_inputs g out))\<rparr>"
    have "attached g R n w ?g"
    proof (rule attach_join [OF ok n i j])
      fix m assume m: "m \<in> R - {n}"
      show "distinct (node_inputs ?g m) \<and> set (node_inputs ?g m) = set (node_inputs g m) - {n} \<union> (if m = out then {inp} else {})"
        using sets [OF m] some onto [of m] inp by (cases "m = out") auto
      show "distinct (node_outputs ?g m) \<and> set (node_outputs ?g m) = set (node_outputs g m) - {n} \<union> (if m = inp then {out} else {})"
        using sets [OF m] some into [of m] out by (cases "m = inp") auto
    next
      show "fst ` set ?cs = set (keys g inp) \<times> set (keys g out)"
        using keys keys_map [of "\<lambda>k t. t + cost_at ?new k" c] by (metis set_map)
    next
      fix x y assume xy: "x \<in> set (keys g inp)" "y \<in> set (keys g out)"
      then have "cost_at ?cs (x, y) = cost_at c (x, y) + cost_at ?new (x, y)" using keys by (intro cost_at_map) simp
      then show "cost_at ?cs (x, y) = (if (inp, out) \<in> edges_of g then edge_cost g (inp, out) x y else 0) + w (Some x, Some y)"
        using some Some xy join_ends_ok(2) [OF i j xy, of w] by (simp add: edge_cost_def)
    qed simp_all
    moreover have "add_costs c ?new = Inr ?cs" by (rule add_costs_ok) (simp only: keys join_ends_ok(1) [OF i j])
    ultimately show ?thesis using Some old by (simp add: attach_def)
  qed
qed

section \<open>One elimination, and a chain of them\<close>

definition eliminated :: "('k, 't::linordered_ab_group_add) coarse_graph \<Rightarrow> nat set \<Rightarrow> 'k eliminated \<Rightarrow> ('k, 't) coarse_graph \<Rightarrow> bool" where
  "eliminated g R e g' \<longleftrightarrow> gone e \<in> R \<and> graph_ok g' (R - {gone e}) \<and> (\<forall>m. keys g' m = keys g m) \<and>
     (\<forall>m. in_node e = Some m \<or> out_node e = Some m \<longrightarrow> m \<in> R - {gone e}) \<and>
     (\<forall>a. choice_ok g (R - {gone e}) a \<longrightarrow>
       (\<exists>k \<in> set (keys g (gone e)). map_of (best_keys e) (map_option a (in_node e), map_option a (out_node e)) = Some k \<and>
          total_cost g' (R - {gone e}) a = total_cost g R (a(gone e := k))) \<and>
       (\<forall>l \<in> set (keys g (gone e)). total_cost g' (R - {gone e}) a \<le> total_cost g R (a(gone e := l))))"

lemma attach_any:
  assumes ok: "graph_ok g R" and n: "n \<in> R" "has_single_io g n"
    and ends: "\<not> (only (node_inputs g n) = None \<and> only (node_outputs g n) = None)"
  shows "\<exists>g'. attach n (only (node_inputs g n)) (only (node_outputs g n)) (map (\<lambda>e. (e, w e)) (pairs g n)) (drop_node n g) = Inr g' \<and>
    attached g R n w g'"
proof (cases "only (node_inputs g n)")
  case None
  then obtain out where "only (node_outputs g n) = Some out" using ends by auto
  with None show ?thesis using attach_right [OF ok n] by (simp only:)
next
  case (Some inp)
  then show ?thesis
    using attach_left [OF ok n Some] attach_both [OF ok n Some] by (cases "only (node_outputs g n)") (simp_all only:)
qed

lemma eliminate_ok:
  assumes ok: "graph_ok g R" and n: "n \<in> R" "has_single_io g n"
    and ends: "\<not> (only (node_inputs g n) = None \<and> only (node_outputs g n) = None)"
  shows "\<exists>g' e. (\<forall>remaining deleted. eliminate_node n (g, remaining, deleted) = Inr (g', remove1 n remaining, deleted @ [e])) \<and> gone e = n \<and> eliminated g R e g'"
proof -
  let ?i = "only (node_inputs g n)" and ?j = "only (node_outputs g n)"
  let ?t = "through (costs g n) (in_costs g n) (out_costs g n)"
  obtain f where f: "choices_ok g n f" using choices_exist [OF ok n] by blast
  let ?w = "\<lambda>e. ?t e (f e)"
  obtain g' where g': "attach n ?i ?j (map (\<lambda>e. (e, ?w e)) (pairs g n)) (drop_node n g) = Inr g'" "attached g R n ?w g'"
    using attach_any [OF ok n ends, of ?w] by blast
  let ?e = "\<lparr>gone = n, in_node = ?i, out_node = ?j, best_keys = map (\<lambda>e. (e, f e)) (pairs g n)\<rparr>"
  have "mapE (\<lambda>ends. bindE (best_choice (costs g n) (in_costs g n) (out_costs g n) ends) (\<lambda>m. Inr (ends, m))) (pairs g n) =
      Inr (map (\<lambda>e. (e, f e, ?w e)) (pairs g n))"
    using f by (intro mapE_all_Inr) (simp add: choices_ok_def)
  moreover have "(case ?i of None \<Rightarrow> Inr [] | Some inp \<Rightarrow> edge_of g (inp, n)) = Inr (in_costs g n)"
    using edges_at(1) [OF ok n] graph_ok_edge [OF ok] by (fastforce simp: in_costs_def edge_of_def py_lookup_def split: option.splits)
  moreover have "(case ?j of None \<Rightarrow> Inr [] | Some out \<Rightarrow> edge_of g (n, out)) = Inr (out_costs g n)"
    using edges_at(2) [OF ok n] graph_ok_edge [OF ok] by (fastforce simp: out_costs_def edge_of_def py_lookup_def split: option.splits)
  ultimately have "eliminate_node n (g, remaining, deleted) = Inr (g', remove1 n remaining, deleted @ [?e])" for remaining deleted
    using n(2) ends g'(1)
    unfolding eliminate_node_def prod.case Let_def pairs_def [symmetric] by (simp add: has_single_io_def comp_def)
  moreover have "eliminated g R ?e g'"
  proof -
    have "m \<in> R - {n}" if "?i = Some m \<or> ?j = Some m" for m
      using that edges_at [OF ok n] graph_ok_edge [OF ok] by blast
    moreover have "(\<exists>k \<in> set (keys g n). map_of (map (\<lambda>e. (e, f e)) (pairs g n)) (map_option a ?i, map_option a ?j) = Some k \<and>
          total_cost g' (R - {n}) a = total_cost g R (a(n := k))) \<and>
        (\<forall>l \<in> set (keys g n). total_cost g' (R - {n}) a \<le> total_cost g R (a(n := l)))" if a: "choice_ok g (R - {n}) a" for a
    proof -
      let ?p = "(map_option a ?i, map_option a ?j)"
      have p: "?p \<in> set (pairs g n)" using calculation a by (auto simp: pairs_member choice_ok_def split: option.split)
      have "map_of (map (\<lambda>e. (e, f e)) (pairs g n)) ?p = Some (f ?p)" by (rule map_of_image [where x = ?p]) (use p in simp_all)
      moreover have "total_cost g' (R - {n}) a = total_cost (drop_node n g) (R - {n}) a + ?w ?p" using g'(2) a by (simp add: attached_def)
      ultimately show ?thesis using f p by (auto simp: choices_ok_def total_split [OF ok n])
    qed
    ultimately show ?thesis using g'(2) n(1) by (simp add: eliminated_def attached_def)
  qed
  ultimately show ?thesis by force
qed

fun eliminates :: "('k, 't::linordered_ab_group_add) coarse_graph \<Rightarrow> nat set \<Rightarrow> 'k eliminated list \<Rightarrow> ('k, 't) coarse_graph \<Rightarrow> nat set \<Rightarrow> bool" where
  "eliminates g R [] g' R' \<longleftrightarrow> g' = g \<and> R' = R"
| "eliminates g R (e # es) g' R' \<longleftrightarrow> (\<exists>h. eliminated g R e h \<and> eliminates h (R - {gone e}) es g' R')"

lemma eliminates_append: "eliminates g R (es @ ds) g' R' \<longleftrightarrow> (\<exists>h S. eliminates g R es h S \<and> eliminates h S ds g' R')"
  by (induction es arbitrary: g R) auto

lemma eliminates_ok: "eliminates g R es g' R' \<Longrightarrow> graph_ok g R \<Longrightarrow> graph_ok g' R' \<and> R' \<subseteq> R \<and> (\<forall>m. keys g' m = keys g m)"
proof (induction es arbitrary: g R)
  case (Cons e es)
  then obtain h where h: "eliminated g R e h" "eliminates h (R - {gone e}) es g' R'" by auto
  then have "graph_ok h (R - {gone e})" "\<forall>m. keys h m = keys g m" by (simp_all add: eliminated_def)
  with Cons.IH [OF h(2)] show ?case by auto
qed simp

text \<open>A chain never raises the total of a choice, and every choice after it extends to one before it.\<close>

lemma eliminates_lower: "eliminates g R es g' R' \<Longrightarrow> choice_ok g R a \<Longrightarrow> total_cost g' R' a \<le> total_cost g R a"
proof (induction es arbitrary: g R)
  case (Cons e es)
  then obtain h where h: "eliminated g R e h" "eliminates h (R - {gone e}) es g' R'" by auto
  have "choice_ok g (R - {gone e}) a" "a (gone e) \<in> set (keys g (gone e))"
    using Cons.prems(2) h(1) by (auto simp: choice_ok_def eliminated_def)
  then have "total_cost h (R - {gone e}) a \<le> total_cost g R (a(gone e := a (gone e)))" using h(1) unfolding eliminated_def by blast
  moreover have "choice_ok h (R - {gone e}) a" using \<open>choice_ok g (R - {gone e}) a\<close> h(1) by (simp add: choice_ok_def eliminated_def)
  ultimately show ?case using Cons.IH [OF h(2)] by (simp add: order_trans)
qed simp

definition gives :: "(nat \<times> 'k) list \<Rightarrow> nat set \<Rightarrow> (nat \<Rightarrow> 'k) \<Rightarrow> bool" where
  "gives chosen R a \<longleftrightarrow> (\<forall>n. map_of chosen n = (if n \<in> R then Some (a n) else None))"

lemma eliminates_choice:
  assumes "eliminates g R es g' R'" and "choice_ok g' R' a" and "gives chosen R' a" and "graph_ok g R"
  shows "\<exists>chosen' b. foldE choose_key chosen (rev es) = Inr chosen' \<and> gives chosen' R b \<and> choice_ok g R b \<and> total_cost g R b = total_cost g' R' a"
  using assms(1,4)
proof (induction es arbitrary: g R)
  case Nil
  then show ?case using assms(2,3) by auto
next
  case (Cons e es)
  then obtain h where h: "eliminated g R e h" "eliminates h (R - {gone e}) es g' R'" by auto
  then have "graph_ok h (R - {gone e})" by (simp add: eliminated_def)
  then obtain chosen' b where b: "foldE choose_key chosen (rev es) = Inr chosen'" "gives chosen' (R - {gone e}) b"
      "choice_ok h (R - {gone e}) b" "total_cost h (R - {gone e}) b = total_cost g' R' a"
    using Cons.IH [OF h(2)] by auto
  have old: "choice_ok g (R - {gone e}) b" using b(3) h(1) by (simp add: choice_ok_def eliminated_def)
  then obtain k where k: "k \<in> set (keys g (gone e))"
      "map_of (best_keys e) (map_option b (in_node e), map_option b (out_node e)) = Some k"
      "total_cost h (R - {gone e}) b = total_cost g R (b(gone e := k))"
    using h(1) unfolding eliminated_def by blast
  have "map_of chosen' m = Some (b m)" if "in_node e = Some m \<or> out_node e = Some m" for m
  proof -
    have "m \<in> R - {gone e}" using that h(1) unfolding eliminated_def by blast
    then show ?thesis using b(2) by (simp add: gives_def)
  qed
  then have "choose_key chosen' e = Inr (AList.update (gone e) k chosen')"
    using k(2) by (cases "in_node e"; cases "out_node e") (simp_all add: choose_key_def py_lookup_def)
  moreover have "gives (AList.update (gone e) k chosen') R (b(gone e := k))"
    using b(2) h(1) by (simp add: gives_def update_conv' eliminated_def)
  moreover have "choice_ok g R (b(gone e := k))" using old k(1) by (simp add: choice_ok_def)
  ultimately show ?case using b(1,4) k(3) by (auto simp: foldE_append)
qed

section \<open>The loop without a fixed source\<close>

text \<open>\<open>reduces\<close>: every turn of the loop eliminates a node until one is left.\<close>

function reduces :: "(nat list \<Rightarrow> nat list) \<Rightarrow> ('k, 't::linordered_ab_group_add) coarse_graph \<Rightarrow> nat list \<Rightarrow> bool" where
  "reduces visit g remaining =
     (if length remaining \<le> 1 then length remaining = 1
      else case shrink_pass visit (g, remaining, []) of
        Inl _ \<Rightarrow> False
      | Inr (g', remaining', _) \<Rightarrow> if length remaining' < length remaining then reduces visit g' remaining' else False)"
  by pat_completeness auto
termination by (relation "measure (\<lambda>(visit, g, remaining). length remaining)") auto

declare reduces.simps [simp del]

lemma pass_ok:
  assumes "graph_ok g (set remaining)" and "distinct remaining" and "distinct ns" and "set ns \<subseteq> set remaining"
  shows "\<exists>g' remaining' es. \<forall>deleted. foldE (\<lambda>st n. if has_single_io (fst st) n then eliminate_node n st else Inr st) (g, remaining, deleted) ns =
      Inr (g', remaining', deleted @ es) \<and> eliminates g (set remaining) es g' (set remaining') \<and> distinct remaining'"
  using assms
proof (induction ns arbitrary: g remaining)
  case Nil
  then show ?case by (intro exI [of _ g] exI [of _ remaining] exI [of _ "[]"]) simp
next
  case (Cons n ns)
  have n: "n \<in> set remaining" "n \<notin> set ns" using Cons.prems by auto
  show ?case
  proof (cases "has_single_io g n \<and> \<not> (only (node_inputs g n) = None \<and> only (node_outputs g n) = None)")
    case True
    then obtain h e where e: "\<And>deleted. eliminate_node n (g, remaining, deleted) = Inr (h, remove1 n remaining, deleted @ [e])"
        "gone e = n" "eliminated g (set remaining) e h"
      using eliminate_ok [OF Cons.prems(1) n(1)] by blast
    have left: "set (remove1 n remaining) = set remaining - {n}" using Cons.prems(2) by simp
    have "graph_ok h (set (remove1 n remaining))" using e(2,3) by (simp add: eliminated_def left)
    then obtain g' remaining' es where "\<forall>deleted. foldE (\<lambda>st n. if has_single_io (fst st) n then eliminate_node n st else Inr st)
          (h, remove1 n remaining, deleted) ns = Inr (g', remaining', deleted @ es) \<and>
        eliminates h (set (remove1 n remaining)) es g' (set remaining') \<and> distinct remaining'"
      using Cons.IH [of h "remove1 n remaining"] Cons.prems n by (auto simp: left)
    then show ?thesis
      using True e by (intro exI [of _ g'] exI [of _ remaining'] exI [of _ "e # es"]) (auto simp: left)
  next
    case False
    then have "(if has_single_io g n then eliminate_node n (g, remaining, deleted) else Inr (g, remaining, deleted)) = Inr (g, remaining, deleted)"
      for deleted
      by (auto simp: eliminate_node_def has_single_io_def)
    then show ?thesis using Cons.IH [of g remaining] Cons.prems by simp
  qed
qed

lemma total_cost_cong:
  assumes "graph_ok g R" and "\<And>m. m \<in> R \<Longrightarrow> b m = a m"
  shows "total_cost g R a = total_cost g R b"
proof -
  have "(\<Sum>e\<in>edges_of g. edge_cost g e (a (fst e)) (a (snd e))) = (\<Sum>e\<in>edges_of g. edge_cost g e (b (fst e)) (b (snd e)))"
    by (rule sum.cong) (use assms graph_ok_edge [OF assms(1)] in auto)
  moreover have "(\<Sum>n\<in>R. cost_at (costs g n) (a n)) = (\<Sum>n\<in>R. cost_at (costs g n) (b n))"
    by (rule sum.cong) (simp_all add: assms(2))
  ultimately show ?thesis by (simp add: total_cost_def)
qed

lemma shrink_ok:
  assumes "reduces (visit fixed) g remaining" and "graph_ok g (set remaining)" and "distinct remaining"
    and visit: "\<And>xs. mset (visit fixed xs) = mset xs"
  shows "\<exists>g' n es. shrink_graph visit fixed g remaining deleted = last_choice g' [n] (deleted @ es) \<and>
    eliminates g (set remaining) es g' {n}"
  using assms(1-3)
proof (induction "visit fixed" g remaining arbitrary: deleted rule: reduces.induct)
  case (1 g remaining)
  show ?case
  proof (cases "length remaining \<le> 1")
    case True
    then have "length remaining = 1" using 1 by (simp add: reduces.simps [of _ _ remaining])
    then obtain n where "remaining = [n]" by (auto simp: length_Suc_conv)
    then show ?thesis
      by (intro exI [of _ g] exI [of _ n] exI [of _ "[]"]) (simp add: shrink_graph.simps [of _ _ _ "[n]"])
  next
    case False
    have "distinct (visit fixed remaining)" "set (visit fixed remaining) = set remaining"
      using 1(4) visit [of remaining] by (metis mset_eq_imp_distinct_iff) (metis visit mset_eq_setD)
    then obtain g' remaining' es where pass: "\<And>deleted. shrink_pass (visit fixed) (g, remaining, deleted) = Inr (g', remaining', deleted @ es)"
        "eliminates g (set remaining) es g' (set remaining')" "distinct remaining'"
      using pass_ok [OF 1(3,4), of "visit fixed remaining"] by (auto simp: shrink_pass_def)
    have less: "length remaining' < length remaining" and rest: "reduces (visit fixed) g' remaining'"
      using 1(2) False pass(1) [of "[]"] by (simp_all add: reduces.simps [of _ _ remaining] split: if_splits)
    have "graph_ok g' (set remaining')" using eliminates_ok [OF pass(2) 1(3)] by simp
    then obtain h n ds where h: "shrink_graph visit fixed g' remaining' (deleted @ es) = last_choice h [n] ((deleted @ es) @ ds)"
        "eliminates g' (set remaining') ds h {n}"
      using 1(1) [OF False] pass less rest by (metis append_Nil)
    have "shrink_graph visit fixed g remaining deleted = last_choice h [n] (deleted @ (es @ ds))"
      using False less pass(1) h(1) by (simp add: shrink_graph.simps [of _ _ _ remaining])
    moreover have "eliminates g (set remaining) (es @ ds) h {n}" using pass(2) h(2) by (auto simp: eliminates_append)
    ultimately show ?thesis by blast
  qed
qed

lemma last_choice_ok:
  assumes "graph_ok g {n}"
  shows "\<exists>t k. last_choice g [n] deleted = Inr (t, k, n, deleted) \<and> k \<in> set (keys g n) \<and>
    (\<forall>a. total_cost g {n} a = cost_at (costs g n) (a n)) \<and> t = cost_at (costs g n) k \<and>
    (\<forall>l \<in> set (keys g n). t \<le> cost_at (costs g n) l)"
proof -
  have none: "edges_of g = {}" using graph_ok_edge [OF assms] by auto
  have node: "costs g n \<noteq> []" "distinct (map fst (costs g n))" "node_inputs g n = []" "node_outputs g n = []"
    using graph_ok_node [OF assms] none by (simp_all add: node_ok_def keys_def)
  obtain m where m: "first_min snd (costs g n) = Some m" "m \<in> set (costs g n)" "\<forall>y \<in> set (costs g n). snd m \<le> snd y"
    using first_min_obtain [OF node(1)] by metis
  obtain k t where kt: "m = (k, t)" by (cases m)
  have at: "cost_at (costs g n) l = u" if "(l, u) \<in> set (costs g n)" for l u using cost_at_member [OF node(2) that] .
  have "t \<le> cost_at (costs g n) l" if "l \<in> set (keys g n)" for l
  proof -
    obtain u where u: "(l, u) \<in> set (costs g n)" using \<open>l \<in> set (keys g n)\<close> by (auto simp: keys_def)
    then show ?thesis using m(3) kt at [OF u] by auto
  qed
  moreover have "t = cost_at (costs g n) k" using m(2) kt at by simp
  moreover have "k \<in> set (keys g n)" using m(2) kt by (force simp: keys_def)
  ultimately show ?thesis using m(1) kt node(3,4) none by (simp add: last_choice_def total_cost_def)
qed

text \<open>C6: As long as the loop of OptCNN needs no brute force, the search returns a key for every node of
  the coarse graph, the returned time is the sum of the costs of these keys on all nodes and edges, and no
  other choice of keys costs less. The order in which the nodes are visited is arbitrary.\<close>

theorem optcnn_choice_is_optimal:
  assumes "graph_ok g (set nodes)" and "distinct nodes" and "\<And>fixed xs. mset (visit fixed xs) = mset xs"
    and "reduces (visit []) g nodes"
  shows "\<exists>min_time chosen. search_part visit g nodes = Inr (min_time, chosen) \<and> fst ` set chosen = set nodes \<and>
    choice_ok g (set nodes) (cost_at chosen) \<and> total_cost g (set nodes) (cost_at chosen) = min_time \<and>
    (\<forall>a. choice_ok g (set nodes) a \<longrightarrow> min_time \<le> total_cost g (set nodes) a)"
proof -
  obtain g' n es where shrink: "shrink_graph visit [] g nodes [] = last_choice g' [n] es" "eliminates g (set nodes) es g' {n}"
    using shrink_ok [of visit "[]", OF assms(4,1,2,3), of "[]"] by auto
  have g': "graph_ok g' {n}" "{n} \<subseteq> set nodes" "\<forall>m. keys g' m = keys g m" using eliminates_ok [OF shrink(2) assms(1)] by auto
  obtain t k where last: "last_choice g' [n] es = Inr (t, k, n, es)" "k \<in> set (keys g' n)" "\<forall>a. total_cost g' {n} a = cost_at (costs g' n) (a n)"
      "t = cost_at (costs g' n) k" "\<forall>l \<in> set (keys g' n). t \<le> cost_at (costs g' n) l"
    using last_choice_ok [OF g'(1)] by metis
  have "choice_ok g' {n} (\<lambda>_. k)" "gives [(n, k)] {n} (\<lambda>_. k)" using last(2) by (simp_all add: choice_ok_def gives_def)
  from eliminates_choice [OF shrink(2) this assms(1)] obtain chosen b
    where b: "foldE choose_key [(n, k)] (rev es) = Inr chosen" "gives chosen (set nodes) b" "choice_ok g (set nodes) b"
      "total_cost g (set nodes) b = t" using last(3,4) by auto
  have at: "cost_at chosen m = b m" if "m \<in> set nodes" for m using b(2) that by (simp add: gives_def cost_at_def)
  have "choice_ok g (set nodes) (cost_at chosen)" using b(3) at by (simp add: choice_ok_def)
  moreover have "total_cost g (set nodes) (cost_at chosen) = t"
    using total_cost_cong [OF assms(1), of b "cost_at chosen"] at b(4) by simp
  moreover have "fst ` set chosen = set nodes"
    using b(2) dom_map_of_conv_image_fst [of chosen] by (auto simp: gives_def dom_def split: if_splits)
  moreover have "t \<le> total_cost g (set nodes) a" if a: "choice_ok g (set nodes) a" for a
  proof -
    have "a n \<in> set (keys g' n)" using a g'(2,3) by (auto simp: choice_ok_def)
    then show ?thesis using eliminates_lower [OF shrink(2) a] last(3,5) by (metis order_trans)
  qed
  ultimately show ?thesis using shrink(1) last(1) b(1) by (auto simp: search_part_def)
qed

section \<open>Two graphs\<close>

text \<open>A diamond: its middle nodes are eliminated and leave two edges that are combined.\<close>

definition table :: "nat \<Rightarrow> nat \<Rightarrow> nat \<Rightarrow> nat \<Rightarrow> (nat, int) edge_costs" where
  "table a b c d = [((0, 0), int a), ((0, 1), int b), ((1, 0), int c), ((1, 1), int d)]"

definition diamond :: "(nat, int) coarse_graph" where
  "diamond = \<lparr>costs = (\<lambda>n. [(0, 5), (1, int n)]),
     node_inputs = (\<lambda>_. [])(1 := [0], 2 := [0], 3 := [1, 2]),
     node_outputs = (\<lambda>_. [])(0 := [1, 2], 1 := [3], 2 := [3]),
     graph_edges = [((0, 1), table 0 2 2 0), ((0, 2), table 0 4 4 0), ((1, 3), table 1 2 3 1), ((2, 3), table 0 7 1 0)]\<rparr>"

lemma diamond_edges: "edges_of diamond = {(0, 1), (0, 2), (1, 3), (2, 3)}"
  by (auto simp: edges_of_def diamond_def)

lemma diamond_ok: "graph_ok diamond {0, 1, 2, 3}"
proof -
  have "acyclic (edges_of diamond)" by (rule acyclicI_order [where f = "\<lambda>n. 3 - int n"]) (auto simp: diamond_edges)
  moreover have "node_ok diamond n" if "n \<in> {0, 1, 2, 3}" for n
    using that unfolding node_ok_def diamond_edges by (auto simp: diamond_def keys_def)
  moreover have "edge_ok diamond {0, 1, 2, 3} e" if "e \<in> edges_of diamond" for e
    using that unfolding edge_ok_def diamond_edges by (auto simp: diamond_def keys_def table_def)
  ultimately show ?thesis by (simp add: graph_ok_def)
qed

theorem optcnn_choice_is_optimal_witness:
  "\<exists>min_time chosen. search_part (\<lambda>_ xs. rev xs) diamond [0, 1, 2, 3] = Inr (min_time, chosen) \<and>
    total_cost diamond {0, 1, 2, 3} (cost_at chosen) = min_time \<and> min_time \<le> total_cost diamond {0, 1, 2, 3} (\<lambda>_. 1)"
proof -
  have "reduces ((\<lambda>_ xs. rev xs) []) diamond [0, 1, 2, 3]" by code_simp
  moreover have "choice_ok diamond {0, 1, 2, 3} (\<lambda>_. 1)" by (simp add: choice_ok_def diamond_def keys_def)
  ultimately show ?thesis
    using optcnn_choice_is_optimal [of diamond "[0, 1, 2, 3]" "\<lambda>_ xs. rev xs"] diamond_ok by auto
qed

text \<open>
  A source with several outputs: its cost is added to every output, so the brute force compares a
  multiple of it. Here key 0 costs 10 and key 1 nothing, but key 1 makes an edge cost 15.
\<close>

definition shortcut :: "(nat, int) coarse_graph" where
  "shortcut = \<lparr>costs = (\<lambda>n. if n = 0 then [(0, 10), (1, 0)] else [(0, 0)]),
     node_inputs = (\<lambda>_. [])(1 := [0], 2 := [0, 1], 3 := [0, 1, 2]),
     node_outputs = (\<lambda>_. [])(0 := [1, 2, 3], 1 := [2, 3], 2 := [3]),
     graph_edges = [((0, 1), [((0, 0), 0), ((1, 0), 15)]), ((0, 2), [((0, 0), 0), ((1, 0), 0)]), ((0, 3), [((0, 0), 0), ((1, 0), 0)]),
       ((1, 2), [((0, 0), 0)]), ((1, 3), [((0, 0), 0)]), ((2, 3), [((0, 0), 0)])]\<rparr>"

theorem source_cost_is_counted_per_output:
  "search_part (\<lambda>_ xs. xs) shortcut [0, 1, 2, 3] = Inr (15, [(1, 0), (3, 0), (2, 0), (0, 1)]) \<and>
   total_cost shortcut {0, 1, 2, 3} (\<lambda>_. 0) = 10"
proof
  show "search_part (\<lambda>_ xs. xs) shortcut [0, 1, 2, 3] = Inr (15, [(1, 0), (3, 0), (2, 0), (0, 1)])" by code_simp
  have "edges_of shortcut = {(0, 1), (0, 2), (0, 3), (1, 2), (1, 3), (2, 3)}" by (auto simp: edges_of_def shortcut_def)
  then show "total_cost shortcut {0, 1, 2, 3} (\<lambda>_. 0) = 10" by (simp add: total_cost_def edge_cost_def cost_at_def shortcut_def)
qed

end
