(* ===== verification/ParallelConfig.thy ===== *)
theory ParallelConfig imports Prelude PyText begin

text \<open>
  The configurations of hybrid parallelism of \<open>python/hetu/engine/parallel_config.py\<close>: a configuration
  is a tree of dictionaries, as JSON gives it, whose leaves name for a weight or an input the split,
  the duplication and the devices of every pipeline. \<open>generate_gpt_3d_config\<close> builds the tree of a model
  from the layers of the pipeline stages, \<open>config_spread_zero\<close> passes a setting to all weights,
  \<open>get_multi_ds_parallel_config\<close> finds the leaf of a module and \<open>config2ds\<close> turns it into the layouts
  and device groups that the C++ core takes.

  The two traversals take configurations from a queue. A configuration has no shared parts that are
  dictionaries, so a dictionary in the queue is the path to it together with its value.
\<close>

section \<open>Configurations\<close>

datatype config = Num int | Flag bool | Text string | Items "config list" | Dict "(string \<times> config) list"

type_synonym path = "string list"

lemma size_child [termination_simp]: "(k, v) \<in> set d \<Longrightarrow> size v < size_list (size_prod (\<lambda>_. 0) size) d"
  by (induction d) auto

fun nodes :: "config \<Rightarrow> nat" where
  "nodes (Dict d) = Suc (sum_list (map (\<lambda>(k, v). nodes v) d))"
| "nodes _ = 1"

definition ints :: "nat list \<Rightarrow> config" where
  "ints ns = Items (map (\<lambda>n. Num (int n)) ns)"

text \<open>Subscripts of a configuration: a key of a dictionary, a position of a list.\<close>

fun item :: "config \<Rightarrow> string \<Rightarrow> config result" where
  "item (Dict d) k = py_lookup d k"
| "item _ k = Inl TypeError"

fun at :: "config \<Rightarrow> int \<Rightarrow> config result" where
  "at (Items cs) i = py_nth cs i"
| "at (Text s) i = bindE (py_nth s i) (\<lambda>c. Inr (Text [c]))"
| "at (Dict d) i = Inl KeyError"
| "at _ i = Inl TypeError"

fun as_int :: "config \<Rightarrow> int result" where
  "as_int (Num i) = Inr i"
| "as_int _ = Inl TypeError"

fun as_items :: "config \<Rightarrow> config list result" where
  "as_items (Items cs) = Inr cs"
| "as_items _ = Inl TypeError"

fun as_dict :: "config \<Rightarrow> (string \<times> config) list result" where
  "as_dict (Dict d) = Inr d"
| "as_dict _ = Inl AttributeError"

section \<open>generate\_gpt\_3d\_config\<close>

text \<open>\<open>accumulate_hetero_stages\<close>: the number of stages before every pipeline.\<close>

definition accumulate_hetero_stages :: "nat list \<Rightarrow> nat list" where
  "accumulate_hetero_stages hetero_stages =
     fst (fold (\<lambda>val (acc, accumulate_val). (acc @ [accumulate_val + val], accumulate_val + val)) hetero_stages ([0], 0))"

text \<open>The stage of a block: the loop over \<open>hetero_layers[pipeline_id]\<close> with its break.\<close>

fun device_group_num :: "nat \<Rightarrow> nat \<Rightarrow> nat \<Rightarrow> nat list \<Rightarrow> nat" where
  "device_group_num block_id n cnt [] = n"
| "device_group_num block_id n cnt (hetero_layer # ls) =
     (if block_id < cnt + hetero_layer then n else device_group_num block_id (n + 1) (cnt + hetero_layer) ls)"

record gpt_args =
  rank_to_device_mapping :: "(nat \<times> nat) list"
  unused_rank :: "nat list"
  hetero_layers :: "nat list list"
  hetero_stages :: "nat list"
  num_layers :: nat
  num_gpus :: nat
  dp :: nat
  tp :: nat
  pp :: nat
  zero :: bool

definition stage_ranks :: "gpt_args \<Rightarrow> nat \<Rightarrow> nat \<Rightarrow> nat list result" where
  "stage_ranks a block_id pipeline_id =
     bindE (list_at (hetero_layers a) pipeline_id) (\<lambda>layers.
     bindE (list_at (accumulate_hetero_stages (hetero_stages a)) pipeline_id) (\<lambda>before.
     let n = device_group_num block_id 0 0 layers in
     Inr (filter (\<lambda>rank. rank \<notin> set (unused_rank a)) [n * tp a + before * tp a..<(n + 1) * tp a + before * tp a])))"

text \<open>The devices of a block, one group for every pipeline. Their numbers are \<open>hybrid_tp_degree\<close>.\<close>

definition hybrid_device_group :: "gpt_args \<Rightarrow> nat \<Rightarrow> nat list list result" where
  "hybrid_device_group a block_id =
     mapE (\<lambda>pipeline_id. bindE (stage_ranks a block_id pipeline_id) (mapE (py_lookup (rank_to_device_mapping a)))) [0..<dp a]"

definition leaf :: "(string \<times> config) list \<Rightarrow> nat list \<Rightarrow> nat list list \<Rightarrow> string \<Rightarrow> config" where
  "leaf split dup dgs ty =
     Dict [(''split'', Dict split), (''dup'', ints dup), (''device_group_union'', Items (map ints dgs)), (''type'', Text ty)]"

definition degrees :: "nat list list \<Rightarrow> nat list" where
  "degrees dgs = map length dgs"

definition dp_union :: "gpt_args \<Rightarrow> nat list" where
  "dp_union a = replicate (dp a) (dp a)"

definition plain_weight :: "gpt_args \<Rightarrow> nat list list \<Rightarrow> config" where
  "plain_weight a dgs = leaf [] (map (\<lambda>i. i * dp a) (degrees dgs)) dgs ''variable''"

definition split_weight :: "gpt_args \<Rightarrow> string \<Rightarrow> nat list list \<Rightarrow> config" where
  "split_weight a dim dgs = leaf [(dim, ints (degrees dgs))] (dp_union a) dgs ''variable''"

definition batch_input :: "gpt_args \<Rightarrow> nat list list \<Rightarrow> config" where
  "batch_input a dgs = leaf [(''0'', ints (dp_union a))] (degrees dgs) dgs ''placeholder''"

definition block_config :: "gpt_args \<Rightarrow> nat \<Rightarrow> nat list list \<Rightarrow> config" where
  "block_config a block_id dgs =
     Dict [(''range'', ints [block_id]),
           (''layernorm1'', plain_weight a dgs),
           (''attn'', Dict [(''qkv'', split_weight a ''1'' dgs), (''dense'', split_weight a ''0'' dgs)]),
           (''layernorm2'', plain_weight a dgs),
           (''mlp'', Dict [(''dense_h_to_4h'', split_weight a ''1'' dgs), (''dense_4h_to_h'', split_weight a ''0'' dgs)])]"

definition generate_gpt_3d_config :: "gpt_args \<Rightarrow> config result" where
  "generate_gpt_3d_config a =
     (if pp a = 0 then Inl ZeroDivisionError
      else bindE (mapE (hybrid_device_group a) [0..<num_layers a]) (\<lambda>dg_union_list.
        if dg_union_list = [] then Inl IndexError
        else let first = hd dg_union_list; final = last dg_union_list in
          Inr (Dict
            [(''zero'', Flag (if dp a = 1 then False else zero a)),
             (''devices'', ints [0..<num_gpus a]),
             (''input'', batch_input a first),
             (''gpt'', Dict
               [(''wte'', split_weight a ''0'' first),
                (''wpe'', plain_weight a first),
                (''blocks'', Dict (map (\<lambda>(block_id, dgs). (''blocks'' @ str_nat block_id, block_config a block_id dgs))
                   (zip [0..<num_layers a] dg_union_list))),
                (''layernorm_final'', plain_weight a final)]),
             (''lm_head'', split_weight a ''1'' final),
             (''label'', batch_input a final)])))"

section \<open>config\_spread\_zero\<close>

fun put_at :: "path \<Rightarrow> config \<Rightarrow> config \<Rightarrow> config" where
  "put_at [] c root = c"
| "put_at (k # p) c (Dict d) = Dict (map (\<lambda>(k', v). if k' = k then (k', put_at p c v) else (k', v)) d)"
| "put_at (k # p) c root = root"

definition takes_zero :: "(string \<times> config) list \<Rightarrow> bool" where
  "takes_zero d \<longleftrightarrow> map_of d ''type'' = Some (Text ''variable'') \<and> \<not> has_key d ''zero''"

definition children :: "path \<Rightarrow> (string \<times> config) list \<Rightarrow> (path \<times> config) list" where
  "children p d = map (\<lambda>(k, v). (p @ [k], v)) d"

lemma nodes_children: "sum_list (map (\<lambda>(p, c). nodes c) (children p d)) = sum_list (map (\<lambda>(k, v). nodes v) d)"
  by (simp add: children_def comp_def case_prod_unfold)

function spread_loop :: "config \<Rightarrow> config \<Rightarrow> (path \<times> config) list \<Rightarrow> config" where
  "spread_loop z root [] = root"
| "spread_loop z root ((p, c) # queue) =
     (case c of
        Dict d \<Rightarrow>
          if has_key d ''type''
          then spread_loop z (if takes_zero d then put_at p (Dict (AList.update ''zero'' z d)) root else root) queue
          else spread_loop z root (queue @ children p d)
      | _ \<Rightarrow> spread_loop z root queue)"
  by pat_completeness auto
termination
  by (relation "measure (\<lambda>(z, root, queue). sum_list (map (\<lambda>(p, c). nodes c) queue))")
    (simp_all add: nodes_children)

definition config_spread_zero :: "config \<Rightarrow> config result" where
  "config_spread_zero root =
     bindE (item root ''zero'') (\<lambda>z. bindE (as_dict root) (\<lambda>d. Inr (spread_loop z root (children [] d))))"

section \<open>get\_multi\_ds\_parallel\_config\<close>

text \<open>A dictionary with a \<open>range\<close> is passed over when the wanted block is outside.\<close>

definition outside_range :: "int \<Rightarrow> (string \<times> config) list \<Rightarrow> bool result" where
  "outside_range wanted d =
     (case map_of d ''range'' of
        None \<Rightarrow> Inr False
      | Some r \<Rightarrow>
          bindE (bindE (at r 0) as_int) (\<lambda>lo. if wanted < lo then Inr True
          else bindE (bindE (at r (- 1)) as_int) (\<lambda>hi. Inr (hi < wanted))))"

definition inner_dicts :: "int \<Rightarrow> (string \<times> config) list \<Rightarrow> (string \<times> config) list list result" where
  "inner_dicts wanted d =
     foldE (\<lambda>ds (k, v). case v of
         Dict e \<Rightarrow> bindE (outside_range wanted e) (\<lambda>b. Inr (if b then ds else ds @ [e]))
       | _ \<Rightarrow> Inr ds) [] d"

function find_module :: "string \<Rightarrow> int \<Rightarrow> (string \<times> config) list list \<Rightarrow> config option result" where
  "find_module module_name wanted [] = Inr None"
| "find_module module_name wanted (d # queue) =
     (case map_of d module_name of
        Some c \<Rightarrow> Inr (Some c)
      | None \<Rightarrow> (case inner_dicts wanted d of Inl e \<Rightarrow> Inl e | Inr ds \<Rightarrow> find_module module_name wanted (queue @ ds)))"
  by pat_completeness auto


lemma inner_dicts_nodes: "inner_dicts wanted d = Inr ds \<Longrightarrow> sum_list (map (\<lambda>e. nodes (Dict e)) ds) < nodes (Dict d)"
proof -
  let ?f = "\<lambda>ds (k, v). case v of
         Dict e \<Rightarrow> bindE (outside_range wanted e) (\<lambda>b. Inr (if b then ds else ds @ [e]))
       | _ \<Rightarrow> Inr ds"
  have "foldE ?f acc d = Inr ds \<Longrightarrow>
      sum_list (map (\<lambda>e. nodes (Dict e)) ds) \<le> sum_list (map (\<lambda>e. nodes (Dict e)) acc) + sum_list (map (\<lambda>(k, v). nodes v) d)" for acc
  proof (induction d arbitrary: acc)
    case (Cons x d)
    then obtain k v where x: "x = (k, v)" by (cases x)
    obtain acc' where acc': "?f acc (k, v) = Inr acc'" "foldE ?f acc' d = Inr ds"
      using Cons.prems by (auto simp: x elim: bindE_InrE)
    have "sum_list (map (\<lambda>e. nodes (Dict e)) acc') \<le> sum_list (map (\<lambda>e. nodes (Dict e)) acc) + nodes v"
      using acc'(1) by (cases v) (auto elim!: bindE_InrE)
    then show ?case using Cons.IH [OF acc'(2)] by (simp add: x)
  qed simp
  then show "inner_dicts wanted d = Inr ds \<Longrightarrow> sum_list (map (\<lambda>e. nodes (Dict e)) ds) < nodes (Dict d)"
    by (fastforce simp: inner_dicts_def dest: le_imp_less_Suc)
qed

termination find_module
  by (relation "measure (\<lambda>(m, wanted, queue). sum_list (map (\<lambda>d. nodes (Dict d)) queue))")
    (auto simp del: nodes.simps dest!: inner_dicts_nodes)

definition get_multi_ds_parallel_config :: "config list \<Rightarrow> string \<Rightarrow> int \<Rightarrow> config list result" where
  "get_multi_ds_parallel_config ds_parallel_configs module_name wanted =
     bindE (foldE (\<lambda>found c. bindE (as_dict c) (\<lambda>d. bindE (find_module module_name wanted [d]) (\<lambda>r.
         Inr (case r of None \<Rightarrow> found | Some m \<Rightarrow> found @ [m])))) [] ds_parallel_configs) (\<lambda>found.
       assertE (length found = length ds_parallel_configs) (Inr found))"

section \<open>config2ds\<close>

text \<open>The arguments of \<open>DistributedStates\<close>; the union of them has the dimension along which they differ.\<close>

record ds_args =
  num_devices :: int
  states :: "(int \<times> int) list"
  order :: "int list"
  zero_flag :: config

definition numbers :: "config \<Rightarrow> int list result" where
  "numbers c = bindE (as_items c) (mapE as_int)"

definition split_of :: "int \<Rightarrow> nat \<Rightarrow> (string \<times> config) list \<Rightarrow> (int \<times> int) list result" where
  "split_of hetero_sum hetero_num split =
     foldE (\<lambda>d (key, v).
       bindE (as_items v) (\<lambda>vs. assertE (int (length vs) = hetero_sum)
         (bindE (int_of_str key) (\<lambda>dim. bindE (bindE (list_at vs hetero_num) as_int) (\<lambda>n. Inr (AList.update dim n d)))))) [] split"

definition states_of :: "config \<Rightarrow> bool \<Rightarrow> nat \<Rightarrow> nat \<Rightarrow> (ds_args \<times> int list) result" where
  "states_of c variable hetero_sum hetero_num =
     bindE (bindE (item c ''device_group_union'') as_items) (\<lambda>dgs.
     bindE (bindE (list_at dgs hetero_num) as_items) (\<lambda>group.
     bindE (bindE (item c ''split'') as_dict) (\<lambda>splits.
     bindE (split_of (int hetero_sum) hetero_num splits) (\<lambda>split.
     bindE (bindE (item c ''dup'') as_items) (\<lambda>dup.
     assertE (length dup = hetero_sum)
       (bindE (bindE (list_at dup hetero_num) as_int) (\<lambda>copies.
        let states = AList.updates (map fst split) (map snd split) [(- 1, copies)];
            dims = sort (map fst split) in
        bindE (if variable then (if has_key (projr (as_dict c)) ''zero'' then item c ''zero'' else Inl AssertionError) else Inr (Flag False)) (\<lambda>z.
        bindE (mapE as_int group) (\<lambda>devices.
          Inr (\<lparr>num_devices = int (length group * hetero_sum), states = states,
                 order = (if variable then [- 1] @ dims else dims @ [- 1]), zero_flag = z\<rparr>, devices))))))))))"

definition config2ds :: "config \<Rightarrow> ((ds_args list \<times> int) \<times> int list list) result" where
  "config2ds c =
     bindE (item c ''type'') (\<lambda>ty.
     if ty \<noteq> Text ''placeholder'' \<and> ty \<noteq> Text ''variable'' then Inl RuntimeError
     else bindE (bindE (item c ''device_group_union'') as_items) (\<lambda>dgs.
       let hetero_sum = length dgs;
           hetero_dim = (if hetero_sum = 1 then - 3 else if ty = Text ''placeholder'' then 0 else - 1) in
       bindE (mapE (states_of c (ty = Text ''variable'') hetero_sum) [0..<hetero_sum]) (\<lambda>r.
         Inr ((map fst r, hetero_dim), map snd r))))"

definition parse_multi_ds_parallel_config ::
  "config list \<Rightarrow> string \<Rightarrow> int \<Rightarrow> ((ds_args list \<times> int) list \<times> int list list list) result" where
  "parse_multi_ds_parallel_config ds_parallel_configs module_name wanted =
     bindE (get_multi_ds_parallel_config ds_parallel_configs module_name wanted) (\<lambda>leaves.
     bindE (mapE config2ds leaves) (\<lambda>r. Inr (map fst r, map snd r)))"

definition get_dg_from_union :: "('g \<Rightarrow> bool) \<Rightarrow> 'g list \<Rightarrow> (nat \<times> 'g) option" where
  "get_dg_from_union contains dg_union =
     (case filter (\<lambda>(i, dg). contains dg) (enumerate 0 dg_union) of [] \<Rightarrow> None | found # _ \<Rightarrow> Some found)"

definition simple_check_blocks_range :: "config list \<Rightarrow> int \<Rightarrow> string \<Rightarrow> unit result" where
  "simple_check_blocks_range ds_parallel_configs num_hidden_layers model =
     bindE (list_at ds_parallel_configs 0) (\<lambda>c.
     bindE (bindE (item c model) (\<lambda>m. item m ''blocks'')) (\<lambda>b.
     bindE (as_dict b) (\<lambda>blocks.
     bindE (mapE (\<lambda>(k, block). item block ''range'') blocks) (\<lambda>ranges.
     bindE (bindE (list_at ranges 0) (\<lambda>r. at r 0)) (\<lambda>lo.
       if lo \<noteq> Num 0 then Inl AssertionError
       else bindE (bindE (py_nth ranges (- 1)) (\<lambda>r. at r (- 1))) (\<lambda>hi.
         assertE (hi = Num (num_hidden_layers - 1)) (Inr ())))))))"

section \<open>The queue and the recursion over the tree\<close>

text \<open>What the loop computes: the setting goes to every weight that has none; a typed dictionary is not entered.\<close>

fun spread :: "config \<Rightarrow> config \<Rightarrow> config" where
  "spread z (Dict d) =
     (if has_key d ''type'' then Dict (if takes_zero d then AList.update ''zero'' z d else d)
      else Dict (map (\<lambda>(k, v). (k, spread z v)) d))"
| "spread z c = c"

fun tidy :: "config \<Rightarrow> bool" where
  "tidy (Dict d) \<longleftrightarrow> distinct (map fst d) \<and> (\<forall>(k, v) \<in> set d. tidy v)"
| "tidy c \<longleftrightarrow> True"

fun config_at :: "path \<Rightarrow> config \<Rightarrow> config option" where
  "config_at [] c = Some c"
| "config_at (k # p) (Dict d) = (case map_of d k of None \<Rightarrow> None | Some v \<Rightarrow> config_at p v)"
| "config_at (k # p) c = None"

fun upd_at :: "path \<Rightarrow> (config \<Rightarrow> config) \<Rightarrow> config \<Rightarrow> config" where
  "upd_at [] f c = f c"
| "upd_at (k # p) f (Dict d) = Dict (map (\<lambda>(k', v). if k' = k then (k', upd_at p f v) else (k', v)) d)"
| "upd_at (k # p) f c = c"

fun apart :: "path \<Rightarrow> path \<Rightarrow> bool" where
  "apart (k # p) (l # q) \<longleftrightarrow> k \<noteq> l \<or> apart p q"
| "apart p q \<longleftrightarrow> False"

lemma put_at_upd: "put_at p c r = upd_at p (\<lambda>_. c) r"
  by (induction p c r rule: put_at.induct) (auto intro!: map_cong)

lemma upd_at_id: "upd_at p (\<lambda>c. c) r = r"
proof (induction p "\<lambda>c::config. c" r rule: upd_at.induct)
  case (2 k p d)
  then have "map (\<lambda>(k', v). if k' = k then (k', upd_at p (\<lambda>c. c) v) else (k', v)) d = d" by (intro map_idI) auto
  then show ?case by simp
qed simp_all

lemma upd_at_append: "upd_at (p @ q) f r = upd_at p (upd_at q f) r"
  by (induction p "upd_at q f" r rule: upd_at.induct) (auto intro!: map_cong)

lemma upd_at_twice: "upd_at p f (upd_at p g r) = upd_at p (\<lambda>c. f (g c)) r"
  by (induction p g r rule: upd_at.induct) (auto intro!: map_cong)

lemma upd_at_apart: "apart p q \<Longrightarrow> upd_at p f (upd_at q g r) = upd_at q g (upd_at p f r)"
proof (induction p q arbitrary: r rule: apart.induct)
  case (1 k p l q)
  then show ?case by (cases r) (auto intro!: map_cong split: if_splits)
qed simp_all

lemma apart_sym: "apart p q \<Longrightarrow> apart q p"
  by (induction p q rule: apart.induct) auto

lemma apart_append: "apart p q \<Longrightarrow> apart (p @ ps) (q @ qs)"
  by (induction p q rule: apart.induct) auto

lemma apart_children: "k \<noteq> l \<Longrightarrow> apart (p @ [k]) (p @ [l])"
  by (induction p) auto

lemma map_of_upd: "map_of (map (\<lambda>(k', v). if k' = k then (k', f v) else (k', v)) d) l =
    (if l = k then map_option f (map_of d l) else map_of d l)"
  by (induction d) auto

lemma config_at_apart: "apart p q \<Longrightarrow> config_at q (upd_at p f r) = config_at q r"
proof (induction p q arbitrary: r rule: apart.induct)
  case (1 k p l q)
  then show ?case by (cases r) (auto simp: map_of_upd split: option.split)
qed simp_all

lemma upd_at_cong: "tidy r \<Longrightarrow> config_at p r = Some c \<Longrightarrow> g c = h c \<Longrightarrow> upd_at p g r = upd_at p h r"
proof (induction p arbitrary: r)
  case (Cons k p)
  from Cons.prems(2) obtain d where d: "r = Dict d" by (cases r) simp_all
  from Cons.prems(2) obtain v where v: "map_of d k = Some v" "config_at p v = Some c" by (auto simp: d split: option.splits)
  have "upd_at p g w = upd_at p h w" if "(k, w) \<in> set d" for w
  proof -
    have "w = v" using Cons.prems(1) v(1) that by (simp add: d)
    moreover have "tidy v" using Cons.prems(1) map_of_SomeD [OF v(1)] by (auto simp: d)
    ultimately show ?thesis using Cons.IH v(2) Cons.prems(3) by blast
  qed
  then show ?case by (auto simp: d intro!: map_cong)
qed simp

lemma fst_upd: "map fst (map (\<lambda>(k', v). if k' = k then (k', f v) else (k', v)) d) = map fst d"
  by (induction d) auto

lemma tidy_upd: "tidy r \<Longrightarrow> (\<And>c. tidy c \<Longrightarrow> tidy (f c)) \<Longrightarrow> tidy (upd_at p f r)"
proof (induction p f r rule: upd_at.induct)
  case (2 k p f d)
  have "tidy (upd_at p f v)" if "(k, v) \<in> set d" for v using 2 that by auto
  then show ?case using 2(2) unfolding upd_at.simps tidy.simps fst_upd by (auto split: if_splits)
qed simp_all

lemma tidy_at: "tidy r \<Longrightarrow> config_at p r = Some c \<Longrightarrow> tidy c"
proof (induction p r rule: config_at.induct)
  case (2 k p d)
  then show ?case by (auto split: option.splits dest!: map_of_SomeD)
qed simp_all

lemma config_at_append: "config_at p r = Some c \<Longrightarrow> config_at (p @ q) r = config_at q c"
  by (induction p r rule: config_at.induct) (auto split: option.splits)

lemma children_upd:
  "foldl (\<lambda>r (q, c). upd_at q (\<lambda>_. f c) r) r (children p d) =
     upd_at p (\<lambda>s. foldl (\<lambda>s (k, v). upd_at [k] (\<lambda>_. f v) s) s d) r"
proof (induction d arbitrary: r)
  case Nil
  show ?case by (simp add: children_def upd_at_id)
next
  case (Cons x d)
  then show ?case by (simp add: children_def case_prod_unfold upd_at_append upd_at_twice)
qed

lemma children_of_dict:
  assumes "distinct (map fst d)"
  shows "foldl (\<lambda>s (k, v). upd_at [k] (\<lambda>_. f v) s) (Dict d) d = Dict (map (\<lambda>(k, v). (k, f v)) d)"
proof -
  have "distinct (map fst (e @ d)) \<Longrightarrow>
      foldl (\<lambda>s (k, v). upd_at [k] (\<lambda>_. f v) s) (Dict (map (\<lambda>(k, v). (k, f v)) e @ d)) d = Dict (map (\<lambda>(k, v). (k, f v)) (e @ d))" for e
  proof (induction d arbitrary: e)
    case (Cons x d)
    obtain k v where x: "x = (k, v)" by (cases x)
    have "map (\<lambda>(k', v'). if k' = k then (k', f v) else (k', v')) e' = e'" if "k \<notin> fst ` set e'" for e' :: "(string \<times> config) list"
      using that by (intro map_idI) force
    moreover have "fst ` set (map (\<lambda>(k, v). (k, f v)) e) = fst ` set e" by force
    then have "k \<notin> fst ` set (map (\<lambda>(k, v). (k, f v)) e)" using Cons.prems by (simp add: x)
    moreover have "k \<notin> fst ` set d" using Cons.prems by (simp add: x)
    moreover have "upd_at [k] (\<lambda>_. f v) (Dict d') = Dict (map (\<lambda>(k', v'). if k' = k then (k', f v) else (k', v')) d')" for d'
      by (auto intro!: map_cong)
    ultimately have "upd_at [k] (\<lambda>_. f v) (Dict (map (\<lambda>(k, v). (k, f v)) e @ x # d)) = Dict (map (\<lambda>(k, v). (k, f v)) (e @ [x]) @ d)"
      by (simp add: x del: map_map upd_at.simps)
    then show ?case using Cons.IH [of "e @ [x]"] Cons.prems by (simp add: x del: upd_at.simps)
  qed simp
  from this [of "[]"] show ?thesis using assms by simp
qed

lemma tidy_spread: "tidy z \<Longrightarrow> tidy c \<Longrightarrow> tidy (spread z c)"
proof (induction z c rule: spread.induct)
  case (1 z d)
  then show ?case by (auto simp: comp_def case_prod_unfold distinct_update takes_zero_def update_absent)
qed simp_all

lemma upd_at_foldl:
  "\<forall>(q, e) \<in> set queue. apart p q \<Longrightarrow>
     upd_at p f (foldl (\<lambda>r (p, c). upd_at p (g c) r) root queue) = foldl (\<lambda>r (p, c). upd_at p (g c) r) (upd_at p f root) queue"
  by (induction queue arbitrary: root) (auto simp: upd_at_apart)

lemma config_at_foldl:
  "\<forall>(q, e) \<in> set queue. apart p q \<Longrightarrow> config_at p (foldl (\<lambda>r (p, c). upd_at p (g c) r) root queue) = config_at p root"
  by (induction queue arbitrary: root) (auto simp: config_at_apart dest: apart_sym)

lemma tidy_foldl:
  "tidy root \<Longrightarrow> \<forall>(q, e) \<in> set queue. tidy (h e) \<Longrightarrow> tidy (foldl (\<lambda>r (p, c). upd_at p (\<lambda>_. h c) r) root queue)"
  by (induction queue arbitrary: root) (auto simp: tidy_upd)

lemma apart_to_children: "apart q p \<Longrightarrow> x \<in> set (children p d) \<Longrightarrow> apart q (fst x)"
  using apart_append [of q p "[]"] by (auto simp: children_def)

lemma sorted_children: "distinct (map fst d) \<Longrightarrow> sorted_wrt (\<lambda>x y. apart (fst x) (fst y)) (children p d)"
  by (induction d) (force simp: children_def intro!: apart_children)+

lemma spread_loop_ok:
  assumes "tidy z"
  shows "tidy root \<Longrightarrow> \<forall>(p, c) \<in> set queue. config_at p root = Some c \<Longrightarrow>
    sorted_wrt (\<lambda>x y. apart (fst x) (fst y)) queue \<Longrightarrow>
    spread_loop z root queue = foldl (\<lambda>r (p, c). upd_at p (\<lambda>_. spread z c) r) root queue"
proof (induction queue arbitrary: root rule: measure_induct_rule [of "\<lambda>q. sum_list (map (\<lambda>(p, c). nodes c) q)"])
  case (less queue)
  let ?F = "\<lambda>r (p, c). upd_at p (\<lambda>_. spread z c) r"
  show ?case
  proof (cases queue)
    case (Cons x rest)
    obtain p c where x: "x = (p, c)" by (cases x)
    note queue = Cons [unfolded x]
    have at: "config_at p root = Some c" "\<forall>(q, e) \<in> set rest. config_at q root = Some e"
      and apart: "\<forall>(q, e) \<in> set rest. apart p q" "sorted_wrt (\<lambda>x y. apart (fst x) (fst y)) rest"
      using less.prems(2,3) by (auto simp: queue)
    have smaller: "sum_list (map (\<lambda>(p, c). nodes c) rest) < sum_list (map (\<lambda>(p, c). nodes c) queue)"
      by (cases c) (simp_all add: queue)
    have step: "spread_loop z (upd_at p (\<lambda>_. spread z c) root) rest = foldl ?F root queue" if "tidy (spread z c)"
    proof -
      have "\<forall>(q, e) \<in> set rest. config_at q (upd_at p (\<lambda>_. spread z c) root) = Some e"
        using at(2) apart(1) config_at_apart [of p] by fastforce
      then show ?thesis
        using less.IH [OF smaller, of "upd_at p (\<lambda>_. spread z c) root"] apart(2) that less.prems(1) by (simp add: queue tidy_upd)
    qed
    have tidy: "tidy c" using tidy_at [OF less.prems(1) at(1)] .
    have keep: "upd_at p (\<lambda>_. c) root = root"
      using upd_at_cong [OF less.prems(1) at(1), of "\<lambda>_. c" "\<lambda>c. c"] by (simp add: upd_at_id)
    show ?thesis
    proof (cases c)
      case (Dict d)
      show ?thesis
      proof (cases "has_key d ''type''")
        case True
        from step [OF tidy_spread [OF assms tidy]] show ?thesis using True keep by (cases "takes_zero d") (simp_all add: queue Dict put_at_upd)
      next
        case False
        have "sum_list (map (\<lambda>(p, c). nodes c) (rest @ children p d)) < sum_list (map (\<lambda>(p, c). nodes c) queue)"
          by (simp add: queue Dict nodes_children)
        moreover have "\<forall>(q, e) \<in> set (rest @ children p d). config_at q root = Some e"
          using at tidy by (auto simp: children_def config_at_append Dict)
        moreover have "sorted_wrt (\<lambda>x y. apart (fst x) (fst y)) (rest @ children p d)"
        proof -
          have "apart (fst x) (fst y)" if "x \<in> set rest" "y \<in> set (children p d)" for x y
          proof -
            have "apart p (fst x)" using apart(1) that(1) by (cases x) auto
            then show ?thesis using apart_to_children [OF apart_sym that(2)] by simp
          qed
          then show ?thesis using apart(2) tidy sorted_children [of d p] by (simp add: Dict sorted_wrt_append)
        qed
        ultimately have "spread_loop z root queue = foldl ?F (foldl ?F root rest) (children p d)"
          using less.IH [of "rest @ children p d" root] less.prems(1) False by (simp add: queue Dict)
        also have "\<dots> = upd_at p (\<lambda>_. spread z c) (foldl ?F root rest)"
          unfolding children_upd
        proof (rule upd_at_cong)
          have "\<forall>(q, e) \<in> set rest. tidy (spread z e)"
            using at(2) tidy_at [OF less.prems(1)] tidy_spread [OF assms] by blast
          then show "tidy (foldl ?F root rest)" by (rule tidy_foldl [OF less.prems(1)])
          show "config_at p (foldl ?F root rest) = Some (Dict d)" using config_at_foldl [OF apart(1)] at(1) Dict by simp
          show "foldl (\<lambda>s (k, v). upd_at [k] (\<lambda>_. spread z v) s) (Dict d) d = spread z c"
            using children_of_dict [of d "spread z"] tidy False by (simp add: Dict)
        qed
        also have "\<dots> = foldl ?F root queue" using apart(1) by (simp add: queue upd_at_foldl)
        finally show ?thesis .
      qed
    qed (use step tidy keep in \<open>simp_all add: queue\<close>)
  qed simp
qed

lemma spread_all:
  assumes "tidy (Dict d)" and "map_of d ''zero'' = Some z"
  shows "config_spread_zero (Dict d) = Inr (Dict (map (\<lambda>(k, v). (k, spread z v)) d))"
proof -
  have "tidy z" using assms map_of_SomeD by fastforce
  moreover have "\<forall>(p, c) \<in> set (children [] d). config_at p (Dict d) = Some c" using assms(1) by (auto simp: children_def)
  ultimately have "spread_loop z (Dict d) (children [] d) = foldl (\<lambda>r (p, c). upd_at p (\<lambda>_. spread z c) r) (Dict d) (children [] d)"
    using spread_loop_ok assms(1) sorted_children [of d "[]"] by simp
  also have "\<dots> = Dict (map (\<lambda>(k, v). (k, spread z v)) d)"
    unfolding children_upd using children_of_dict [of d "spread z"] assms(1) by simp
  finally show ?thesis using assms(2) by (simp add: config_spread_zero_def py_lookup_def)
qed

text \<open>C16: The queue of \<open>config_spread_zero\<close> computes the recursion over the tree: the setting \<open>zero\<close> of the
  root is written into every typed dictionary of type \<open>variable\<close> that has none of its own, at every depth,
  and nothing else changes.\<close>

theorem zero_reaches_every_weight:
  assumes "tidy (Dict d)" and "map_of d ''zero'' = Some z"
  shows "config_spread_zero (Dict d) = Inr (Dict (map (\<lambda>(k, v). (k, spread z v)) d))"
  using assms by (rule spread_all)

section \<open>What the search can find\<close>

definition passed_over :: "int \<Rightarrow> config \<Rightarrow> bool" where
  "passed_over wanted c = (case c of Dict d \<Rightarrow> outside_range wanted d = Inr True | _ \<Rightarrow> False)"

fun found :: "string \<Rightarrow> int \<Rightarrow> config \<Rightarrow> config list" where
  "found m wanted (Dict d) =
     (case map_of d m of
        Some c \<Rightarrow> [c]
      | None \<Rightarrow> concat (map (\<lambda>(k, v). if passed_over wanted v then [] else found m wanted v) d))"
| "found m wanted c = []"

fun ranged :: "int \<Rightarrow> config \<Rightarrow> bool" where
  "ranged wanted (Dict d) \<longleftrightarrow> (\<exists>b. outside_range wanted d = Inr b) \<and> (\<forall>(k, v) \<in> set d. ranged wanted v)"
| "ranged wanted c \<longleftrightarrow> True"

definition inner :: "int \<Rightarrow> (string \<times> config) list \<Rightarrow> (string \<times> config) list list" where
  "inner wanted d = concat (map (\<lambda>(k, v). case v of Dict e \<Rightarrow> if passed_over wanted v then [] else [e] | _ \<Rightarrow> []) d)"

lemma inner_dicts_ok:
  assumes "\<forall>(k, v) \<in> set d. ranged wanted v"
  shows "inner_dicts wanted d = Inr (inner wanted d)"
proof -
  have "foldE (\<lambda>ds (k, v). case v of
         Dict e \<Rightarrow> bindE (outside_range wanted e) (\<lambda>b. Inr (if b then ds else ds @ [e]))
       | _ \<Rightarrow> Inr ds) acc d = Inr (acc @ inner wanted d)" for acc
    using assms
  proof (induction d arbitrary: acc)
    case (Cons x d)
    obtain k v where x: "x = (k, v)" by (cases x)
    from Cons show ?case by (cases v) (auto simp: x inner_def passed_over_def)
  qed (simp add: inner_def)
  then show ?thesis by (simp add: inner_dicts_def)
qed

lemma inner_member: "e \<in> set (inner wanted d) \<longleftrightarrow> (\<exists>k. (k, Dict e) \<in> set d \<and> \<not> passed_over wanted (Dict e))"
proof -
  have "e \<in> set (case x of (k, v) \<Rightarrow> case v of Dict e \<Rightarrow> if passed_over wanted v then [] else [e] | _ \<Rightarrow> []) \<longleftrightarrow>
      snd x = Dict e \<and> \<not> passed_over wanted (Dict e)" for x
    by (cases x; cases "snd x") auto
  then show ?thesis by (auto simp: inner_def)
qed

lemma found_inner:
  assumes "map_of d m = None"
  shows "set (found m wanted (Dict d)) = (\<Union>e \<in> set (inner wanted d). set (found m wanted (Dict e)))"
proof -
  have "c \<in> set (found m wanted (Dict d)) \<longleftrightarrow> (\<exists>(k, v) \<in> set d. \<not> passed_over wanted v \<and> c \<in> set (found m wanted v))" for c
    using assms by (auto split: if_splits)
  also have "\<dots> c \<longleftrightarrow> (\<exists>e \<in> set (inner wanted d). c \<in> set (found m wanted (Dict e)))" for c
  proof -
    have "c \<in> set (found m wanted v) \<Longrightarrow> \<exists>e. v = Dict e" for v by (cases v) simp_all
    then show ?thesis unfolding Bex_def inner_member by blast
  qed
  finally show ?thesis by blast
qed

lemma ranged_inner: "ranged wanted (Dict d) \<Longrightarrow> e \<in> set (inner wanted d) \<Longrightarrow> ranged wanted (Dict e)"
  unfolding inner_member ranged.simps(1) [of wanted d] by blast

lemma inner_nodes: "ranged wanted (Dict d) \<Longrightarrow> sum_list (map (\<lambda>e. nodes (Dict e)) (inner wanted d)) < nodes (Dict d)"
  by (rule inner_dicts_nodes, rule inner_dicts_ok) simp

lemma find_module_unique:
  assumes "\<forall>d \<in> set queue. ranged wanted (Dict d)" and "(\<Union>d \<in> set queue. set (found m wanted (Dict d))) = {c}"
  shows "find_module m wanted queue = Inr (Some c)"
  using assms
proof (induction queue rule: measure_induct_rule [of "\<lambda>q. sum_list (map (\<lambda>d. nodes (Dict d)) q)"])
  case (less queue)
  then obtain d rest where queue: "queue = d # rest" by (cases queue) auto
  show ?case
  proof (cases "map_of d m")
    case (Some e)
    then have "e = c" using less.prems(2) by (auto simp: queue)
    then show ?thesis using Some by (simp add: queue)
  next
    case None
    have ok: "inner_dicts wanted d = Inr (inner wanted d)" using less.prems(1) by (intro inner_dicts_ok) (simp add: queue)
    have "sum_list (map (\<lambda>d. nodes (Dict d)) (rest @ inner wanted d)) < sum_list (map (\<lambda>d. nodes (Dict d)) queue)"
      using inner_nodes [of wanted d] less.prems(1) by (simp add: queue)
    moreover have "\<forall>e \<in> set (rest @ inner wanted d). ranged wanted (Dict e)"
      using less.prems(1) ranged_inner [of wanted d] by (auto simp: queue simp del: ranged.simps)
    moreover have "(\<Union>e \<in> set (rest @ inner wanted d). set (found m wanted (Dict e))) = {c}"
      using less.prems(2) found_inner [OF None, of wanted] by (simp add: queue Un_commute del: found.simps)
    ultimately have "find_module m wanted (rest @ inner wanted d) = Inr (Some c)" by (rule less.IH)
    then show ?thesis using None ok by (simp add: queue)
  qed
qed

section \<open>The generated configuration\<close>

lemma str_nat_inj: "str_nat m = str_nat n \<longleftrightarrow> m = n"
  using read_str_nat by (metis option.inject)

definition zero_of :: "gpt_args \<Rightarrow> config" where
  "zero_of a = Flag (if dp a = 1 then False else zero a)"

definition weight_leaf :: "config \<Rightarrow> (string \<times> config) list \<Rightarrow> nat list \<Rightarrow> nat list list \<Rightarrow> config" where
  "weight_leaf z split dup dgs =
     Dict [(''split'', Dict split), (''dup'', ints dup), (''device_group_union'', Items (map ints dgs)),
       (''type'', Text ''variable''), (''zero'', z)]"

lemma spread_leaf:
  "spread z (leaf split dup dgs ''variable'') = weight_leaf z split dup dgs"
  "spread z (leaf split dup dgs ''placeholder'') = leaf split dup dgs ''placeholder''"
  by (simp_all add: leaf_def weight_leaf_def takes_zero_def)

lemma tidy_ints [simp]: "tidy (ints ns)"
  by (simp add: ints_def)

lemma spread_ints [simp]: "spread z (ints ns) = ints ns"
  by (simp add: ints_def)

lemma tidy_leaf: "split = [] \<or> split = [(k, ints ns)] \<Longrightarrow> tidy (leaf split dup dgs ty)"
  by (auto simp: leaf_def)

lemmas leaves = plain_weight_def split_weight_def batch_input_def

definition outer_config :: "gpt_args \<Rightarrow> (string \<times> config) list \<Rightarrow> nat list list \<Rightarrow> nat list list \<Rightarrow> (string \<times> config) list" where
  "outer_config a blocks first final =
     [(''zero'', zero_of a), (''devices'', ints [0..<num_gpus a]), (''input'', batch_input a first),
      (''gpt'', Dict [(''wte'', split_weight a ''0'' first), (''wpe'', plain_weight a first), (''blocks'', Dict blocks),
                      (''layernorm_final'', plain_weight a final)]),
      (''lm_head'', split_weight a ''1'' final), (''label'', batch_input a final)]"

definition all_blocks :: "gpt_args \<Rightarrow> nat list list list \<Rightarrow> (string \<times> config) list" where
  "all_blocks a dgss = map (\<lambda>(block_id, dgs). (''blocks'' @ str_nat block_id, block_config a block_id dgs)) (zip [0..<num_layers a] dgss)"

lemma generate_ok:
  "generate_gpt_3d_config a = Inr c \<longleftrightarrow> 0 < pp a \<and> (\<exists>dgss. mapE (hybrid_device_group a) [0..<num_layers a] = Inr dgss \<and> dgss \<noteq> [] \<and>
     c = Dict (outer_config a (all_blocks a dgss) (hd dgss) (last dgss)))"
  by (auto simp: generate_gpt_3d_config_def bindE_Inr_iff outer_config_def all_blocks_def zero_of_def Let_def)

lemma tidy_block: "tidy (block_config a b dgs)"
  by (simp add: block_config_def leaves tidy_leaf)

lemma tidy_outer: "length dgss = num_layers a \<Longrightarrow> tidy (Dict (outer_config a (all_blocks a dgss) first final))"
proof -
  assume len: "length dgss = num_layers a"
  have "map fst (all_blocks a dgss) = map (\<lambda>b. ''blocks'' @ str_nat b) [0..<num_layers a]"
    using len by (intro nth_equalityI) (simp_all add: all_blocks_def case_prod_unfold)
  moreover have "inj_on (\<lambda>b. ''blocks'' @ str_nat b) {0..<num_layers a}" by (simp add: inj_on_def str_nat_inj)
  ultimately have "distinct (map fst (all_blocks a dgss))" by (simp add: distinct_map)
  moreover have "\<forall>(k, v) \<in> set (all_blocks a dgss). tidy v" by (auto simp: all_blocks_def tidy_block)
  ultimately show ?thesis by (simp add: outer_config_def leaves tidy_leaf zero_of_def)
qed

text \<open>The modules of a block, with the dimension along which their weight is split over a stage.\<close>

definition block_modules :: "(string \<times> string option) list" where
  "block_modules = [(''layernorm1'', None), (''qkv'', Some ''1''), (''dense'', Some ''0''), (''layernorm2'', None),
     (''dense_h_to_4h'', Some ''1''), (''dense_4h_to_h'', Some ''0'')]"

definition module_leaf :: "gpt_args \<Rightarrow> nat list list \<Rightarrow> string option \<Rightarrow> config" where
  "module_leaf a dgs dim =
     (case dim of
        None \<Rightarrow> weight_leaf (zero_of a) [] (map (\<lambda>i. i * dp a) (degrees dgs)) dgs
      | Some k \<Rightarrow> weight_leaf (zero_of a) [(k, ints (degrees dgs))] (dp_union a) dgs)"

lemma spread_block:
  "spread (zero_of a) (block_config a b dgs) =
     Dict [(''range'', ints [b]),
           (''layernorm1'', module_leaf a dgs None),
           (''attn'', Dict [(''qkv'', module_leaf a dgs (Some ''1'')), (''dense'', module_leaf a dgs (Some ''0''))]),
           (''layernorm2'', module_leaf a dgs None),
           (''mlp'', Dict [(''dense_h_to_4h'', module_leaf a dgs (Some ''1'')), (''dense_4h_to_h'', module_leaf a dgs (Some ''0''))])]"
  by (simp add: block_config_def plain_weight_def split_weight_def spread_leaf module_leaf_def)

lemma found_ints [simp]: "found m w (ints ns) = []" "\<not> passed_over w (ints ns)" "ranged w (ints ns)"
  by (simp_all add: ints_def passed_over_def)

lemma leaf_facts:
  assumes "dim \<in> {None, Some ''0'', Some ''1''}" and "m \<in> fst ` set block_modules"
  shows "found m w (module_leaf a dgs dim) = []" "\<not> passed_over w (module_leaf a dgs dim)" "ranged w (module_leaf a dgs dim)"
  using assms by (auto simp: module_leaf_def weight_leaf_def block_modules_def passed_over_def outside_range_def zero_of_def)

lemma input_facts:
  assumes "m \<in> fst ` set block_modules"
  shows "found m w (batch_input a dgs) = []" "\<not> passed_over w (batch_input a dgs)" "ranged w (batch_input a dgs)"
  using assms by (auto simp: leaves leaf_def block_modules_def passed_over_def outside_range_def)

lemma range_facts:
  "outside_range (int w) ((''range'', ints [b]) # d) = Inr (w \<noteq> b)"
  by (auto simp: outside_range_def ints_def py_nth_def)

lemma block_facts:
  assumes "(m, dim) \<in> set block_modules"
  shows "found m (int b) (spread (zero_of a) (block_config a b dgs)) = [module_leaf a dgs dim]"
    and "passed_over (int w) (spread (zero_of a) (block_config a b dgs)) \<longleftrightarrow> w \<noteq> b"
    and "ranged (int w) (spread (zero_of a) (block_config a b dgs))"
proof -
  have m: "m \<in> fst ` set block_modules" using assms by force
  note facts = leaf_facts [OF _ m]
  show "passed_over (int w) (spread (zero_of a) (block_config a b dgs)) \<longleftrightarrow> w \<noteq> b"
    by (simp add: spread_block passed_over_def range_facts)
  show "ranged (int w) (spread (zero_of a) (block_config a b dgs))"
    by (simp add: spread_block range_facts facts) (simp add: outside_range_def, blast)
  have pair: "\<not> passed_over (int b) (Dict [(x, c), (y, d)])" if "x \<noteq> ''range''" "y \<noteq> ''range''" for x c y d
    using that by (simp add: passed_over_def outside_range_def)
  have cases: "m = ''layernorm1'' \<and> dim = None \<or> m = ''qkv'' \<and> dim = Some ''1'' \<or> m = ''dense'' \<and> dim = Some ''0'' \<or>
      m = ''layernorm2'' \<and> dim = None \<or> m = ''dense_h_to_4h'' \<and> dim = Some ''1'' \<or> m = ''dense_4h_to_h'' \<and> dim = Some ''0''"
    using assms unfolding block_modules_def by simp
  have empty: "found m (int b) (module_leaf a dgs d) = []" "\<not> passed_over (int b) (module_leaf a dgs d)"
    if "d \<in> {None, Some ''0'', Some ''1''}" for d using leaf_facts [OF that m] by blast+
  show "found m (int b) (spread (zero_of a) (block_config a b dgs)) = [module_leaf a dgs dim]"
    unfolding spread_block found.simps
    using cases empty [of None] empty [of "Some ''0''"] empty [of "Some ''1''"]
    by (elim disjE conjE; simp only: map_of.simps) (simp_all add: pair)
qed

text \<open>The whole tree: the other leaves do not answer to the name of a block's module.\<close>

definition spread_blocks :: "gpt_args \<Rightarrow> nat list list list \<Rightarrow> (string \<times> config) list" where
  "spread_blocks a dgss = map (\<lambda>(k, v). (k, spread (zero_of a) v)) (all_blocks a dgss)"

lemma spread_outer:
  "Dict (map (\<lambda>(k, v). (k, spread (zero_of a) v)) (outer_config a (all_blocks a dgss) first final)) =
   Dict [(''zero'', zero_of a), (''devices'', ints [0..<num_gpus a]), (''input'', batch_input a first),
      (''gpt'', Dict [(''wte'', module_leaf a first (Some ''0'')), (''wpe'', module_leaf a first None),
                      (''blocks'', Dict (spread_blocks a dgss)), (''layernorm_final'', module_leaf a final None)]),
      (''lm_head'', module_leaf a final (Some ''1'')), (''label'', batch_input a final)]"
proof -
  have "\<not> has_key (all_blocks a dgss) ''type''" by (auto simp: all_blocks_def)
  moreover have "\<not> has_key (all_blocks a dgss) ''zero''" by (auto simp: all_blocks_def)
  ultimately show ?thesis
    by (simp add: outer_config_def spread_blocks_def module_leaf_def plain_weight_def split_weight_def batch_input_def spread_leaf zero_of_def)
qed

lemma spread_blocks_member:
  "length dgss = num_layers a \<Longrightarrow>
     set (spread_blocks a dgss) = (\<lambda>b. (''blocks'' @ str_nat b, spread (zero_of a) (block_config a b (dgss ! b)))) ` {0..<num_layers a}"
  by (force simp: spread_blocks_def all_blocks_def set_zip image_iff)

lemma found_blocks:
  assumes "length dgss = num_layers a" and "b < num_layers a" and "(m, dim) \<in> set block_modules"
  shows "set (found m (int b) (Dict (spread_blocks a dgss))) = {module_leaf a (dgss ! b) dim}"
    and "\<not> passed_over (int b) (Dict (spread_blocks a dgss))" and "ranged (int b) (Dict (spread_blocks a dgss))"
proof -
  note member = spread_blocks_member [OF assms(1)]
  have key: "\<not> has_key (spread_blocks a dgss) k" if "hd k \<noteq> CHR ''b''" for k
    using that unfolding member by auto
  have "''range'' \<notin> fst ` set (spread_blocks a dgss)" "hd m \<noteq> CHR ''b''"
    using key assms(3) by (auto simp: block_modules_def)
  then have none: "map_of (spread_blocks a dgss) ''range'' = None" "map_of (spread_blocks a dgss) m = None"
    using key [of m] by (auto simp: map_of_eq_None_iff)
  show "\<not> passed_over (int b) (Dict (spread_blocks a dgss))" by (simp add: passed_over_def outside_range_def none)
  show "ranged (int b) (Dict (spread_blocks a dgss))"
    by (auto simp: outside_range_def none member block_facts(3) [OF assms(3)])
  have "set (found m (int b) (Dict (spread_blocks a dgss))) =
      (\<Union>(k, v) \<in> set (spread_blocks a dgss). if passed_over (int b) v then {} else set (found m (int b) v))"
    unfolding found.simps none option.case by (simp only: set_concat set_map image_image case_prod_unfold if_distrib [of set] list.set(1))
  also have "\<dots> = {module_leaf a (dgss ! b) dim}"
    unfolding member using block_facts(1,2) [OF assms(3)] assms(2) by auto
  finally show "set (found m (int b) (Dict (spread_blocks a dgss))) = {module_leaf a (dgss ! b) dim}" .
qed

lemma find_block_module:
  assumes len: "length dgss = num_layers a" and b: "b < num_layers a" and m: "(m, dim) \<in> set block_modules"
    and root: "Dict d = Dict (map (\<lambda>(k, v). (k, spread (zero_of a) v)) (outer_config a (all_blocks a dgss) first final))"
  shows "find_module m (int b) [d] = Inr (Some (module_leaf a (dgss ! b) dim))"
proof (rule find_module_unique)
  have k: "m \<in> fst ` set block_modules" using m by force
  note blocks = found_blocks [OF len b m]
  note inputs = input_facts [OF k]
  have leaf: "found m (int b) (module_leaf a g e) = []" "\<not> passed_over (int b) (module_leaf a g e)" "ranged (int b) (module_leaf a g e)"
    if "e \<in> {None, Some ''0'', Some ''1''}" for e g using leaf_facts [OF that k] by blast+
  note leaf = leaf [of None] leaf [of "Some ''0''"] leaf [of "Some ''1''"]
  have d: "d = [(''zero'', zero_of a), (''devices'', ints [0..<num_gpus a]), (''input'', batch_input a first),
      (''gpt'', Dict [(''wte'', module_leaf a first (Some ''0'')), (''wpe'', module_leaf a first None),
                      (''blocks'', Dict (spread_blocks a dgss)), (''layernorm_final'', module_leaf a final None)]),
      (''lm_head'', module_leaf a final (Some ''1'')), (''label'', batch_input a final)]"
    using root unfolding spread_outer by simp
  have z: "found m (int b) (zero_of a) = []" "ranged (int b) (zero_of a)" by (simp_all add: zero_of_def)
  have names: "m \<notin> set [''zero'', ''devices'', ''input'', ''gpt'', ''lm_head'', ''label'', ''wte'', ''wpe'', ''blocks'', ''layernorm_final'']"
    using k by (auto simp: block_modules_def)
  define B where "B = Dict (spread_blocks a dgss)"
  note blocks = blocks [folded B_def]
  let ?gpt = "Dict [(''wte'', module_leaf a first (Some ''0'')), (''wpe'', module_leaf a first None), (''blocks'', B),
                      (''layernorm_final'', module_leaf a final None)]"
  have "\<exists>b. \<not> b" by blast
  then have gpt: "ranged (int b) ?gpt" using leaf blocks(3) by simp (simp add: outside_range_def)
  have gpt': "\<not> passed_over (int b) ?gpt" by (simp add: passed_over_def outside_range_def)
  have gpt'': "set (found m (int b) ?gpt) = {module_leaf a (dgss ! b) dim}" using names leaf blocks by simp
  show "\<forall>e \<in> set [d]. ranged (int b) (Dict e)"
    unfolding d B_def [symmetric] using gpt leaf inputs z \<open>\<exists>b. \<not> b\<close> by simp (simp add: outside_range_def)
  show "(\<Union>e \<in> set [d]. set (found m (int b) (Dict e))) = {module_leaf a (dgss ! b) dim}"
    unfolding d B_def [symmetric] using names gpt' gpt'' leaf inputs z by simp
qed

section \<open>The layouts of a block\<close>

definition split_dim :: "string \<Rightarrow> int" where
  "split_dim k = (if k = ''0'' then 0 else 1)"

definition module_layout :: "gpt_args \<Rightarrow> string option \<Rightarrow> nat list \<Rightarrow> ds_args" where
  "module_layout a dim devs =
     (case dim of
        None \<Rightarrow> \<lparr>num_devices = int (length devs * dp a), states = [(- 1, int (length devs * dp a))], order = [- 1], zero_flag = zero_of a\<rparr>
      | Some k \<Rightarrow> \<lparr>num_devices = int (length devs * dp a), states = [(- 1, int (dp a)), (split_dim k, int (length devs))],
          order = [- 1, split_dim k], zero_flag = zero_of a\<rparr>)"

definition layout_fits :: "ds_args \<Rightarrow> bool" where
  "layout_fits ds \<longleftrightarrow> prod_list (map snd (states ds)) = num_devices ds \<and> set (order ds) = fst ` set (states ds)"

lemma module_layout_fits: "layout_fits (module_layout a dim devs)"
  by (auto simp: module_layout_def layout_fits_def split: option.split)

lemma split_dim_text: "k = ''0'' \<or> k = ''1'' \<Longrightarrow> int_of_str k = Inr (split_dim k)"
proof -
  have "int_of_str (str_int 0) = Inr 0" "int_of_str (str_int 1) = Inr 1" by (rule int_of_str_int)+
  moreover have "str_int 0 = ''0''" "str_int 1 = ''1''" by code_simp+
  ultimately show "k = ''0'' \<or> k = ''1'' \<Longrightarrow> int_of_str k = Inr (split_dim k)" by (auto simp: split_dim_def)
qed

lemma as_items_ints [simp]: "as_items (ints ns) = Inr (map (\<lambda>n. Num (int n)) ns)"
  by (simp add: ints_def)

lemma mapE_ints: "mapE as_int (map (\<lambda>n. Num (int n)) ns) = Inr (map int ns)"
  by (induction ns) simp_all

lemma states_of_module:
  assumes "length dgs = dp a" and "i < dp a" and "dim \<in> {None, Some ''0'', Some ''1''}"
  shows "states_of (module_leaf a dgs dim) True (dp a) i = Inr (module_layout a dim (dgs ! i), map int (dgs ! i))"
proof (cases dim)
  case None
  then show ?thesis
    using assms by (simp add: states_of_def module_leaf_def weight_leaf_def py_lookup_def list_at_def split_of_def degrees_def
      mapE_ints module_layout_def zero_of_def)
next
  case (Some k)
  then have k: "k = ''0'' \<or> k = ''1''" using assms(3) by auto
  have "split_of (int (dp a)) i [(k, ints (degrees dgs))] = Inr [(split_dim k, int (length (dgs ! i)))]"
    using assms split_dim_text [OF k] by (simp add: split_of_def degrees_def list_at_def)
  moreover have "split_dim k \<noteq> - 1" by (simp add: split_dim_def)
  ultimately show ?thesis
    using assms Some by (simp add: states_of_def module_leaf_def weight_leaf_def py_lookup_def list_at_def dp_union_def ints_def
      mapE_ints module_layout_def zero_of_def)
qed

lemma config2ds_module:
  assumes "length dgs = dp a" and "dim \<in> {None, Some ''0'', Some ''1''}"
  shows "config2ds (module_leaf a dgs dim) =
    Inr ((map (module_layout a dim) dgs, if dp a = 1 then - 3 else - 1), map (map int) dgs)"
proof -
  have leaf: "item (module_leaf a dgs dim) ''type'' = Inr (Text ''variable'')"
    "item (module_leaf a dgs dim) ''device_group_union'' = Inr (Items (map ints dgs))"
    by (simp_all add: module_leaf_def weight_leaf_def py_lookup_def split: option.split)
  have run: "mapE (states_of (module_leaf a dgs dim) True (dp a)) [0..<dp a] =
      Inr (map (\<lambda>i. (module_layout a dim (dgs ! i), map int (dgs ! i))) [0..<dp a])"
    by (rule mapE_all_Inr) (use states_of_module [OF assms(1)] assms(2) in simp)
  have "map (\<lambda>i. (module_layout a dim (dgs ! i), map int (dgs ! i))) [0..<dp a] = map (\<lambda>devs. (module_layout a dim devs, map int devs)) dgs"
    using assms(1) by (intro nth_equalityI) simp_all
  then show ?thesis using assms(1) run by (simp add: config2ds_def leaf comp_def Let_def)
qed

text \<open>C9: In a generated configuration, after the setting \<open>zero\<close> has been passed on, the search for a module
  of a block and \<open>config2ds\<close> return exactly the devices of that block and one layout for every pipeline, with
  the weight split over the devices of the pipeline's stage and copied over the pipelines. The degrees of
  every layout multiply to the number of devices that is passed with it.\<close>

theorem generated_modules_have_their_layouts:
  assumes "generate_gpt_3d_config a = Inr c" and "config_spread_zero c = Inr c'"
    and "b < num_layers a" and "hybrid_device_group a b = Inr dgs" and "(m, dim) \<in> set block_modules"
  shows "parse_multi_ds_parallel_config [c'] m (int b) =
      Inr ([(map (module_layout a dim) dgs, if dp a = 1 then - 3 else - 1)], [map (map int) dgs]) \<and>
    (\<forall>devs \<in> set dgs. layout_fits (module_layout a dim devs))"
proof -
  obtain dgss where dgss: "mapE (hybrid_device_group a) [0..<num_layers a] = Inr dgss" "dgss \<noteq> []"
    and c: "c = Dict (outer_config a (all_blocks a dgss) (hd dgss) (last dgss))"
    using assms(1) by (auto simp: generate_ok)
  then have "list_all2 (\<lambda>b dgs. hybrid_device_group a b = Inr dgs) [0..<num_layers a] dgss" by (simp add: mapE_Inr_iff)
  then have len: "length dgss = num_layers a" and "hybrid_device_group a b = Inr (dgss ! b)"
    using assms(3) by (auto simp: list_all2_conv_all_nth)
  then have dgs: "dgss ! b = dgs" using assms(4) by simp
  have "length dgs = dp a"
    using assms(4) unfolding hybrid_device_group_def mapE_Inr_iff by (auto dest: list_all2_lengthD)
  have dim: "dim \<in> {None, Some ''0'', Some ''1''}" using assms(5) by (auto simp: block_modules_def)
  let ?d = "map (\<lambda>(k, v). (k, spread (zero_of a) v)) (outer_config a (all_blocks a dgss) (hd dgss) (last dgss))"
  have "map_of (outer_config a (all_blocks a dgss) (hd dgss) (last dgss)) ''zero'' = Some (zero_of a)" by (simp add: outer_config_def)
  from spread_all [OF tidy_outer [OF len] this] have "c' = Dict ?d" using assms(2) c by simp
  moreover have "find_module m (int b) [?d] = Inr (Some (module_leaf a dgs dim))"
    using find_block_module [OF len assms(3,5) refl] dgs by simp
  ultimately have "parse_multi_ds_parallel_config [c'] m (int b) =
      bindE (config2ds (module_leaf a dgs dim)) (\<lambda>r. Inr ([fst r], [snd r]))"
    by (simp add: parse_multi_ds_parallel_config_def get_multi_ds_parallel_config_def) (simp add: bindE_def split: sum.split)
  then show ?thesis using config2ds_module [OF \<open>length dgs = dp a\<close> dim] module_layout_fits by simp
qed

section \<open>The ranks of a block\<close>

lemma accumulate_ok: "accumulate_hetero_stages ns = map (\<lambda>i. sum_list (take i ns)) [0..<Suc (length ns)]"
proof -
  have "fold (\<lambda>val (acc, accumulate_val). (acc @ [accumulate_val + val], accumulate_val + val)) ns ([0], 0) =
      (map (\<lambda>i. sum_list (take i ns)) [0..<Suc (length ns)], sum_list ns)"
  proof (induction ns rule: rev_induct)
    case (snoc n ns)
    have "map (\<lambda>i. sum_list (take i (ns @ [n]))) [0..<Suc (length ns)] = map (\<lambda>i. sum_list (take i ns)) [0..<Suc (length ns)]"
      by (rule map_cong) (auto simp: less_Suc_eq)
    then show ?case using snoc by simp
  qed simp
  then show ?thesis by (simp add: accumulate_hetero_stages_def)
qed

lemma device_group_num_ok:
  "cnt \<le> b \<Longrightarrow> b < cnt + sum_list ls \<Longrightarrow> \<exists>s. device_group_num b n cnt ls = n + s \<and> s < length ls \<and>
    cnt + sum_list (take s ls) \<le> b \<and> b < cnt + sum_list (take (Suc s) ls)"
proof (induction ls arbitrary: n cnt)
  case (Cons l ls)
  show ?case
  proof (cases "b < cnt + l")
    case True
    then show ?thesis using Cons.prems(1) by (intro exI [of _ 0]) simp
  next
    case False
    then obtain s where "device_group_num b (n + 1) (cnt + l) ls = (n + 1) + s" "s < length ls"
        "cnt + l + sum_list (take s ls) \<le> b" "b < cnt + l + sum_list (take (Suc s) ls)"
      using Cons.IH [of "cnt + l" "n + 1"] Cons.prems(2) by auto
    then show ?thesis using False by (intro exI [of _ "Suc s"]) simp
  qed
qed simp

text \<open>C17: When the layers of a pipeline cover a block, the block runs on the stage whose layers contain it, and
  its ranks are the used ranks of exactly that stage: stages are numbered through all pipelines, with
  \<open>tp\<close> ranks each. So blocks of different stages never share a rank, and no rank is beyond the last stage.\<close>

theorem blocks_run_on_their_stage:
  assumes "i < length (hetero_layers a)" and "i < length (hetero_stages a)" and "length (hetero_layers a ! i) = hetero_stages a ! i"
    and "b < sum_list (hetero_layers a ! i)" and "0 < tp a"
  shows "\<exists>s ranks. stage_ranks a b i = Inr ranks \<and> s < hetero_stages a ! i \<and>
    sum_list (take s (hetero_layers a ! i)) \<le> b \<and> b < sum_list (take (Suc s) (hetero_layers a ! i)) \<and>
    set ranks = {r. r \<notin> set (unused_rank a) \<and> r div tp a = sum_list (take i (hetero_stages a)) + s} \<and>
    set ranks \<subseteq> {r. r < tp a * sum_list (hetero_stages a)}"
proof -
  obtain s where s: "device_group_num b 0 0 (hetero_layers a ! i) = s" "s < hetero_stages a ! i"
      "sum_list (take s (hetero_layers a ! i)) \<le> b" "b < sum_list (take (Suc s) (hetero_layers a ! i))"
    using device_group_num_ok [of 0 b "hetero_layers a ! i" 0] assms(3,4) by auto
  let ?p = "sum_list (take i (hetero_stages a))"
  let ?ranks = "filter (\<lambda>rank. rank \<notin> set (unused_rank a)) [s * tp a + ?p * tp a..<(s + 1) * tp a + ?p * tp a]"
  have "list_at (accumulate_hetero_stages (hetero_stages a)) i = Inr ?p"
    using assms(2) unfolding accumulate_ok by (simp add: list_at_def del: upt_Suc)
  then have "stage_ranks a b i = Inr ?ranks" using assms(1) s(1) by (simp add: stage_ranks_def list_at_def)
  moreover have "set ?ranks = {r. r \<notin> set (unused_rank a) \<and> r div tp a = ?p + s}"
  proof -
    have "r \<in> set [s * tp a + ?p * tp a..<(s + 1) * tp a + ?p * tp a] \<longleftrightarrow> (?p + s) * tp a \<le> r \<and> r < (?p + s) * tp a + tp a" for r
      by (simp add: add_mult_distrib algebra_simps)
    then have "r \<in> set [s * tp a + ?p * tp a..<(s + 1) * tp a + ?p * tp a] \<longleftrightarrow> r div tp a = ?p + s" for r
      using div_slot [OF assms(5), of "?p + s" r] by simp
    then show ?thesis by auto
  qed
  moreover have "r < tp a * sum_list (hetero_stages a)" if "r div tp a = ?p + s" for r
  proof -
    have "?p + hetero_stages a ! i \<le> sum_list (hetero_stages a)"
      using sum_list_take_le [of "Suc i" "hetero_stages a"] assms(2) by (simp add: take_Suc_conv_app_nth)
    then have "r div tp a < sum_list (hetero_stages a)" using that s(2) by simp
    then show ?thesis using assms(5) by (simp add: div_less_iff_less_mult mult.commute)
  qed
  ultimately show ?thesis using s(2-4) by blast
qed

section \<open>A sample\<close>

text \<open>Two pipelines with one and two stages of two devices each; one rank is not used.\<close>

definition sample_args :: gpt_args where
  "sample_args = \<lparr>rank_to_device_mapping = [(0, 5), (1, 4), (2, 3), (3, 2), (4, 1), (5, 0)], unused_rank = [3],
     hetero_layers = [[2], [1, 1]], hetero_stages = [1, 2], num_layers = 2, num_gpus = 6, dp = 2, tp = 2, pp = 1, zero = True\<rparr>"

lemma sample_groups:
  "hybrid_device_group sample_args 0 = Inr [[5, 4], [3]]" "hybrid_device_group sample_args 1 = Inr [[5, 4], [1, 0]]"
  by code_simp+

theorem zero_reaches_every_weight_witness:
  "config_spread_zero (Dict [(''zero'', Flag True), (''w'', Dict [(''v'', Dict [(''type'', Text ''variable'')])])]) =
     Inr (Dict [(''zero'', Flag True), (''w'', Dict [(''v'', Dict [(''type'', Text ''variable''), (''zero'', Flag True)])])])"
  using zero_reaches_every_weight [of "[(''zero'', Flag True), (''w'', Dict [(''v'', Dict [(''type'', Text ''variable'')])])]" "Flag True"]
  by (simp add: takes_zero_def)

theorem generated_modules_have_their_layouts_witness:
  "\<exists>c c'. generate_gpt_3d_config sample_args = Inr c \<and> config_spread_zero c = Inr c' \<and>
     parse_multi_ds_parallel_config [c'] ''qkv'' 0 = Inr ([([
       \<lparr>num_devices = 4, states = [(- 1, 2), (1, 2)], order = [- 1, 1], zero_flag = Flag True\<rparr>,
       \<lparr>num_devices = 2, states = [(- 1, 2), (1, 1)], order = [- 1, 1], zero_flag = Flag True\<rparr>], - 1)], [[[5, 4], [3]]])"
proof -
  let ?dgss = "[[[5, 4], [3]], [[5, 4], [1, 0]]] :: nat list list list"
  let ?d = "outer_config sample_args (all_blocks sample_args ?dgss) (hd ?dgss) (last ?dgss)"
  have n: "num_layers sample_args = 2" "pp sample_args = 1" by (simp_all add: sample_args_def)
  have "mapE (hybrid_device_group sample_args) [0..<num_layers sample_args] = Inr ?dgss"
    using sample_groups by (simp add: n numeral_2_eq_2)
  then have c: "generate_gpt_3d_config sample_args = Inr (Dict ?d)" unfolding generate_ok by (auto simp: n)
  have "map_of ?d ''zero'' = Some (zero_of sample_args)" by (simp add: outer_config_def)
  moreover have "tidy (Dict ?d)" by (rule tidy_outer) (simp add: n)
  ultimately obtain c' where c': "config_spread_zero (Dict ?d) = Inr c'" using spread_all by blast
  have "(''qkv'', Some ''1'') \<in> set block_modules" by (simp add: block_modules_def)
  from generated_modules_have_their_layouts [OF c c' _ sample_groups(1) this]
  have "parse_multi_ds_parallel_config [c'] ''qkv'' 0 = Inr ([([
       \<lparr>num_devices = 4, states = [(- 1, 2), (1, 2)], order = [- 1, 1], zero_flag = Flag True\<rparr>,
       \<lparr>num_devices = 2, states = [(- 1, 2), (1, 1)], order = [- 1, 1], zero_flag = Flag True\<rparr>], - 1)], [[[5, 4], [3]]])"
    by (simp add: n) (simp add: module_layout_def zero_of_def split_dim_def sample_args_def)
  then show ?thesis using c c' by blast
qed

theorem blocks_run_on_their_stage_witness:
  "\<exists>s ranks. stage_ranks sample_args 1 1 = Inr ranks \<and> sum_list (take s [1, 1]) \<le> (1 :: nat) \<and>
     set ranks = {r. r \<notin> {3} \<and> r div 2 = 1 + s} \<and> set ranks \<subseteq> {r. r < 6}"
  using blocks_run_on_their_stage [of 1 sample_args 1] by (simp add: sample_args_def) blast

end
