(* ===== verification/HybridStrategy.thy ===== *)
theory HybridStrategy imports Prelude PyText begin

text \<open>
  Hybrid-parallel strategies of the planner Galvatron (\<open>tools/Galvatron/galvatron\<close>): the text of the
  strategy of a layer (\<open>utils/strategy_utils.py\<close>), the configuration of a list of strategies
  (\<open>utils/config_utils.py\<close>), and the configuration of a whole model
  (\<open>core/hybrid_parallel_config.py\<close>). The printing itself and the settings of the arguments that are only
  copied (\<open>pipeline_type\<close>, \<open>default_dp_type\<close>, \<open>embed_sdp\<close>) are left out; the number of processes is a parameter.
\<close>

section \<open>The text of a strategy\<close>

text \<open>
  A strategy is \<open>[pp, tp, dp, info]\<close>. A name that is read before it is bound raises \<open>UnboundLocalError\<close>,
  a \<open>NameError\<close>.
\<close>

type_synonym strategy = "int \<times> int \<times> int \<times> (string \<times> int) list"

definition form_strategy :: "strategy \<Rightarrow> string" where
  "form_strategy st =
     (case st of (pp, tp, dp, info) \<Rightarrow>
        let dp_deg = str_int dp @ (case map_of info ''fsdp'' of Some v \<Rightarrow> if v \<noteq> 0 then ''f'' else [] | None \<Rightarrow> []);
            tp_deg = str_int tp @ (case map_of info ''tp'' of Some v \<Rightarrow> if v \<noteq> 0 then ''*'' else [] | None \<Rightarrow> []);
            dp_deg = dp_deg @ (case map_of info ''tp'' of Some v \<Rightarrow> if v \<noteq> 0 then [] else ''*'' | None \<Rightarrow> []);
            dp_deg = dp_deg @ (case map_of info ''cpt'' of Some v \<Rightarrow> if v \<noteq> 0 then ''-c'' else [] | None \<Rightarrow> [])
        in str_int pp @ CHR ''-'' # tp_deg @ CHR ''-'' # dp_deg)"

definition strategy_str2list :: "string \<Rightarrow> strategy result" where
  "strategy_str2list strategy_str =
     (let s = split_all (CHR ''-'') strategy_str in
      bindE (list_at s 1) (\<lambda>s1. bindE (list_at s 2) (\<lambda>s2.
      let (s1, s2, tp_consec) =
            (if CHR ''*'' \<in> set s1 then (butlast s1, s2, Some 1)
             else if CHR ''*'' \<in> set s2 then (s1, butlast s2, Some 0) else (s1, s2, None));
          (s2, fsdp) = (if CHR ''f'' \<in> set s2 then (butlast s2, 1) else (s2, 0));
          cpt = (length s = 4 \<and> s ! 3 = ''c'')
      in bindE (int_of_str (s ! 0)) (\<lambda>pp_deg. bindE (int_of_str s1) (\<lambda>tp_deg. bindE (int_of_str s2) (\<lambda>dp_deg.
         bindE (if tp_deg > 1 \<and> dp_deg > 1
                then (case tp_consec of None \<Rightarrow> Inl NameError | Some c \<Rightarrow> Inr [(''tp'', c)]) else Inr []) (\<lambda>tp_info.
           Inr (pp_deg, tp_deg, dp_deg,
             tp_info @ (if dp_deg > 1 then [(''fsdp'', fsdp)] else []) @ (if cpt then [(''cpt'', 1)] else []))))))))) "

section \<open>The configuration of a list of strategies\<close>

definition str2array :: "string \<Rightarrow> int list result" where
  "str2array s = mapE int_of_str (split_all (CHR '','') s)"

definition array2str :: "int list \<Rightarrow> string" where
  "array2str a = join_with (CHR '','') (map str_int a)"

record galvatron_config =
  cfg_pp_deg :: int
  cfg_tp_sizes_enc :: string
  cfg_tp_consecutive_flags :: string
  cfg_dp_types_enc :: string

definition config2strategy :: "('a) galvatron_config_scheme \<Rightarrow> (int \<times> int list \<times> int list \<times> int list) result" where
  "config2strategy config =
     bindE (str2array (cfg_tp_sizes_enc config)) (\<lambda>tp_sizes_enc.
     bindE (str2array (cfg_tp_consecutive_flags config)) (\<lambda>tp_consecutive_flags.
     bindE (str2array (cfg_dp_types_enc config)) (\<lambda>dp_types_enc.
       Inr (cfg_pp_deg config, tp_sizes_enc, tp_consecutive_flags, dp_types_enc))))"

definition consec_flag :: "strategy \<Rightarrow> int" where
  "consec_flag st = (case map_of (snd (snd (snd st))) ''tp'' of Some v \<Rightarrow> if v = 0 then 0 else 1 | None \<Rightarrow> 1)"

definition dp_type :: "strategy \<Rightarrow> int" where
  "dp_type st = (case map_of (snd (snd (snd st))) ''fsdp'' of Some v \<Rightarrow> if v \<noteq> 0 then 1 else 0 | None \<Rightarrow> 0)"

text \<open>The empty dictionary for no strategy is \<open>None\<close>.\<close>

definition strategy2config :: "strategy list \<Rightarrow> galvatron_config option" where
  "strategy2config strategy_list =
     (case strategy_list of
        [] \<Rightarrow> None
      | first # _ \<Rightarrow> Some
          \<lparr>cfg_pp_deg = fst first,
           cfg_tp_sizes_enc = array2str (map (\<lambda>s. fst (snd s)) strategy_list),
           cfg_tp_consecutive_flags = array2str (map consec_flag strategy_list),
           cfg_dp_types_enc = array2str (map dp_type strategy_list)\<rparr>)"

definition layernum2str :: "int + int list \<Rightarrow> string" where
  "layernum2str layer_num =
     (case layer_num of Inr ns \<Rightarrow> ''layernum['' @ array2str ns @ '']'' | Inl n \<Rightarrow> ''layernum'' @ str_int n)"

section \<open>The configuration of a model\<close>

record json_config = galvatron_config +
  cfg_global_bsz :: int
  cfg_chunks :: int
  cfg_checkpoint :: "string option"
  cfg_pp_division :: "string option"

record hp_args =
  arg_pp_deg :: int
  global_tp_deg :: int
  global_tp_consec :: int
  sdp :: int
  global_checkpoint :: int
  global_train_batch_size :: int
  arg_chunks :: int

record hp_configs =
  pp_deg :: int
  tp_sizes_enc :: "int list"
  tp_consecutive_flags :: "int list"
  dp_types_enc :: "int list"
  checkpoint_flags_enc :: "int list"
  pp_ranks_enc :: "int list"
  pp_division :: "int list"

text \<open>A list times a negative number is the empty list.\<close>

definition get_pp_ranks_enc :: "int list \<Rightarrow> int list" where
  "get_pp_ranks_enc pp_divide =
     concat (map (\<lambda>i. replicate (nat (pp_divide ! i)) (int i)) [0..<length pp_divide])"

definition even_division :: "int \<Rightarrow> int \<Rightarrow> int list result" where
  "even_division total_layer_num pp =
     (if pp = 0 then Inl ZeroDivisionError
      else let avg_layer_num = total_layer_num div pp;
               last_layer_num = total_layer_num - avg_layer_num * (pp - 1)
           in Inr (replicate (nat (pp - 1)) avg_layer_num @ [last_layer_num]))"

definition hp_source ::
  "hp_args \<Rightarrow> json_config option \<Rightarrow> int \<Rightarrow>
     (hp_args \<times> int \<times> int list \<times> int list \<times> int list \<times> int list \<times> int list option) result" where
  "hp_source args json layers =
     (case json of
        None \<Rightarrow>
          Inr (args, arg_pp_deg args,
            replicate (nat layers) (if global_tp_deg args > 0 then global_tp_deg args else 1),
            replicate (nat layers) (if global_tp_consec args \<in> {0, 1} then global_tp_consec args else 1),
            replicate (nat layers) (sdp args), replicate (nat layers) (global_checkpoint args), None)
      | Some config \<Rightarrow>
          bindE (config2strategy config) (\<lambda>(pp, tps, consecs, dps).
          bindE (case cfg_checkpoint config of Some s \<Rightarrow> str2array s | None \<Rightarrow> Inr (replicate (length tps) 0)) (\<lambda>ckpts.
          bindE (case cfg_pp_division config of Some s \<Rightarrow> bindE (str2array s) (\<lambda>d. Inr (Some d)) | None \<Rightarrow> Inr None) (\<lambda>division.
            Inr (args\<lparr>global_train_batch_size := cfg_global_bsz config, arg_chunks := cfg_chunks config, arg_pp_deg := pp\<rparr>,
                 pp, tps, consecs, dps, ckpts, division)))))"

definition get_chunks :: "int \<Rightarrow> hp_args \<Rightarrow> (hp_args \<times> int) result" where
  "get_chunks world_size args =
     (if arg_chunks args = - 1 then
        if arg_pp_deg args > 1 then
          let max_dp_deg = world_size div arg_pp_deg args in
          if max_dp_deg = 0 then Inl ZeroDivisionError
          else let local_bsz = global_train_batch_size args div max_dp_deg;
                   optimal_micro_bsz = - (- local_bsz div 4);
                   chunks = (if optimal_micro_bsz = 0 then 1 else optimal_micro_bsz)
               in Inr (args\<lparr>arg_chunks := chunks\<rparr>, chunks)
        else Inr (args\<lparr>arg_chunks := 1\<rparr>, 1)
      else Inr (args, arg_chunks args))"

text \<open>
  The report of the first process fails when there are no layers or the global degree is 0, and it asks for
  the number of chunks, which sets it.
\<close>

definition report_config :: "int \<Rightarrow> int \<Rightarrow> hp_args \<Rightarrow> json_config option \<Rightarrow> hp_configs \<Rightarrow> hp_args result" where
  "report_config local_rank world_size args json hp =
     (if local_rank \<noteq> 0 \<or> json \<noteq> None then Inr args
      else if tp_sizes_enc hp = [] \<or> tp_consecutive_flags hp = [] then Inl IndexError
      else if global_tp_deg args = 0 \<or> arg_pp_deg args = 0 then Inl ZeroDivisionError
      else bindE (get_chunks world_size args) (\<lambda>(args, _). Inr args))"

definition get_hybrid_parallel_configs_api ::
  "int \<Rightarrow> int \<Rightarrow> hp_args \<Rightarrow> json_config option \<Rightarrow> int list \<Rightarrow> (hp_args \<times> hp_configs) result" where
  "get_hybrid_parallel_configs_api local_rank world_size args json layernum_list =
     bindE (hp_source args json (sum_list layernum_list)) (\<lambda>(args, pp, tps, consecs, dps, ckpts, division).
     bindE (case division of Some d \<Rightarrow> Inr d | None \<Rightarrow> even_division (sum_list layernum_list) pp) (\<lambda>pp_divide.
     if pp = 0 \<or> world_size div pp = 0 then Inl ZeroDivisionError
     else assertE (global_train_batch_size args mod (world_size div pp) = 0)
       (let hp = \<lparr>pp_deg = pp, tp_sizes_enc = tps, tp_consecutive_flags = consecs, dp_types_enc = dps,
                  checkpoint_flags_enc = ckpts, pp_ranks_enc = get_pp_ranks_enc pp_divide, pp_division = pp_divide\<rparr>
        in bindE (report_config local_rank world_size args json hp) (\<lambda>args. Inr (args, hp)))))"

definition check_tp_size :: "int \<Rightarrow> int \<Rightarrow> int \<Rightarrow> unit result" where
  "check_tp_size world_size pp tp_size =
     (if pp = 0 then Inl ZeroDivisionError
      else if world_size div pp < tp_size then Inl AssertionError
      else if tp_size = 0 then Inl ZeroDivisionError
      else assertE (world_size div pp mod tp_size = 0 \<and> 1 \<le> tp_size) (Inr ()))"

definition check_hp_config :: "int \<Rightarrow> hp_configs \<Rightarrow> int list \<Rightarrow> unit result" where
  "check_hp_config world_size hp layernum_list =
     (let layers = sum_list layernum_list in
      if layers \<noteq> int (length (tp_sizes_enc hp)) \<or> layers \<noteq> int (length (tp_consecutive_flags hp)) \<or>
         layers \<noteq> int (length (dp_types_enc hp)) \<or> layers \<noteq> int (length (pp_ranks_enc hp)) \<or>
         layers \<noteq> int (length (checkpoint_flags_enc hp)) then Inl AssertionError
      else
        bindE (mapE (check_tp_size world_size (pp_deg hp)) (tp_sizes_enc hp)) (\<lambda>_.
        assertE (\<forall>tp_consec \<in> set (tp_consecutive_flags hp). tp_consec = 0 \<or> tp_consec = 1)
        (assertE (\<forall>t \<in> set (dp_types_enc hp). t = 0 \<or> t = 1)
        (assertE (\<forall>pp_rank \<in> set (pp_ranks_enc hp). 0 \<le> pp_rank \<and> pp_rank \<le> pp_deg hp - 1)
        (assertE (\<forall>ckpt \<in> set (checkpoint_flags_enc hp). ckpt = 0 \<or> ckpt = 1) (Inr ()))))))"

record hp_whole =
  tp_sizes_whole :: "int list"
  tp_consec_whole :: "int list"
  dp_types_whole :: "int list"
  pp_ranks_whole :: "int list"
  checkpoint_flags_whole :: "int list"
  dp_sizes_whole :: "int list"

definition is_layer :: "string \<Rightarrow> bool" where
  "is_layer module_type \<longleftrightarrow> drop (length module_type - 3) module_type \<in> {''enc'', ''dec''}"

definition add_module :: "hp_configs \<Rightarrow> int \<Rightarrow> int \<Rightarrow> hp_whole \<times> nat \<Rightarrow> string \<Rightarrow> (hp_whole \<times> nat) result" where
  "add_module hp embed_sdp embed_ckpt st module_type =
     (case st of (w, idx_enc) \<Rightarrow>
        if is_layer module_type then
          bindE (list_at (tp_sizes_enc hp) idx_enc) (\<lambda>tp.
          bindE (list_at (dp_types_enc hp) idx_enc) (\<lambda>dp.
          bindE (list_at (pp_ranks_enc hp) idx_enc) (\<lambda>pp.
          bindE (list_at (tp_consecutive_flags hp) idx_enc) (\<lambda>consec.
          bindE (list_at (checkpoint_flags_enc hp) idx_enc) (\<lambda>ckpt.
            Inr (w\<lparr>tp_sizes_whole := tp_sizes_whole w @ [tp], dp_types_whole := dp_types_whole w @ [dp],
                   pp_ranks_whole := pp_ranks_whole w @ [pp], tp_consec_whole := tp_consec_whole w @ [consec],
                   checkpoint_flags_whole := checkpoint_flags_whole w @ [ckpt]\<rparr>, idx_enc + 1))))))
        else
          bindE (if idx_enc < length (pp_ranks_enc hp) then list_at (pp_ranks_enc hp) idx_enc else py_nth (pp_ranks_enc hp) (- 1)) (\<lambda>pp.
            Inr (w\<lparr>tp_sizes_whole := tp_sizes_whole w @ [1], dp_types_whole := dp_types_whole w @ [embed_sdp],
                   pp_ranks_whole := pp_ranks_whole w @ [pp], tp_consec_whole := tp_consec_whole w @ [1],
                   checkpoint_flags_whole := checkpoint_flags_whole w @ [embed_ckpt]\<rparr>, idx_enc)))"

definition hp_config_whole_model :: "int \<Rightarrow> string list \<Rightarrow> hp_configs \<Rightarrow> int \<Rightarrow> int \<Rightarrow> hp_whole result" where
  "hp_config_whole_model world_size module_types hp embed_sdp embed_ckpt =
     bindE (foldE (add_module hp embed_sdp embed_ckpt) (\<lparr>tp_sizes_whole = [], tp_consec_whole = [], dp_types_whole = [],
         pp_ranks_whole = [], checkpoint_flags_whole = [], dp_sizes_whole = []\<rparr>, 0) module_types) (\<lambda>(w, _).
     bindE (mapE (\<lambda>tp_size. if pp_deg hp = 0 \<or> tp_size = 0 then Inl ZeroDivisionError else Inr (world_size div pp_deg hp div tp_size))
         (tp_sizes_whole w)) (\<lambda>dps. Inr (w\<lparr>dp_sizes_whole := dps\<rparr>)))"

definition get_enc_groups :: "'a list \<Rightarrow> string list \<Rightarrow> 'a list result" where
  "get_enc_groups groups_whole module_types =
     assertE (length groups_whole = length module_types)
       (Inr (map fst (filter (\<lambda>(g, module_type). is_layer module_type) (zip groups_whole module_types))))"

section \<open>Round trips\<close>

lemma str_int_chars: "0 \<le> i \<Longrightarrow> c \<in> set (str_int i) \<Longrightarrow> \<exists>d < 10. c = digit_char d"
  using str_nat_digits [of c "nat i"] by (simp add: str_int_def)

lemma digit_char_other: "d < 10 \<Longrightarrow> digit_char d \<notin> {CHR ''*'', CHR ''f'', CHR '','', CHR ''c'', CHR ''-''}"
proof -
  have "of_char (digit_char d) = 48 + d" if "d < 10" for d using that by (simp add: digit_char_def)
  then show "d < 10 \<Longrightarrow> digit_char d \<notin> {CHR ''*'', CHR ''f'', CHR '','', CHR ''c'', CHR ''-''}"
    by (auto dest: arg_cong [where f = "of_char :: char \<Rightarrow> nat"])
qed

lemma str_int_plain:
  assumes "0 \<le> i"
  shows "CHR ''*'' \<notin> set (str_int i)" "CHR ''f'' \<notin> set (str_int i)" "CHR '','' \<notin> set (str_int i)" "CHR ''-'' \<notin> set (str_int i)"
proof -
  have "c \<notin> set (str_int i)" if "c \<in> {CHR ''*'', CHR ''f'', CHR '','', CHR ''c'', CHR ''-''}" for c
    using str_int_chars [OF assms, of c] digit_char_other that by blast
  then show "CHR ''*'' \<notin> set (str_int i)" "CHR ''f'' \<notin> set (str_int i)" "CHR '','' \<notin> set (str_int i)" "CHR ''-'' \<notin> set (str_int i)"
    by blast+
qed

text \<open>A strategy as the planner writes it: flags only where they have a meaning.\<close>

definition plain_strategy :: "int \<Rightarrow> int \<Rightarrow> int \<Rightarrow> bool \<Rightarrow> bool \<Rightarrow> bool \<Rightarrow> strategy" where
  "plain_strategy pp tp dp consec fsdp cpt =
     (pp, tp, dp, (if tp > 1 \<and> dp > 1 then [(''tp'', of_bool consec)] else []) @
        (if dp > 1 then [(''fsdp'', of_bool fsdp)] else []) @ (if cpt then [(''cpt'', 1)] else []))"

text \<open>C23: The text of a strategy reads back as the strategy, for all degrees and all settings of the flags.\<close>

theorem strategy_text_roundtrip:
  assumes "0 \<le> pp" and "0 \<le> tp" and "0 \<le> dp"
  shows "strategy_str2list (form_strategy (plain_strategy pp tp dp consec fsdp cpt)) = Inr (plain_strategy pp tp dp consec fsdp cpt)"
proof -
  let ?t = "str_int tp @ (if tp > 1 \<and> dp > 1 \<and> consec then ''*'' else [])"
  let ?d = "str_int dp @ (if dp > 1 \<and> fsdp then ''f'' else []) @ (if tp > 1 \<and> dp > 1 \<and> \<not> consec then ''*'' else [])"
  have shown: "form_strategy (plain_strategy pp tp dp consec fsdp cpt) =
      str_int pp @ CHR ''-'' # ?t @ CHR ''-'' # ?d @ (if cpt then ''-c'' else [])"
    by (simp add: form_strategy_def plain_strategy_def Let_def)
  have "CHR ''-'' \<notin> set (str_int pp)" "CHR ''-'' \<notin> set ?t" "CHR ''-'' \<notin> set ?d"
    using str_int_plain(4) assms by auto
  then have split: "split_all (CHR ''-'') (form_strategy (plain_strategy pp tp dp consec fsdp cpt)) =
      [str_int pp, ?t, ?d] @ (if cpt then [''c''] else [])"
    unfolding shown by (simp add: split_all_sep split_all_none del: append_assoc)
  show ?thesis
    unfolding strategy_str2list_def split using str_int_plain [OF assms(2)] str_int_plain [OF assms(3)]
    by (simp add: list_at_def butlast_append plain_strategy_def)
qed

text \<open>The configuration of a list of strategies gives back the degrees and flags of every layer.\<close>

theorem strategy_config_roundtrip:
  assumes "strategies \<noteq> []" and "\<forall>s \<in> set strategies. 0 \<le> fst (snd s)"
  shows "\<exists>config. strategy2config strategies = Some config \<and>
    config2strategy config = Inr (fst (hd strategies), map (\<lambda>s. fst (snd s)) strategies, map consec_flag strategies, map dp_type strategies)"
proof -
  have "str2array (array2str ns) = Inr ns" if "ns \<noteq> []" "\<forall>n \<in> set ns. 0 \<le> n" for ns
  proof -
    have "split_all (CHR '','') (join_with (CHR '','') (map str_int ns)) = map str_int ns"
      by (rule split_all_join) (use that str_int_plain(3) in auto)
    then have "str2array (array2str ns) = mapE int_of_str (map str_int ns)" by (simp add: str2array_def array2str_def)
    also have "\<dots> = Inr (map (\<lambda>s. projr (int_of_str s)) (map str_int ns))" by (rule mapE_all_Inr) auto
    finally show ?thesis by (simp add: comp_def)
  qed
  note reads = this
  have "\<forall>n \<in> set (map consec_flag strategies). 0 \<le> n" "\<forall>n \<in> set (map dp_type strategies). 0 \<le> n"
    by (auto simp: consec_flag_def dp_type_def split: option.split)
  then show ?thesis
    using assms reads by (cases strategies) (simp_all add: strategy2config_def config2strategy_def del: list.map(2))
qed

text \<open>
  Two texts that cannot be read: a strategy with both kinds of parallelism whose flag \<open>tp\<close> is missing, and
  the text of an empty array.
\<close>

theorem strategy_without_flag_is_not_read:
  "strategy_str2list (form_strategy (1, 2, 2, [(''fsdp'', 0)])) = Inl NameError \<and> str2array (array2str []) = Inl ValueError"
  by code_simp

section \<open>The even division\<close>

lemma pp_ranks_length: "length (get_pp_ranks_enc ds) = sum_list (map nat ds)"
proof -
  have "length (get_pp_ranks_enc ds) = sum_list (map (\<lambda>i. nat (ds ! i)) [0..<length ds])"
    by (simp add: get_pp_ranks_enc_def length_concat comp_def)
  also have "map (\<lambda>i. nat (ds ! i)) [0..<length ds] = map nat ds" by (rule nth_equalityI) simp_all
  finally show ?thesis .
qed

lemma pp_ranks_range: "r \<in> set (get_pp_ranks_enc ds) \<Longrightarrow> 0 \<le> r \<and> r < int (length ds)"
  by (auto simp: get_pp_ranks_enc_def)

lemma even_division_ok:
  assumes "0 < pp" and "0 \<le> n"
  shows "\<exists>ds. even_division n pp = Inr ds \<and> sum_list ds = n \<and> int (length ds) = pp \<and> (\<forall>d \<in> set ds. 0 \<le> d) \<and>
    sum_list (map nat ds) = nat n"
proof -
  let ?last = "n - n div pp * (pp - 1)" and ?ds = "replicate (nat (pp - 1)) (n div pp) @ [n - n div pp * (pp - 1)]"
  have "n div pp * pp \<le> n" using assms div_mult_mod_eq [of n pp] pos_mod_sign [OF assms(1), of n] by linarith
  moreover have avg: "0 \<le> n div pp" using assms by (simp add: pos_imp_zdiv_nonneg_iff)
  ultimately have "0 \<le> ?last" by (simp add: algebra_simps)
  then have nonneg: "\<forall>d \<in> set ?ds. 0 \<le> d" using avg by auto
  have sum: "sum_list ?ds = n" using assms(1) by (simp add: sum_list_replicate algebra_simps)
  have nats: "(\<forall>d \<in> set ds. 0 \<le> d) \<Longrightarrow> int (sum_list (map nat ds)) = sum_list ds" for ds by (induction ds) auto
  have "sum_list (map nat ?ds) = nat n" using nats [OF nonneg] sum by linarith
  moreover have "even_division n pp = Inr ?ds" unfolding even_division_def Let_def by (rule if_not_P) (use assms(1) in simp)
  moreover have "int (length ?ds) = pp" using assms(1) by simp
  ultimately show ?thesis using nonneg sum by blast
qed

lemma get_chunks_ok:
  assumes "arg_pp_deg args \<noteq> 0" and "world_size div arg_pp_deg args \<noteq> 0"
  shows "\<exists>chunks. get_chunks world_size args = Inr (args\<lparr>arg_chunks := chunks\<rparr>, chunks)"
proof (cases "arg_chunks args = - 1 \<and> arg_pp_deg args > 1")
  case True
  then show ?thesis using assms(2) by (simp add: get_chunks_def Let_def)
next
  case False
  have "get_chunks world_size args = Inr (args\<lparr>arg_chunks := if arg_chunks args = - 1 then 1 else arg_chunks args\<rparr>,
      if arg_chunks args = - 1 then 1 else arg_chunks args)"
    using False by (simp add: get_chunks_def)
  then show ?thesis by blast
qed

lemma report_config_ok:
  assumes "tp_sizes_enc hp \<noteq> []" and "tp_consecutive_flags hp \<noteq> []" and "global_tp_deg args \<noteq> 0"
    and "arg_pp_deg args \<noteq> 0" and "world_size div arg_pp_deg args \<noteq> 0"
  shows "\<exists>chunks. report_config local_rank world_size args json hp = Inr (args\<lparr>arg_chunks := chunks\<rparr>)"
proof (cases "local_rank \<noteq> 0 \<or> json \<noteq> None")
  case True
  then have "report_config local_rank world_size args json hp = Inr (args\<lparr>arg_chunks := arg_chunks args\<rparr>)"
    by (simp add: report_config_def)
  then show ?thesis by blast
next
  case False
  obtain chunks where "get_chunks world_size args = Inr (args\<lparr>arg_chunks := chunks\<rparr>, chunks)"
    using get_chunks_ok assms(4,5) by blast
  then have "report_config local_rank world_size args json hp = Inr (args\<lparr>arg_chunks := chunks\<rparr>)"
    using False assms by (simp add: report_config_def)
  then show ?thesis by blast
qed

text \<open>C19: Without a configuration file, layers are divided over the pipeline stages without losing any, and
  the configuration passes \<open>check_hp_config\<close>, when the tensor-parallel degree divides the processes of a
  stage and the global batch size is a multiple of them. The arguments change at most in the number of
  chunks, which the report of the first process sets.\<close>

theorem global_config_passes_the_check:
  assumes "\<forall>n \<in> set layernum_list. 0 \<le> n" and "0 < arg_pp_deg args" and "0 < world_size div arg_pp_deg args"
    and "global_train_batch_size args mod (world_size div arg_pp_deg args) = 0"
    and "0 < global_tp_deg args \<Longrightarrow> global_tp_deg args dvd world_size div arg_pp_deg args"
    and "sdp args \<in> {0, 1}" and "global_checkpoint args \<in> {0, 1}" and "0 < sum_list layernum_list" and "global_tp_deg args \<noteq> 0"
  shows "\<exists>hp chunks. get_hybrid_parallel_configs_api local_rank world_size args None layernum_list = Inr (args\<lparr>arg_chunks := chunks\<rparr>, hp) \<and>
    check_hp_config world_size hp layernum_list = Inr () \<and>
    sum_list (pp_division hp) = sum_list layernum_list \<and> int (length (pp_division hp)) = arg_pp_deg args"
proof -
  let ?n = "sum_list layernum_list" and ?stage = "world_size div arg_pp_deg args"
  let ?tp = "if global_tp_deg args > 0 then global_tp_deg args else 1"
  have n: "0 \<le> ?n" using assms(1) by (simp add: sum_list_nonneg)
  obtain ds where ds: "even_division ?n (arg_pp_deg args) = Inr ds" "sum_list ds = ?n" "int (length ds) = arg_pp_deg args"
      "sum_list (map nat ds) = nat ?n"
    using even_division_ok [OF assms(2) n] by auto
  define hp where "hp = \<lparr>pp_deg = arg_pp_deg args, tp_sizes_enc = replicate (nat ?n) ?tp,
    tp_consecutive_flags = replicate (nat ?n) (if global_tp_consec args \<in> {0, 1} then global_tp_consec args else 1),
    dp_types_enc = replicate (nat ?n) (sdp args), checkpoint_flags_enc = replicate (nat ?n) (global_checkpoint args),
    pp_ranks_enc = get_pp_ranks_enc ds, pp_division = ds\<rparr>"
  have "tp_sizes_enc hp \<noteq> []" "tp_consecutive_flags hp \<noteq> []" using assms(8) by (simp_all add: hp_def)
  then have "\<exists>chunks. report_config local_rank world_size args None hp = Inr (args\<lparr>arg_chunks := chunks\<rparr>)"
    using assms(2,3,9) by (intro report_config_ok) simp_all
  then obtain chunks where "report_config local_rank world_size args None hp = Inr (args\<lparr>arg_chunks := chunks\<rparr>)" by blast
  then have "get_hybrid_parallel_configs_api local_rank world_size args None layernum_list = Inr (args\<lparr>arg_chunks := chunks\<rparr>, hp)"
    using assms(2-4) ds(1) by (simp add: get_hybrid_parallel_configs_api_def hp_source_def hp_def Let_def)
  moreover have "check_hp_config world_size hp layernum_list = Inr ()"
  proof -
    have tp: "?tp \<le> ?stage" "1 \<le> ?tp" "?stage mod ?tp = 0" using assms(3,5) by (auto intro: zdvd_imp_le)
    have "check_tp_size world_size (pp_deg hp) tp_size = Inr ()" if "tp_size \<in> set (tp_sizes_enc hp)" for tp_size
    proof -
      have "tp_size = ?tp" using that by (simp add: hp_def split: if_splits)
      then show ?thesis using tp assms(2) by (simp add: hp_def check_tp_size_def)
    qed
    then have tps: "mapE (check_tp_size world_size (pp_deg hp)) (tp_sizes_enc hp) = Inr (map (\<lambda>_. ()) (tp_sizes_enc hp))"
      by (rule mapE_all_Inr)
    have ranks: "\<forall>r \<in> set (pp_ranks_enc hp). 0 \<le> r \<and> r \<le> pp_deg hp - 1"
      using pp_ranks_range [of _ ds] ds(3) by (force simp: hp_def)
    have lengths: "int (length (tp_sizes_enc hp)) = ?n" "int (length (tp_consecutive_flags hp)) = ?n" "int (length (dp_types_enc hp)) = ?n"
      "int (length (pp_ranks_enc hp)) = ?n" "int (length (checkpoint_flags_enc hp)) = ?n"
      using n ds(4) by (simp_all add: hp_def pp_ranks_length)
    have flags: "\<forall>c \<in> set (tp_consecutive_flags hp). c = 0 \<or> c = 1" "\<forall>t \<in> set (dp_types_enc hp). t = 0 \<or> t = 1"
      "\<forall>c \<in> set (checkpoint_flags_enc hp). c = 0 \<or> c = 1"
      using assms(6,7) by (auto simp: hp_def split: if_splits)
    show ?thesis unfolding check_hp_config_def Let_def lengths tps using ranks flags by simp
  qed
  ultimately show ?thesis using ds(2,3) by (auto simp: hp_def)
qed

section \<open>The layers of the whole model\<close>

definition enc_count :: "string list \<Rightarrow> nat" where
  "enc_count ts = length (filter is_layer ts)"

definition keeps :: "string list \<Rightarrow> 'a list \<Rightarrow> 'a list \<Rightarrow> bool" where
  "keeps ts whole enc \<longleftrightarrow> length whole = length ts \<and> map fst (filter (\<lambda>(g, t). is_layer t) (zip whole ts)) = take (enc_count ts) enc"

lemma keeps_Nil: "keeps [] [] enc"
  by (simp add: keeps_def enc_count_def)

lemma keeps_layer: "keeps ts whole enc \<Longrightarrow> is_layer t \<Longrightarrow> enc_count ts < length enc \<Longrightarrow> keeps (ts @ [t]) (whole @ [enc ! enc_count ts]) enc"
  by (simp add: keeps_def enc_count_def take_Suc_conv_app_nth)

lemma keeps_other: "keeps ts whole enc \<Longrightarrow> \<not> is_layer t \<Longrightarrow> keeps (ts @ [t]) (whole @ [x]) enc"
  by (simp add: keeps_def enc_count_def)

lemma keeps_groups: "keeps ts whole enc \<Longrightarrow> length enc = enc_count ts \<Longrightarrow> get_enc_groups whole ts = Inr enc"
  by (simp add: keeps_def get_enc_groups_def)

definition whole_keeps :: "hp_configs \<Rightarrow> string list \<Rightarrow> hp_whole \<Rightarrow> bool" where
  "whole_keeps hp ts w \<longleftrightarrow> keeps ts (tp_sizes_whole w) (tp_sizes_enc hp) \<and> keeps ts (tp_consec_whole w) (tp_consecutive_flags hp) \<and>
     keeps ts (dp_types_whole w) (dp_types_enc hp) \<and> keeps ts (pp_ranks_whole w) (pp_ranks_enc hp) \<and>
     keeps ts (checkpoint_flags_whole w) (checkpoint_flags_enc hp)"

lemma add_modules_ok:
  assumes "\<forall>xs \<in> {tp_sizes_enc hp, tp_consecutive_flags hp, dp_types_enc hp, pp_ranks_enc hp, checkpoint_flags_enc hp}. length xs = n"
    and "0 < n" and "enc_count ts \<le> n" and "\<forall>tp \<in> set (tp_sizes_enc hp). tp \<noteq> 0"
  shows "\<exists>w. foldE (add_module hp esdp ckpt) (\<lparr>tp_sizes_whole = [], tp_consec_whole = [], dp_types_whole = [],
         pp_ranks_whole = [], checkpoint_flags_whole = [], dp_sizes_whole = []\<rparr>, 0) ts = Inr (w, enc_count ts) \<and>
       whole_keeps hp ts w \<and> (\<forall>tp \<in> set (tp_sizes_whole w). tp \<noteq> 0)"
  using assms(3)
proof (induction ts rule: rev_induct)
  case Nil
  show ?case by (simp add: whole_keeps_def keeps_Nil) (simp add: enc_count_def)
next
  case (snoc t ts)
  then have "enc_count ts \<le> n" by (simp add: enc_count_def split: if_splits)
  then obtain w where w: "foldE (add_module hp esdp ckpt) (\<lparr>tp_sizes_whole = [], tp_consec_whole = [], dp_types_whole = [],
         pp_ranks_whole = [], checkpoint_flags_whole = [], dp_sizes_whole = []\<rparr>, 0) ts = Inr (w, enc_count ts)"
       "whole_keeps hp ts w" "\<forall>tp \<in> set (tp_sizes_whole w). tp \<noteq> 0" using snoc.IH by blast
  let ?i = "enc_count ts"
  show ?case
  proof (cases "is_layer t")
    case True
    then have i: "?i < n" "enc_count (ts @ [t]) = Suc ?i" using snoc.prems by (simp_all add: enc_count_def)
    have "\<exists>w'. add_module hp esdp ckpt (w, ?i) t = Inr (w', Suc ?i) \<and> whole_keeps hp (ts @ [t]) w' \<and> (\<forall>tp \<in> set (tp_sizes_whole w'). tp \<noteq> 0)"
      using True i(1) w(2,3) assms(1,4) by (simp add: add_module_def list_at_def whole_keeps_def keeps_layer)
    then show ?thesis using w(1) i(2) by (auto simp: foldE_append)
  next
    case False
    then have i: "enc_count (ts @ [t]) = ?i" by (simp add: enc_count_def)
    have "py_nth (pp_ranks_enc hp) (- 1) = Inr (last (pp_ranks_enc hp))"
    proof -
      have "pp_ranks_enc hp \<noteq> []" using assms(1,2) by auto
      then show ?thesis by (simp add: py_nth_def last_conv_nth Suc_le_eq)
    qed
    then have "\<exists>w'. add_module hp esdp ckpt (w, ?i) t = Inr (w', ?i) \<and> whole_keeps hp (ts @ [t]) w' \<and> (\<forall>tp \<in> set (tp_sizes_whole w'). tp \<noteq> 0)"
      using False w(2,3) by (simp add: add_module_def list_at_def whole_keeps_def keeps_other)
    then show ?thesis using w(1) i by (auto simp: foldE_append)
  qed
qed

text \<open>C22: The configuration of the whole model gives every layer its own settings: when every list has an entry
  for each layer among the modules, \<open>hp_config_whole_model\<close> succeeds and \<open>get_enc_groups\<close> finds in each of its
  lists exactly the list of the layers again, whatever other modules stand between them.\<close>

theorem whole_model_keeps_the_layers:
  assumes "\<forall>xs \<in> {tp_sizes_enc hp, tp_consecutive_flags hp, dp_types_enc hp, pp_ranks_enc hp, checkpoint_flags_enc hp}.
      length xs = length (filter is_layer module_types)"
    and "filter is_layer module_types \<noteq> []" and "0 \<notin> set (tp_sizes_enc hp)" and "pp_deg hp \<noteq> 0"
  shows "\<exists>w. hp_config_whole_model world_size module_types hp embed_sdp embed_ckpt = Inr w \<and>
    get_enc_groups (tp_sizes_whole w) module_types = Inr (tp_sizes_enc hp) \<and>
    get_enc_groups (tp_consec_whole w) module_types = Inr (tp_consecutive_flags hp) \<and>
    get_enc_groups (dp_types_whole w) module_types = Inr (dp_types_enc hp) \<and>
    get_enc_groups (pp_ranks_whole w) module_types = Inr (pp_ranks_enc hp) \<and>
    get_enc_groups (checkpoint_flags_whole w) module_types = Inr (checkpoint_flags_enc hp)"
proof -
  have "\<forall>tp \<in> set (tp_sizes_enc hp). tp \<noteq> 0" using assms(3) by auto
  from add_modules_ok [OF assms(1) _ _ this, of module_types embed_sdp embed_ckpt] obtain w where
    w: "foldE (add_module hp embed_sdp embed_ckpt) (\<lparr>tp_sizes_whole = [], tp_consec_whole = [], dp_types_whole = [],
         pp_ranks_whole = [], checkpoint_flags_whole = [], dp_sizes_whole = []\<rparr>, 0) module_types = Inr (w, enc_count module_types)"
       "whole_keeps hp module_types w" "\<forall>tp \<in> set (tp_sizes_whole w). tp \<noteq> 0"
    using assms(2) by (auto simp: enc_count_def)
  have "mapE (\<lambda>tp_size. if pp_deg hp = 0 \<or> tp_size = 0 then Inl ZeroDivisionError else Inr (world_size div pp_deg hp div tp_size))
      (tp_sizes_whole w) = Inr (map (\<lambda>tp_size. world_size div pp_deg hp div tp_size) (tp_sizes_whole w))"
    by (rule mapE_all_Inr) (use w(3) assms(4) in auto)
  then have "hp_config_whole_model world_size module_types hp embed_sdp embed_ckpt =
      Inr (w\<lparr>dp_sizes_whole := map (\<lambda>tp_size. world_size div pp_deg hp div tp_size) (tp_sizes_whole w)\<rparr>)"
    by (simp add: hp_config_whole_model_def w(1))
  then show ?thesis
    using w(2) assms(1) by (auto simp: whole_keeps_def enc_count_def intro!: keeps_groups)
qed

section \<open>Samples\<close>

theorem strategy_text_roundtrip_witness:
  "strategy_str2list (form_strategy (1, 2, 4, [(''tp'', 0), (''fsdp'', 1), (''cpt'', 1)])) = Inr (1, 2, 4, [(''tp'', 0), (''fsdp'', 1), (''cpt'', 1)])"
  using strategy_text_roundtrip [of 1 2 4 False True True] by (simp add: plain_strategy_def)

theorem strategy_config_roundtrip_witness:
  "\<exists>config. strategy2config [(2, 1, 4, [(''fsdp'', 1)]), (2, 2, 2, [(''tp'', 0), (''fsdp'', 0)])] = Some config \<and>
     config2strategy config = Inr (2, [1, 2], [1, 0], [1, 0])"
  using strategy_config_roundtrip [of "[(2, 1, 4, [(''fsdp'', 1)]), (2, 2, 2, [(''tp'', 0), (''fsdp'', 0)])]"]
  by (simp add: consec_flag_def dp_type_def)

definition sample_hp :: hp_args where
  "sample_hp = \<lparr>arg_pp_deg = 2, global_tp_deg = 2, global_tp_consec = 1, sdp = 0, global_checkpoint = 0,
     global_train_batch_size = 8, arg_chunks = - 1\<rparr>"

theorem global_config_passes_the_check_witness:
  "\<exists>hp chunks. get_hybrid_parallel_configs_api 0 8 sample_hp None [3, 2] = Inr (sample_hp\<lparr>arg_chunks := chunks\<rparr>, hp) \<and>
     check_hp_config 8 hp [3, 2] = Inr () \<and> sum_list (pp_division hp) = 5 \<and> length (pp_division hp) = 2"
  using global_config_passes_the_check [of "[3, 2]" sample_hp 8 0] by (auto simp: sample_hp_def)

definition sample_configs :: hp_configs where
  "sample_configs = \<lparr>pp_deg = 2, tp_sizes_enc = [1, 2], tp_consecutive_flags = [1, 0], dp_types_enc = [0, 1],
     checkpoint_flags_enc = [0, 0], pp_ranks_enc = [0, 1], pp_division = [1, 1]\<rparr>"

theorem whole_model_keeps_the_layers_witness:
  "\<exists>w. hp_config_whole_model 8 [''embed'', ''gpt_dec'', ''gpt_dec'', ''cls''] sample_configs 0 0 = Inr w \<and>
     get_enc_groups (tp_sizes_whole w) [''embed'', ''gpt_dec'', ''gpt_dec'', ''cls''] = Inr [1, 2] \<and>
     get_enc_groups (pp_ranks_whole w) [''embed'', ''gpt_dec'', ''gpt_dec'', ''cls''] = Inr [0, 1]"
proof -
  have "filter is_layer [''embed'', ''gpt_dec'', ''gpt_dec'', ''cls''] = [''gpt_dec'', ''gpt_dec'']" by (simp add: is_layer_def)
  then show ?thesis
    using whole_model_keeps_the_layers [of sample_configs "[''embed'', ''gpt_dec'', ''gpt_dec'', ''cls'']" 8 0 0]
    by (auto simp: sample_configs_def)
qed

end
