(* ===== verification/CommGroups.thy ===== *)
theory CommGroups imports Prelude begin

text \<open>
  The communication groups of the planner Galvatron, \<open>core/comm_groups.py\<close> under
  \<open>tools/Galvatron/galvatron\<close>: each process computes the groups of all processes for tensor, data and
  pipeline parallelism and keeps those that hold its own rank. The rank of the process and the number
  of processes, which the communication library gives, are parameters; a group is its sorted list of
  ranks. Sizes and ranks are not negative. Printing is left out, and so are the position in the group, which
  \<open>has_rank\<close> notes, and the collective operations themselves.
\<close>

section \<open>The groups\<close>

record process =
  own_rank :: nat
  num_processes :: nat

definition py_range :: "nat \<Rightarrow> nat \<Rightarrow> nat \<Rightarrow> nat list" where
  "py_range start stop step = map (\<lambda>k. start + k * step) [0..<(stop - start + step - 1) div step]"

definition CommGroup :: "nat list \<Rightarrow> nat list" where
  "CommGroup ranks = sort (remdups ranks)"

definition sort_ranks :: "nat list option \<Rightarrow> nat list option" where
  "sort_ranks ranks = map_option (\<lambda>rs. sort (remdups rs)) ranks"

definition get_world_size :: "process \<Rightarrow> nat list option \<Rightarrow> nat" where
  "get_world_size p world_ranks = (case world_ranks of None \<Rightarrow> num_processes p | Some rs \<Rightarrow> length rs)"

definition index_ranks :: "nat list \<Rightarrow> nat list option \<Rightarrow> nat list result" where
  "index_ranks ranks world_ranks = (case world_ranks of None \<Rightarrow> Inr ranks | Some ws \<Rightarrow> mapE (list_at ws) ranks)"

text \<open>The loop over the groups: each is created, and the last one that has the rank is kept.\<close>

definition keep_own :: "process \<Rightarrow> nat list option \<Rightarrow> nat list list \<Rightarrow> nat list option result" where
  "keep_own p world_ranks rank_lists =
     foldE (\<lambda>kept ranks. bindE (index_ranks ranks world_ranks) (\<lambda>rs.
         Inr (if own_rank p \<in> set (CommGroup rs) then Some (CommGroup rs) else kept))) None rank_lists"

definition consecutive_lists :: "nat \<Rightarrow> nat \<Rightarrow> nat list list" where
  "consecutive_lists width m = map (\<lambda>i. [i * width..<(i + 1) * width]) [0..<m]"

definition strided_lists :: "nat \<Rightarrow> nat \<Rightarrow> nat \<Rightarrow> nat list list" where
  "strided_lists pp_size num_pp_groups stride =
     concat (map (\<lambda>i. map (\<lambda>j. py_range (i * num_pp_groups + j) ((i + 1) * num_pp_groups) stride) [0..<stride]) [0..<pp_size])"

definition gen_tp_group_dist :: "process \<Rightarrow> nat \<Rightarrow> nat \<Rightarrow> bool \<Rightarrow> nat list option \<Rightarrow> nat list option result" where
  "gen_tp_group_dist p tp_size pp_size consecutive world_ranks =
     (let ws = sort_ranks world_ranks; world_size = get_world_size p ws in
      if tp_size = 0 \<or> pp_size = 0 then Inl ZeroDivisionError
      else let dp_size = world_size div tp_size div pp_size in
        keep_own p ws (if consecutive then consecutive_lists tp_size (world_size div tp_size)
                       else strided_lists pp_size (world_size div pp_size) dp_size))"

definition gen_dp_group_dist :: "process \<Rightarrow> nat \<Rightarrow> nat \<Rightarrow> bool \<Rightarrow> nat list option \<Rightarrow> nat list option result" where
  "gen_dp_group_dist p tp_size pp_size consecutive world_ranks =
     (let ws = sort_ranks world_ranks; world_size = get_world_size p ws in
      if tp_size = 0 \<or> pp_size = 0 then Inl ZeroDivisionError
      else let dp_size = world_size div tp_size div pp_size in
        if dp_size = 0 then Inl ZeroDivisionError
        else keep_own p ws (if \<not> consecutive then strided_lists pp_size (world_size div pp_size) tp_size
                            else consecutive_lists dp_size (world_size div dp_size)))"

definition gen_pp_group_dist :: "process \<Rightarrow> nat \<Rightarrow> nat list option \<Rightarrow> nat list option result" where
  "gen_pp_group_dist p pp_size world_ranks =
     (let ws = sort_ranks world_ranks; world_size = get_world_size p ws in
      if pp_size = 0 then Inl ZeroDivisionError
      else let num_pp_groups = world_size div pp_size in
        keep_own p ws (map (\<lambda>i. py_range i world_size num_pp_groups) [0..<num_pp_groups]))"

definition group_dict :: "(nat \<Rightarrow> nat list option result) \<Rightarrow> nat list \<Rightarrow> (nat \<times> nat list option) list result" where
  "group_dict gen all_tp_sizes = mapE (\<lambda>tp_size. bindE (gen tp_size) (\<lambda>g. Inr (tp_size, g))) (remdups all_tp_sizes)"

definition gen_redistributed_group ::
  "nat \<Rightarrow> nat \<Rightarrow> bool \<Rightarrow> bool \<Rightarrow> nat list option \<Rightarrow> nat list option \<Rightarrow> nat list option \<times> nat list option" where
  "gen_redistributed_group tp_size_old tp_size_new tp_consec_old tp_consec_new tp_group_old tp_group_new =
     (if tp_size_old = tp_size_new \<and> tp_consec_old = tp_consec_new then (None, None)
      else (if tp_size_old = 1 then None else tp_group_old, if tp_size_new = 1 then None else tp_group_new))"

text \<open>A flag is 0 or 1; a group of one rank or of the whole stage counts as consecutive.\<close>

definition normal_flags :: "nat \<Rightarrow> nat list \<Rightarrow> int list \<Rightarrow> int list result" where
  "normal_flags per_stage all_tp_sizes flags =
     foldE (\<lambda>flags i. bindE (list_at flags i) (\<lambda>tp_consec. assertE (tp_consec = 0 \<or> tp_consec = 1)
         (Inr (if all_tp_sizes ! i \<in> {1, per_stage} then flags[i := 1] else flags)))) flags [0..<length all_tp_sizes]"

record comm_groups =
  pp_group :: "nat list option"
  tp_groups :: "nat list option list"
  dp_groups :: "nat list option list"
  allgather_groups :: "nat list option list"
  split_groups :: "nat list option list"

text \<open>The dictionaries for both flags, the groups of every layer, and the groups between neighbouring layers.\<close>

definition group_dicts ::
  "process \<Rightarrow> nat list \<Rightarrow> nat \<Rightarrow> nat list option \<Rightarrow> (bool \<times> (nat \<times> nat list option) list \<times> (nat \<times> nat list option) list) list result" where
  "group_dicts p all_tp_sizes pp_size ws =
     mapE (\<lambda>consec.
       bindE (group_dict (\<lambda>tp. gen_tp_group_dist p tp pp_size consec ws) all_tp_sizes) (\<lambda>tps.
       bindE (group_dict (\<lambda>tp. gen_dp_group_dist p tp pp_size consec ws) all_tp_sizes) (\<lambda>dps. Inr (consec, tps, dps))))
     [False, True]"

definition layer_groups ::
  "nat list \<Rightarrow> int list \<Rightarrow> (bool \<times> (nat \<times> nat list option) list \<times> (nat \<times> nat list option) list) list \<Rightarrow>
     (nat list option \<times> nat list option) list result" where
  "layer_groups all_tp_sizes flags dicts =
     mapE (\<lambda>i.
       bindE (list_at flags i) (\<lambda>flag.
       bindE (py_lookup dicts (flag = 1)) (\<lambda>(tps, _).
       bindE (py_lookup tps (all_tp_sizes ! i)) (\<lambda>tp_group.
       bindE (py_lookup dicts (flag \<noteq> 1)) (\<lambda>(_, dps).
       bindE (py_lookup dps (all_tp_sizes ! i)) (\<lambda>dp_group. Inr (tp_group, dp_group)))))))
     [0..<length all_tp_sizes]"

definition redistributions :: "nat list \<Rightarrow> int list \<Rightarrow> nat list option list \<Rightarrow> (nat list option \<times> nat list option) list" where
  "redistributions all_tp_sizes flags tps =
     map (\<lambda>i. gen_redistributed_group (all_tp_sizes ! (i - 1)) (all_tp_sizes ! i) (flags ! (i - 1) = 1) (flags ! i = 1)
                (tps ! (i - 1)) (tps ! i)) [1..<length all_tp_sizes]"

definition gen_comm_groups :: "process \<Rightarrow> nat list \<Rightarrow> nat \<Rightarrow> int list \<Rightarrow> nat list option \<Rightarrow> (int list \<times> comm_groups) result" where
  "gen_comm_groups p all_tp_sizes pp_size tp_consecutive_flags world_ranks =
     (let ws = sort_ranks world_ranks; world_size = get_world_size p ws in
      if pp_size = 0 then Inl ZeroDivisionError
      else
        bindE (normal_flags (world_size div pp_size) all_tp_sizes tp_consecutive_flags) (\<lambda>flags.
        bindE (gen_pp_group_dist p pp_size ws) (\<lambda>pp.
        bindE (group_dicts p all_tp_sizes pp_size ws) (\<lambda>dicts.
        bindE (layer_groups all_tp_sizes flags dicts) (\<lambda>groups.
        let moves = redistributions all_tp_sizes flags (map fst groups)
        in Inr (flags, \<lparr>pp_group = pp, tp_groups = map fst groups, dp_groups = map snd groups,
              allgather_groups = None # map snd moves, split_groups = None # map fst moves\<rparr>))))))"

section \<open>Positions and ranks\<close>

lemma py_range_set: "0 < step \<Longrightarrow> set (py_range a b step) = {x. a \<le> x \<and> x < b \<and> (x - a) mod step = 0}"
proof -
  assume step: "0 < step"
  have "k < (b - a + step - 1) div step \<longleftrightarrow> a + k * step < b" for k
  proof -
    have "k < (b - a + step - 1) div step \<longleftrightarrow> Suc k * step \<le> b - a + step - 1"
      using step by (metis Suc_le_eq less_eq_div_iff_mult_less_eq)
    then show ?thesis using step by auto
  qed
  then have "x \<in> set (py_range a b step) \<longleftrightarrow> (\<exists>k. x = a + k * step \<and> a + k * step < b)" for x
    by (auto simp: py_range_def)
  moreover have "(\<exists>k. x = a + k * step \<and> a + k * step < b) \<longleftrightarrow> a \<le> x \<and> x < b \<and> (x - a) mod step = 0" for x
  proof
    assume "\<exists>k. x = a + k * step \<and> a + k * step < b"
    then obtain k where "x = a + k * step" "a + k * step < b" by blast
    then show "a \<le> x \<and> x < b \<and> (x - a) mod step = 0" by simp
  next
    assume "a \<le> x \<and> x < b \<and> (x - a) mod step = 0"
    moreover from this obtain k where "x - a = step * k" by (metis dvdE mod_eq_0_iff_dvd)
    ultimately have "x = a + k * step \<and> a + k * step < b" by (metis le_add_diff_inverse mult.commute)
    then show "\<exists>k. x = a + k * step \<and> a + k * step < b" by blast
  qed
  ultimately have "x \<in> set (py_range a b step) \<longleftrightarrow> a \<le> x \<and> x < b \<and> (x - a) mod step = 0" for x by (rule trans)
  then show ?thesis by (simp add: set_eq_iff)
qed

lemma py_range_distinct: "0 < step \<Longrightarrow> distinct (py_range a b step)"
  by (simp add: py_range_def distinct_map inj_on_def)

lemma CommGroup_facts [simp]: "set (CommGroup rs) = set rs" "distinct (CommGroup rs)" "sorted (CommGroup rs)"
  by (simp_all add: CommGroup_def)

lemma CommGroup_unique: "set rs = set ts \<Longrightarrow> CommGroup rs = CommGroup ts"
  by (rule sorted_distinct_set_unique) simp_all

text \<open>
  \<open>world ws p\<close>: the ranks of the positions. When every list that holds the position of the own rank is the
  class \<open>C\<close> and one does, the group that is kept is that class.
\<close>

definition world :: "process \<Rightarrow> nat list option \<Rightarrow> nat list" where
  "world p world_ranks = (case sort_ranks world_ranks of None \<Rightarrow> [0..<num_processes p] | Some ws \<Rightarrow> ws)"

lemma world_distinct: "distinct (world p world_ranks)"
  by (simp add: world_def sort_ranks_def split: option.split)

lemma world_size: "get_world_size p (sort_ranks world_ranks) = length (world p world_ranks)"
  by (simp add: get_world_size_def world_def split: option.split)

lemma index_ranks_ok:
  "\<forall>q \<in> set ranks. q < length (world p world_ranks) \<Longrightarrow>
     index_ranks ranks (sort_ranks world_ranks) = Inr (map (\<lambda>q. world p world_ranks ! q) ranks)"
proof (cases "sort_ranks world_ranks")
  case None
  moreover assume "\<forall>q \<in> set ranks. q < length (world p world_ranks)"
  ultimately have "map (\<lambda>q. world p world_ranks ! q) ranks = ranks" by (intro map_idI) (simp add: world_def)
  with None show ?thesis by (simp add: index_ranks_def)
next
  case (Some ws)
  moreover assume "\<forall>q \<in> set ranks. q < length (world p world_ranks)"
  ultimately show ?thesis by (simp add: index_ranks_def world_def) (rule mapE_all_Inr, simp add: list_at_def)
qed

lemma keep_own_ok:
  assumes pos: "pos < length (world p world_ranks)" "own_rank p = world p world_ranks ! pos"
    and Ls: "\<forall>L \<in> set Ls. (\<forall>q \<in> set L. q < length (world p world_ranks)) \<and> (pos \<in> set L \<longrightarrow> set L = C)"
    and found: "\<exists>L \<in> set Ls. pos \<in> set L" and C: "finite C"
  shows "keep_own p (sort_ranks world_ranks) Ls = Inr (Some (CommGroup (map (\<lambda>q. world p world_ranks ! q) (sorted_list_of_set C))))"
proof -
  let ?W = "\<lambda>q. world p world_ranks ! q"
  let ?f = "\<lambda>kept ranks. bindE (index_ranks ranks (sort_ranks world_ranks)) (\<lambda>rs.
         Inr (if own_rank p \<in> set (CommGroup rs) then Some (CommGroup rs) else kept))"
  let ?g = "CommGroup (map ?W (sorted_list_of_set C))"
  have own: "own_rank p \<in> ?W ` set L \<longleftrightarrow> pos \<in> set L" if "L \<in> set Ls" for L
    using that Ls pos world_distinct [of p world_ranks] by (auto simp: nth_eq_iff_index_eq image_iff)
  have step: "?f kept L = Inr (if pos \<in> set L then Some ?g else kept)" if L: "L \<in> set Ls" for kept L
  proof -
    have "CommGroup (map ?W L) = ?g" if "pos \<in> set L" using Ls L that C by (intro CommGroup_unique) simp
    moreover have "index_ranks L (sort_ranks world_ranks) = Inr (map ?W L)" using Ls L by (intro index_ranks_ok) blast
    ultimately show ?thesis using own [OF L] by simp
  qed
  have "foldE ?f kept Ls = Inr (if \<exists>L \<in> set Ls. pos \<in> set L then Some ?g else kept)" for kept
    using step by (induction Ls arbitrary: kept) auto
  then show ?thesis using found by (simp add: keep_own_def)
qed

text \<open>The classes of the two kinds of lists.\<close>

lemma consecutive_class:
  assumes "0 < w"
  shows "\<forall>L \<in> set (consecutive_lists w m). (\<forall>q \<in> set L. q < m * w) \<and> (pos \<in> set L \<longrightarrow> set L = {q. q div w = pos div w})"
    and "pos < m * w \<Longrightarrow> \<exists>L \<in> set (consecutive_lists w m). pos \<in> set L"
proof -
  have "q \<in> set [i * w..<(i + 1) * w] \<longleftrightarrow> i * w \<le> q \<and> q < i * w + w" for i q by (simp add: add.commute)
  then have "q \<in> set [i * w..<(i + 1) * w] \<longleftrightarrow> q div w = i" for i q by (simp only: div_slot [OF assms])
  then have slot: "set [i * w..<(i + 1) * w] = {q. q div w = i}" for i by blast
  have "L \<in> set (consecutive_lists w m) \<longleftrightarrow> (\<exists>i < m. L = [i * w..<(i + 1) * w])" for L
    unfolding consecutive_lists_def by auto
  note lists = this
  have below: "q < m * w" if "q div w < m" for q using that assms by (simp add: div_less_iff_less_mult)
  have "(\<forall>q \<in> set [i * w..<(i + 1) * w]. q < m * w) \<and> (pos \<in> set [i * w..<(i + 1) * w] \<longrightarrow> set [i * w..<(i + 1) * w] = {q. q div w = pos div w})"
    if "i < m" for i
  proof -
    have "\<forall>q \<in> {q. q div w = i}. q < m * w" using below that by blast
    then show ?thesis unfolding slot by auto
  qed
  then show "\<forall>L \<in> set (consecutive_lists w m). (\<forall>q \<in> set L. q < m * w) \<and> (pos \<in> set L \<longrightarrow> set L = {q. q div w = pos div w})"
    unfolding Ball_def lists by blast
  assume "pos < m * w"
  then have "pos div w < m" using assms by (simp add: div_less_iff_less_mult)
  then show "\<exists>L \<in> set (consecutive_lists w m). pos \<in> set L" unfolding Bex_def lists using slot [of "pos div w"] by blast
qed

lemma strided_slot:
  assumes "0 < s" and "s dvd g" and "0 < g" and j: "j < s"
  shows "set (py_range (i * g + j) ((i + 1) * g) s) = {q. q div g = i \<and> q mod s = j}"
proof -
  obtain t where t: "g = s * t" using assms(2) by (rule dvdE)
  have shift: "(i * g + r) mod s = r mod s" for i r
  proof -
    have "i * g = (i * t) * s" by (simp add: t ac_simps)
    then show ?thesis by (simp only: mod_mult_self3)
  qed
  have m1: "(q - (i * g + j)) mod s = 0 \<longleftrightarrow> q mod s = j" if q: "i * g + j \<le> q" for q
  proof -
    obtain k where k: "q = i * g + j + k" using le_Suc_ex [OF q] by blast
    have "q mod s = (j + k) mod s" using shift [of i "j + k"] by (simp add: k add.assoc)
    moreover have "(j + k) mod s = j \<longleftrightarrow> k mod s = 0"
    proof -
      have "(j + k mod s) mod s = (if j + k mod s < s then j + k mod s else j + k mod s - s)"
      proof -
        have "j + k mod s - s < s" using j mod_less_divisor [OF assms(1), of k] by linarith
        then show ?thesis by (simp add: le_mod_geq)
      qed
      then have "(j + k) mod s = (if j + k mod s < s then j + k mod s else j + k mod s - s)" by (simp add: mod_add_right_eq)
      note sum = this
      have r: "k mod s < s" using assms(1) by (rule mod_less_divisor)
      show ?thesis
      proof (cases "j + k mod s < s")
        case True
        with sum have "(j + k) mod s = j + k mod s" by (simp only: if_True)
        then show ?thesis by linarith
      next
        case False
        with sum have "(j + k) mod s = j + k mod s - s" by (simp only: if_False)
        then show ?thesis using False j r by linarith
      qed
    qed
    ultimately show ?thesis by (simp add: k)
  qed
  have m2: "i * g + j \<le> q" if q: "i * g \<le> q" "q mod s = j" for q
  proof -
    obtain k where k: "q = i * g + k" using le_Suc_ex [OF q(1)] by blast
    have "k mod s = j" using q(2) shift [of i k] by (simp add: k)
    then show ?thesis using mod_less_eq_dividend [of k s] by (simp add: k)
  qed
  have in_slot: "q div g = i \<longleftrightarrow> i * g \<le> q \<and> q < i * g + g" for q by (simp only: div_slot [OF assms(3)])
  have core: "i * g + j \<le> q \<and> q < i * g + g \<and> (q - (i * g + j)) mod s = 0 \<longleftrightarrow> q div g = i \<and> q mod s = j" for q
  proof
    assume a: "i * g + j \<le> q \<and> q < i * g + g \<and> (q - (i * g + j)) mod s = 0"
    then have "i * g \<le> q" by linarith
    then show "q div g = i \<and> q mod s = j" using a m1 [of q] in_slot [of q] by simp
  next
    assume b: "q div g = i \<and> q mod s = j"
    then have c: "i * g \<le> q \<and> q < i * g + g" by (simp only: in_slot [symmetric])
    then have "i * g + j \<le> q" using b by (intro m2) simp_all
    then show "i * g + j \<le> q \<and> q < i * g + g \<and> (q - (i * g + j)) mod s = 0" using b c m1 [of q] by simp
  qed
  show ?thesis
    unfolding py_range_set [OF assms(1)] add_mult_distrib mult_1 by (rule Collect_cong) (rule core)
qed

lemma strided_class:
  assumes "0 < s" and "s dvd g" and "0 < g"
  shows "\<forall>L \<in> set (strided_lists m g s). (\<forall>q \<in> set L. q < m * g) \<and>
      (pos \<in> set L \<longrightarrow> set L = {q. q div g = pos div g \<and> q mod s = pos mod s})"
    and "pos < m * g \<Longrightarrow> \<exists>L \<in> set (strided_lists m g s). pos \<in> set L"
proof -
  note slot = strided_slot [OF assms]
  have lists: "L \<in> set (strided_lists m g s) \<longleftrightarrow> (\<exists>i < m. \<exists>j < s. L = py_range (i * g + j) ((i + 1) * g) s)" for L
    unfolding strided_lists_def set_concat set_map set_upt image_image UN_iff image_iff Bex_def atLeastLessThan_iff by simp
  have below: "q < m * g" if "q div g < m" for q using that assms(3) by (simp add: div_less_iff_less_mult)
  have "(\<forall>q \<in> set (py_range (i * g + j) ((i + 1) * g) s). q < m * g) \<and>
      (pos \<in> set (py_range (i * g + j) ((i + 1) * g) s) \<longrightarrow>
         set (py_range (i * g + j) ((i + 1) * g) s) = {q. q div g = pos div g \<and> q mod s = pos mod s})"
    if i: "i < m" and j: "j < s" for i j
  proof -
    have "\<forall>q \<in> {q. q div g = i \<and> q mod s = j}. q < m * g" using below i by blast
    then show ?thesis unfolding slot [OF j] by auto
  qed
  then show "\<forall>L \<in> set (strided_lists m g s). (\<forall>q \<in> set L. q < m * g) \<and>
      (pos \<in> set L \<longrightarrow> set L = {q. q div g = pos div g \<and> q mod s = pos mod s})"
    unfolding Ball_def [of "set (strided_lists m g s)"] lists by blast
  assume "pos < m * g"
  then have "pos div g < m" using assms(3) by (simp add: div_less_iff_less_mult)
  then have "py_range (pos div g * g + pos mod s) ((pos div g + 1) * g) s \<in> set (strided_lists m g s)"
    unfolding lists using assms(1) by (intro exI [of _ "pos div g"] exI [of _ "pos mod s"] conjI) simp_all
  moreover have "pos \<in> set (py_range (pos div g * g + pos mod s) ((pos div g + 1) * g) s)"
    using slot [of "pos mod s" "pos div g"] assms(1) by simp
  ultimately show "\<exists>L \<in> set (strided_lists m g s). pos \<in> set L" by blast
qed

lemma pp_slot:
  assumes "0 < g" and "i < g"
  shows "set (py_range i n g) = {q. q < n \<and> q mod g = i}"
proof -
  have core: "i \<le> q \<and> (q - i) mod g = 0 \<longleftrightarrow> q mod g = i" for q
  proof
    assume "i \<le> q \<and> (q - i) mod g = 0"
    then obtain k where "q = i + g * k" by (metis dvdE le_add_diff_inverse mod_eq_0_iff_dvd)
    then show "q mod g = i" using assms(2) by simp
  next
    assume i: "q mod g = i"
    have "q - q mod g = q div g * g" by (rule minus_mod_eq_div_mult)
    then show "i \<le> q \<and> (q - i) mod g = 0" using mod_less_eq_dividend [of q g] by (simp add: i [symmetric])
  qed
  show ?thesis
    unfolding py_range_set [OF assms(1)]
  proof (rule Collect_cong)
    fix q show "i \<le> q \<and> q < n \<and> (q - i) mod g = 0 \<longleftrightarrow> q < n \<and> q mod g = i" by (metis core)
  qed
qed

lemma pp_class:
  assumes "0 < g"
  shows "\<forall>L \<in> set (map (\<lambda>i. py_range i n g) [0..<g]). (\<forall>q \<in> set L. q < n) \<and> (pos \<in> set L \<longrightarrow> set L = {q. q < n \<and> q mod g = pos mod g})"
    and "pos < n \<Longrightarrow> \<exists>L \<in> set (map (\<lambda>i. py_range i n g) [0..<g]). pos \<in> set L"
proof -
  note slot = pp_slot [OF assms]
  have "(\<forall>q \<in> set (py_range i n g). q < n) \<and> (pos \<in> set (py_range i n g) \<longrightarrow> set (py_range i n g) = {q. q < n \<and> q mod g = pos mod g})"
    if "i < g" for i unfolding slot [OF that] by simp
  note each = this
  show "\<forall>L \<in> set (map (\<lambda>i. py_range i n g) [0..<g]). (\<forall>q \<in> set L. q < n) \<and> (pos \<in> set L \<longrightarrow> set L = {q. q < n \<and> q mod g = pos mod g})"
  proof (rule ballI)
    fix L assume "L \<in> set (map (\<lambda>i. py_range i n g) [0..<g])"
    then obtain i where i: "i < g" "L = py_range i n g" unfolding set_map set_upt by (elim imageE) simp
    show "(\<forall>q \<in> set L. q < n) \<and> (pos \<in> set L \<longrightarrow> set L = {q. q < n \<and> q mod g = pos mod g})"
      unfolding i(2) by (rule each [OF i(1)])
  qed
  assume "pos < n"
  have range_in: "py_range (pos mod g) n g \<in> set (map (\<lambda>i. py_range i n g) [0..<g])" using assms by simp
  have "pos \<in> set (py_range (pos mod g) n g)" using \<open>pos < n\<close> slot [of "pos mod g"] assms by simp
  then show "\<exists>L \<in> set (map (\<lambda>i. py_range i n g) [0..<g]). pos \<in> set L" by (rule bexI) (rule range_in)
qed

section \<open>The groups of a process\<close>

text \<open>
  The positions in the group of a position: blocks of neighbours, or the positions of a stage with the same
  remainder. The groups for data parallelism are those for tensor parallelism with the two sizes exchanged.
\<close>

definition tp_class :: "bool \<Rightarrow> nat \<Rightarrow> nat \<Rightarrow> nat \<Rightarrow> nat set" where
  "tp_class consecutive tp dp pos =
     (if consecutive then {q. q div tp = pos div tp} else {q. q div (tp * dp) = pos div (tp * dp) \<and> q mod dp = pos mod dp})"

definition pp_class_of :: "nat \<Rightarrow> nat \<Rightarrow> nat \<Rightarrow> nat set" where
  "pp_class_of n g pos = {q. q < n \<and> q mod g = pos mod g}"

definition ranks_of :: "process \<Rightarrow> nat list option \<Rightarrow> nat set \<Rightarrow> nat list" where
  "ranks_of p world_ranks C = CommGroup (map (\<lambda>q. world p world_ranks ! q) (sorted_list_of_set C))"

lemma div_class: "0 < w \<Longrightarrow> {q :: nat. q div w = i} = {i * w..<i * w + w}"
  by (rule set_eqI) (simp only: mem_Collect_eq atLeastLessThan_iff div_slot)

lemma finite_div_class: "0 < w \<Longrightarrow> finite {q :: nat. q div w = i}"
  by (simp add: div_class)

lemma py_range_length: "b < s \<Longrightarrow> length (py_range (x + b) (x + s * t) s) = t"
proof -
  assume b: "b < s"
  have "(s * t - b + s - 1) div s = t"
  proof (cases t)
    case 0
    with b show ?thesis by simp
  next
    case (Suc k)
    with b have e: "s * t - b + s - 1 = s * t + (s - 1 - b)" by simp
    have "(s - 1 - b) div s = 0" using b by simp
    then show ?thesis unfolding e using b by (simp only: div_mult_self4)
  qed
  then show ?thesis by (simp add: py_range_def)
qed

lemma strided_card:
  assumes "0 < s" and "0 < t"
  shows "card {q. q div (s * t) = pos div (s * t) \<and> q mod s = pos mod s} = t"
proof -
  let ?i = "pos div (s * t)" and ?j = "pos mod s"
  have "set (py_range (?i * (s * t) + ?j) ((?i + 1) * (s * t)) s) = {q. q div (s * t) = ?i \<and> q mod s = ?j}"
    by (rule strided_slot) (use assms in simp_all)
  moreover have "length (py_range (?i * (s * t) + ?j) ((?i + 1) * (s * t)) s) = t"
    using py_range_length [of ?j s "?i * (s * t)" t] assms(1) by (simp add: add.commute)
  ultimately show ?thesis using distinct_card [OF py_range_distinct [OF assms(1)]] by metis
qed

lemma pp_card:
  assumes "0 < g"
  shows "card {q. q < pp * g \<and> q mod g = pos mod g} = pp"
proof -
  have "set (py_range (pos mod g) (pp * g) g) = {q. q < pp * g \<and> q mod g = pos mod g}" using assms by (intro pp_slot) simp_all
  moreover have "length (py_range (pos mod g) (pp * g) g) = pp"
    using py_range_length [of "pos mod g" g 0 pp] assms by (simp add: mult.commute)
  ultimately show ?thesis using distinct_card [OF py_range_distinct [OF assms]] by metis
qed

lemma tp_group_ok:
  assumes "length (world p world_ranks) = pp * (tp * dp)" and "0 < pp" and "0 < tp" and "0 < dp"
    and "pos < length (world p world_ranks)" and "own_rank p = world p world_ranks ! pos"
  shows "gen_tp_group_dist p tp pp consecutive world_ranks = Inr (Some (ranks_of p world_ranks (tp_class consecutive tp dp pos)))"
proof -
  have divs: "pp * (tp * dp) div tp = pp * dp" "pp * dp div pp = dp" "pp * (tp * dp) div pp = tp * dp"
    using assms(2,3) by (simp_all add: mult.left_commute [of pp])
  show ?thesis
  proof (cases consecutive)
    case True
    have n: "pp * dp * tp = length (world p world_ranks)" by (simp add: assms(1) ac_simps)
    have "keep_own p (sort_ranks world_ranks) (consecutive_lists tp (pp * dp)) = Inr (Some (ranks_of p world_ranks {q. q div tp = pos div tp}))"
      unfolding ranks_of_def
    proof (rule keep_own_ok [OF assms(5,6)])
      show "\<forall>L \<in> set (consecutive_lists tp (pp * dp)). (\<forall>q \<in> set L. q < length (world p world_ranks)) \<and> (pos \<in> set L \<longrightarrow> set L = {q. q div tp = pos div tp})"
        using consecutive_class(1) [OF assms(3)] unfolding n [symmetric] .
      show "\<exists>L \<in> set (consecutive_lists tp (pp * dp)). pos \<in> set L" using consecutive_class(2) [OF assms(3)] assms(5) unfolding n [symmetric] .
      show "finite {q. q div tp = pos div tp}" by (simp add: div_class assms(3))
    qed
    then show ?thesis using True assms(2,3) by (simp add: gen_tp_group_dist_def world_size assms(1) divs tp_class_def)
  next
    case False
    let ?C = "{q. q div (tp * dp) = pos div (tp * dp) \<and> q mod dp = pos mod dp}"
    have g: "0 < tp * dp" "dp dvd tp * dp" using assms(3,4) by simp_all
    have "keep_own p (sort_ranks world_ranks) (strided_lists pp (tp * dp) dp) = Inr (Some (ranks_of p world_ranks ?C))"
      unfolding ranks_of_def
    proof (rule keep_own_ok [OF assms(5,6)])
      show "\<forall>L \<in> set (strided_lists pp (tp * dp) dp). (\<forall>q \<in> set L. q < length (world p world_ranks)) \<and> (pos \<in> set L \<longrightarrow> set L = ?C)"
        using strided_class(1) [OF assms(4) g(2,1)] unfolding assms(1) .
      show "\<exists>L \<in> set (strided_lists pp (tp * dp) dp). pos \<in> set L" using strided_class(2) [OF assms(4) g(2,1)] assms(5) unfolding assms(1) .
      show "finite ?C" by (rule finite_subset [OF _ finite_div_class [OF g(1)]]) blast
    qed
    then show ?thesis using False assms(2,3) by (simp add: gen_tp_group_dist_def world_size assms(1) divs tp_class_def)
  qed
qed

lemma dp_group_is_tp_group:
  assumes "length (world p world_ranks) = pp * (tp * dp)" and "0 < pp" and "0 < tp" and "0 < dp"
  shows "gen_dp_group_dist p tp pp consecutive world_ranks = gen_tp_group_dist p dp pp consecutive world_ranks"
proof -
  have "pp * (tp * dp) div tp div pp = dp" "pp * (tp * dp) div dp div pp = tp" "pp * (tp * dp) div pp = tp * dp" "pp * (tp * dp) div dp = pp * tp"
    using assms(2-4) by (simp_all add: mult.left_commute [of pp])
  then show ?thesis
    using assms(2-4) by (simp add: gen_tp_group_dist_def gen_dp_group_dist_def world_size assms(1) Let_def)
qed

lemma pp_group_ok:
  assumes "length (world p world_ranks) = pp * g" and "0 < pp" and "0 < g"
    and "pos < length (world p world_ranks)" and "own_rank p = world p world_ranks ! pos"
  shows "gen_pp_group_dist p pp world_ranks = Inr (Some (ranks_of p world_ranks (pp_class_of (pp * g) g pos)))"
proof -
  have "keep_own p (sort_ranks world_ranks) (map (\<lambda>i. py_range i (pp * g) g) [0..<g]) =
      Inr (Some (ranks_of p world_ranks {q. q < pp * g \<and> q mod g = pos mod g}))"
    unfolding ranks_of_def
  proof (rule keep_own_ok [OF assms(4,5)])
    show "\<forall>L \<in> set (map (\<lambda>i. py_range i (pp * g) g) [0..<g]). (\<forall>q \<in> set L. q < length (world p world_ranks)) \<and>
        (pos \<in> set L \<longrightarrow> set L = {q. q < pp * g \<and> q mod g = pos mod g})"
      using pp_class(1) [OF assms(3)] unfolding assms(1) .
    show "\<exists>L \<in> set (map (\<lambda>i. py_range i (pp * g) g) [0..<g]). pos \<in> set L" using pp_class(2) [OF assms(3)] assms(4) unfolding assms(1) .
  qed simp
  then show ?thesis using assms(2) by (simp add: gen_pp_group_dist_def world_size assms(1) pp_class_of_def)
qed

lemma tp_class_stage:
  assumes "0 < tp" and "0 < dp"
  shows "q \<in> tp_class consecutive tp dp pos \<Longrightarrow> q div (tp * dp) = pos div (tp * dp)"
  using assms by (auto simp: tp_class_def div_mult2_eq split: if_splits)

lemma tp_class_facts:
  assumes "0 < tp" and "0 < dp"
  shows "finite (tp_class consecutive tp dp pos)" "pos \<in> tp_class consecutive tp dp pos" "card (tp_class consecutive tp dp pos) = tp"
proof -
  have "tp_class consecutive tp dp pos \<subseteq> {q. q div (tp * dp) = pos div (tp * dp)}" using tp_class_stage [OF assms] by blast
  then show "finite (tp_class consecutive tp dp pos)" by (rule finite_subset) (use assms in \<open>simp add: finite_div_class\<close>)
  show "pos \<in> tp_class consecutive tp dp pos" by (simp add: tp_class_def)
  show "card (tp_class consecutive tp dp pos) = tp"
    using strided_card [OF assms(2,1), of pos] by (cases consecutive) (simp_all add: tp_class_def div_class assms(1) mult.commute [of tp])
qed

lemma tp_class_below:
  assumes "0 < tp" and "0 < dp" and "pos < pp * (tp * dp)" and "q \<in> tp_class consecutive tp dp pos"
  shows "q < pp * (tp * dp)"
proof -
  have g: "0 < tp * dp" using assms(1,2) by simp
  have "q div (tp * dp) < pp" unfolding tp_class_stage [OF assms(1,2,4)] using assms(3) g by (simp only: div_less_iff_less_mult)
  then show ?thesis using g by (simp only: div_less_iff_less_mult)
qed

lemma div_mod_same: "q div w = pos div w \<Longrightarrow> q mod w = pos mod w \<Longrightarrow> q = (pos :: nat)"
  by (metis div_mult_mod_eq)

lemma classes_meet_once:
  assumes "0 < tp" and "0 < dp"
  shows "tp_class consecutive tp dp pos \<inter> tp_class (\<not> consecutive) dp tp pos = {pos}"
    and "tp_class consecutive tp dp pos \<inter> pp_class_of (pp * (tp * dp)) (tp * dp) pos = (if pos < pp * (tp * dp) then {pos} else {})"
proof -
  have "q = pos" if "q \<in> tp_class consecutive tp dp pos" "q \<in> tp_class (\<not> consecutive) dp tp pos" for q
    using that div_mod_same [of q tp pos] div_mod_same [of q dp pos] by (cases consecutive) (auto simp: tp_class_def)
  then show "tp_class consecutive tp dp pos \<inter> tp_class (\<not> consecutive) dp tp pos = {pos}"
    using tp_class_facts(2) [OF assms] tp_class_facts(2) [OF assms(2,1)] by blast
  have "q = pos" if "q \<in> tp_class consecutive tp dp pos" "q \<in> pp_class_of n (tp * dp) pos" for q n
    using div_mod_same [OF tp_class_stage [OF assms that(1)]] that(2) by (simp add: pp_class_of_def)
  note only = this
  have "pos \<in> pp_class_of (pp * (tp * dp)) (tp * dp) pos \<longleftrightarrow> pos < pp * (tp * dp)" by (simp add: pp_class_of_def)
  then show "tp_class consecutive tp dp pos \<inter> pp_class_of (pp * (tp * dp)) (tp * dp) pos = (if pos < pp * (tp * dp) then {pos} else {})"
    using only tp_class_facts(2) [OF assms] by (simp only: split: if_split) blast
qed

lemma ranks_of_facts:
  assumes "C \<subseteq> {..<length (world p world_ranks)}"
  shows "set (ranks_of p world_ranks C) = (\<lambda>q. world p world_ranks ! q) ` C" "length (ranks_of p world_ranks C) = card C"
proof -
  have fin: "finite C" using assms by (rule finite_subset) simp
  then show set: "set (ranks_of p world_ranks C) = (\<lambda>q. world p world_ranks ! q) ` C" by (simp add: ranks_of_def)
  have "inj_on (\<lambda>q. world p world_ranks ! q) C"
    by (rule inj_on_nth [OF world_distinct]) (use assms in blast)
  then show "length (ranks_of p world_ranks C) = card C"
    using set distinct_card [of "ranks_of p world_ranks C"] by (simp add: card_image ranks_of_def)
qed

lemma ranks_meet:
  assumes "C \<subseteq> {..<length (world p world_ranks)}" and "D \<subseteq> {..<length (world p world_ranks)}"
  shows "set (ranks_of p world_ranks C) \<inter> set (ranks_of p world_ranks D) = (\<lambda>q. world p world_ranks ! q) ` (C \<inter> D)"
proof -
  have "inj_on (\<lambda>q. world p world_ranks ! q) (C \<union> D)"
    by (rule inj_on_nth [OF world_distinct]) (use assms in blast)
  then show ?thesis by (simp add: ranks_of_facts(1) assms inj_on_image_Int)
qed

section \<open>What the groups have in common\<close>

lemma groups_meet_in_the_process:
  assumes "length (world p world_ranks) = pp * (tp * dp)" and "0 < pp" and "0 < tp" and "0 < dp"
    and "own_rank p \<in> set (world p world_ranks)"
  shows "\<exists>T D P. gen_tp_group_dist p tp pp consecutive world_ranks = Inr (Some T) \<and>
    gen_dp_group_dist p tp pp (\<not> consecutive) world_ranks = Inr (Some D) \<and> gen_pp_group_dist p pp world_ranks = Inr (Some P) \<and>
    length T = tp \<and> length D = dp \<and> length P = pp \<and>
    set T \<inter> set D = {own_rank p} \<and> set T \<inter> set P = {own_rank p} \<and> set D \<inter> set P = {own_rank p}"
proof -
  obtain pos where pos: "pos < length (world p world_ranks)" "own_rank p = world p world_ranks ! pos"
    using assms(5) by (metis in_set_conv_nth)
  note size' = assms(1) [unfolded mult.commute [of tp dp]]
  let ?T = "tp_class consecutive tp dp pos" and ?D = "tp_class (\<not> consecutive) dp tp pos" and ?P = "pp_class_of (pp * (tp * dp)) (tp * dp) pos"
  have g: "0 < tp * dp" using assms(3,4) by simp
  have found: "gen_tp_group_dist p tp pp consecutive world_ranks = Inr (Some (ranks_of p world_ranks ?T))"
      "gen_dp_group_dist p tp pp (\<not> consecutive) world_ranks = Inr (Some (ranks_of p world_ranks ?D))"
      "gen_pp_group_dist p pp world_ranks = Inr (Some (ranks_of p world_ranks ?P))"
    using tp_group_ok [OF assms(1-4) pos] tp_group_ok [OF size' assms(2,4,3) pos] pp_group_ok [OF assms(1,2) g pos]
      dp_group_is_tp_group [OF assms(1-4)] by simp_all
  have sub: "?T \<subseteq> {..<length (world p world_ranks)}" "?D \<subseteq> {..<length (world p world_ranks)}" "?P \<subseteq> {..<length (world p world_ranks)}"
  proof -
    have below: "pos < pp * (tp * dp)" using pos(1) unfolding assms(1) .
    have below': "pos < pp * (dp * tp)" using pos(1) unfolding size' .
    show "?T \<subseteq> {..<length (world p world_ranks)}" unfolding assms(1) using tp_class_below [OF assms(3,4) below] by blast
    show "?D \<subseteq> {..<length (world p world_ranks)}" unfolding size' using tp_class_below [OF assms(4,3) below'] by blast
    show "?P \<subseteq> {..<length (world p world_ranks)}" unfolding assms(1) pp_class_of_def by blast
  qed
  have "?T \<inter> ?D = {pos}" "?T \<inter> ?P = {pos}" "?D \<inter> ?P = {pos}"
  proof -
    have below: "pos < pp * (tp * dp)" using pos(1) unfolding assms(1) .
    show "?T \<inter> ?D = {pos}" by (rule classes_meet_once(1) [OF assms(3,4)])
    show "?T \<inter> ?P = {pos}" unfolding classes_meet_once(2) [OF assms(3,4)] using below by (rule if_P)
    show "?D \<inter> ?P = {pos}"
      unfolding classes_meet_once(2) [OF assms(4,3), of _ _ pp, unfolded mult.commute [of dp tp]] using below by (rule if_P)
  qed
  note meets = ranks_meet [OF sub(1,2), unfolded this(1)] ranks_meet [OF sub(1,3), unfolded this(2)] ranks_meet [OF sub(2,3), unfolded this(3)]
  have "length (ranks_of p world_ranks ?T) = tp" "length (ranks_of p world_ranks ?D) = dp" "length (ranks_of p world_ranks ?P) = pp"
    using sub tp_class_facts(3) [OF assms(3,4)] tp_class_facts(3) [OF assms(4,3)] pp_card [OF g, of pp]
    by (simp_all add: ranks_of_facts(2) pp_class_of_def)
  then show ?thesis using found meets by (simp add: pos(2))
qed

text \<open>Every process finds one group of each kind, of the size asked for, and any two of the three groups
  share nothing but the process itself.\<close>

theorem process_groups_are_orthogonal:
  assumes "length (world p world_ranks) = pp * (tp * dp)" and "0 < pp" and "0 < tp" and "0 < dp"
    and "own_rank p \<in> set (world p world_ranks)"
  shows "\<exists>T D P. gen_tp_group_dist p tp pp consecutive world_ranks = Inr (Some T) \<and>
    gen_dp_group_dist p tp pp (\<not> consecutive) world_ranks = Inr (Some D) \<and> gen_pp_group_dist p pp world_ranks = Inr (Some P) \<and>
    length T = tp \<and> length D = dp \<and> length P = pp \<and>
    set T \<inter> set D = {own_rank p} \<and> set T \<inter> set P = {own_rank p} \<and> set D \<inter> set P = {own_rank p}"
  using assms by (rule groups_meet_in_the_process)

lemma world_same: "num_processes p' = num_processes p \<Longrightarrow> world p' world_ranks = world p world_ranks"
  by (cases "sort_ranks world_ranks") (simp_all add: world_def)

lemma ranks_of_member:
  assumes "C \<subseteq> {..<length (world p world_ranks)}" and "num_processes p' = num_processes p" and "own_rank p' \<in> set (ranks_of p world_ranks C)"
  obtains pos where "pos \<in> C" "pos < length (world p' world_ranks)" "own_rank p' = world p' world_ranks ! pos"
proof -
  obtain pos where "pos \<in> C" "own_rank p' = world p world_ranks ! pos"
    using assms(3) unfolding ranks_of_facts(1) [OF assms(1)] by (rule imageE)
  then show ?thesis using assms(1) that unfolding world_same [OF assms(2)] by blast
qed

lemma ranks_of_same:
  assumes "num_processes p' = num_processes p"
  shows "ranks_of p' world_ranks = ranks_of p world_ranks"
  unfolding ranks_of_def [abs_def] world_same [OF assms] ..

lemma tp_members_agree:
  assumes "length (world p world_ranks) = pp * (tp * dp)" and "0 < pp" and "0 < tp" and "0 < dp"
    and "own_rank p \<in> set (world p world_ranks)" and "num_processes p' = num_processes p"
    and "gen_tp_group_dist p tp pp consecutive world_ranks = Inr (Some T)" and "own_rank p' \<in> set T"
  shows "gen_tp_group_dist p' tp pp consecutive world_ranks = Inr (Some T)"
proof -
  obtain pos where pos: "pos < length (world p world_ranks)" "own_rank p = world p world_ranks ! pos"
    using assms(5) by (metis in_set_conv_nth)
  have T: "T = ranks_of p world_ranks (tp_class consecutive tp dp pos)"
    using tp_group_ok [OF assms(1-4) pos, of consecutive] assms(7) by simp
  have "tp_class consecutive tp dp pos \<subseteq> {..<length (world p world_ranks)}"
    unfolding assms(1) using tp_class_below [OF assms(3,4) pos(1) [unfolded assms(1)]] by blast
  then obtain pos' where pos': "pos' \<in> tp_class consecutive tp dp pos" "pos' < length (world p' world_ranks)" "own_rank p' = world p' world_ranks ! pos'"
    using assms(6,8) unfolding T by (rule ranks_of_member)
  have "length (world p' world_ranks) = pp * (tp * dp)" using assms(1) by (simp only: world_same [OF assms(6)])
  from tp_group_ok [OF this assms(2-4) pos'(2,3)] ranks_of_same [OF assms(6)] show ?thesis
    using pos'(1) by (simp add: T) (simp add: tp_class_def split: if_splits)
qed

lemma pp_members_agree:
  assumes "length (world p world_ranks) = pp * g" and "0 < pp" and "0 < g"
    and "own_rank p \<in> set (world p world_ranks)" and "num_processes p' = num_processes p"
    and "gen_pp_group_dist p pp world_ranks = Inr (Some P)" and "own_rank p' \<in> set P"
  shows "gen_pp_group_dist p' pp world_ranks = Inr (Some P)"
proof -
  obtain pos where pos: "pos < length (world p world_ranks)" "own_rank p = world p world_ranks ! pos"
    using assms(4) by (metis in_set_conv_nth)
  have P: "P = ranks_of p world_ranks (pp_class_of (pp * g) g pos)" using pp_group_ok [OF assms(1-3) pos] assms(6) by simp
  have "pp_class_of (pp * g) g pos \<subseteq> {..<length (world p world_ranks)}" unfolding assms(1) pp_class_of_def by blast
  then obtain pos' where pos': "pos' \<in> pp_class_of (pp * g) g pos" "pos' < length (world p' world_ranks)" "own_rank p' = world p' world_ranks ! pos'"
    using assms(5,7) unfolding P by (rule ranks_of_member)
  have same: "pp_class_of (pp * g) g pos' = pp_class_of (pp * g) g pos" using pos'(1) by (simp add: pp_class_of_def)
  have size': "length (world p' world_ranks) = pp * g" using assms(1) by (simp only: world_same [OF assms(5)])
  show "gen_pp_group_dist p' pp world_ranks = Inr (Some P)"
    using pp_group_ok [OF size' assms(2,3) pos'(2,3)] unfolding same P ranks_of_same [OF assms(5)] .
qed

text \<open>C21: Processes that are in a common group find the same group, so that every member of a group creates and
  uses it; this holds for each of the three kinds and both orders of the ranks.\<close>

theorem members_agree_on_their_groups:
  assumes "length (world p world_ranks) = pp * (tp * dp)" and "0 < pp" and "0 < tp" and "0 < dp"
    and "own_rank p \<in> set (world p world_ranks)" and "num_processes p' = num_processes p"
    and "gen \<in> {\<lambda>p. gen_tp_group_dist p tp pp consecutive world_ranks, \<lambda>p. gen_dp_group_dist p tp pp consecutive world_ranks,
          \<lambda>p. gen_pp_group_dist p pp world_ranks}"
    and "gen p = Inr (Some G)" and "own_rank p' \<in> set G"
  shows "gen p' = Inr (Some G)"
proof -
  have size': "length (world p' world_ranks) = pp * (tp * dp)" using assms(1) by (simp only: world_same [OF assms(6)])
  note swap = dp_group_is_tp_group [OF assms(1-4)] dp_group_is_tp_group [OF size' assms(2-4)]
  consider "gen = (\<lambda>p. gen_tp_group_dist p tp pp consecutive world_ranks)" | "gen = (\<lambda>p. gen_dp_group_dist p tp pp consecutive world_ranks)"
    | "gen = (\<lambda>p. gen_pp_group_dist p pp world_ranks)" using assms(7) by blast
  then show ?thesis
  proof cases
    case 1
    show ?thesis using tp_members_agree [OF assms(1-6)] assms(8,9) unfolding 1 .
  next
    case 2
    show ?thesis
      using tp_members_agree [OF assms(1) [unfolded mult.commute [of tp dp]] assms(2,4,3,5,6)] assms(8,9) unfolding 2 swap .
  next
    case 3
    have g: "0 < tp * dp" using assms(3,4) by simp
    show ?thesis using pp_members_agree [OF assms(1,2) g assms(5,6)] assms(8,9) unfolding 3 .
  qed
qed

section \<open>The groups of the layers\<close>

lemma normal_flags_ok:
  assumes "length flags = length sizes" and "set flags \<subseteq> {0, 1}"
  shows "normal_flags per_stage sizes flags = Inr (map (\<lambda>(tp, flag). if tp \<in> {1, per_stage} then 1 else flag) (zip sizes flags))"
proof -
  let ?flag = "\<lambda>i. if sizes ! i \<in> {1, per_stage} then 1 else flags ! i"
  let ?step = "\<lambda>flags i. bindE (list_at flags i) (\<lambda>tp_consec. assertE (tp_consec = 0 \<or> tp_consec = 1)
         (Inr (if sizes ! i \<in> {1, per_stage} then flags[i := 1] else flags)))"
  have "foldE ?step flags [0..<k] = Inr (map ?flag [0..<k] @ drop k flags)" if "k \<le> length sizes" for k
    using that
  proof (induction k)
    case (Suc k)
    have "flags ! k \<in> set flags" using Suc.prems assms(1) by simp
    then have flag: "flags ! k = 0 \<or> flags ! k = 1" using assms(2) by blast
    have dk: "drop k flags = flags ! k # drop (Suc k) flags" using Suc.prems assms(1) by (simp add: Cons_nth_drop_Suc)
    then have update: "(map ?flag [0..<k] @ drop k flags)[k := x] = map ?flag [0..<k] @ x # drop (Suc k) flags" for x
      by (simp add: list_update_append)
    have "list_at (map ?flag [0..<k] @ drop k flags) k = Inr (flags ! k)"
      unfolding dk by (simp add: list_at_def nth_append)
    then have "?step (map ?flag [0..<k] @ drop k flags) k =
        Inr (if sizes ! k \<in> {1, per_stage} then (map ?flag [0..<k] @ drop k flags)[k := 1] else map ?flag [0..<k] @ drop k flags)"
      using flag by (simp only: bindE_simps assertE_simps)
    also have "\<dots> = Inr (map ?flag [0..<Suc k] @ drop (Suc k) flags)" unfolding update by (simp add: dk)
    finally have "?step (map ?flag [0..<k] @ drop k flags) k = Inr (map ?flag [0..<Suc k] @ drop (Suc k) flags)" .
    moreover have "foldE ?step flags [0..<k] = Inr (map ?flag [0..<k] @ drop k flags)" using Suc.prems by (intro Suc.IH) simp
    ultimately show ?case by (simp only: upt_Suc_append [OF le0] foldE_append bindE_simps foldE.simps)
  qed simp
  from this [of "length sizes"] have "normal_flags per_stage sizes flags = Inr (map ?flag [0..<length sizes])"
    by (simp add: normal_flags_def assms(1))
  also have "map ?flag [0..<length sizes] = map (\<lambda>(tp, flag). if tp \<in> {1, per_stage} then 1 else flag) (zip sizes flags)"
    by (rule nth_equalityI) (use assms(1) in auto)
  finally show ?thesis .
qed

lemma group_dict_lookup:
  assumes "\<forall>tp \<in> set sizes. gen tp = Inr (f tp)"
  shows "\<exists>d. group_dict gen sizes = Inr d \<and> (\<forall>tp \<in> set sizes. py_lookup d tp = Inr (f tp))"
proof -
  have "group_dict gen sizes = Inr (map (\<lambda>tp. (tp, f tp)) (remdups sizes))"
    unfolding group_dict_def by (rule mapE_all_Inr) (use assms in simp)
  moreover have "py_lookup (map (\<lambda>tp. (tp, f tp)) (remdups sizes)) tp = Inr (f tp)" if "tp \<in> set sizes" for tp
    using that by (simp add: py_lookup_Inr_iff map_of_map_restrict restrict_map_def)
  ultimately show ?thesis by blast
qed

lemma layer_groups_ok:
  assumes "\<forall>tp \<in> set sizes. \<forall>consec. gen_tp_group_dist p tp pp consec ws = Inr (tpf consec tp) \<and> gen_dp_group_dist p tp pp consec ws = Inr (dpf consec tp)"
    and "length flags = length sizes"
  shows "\<exists>dicts. group_dicts p sizes pp ws = Inr dicts \<and>
    layer_groups sizes flags dicts = Inr (map (\<lambda>i. (tpf (flags ! i = 1) (sizes ! i), dpf (flags ! i \<noteq> 1) (sizes ! i))) [0..<length sizes])"
proof -
  have "\<exists>d. group_dict (\<lambda>tp. gen_tp_group_dist p tp pp consec ws) sizes = Inr d \<and> (\<forall>tp \<in> set sizes. py_lookup d tp = Inr (tpf consec tp))" for consec
    by (rule group_dict_lookup) (use assms(1) in blast)
  then obtain tpd where tpd: "group_dict (\<lambda>tp. gen_tp_group_dist p tp pp consec ws) sizes = Inr (tpd consec)"
      "\<forall>tp \<in> set sizes. py_lookup (tpd consec) tp = Inr (tpf consec tp)" for consec by metis
  have "\<exists>d. group_dict (\<lambda>tp. gen_dp_group_dist p tp pp consec ws) sizes = Inr d \<and> (\<forall>tp \<in> set sizes. py_lookup d tp = Inr (dpf consec tp))" for consec
    by (rule group_dict_lookup) (use assms(1) in blast)
  then obtain dpd where dpd: "group_dict (\<lambda>tp. gen_dp_group_dist p tp pp consec ws) sizes = Inr (dpd consec)"
      "\<forall>tp \<in> set sizes. py_lookup (dpd consec) tp = Inr (dpf consec tp)" for consec by metis
  have "\<exists>dicts. group_dicts p sizes pp ws = Inr dicts \<and> (\<forall>consec. py_lookup dicts consec = Inr (tpd consec, dpd consec))"
    by (simp add: group_dicts_def tpd(1) dpd(1) py_lookup_def all_bool_eq)
  then obtain dicts where dicts: "group_dicts p sizes pp ws = Inr dicts" "py_lookup dicts consec = Inr (tpd consec, dpd consec)" for consec
    by blast
  have "layer_groups sizes flags dicts = Inr (map (\<lambda>i. (tpf (flags ! i = 1) (sizes ! i), dpf (flags ! i \<noteq> 1) (sizes ! i))) [0..<length sizes])"
    unfolding layer_groups_def
    by (rule mapE_all_Inr) (use tpd(2) dpd(2) in \<open>simp add: list_at_def assms(2) dicts(2)\<close>)
  with dicts(1) show ?thesis by blast
qed

lemma redistributions_at:
  assumes "i < length sizes" and "length flags = length sizes" and "set flags \<subseteq> {0, 1}" and "moves = redistributions sizes flags tps"
  shows "(None # map snd moves) ! i =
        (if i = 0 \<or> sizes ! (i - 1) = sizes ! i \<and> flags ! (i - 1) = flags ! i \<or> sizes ! i = 1 then None else tps ! i) \<and>
      (None # map fst moves) ! i =
        (if i = 0 \<or> sizes ! (i - 1) = sizes ! i \<and> flags ! (i - 1) = flags ! i \<or> sizes ! (i - 1) = 1 then None else tps ! (i - 1))"
proof (cases i)
  case (Suc k)
  have "flags ! k \<in> set flags" "flags ! i \<in> set flags" using assms(1,2) Suc by simp_all
  then have "flags ! k = 0 \<or> flags ! k = 1" "flags ! i = 0 \<or> flags ! i = 1" using assms(3) by blast+
  then have "flags ! k = flags ! i \<longleftrightarrow> (flags ! k = 1) = (flags ! i = 1)" by auto
  then show ?thesis using assms(1) Suc by (simp add: assms(4) redistributions_def gen_redistributed_group_def)
qed simp

lemma sort_ranks_idem: "sort_ranks (sort_ranks ws) = sort_ranks ws"
  by (cases ws) (simp_all add: sort_ranks_def distinct_remdups_id sorted_sort_id)

lemma world_sorted: "world p (sort_ranks world_ranks) = world p world_ranks"
  by (simp add: world_def sort_ranks_idem)

lemma layer_groups_meet:
  assumes "length (world p world_ranks) = pp * g" and "0 < pp" and "0 < g" and "own_rank p \<in> set (world p world_ranks)"
    and "sizes \<noteq> []" and "\<forall>tp \<in> set sizes. tp dvd g" and "length flags = length sizes" and "set flags \<subseteq> {0, 1}"
  shows "\<exists>flags' cg. gen_comm_groups p sizes pp flags world_ranks = Inr (flags', cg) \<and>
    flags' = map (\<lambda>(tp, flag). if tp \<in> {1, g} then 1 else flag) (zip sizes flags) \<and>
    length (tp_groups cg) = length sizes \<and> length (dp_groups cg) = length sizes \<and>
    (\<forall>i < length sizes. \<exists>T D. tp_groups cg ! i = Some T \<and> dp_groups cg ! i = Some D \<and>
        length T = sizes ! i \<and> length D = g div (sizes ! i) \<and> set T \<inter> set D = {own_rank p}) \<and>
    length (allgather_groups cg) = length sizes \<and> length (split_groups cg) = length sizes \<and>
    (\<forall>i < length sizes. allgather_groups cg ! i =
        (if i = 0 \<or> sizes ! (i - 1) = sizes ! i \<and> flags' ! (i - 1) = flags' ! i \<or> sizes ! i = 1 then None else tp_groups cg ! i)) \<and>
    (\<forall>i < length sizes. split_groups cg ! i =
        (if i = 0 \<or> sizes ! (i - 1) = sizes ! i \<and> flags' ! (i - 1) = flags' ! i \<or> sizes ! (i - 1) = 1 then None else tp_groups cg ! (i - 1)))"
proof -
  let ?ws = "sort_ranks world_ranks"
  define flags' where "flags' = map (\<lambda>(tp, flag). if tp \<in> {1, g} then 1 else flag) (zip sizes flags)"
  have flags': "length flags' = length sizes" "set flags' \<subseteq> {0, 1}" using assms(7,8) by (simp_all add: flags'_def) (fastforce dest: set_zip_rightD)
  define tpf where "tpf = (\<lambda>consec tp. projr (gen_tp_group_dist p tp pp consec ?ws))"
  define dpf where "dpf = (\<lambda>consec tp. projr (gen_dp_group_dist p tp pp consec ?ws))"
  have ok: "gen_tp_group_dist p tp pp consec ?ws = Inr (tpf consec tp) \<and> gen_dp_group_dist p tp pp (\<not> consec) ?ws = Inr (dpf (\<not> consec) tp) \<and>
      (\<exists>T D. tpf consec tp = Some T \<and> dpf (\<not> consec) tp = Some D \<and> length T = tp \<and> length D = g div tp \<and> set T \<inter> set D = {own_rank p})"
    if member: "tp \<in> set sizes" for tp consec
  proof -
    obtain dp where dp: "g = tp * dp" using assms(6) member by (meson dvdE)
    then have "0 < tp" "0 < dp" "g div tp = dp" using assms(3) by auto
    moreover have "length (world p ?ws) = pp * (tp * dp)" "own_rank p \<in> set (world p ?ws)" using assms(1,4) dp by (simp_all add: world_sorted)
    ultimately show ?thesis
      using groups_meet_in_the_process [of p ?ws pp tp dp consec] assms(2) by (auto simp: tpf_def dpf_def)
  qed
  obtain pp_grp where pp_grp: "gen_pp_group_dist p pp ?ws = Inr pp_grp"
  proof -
    have "length (world p ?ws) = pp * (1 * g)" "own_rank p \<in> set (world p ?ws)" using assms(1,4) by (simp_all add: world_sorted)
    then show ?thesis using groups_meet_in_the_process [of p ?ws pp 1 g True] assms(2,3) that by auto
  qed
  have gens: "\<forall>tp \<in> set sizes. \<forall>consec. gen_tp_group_dist p tp pp consec ?ws = Inr (tpf consec tp) \<and> gen_dp_group_dist p tp pp consec ?ws = Inr (dpf consec tp)"
  proof (intro ballI allI conjI)
    fix tp consec assume "tp \<in> set sizes"
    then show "gen_tp_group_dist p tp pp consec ?ws = Inr (tpf consec tp)" "gen_dp_group_dist p tp pp consec ?ws = Inr (dpf consec tp)"
      using ok [of tp consec] ok [of tp "\<not> consec"] by simp_all
  qed
  obtain dicts where dicts: "group_dicts p sizes pp ?ws = Inr dicts"
      "layer_groups sizes flags' dicts = Inr (map (\<lambda>i. (tpf (flags' ! i = 1) (sizes ! i), dpf (flags' ! i \<noteq> 1) (sizes ! i))) [0..<length sizes])"
    using layer_groups_ok [OF gens flags'(1)] by blast
  define groups where "groups = map (\<lambda>i. (tpf (flags' ! i = 1) (sizes ! i), dpf (flags' ! i \<noteq> 1) (sizes ! i))) [0..<length sizes]"
  define moves where "moves = redistributions sizes flags' (map fst groups)"
  have "layer_groups sizes flags' dicts = Inr groups" unfolding groups_def by (rule dicts(2))
  moreover have "normal_flags g sizes flags = Inr flags'" unfolding flags'_def by (rule normal_flags_ok [OF assms(7,8)])
  moreover have "get_world_size p ?ws div pp = g" using assms(1,2) by (simp add: world_size)
  moreover have "pp \<noteq> 0" using assms(2) by simp
  ultimately have result: "gen_comm_groups p sizes pp flags world_ranks = Inr (flags', \<lparr>pp_group = pp_grp, tp_groups = map fst groups,
      dp_groups = map snd groups, allgather_groups = None # map snd moves, split_groups = None # map fst moves\<rparr>)"
    by (simp only: gen_comm_groups_def Let_def pp_grp dicts(1) bindE_simps if_False moves_def)
  have "\<exists>T D. map fst groups ! i = Some T \<and> map snd groups ! i = Some D \<and> length T = sizes ! i \<and> length D = g div (sizes ! i) \<and>
      set T \<inter> set D = {own_rank p}" if "i < length sizes" for i
    using ok [of "sizes ! i" "flags' ! i = 1"] that by (simp add: groups_def)
  note meet = this
  have lengths: "length (map fst groups) = length sizes" "length (map snd groups) = length sizes"
      "length (None # map snd moves) = length sizes" "length (None # map fst moves) = length sizes"
    using assms(5) by (simp_all add: groups_def moves_def redistributions_def)
  note between = redistributions_at [OF _ flags' moves_def]
  show ?thesis
    unfolding flags'_def [symmetric]
    by (rule exI, rule exI, rule conjI, rule result)
      (simp only: comm_groups.simps simp_thms lengths meet between [THEN conjunct1] between [THEN conjunct2] cong: imp_cong)
qed

text \<open>C20: For a list of layers with sizes that divide the processes of a stage, every layer finds a group of tensor
  and one of data parallelism, whose sizes multiply to the processes of a stage and which meet in the process; a group of one process or
  of the whole stage counts as consecutive, and between two layers there are groups for the redistribution only
  where the layout changes, of the sizes of the layer before and after.\<close>

theorem layer_groups_are_orthogonal:
  assumes "length (world p world_ranks) = pp * g" and "0 < pp" and "0 < g" and "own_rank p \<in> set (world p world_ranks)"
    and "sizes \<noteq> []" and "\<forall>tp \<in> set sizes. tp dvd g" and "length flags = length sizes" and "set flags \<subseteq> {0, 1}"
  shows "\<exists>flags' cg. gen_comm_groups p sizes pp flags world_ranks = Inr (flags', cg) \<and>
    flags' = map (\<lambda>(tp, flag). if tp \<in> {1, g} then 1 else flag) (zip sizes flags) \<and>
    length (tp_groups cg) = length sizes \<and> length (dp_groups cg) = length sizes \<and>
    (\<forall>i < length sizes. \<exists>T D. tp_groups cg ! i = Some T \<and> dp_groups cg ! i = Some D \<and>
        length T = sizes ! i \<and> length D = g div (sizes ! i) \<and> set T \<inter> set D = {own_rank p}) \<and>
    length (allgather_groups cg) = length sizes \<and> length (split_groups cg) = length sizes \<and>
    (\<forall>i < length sizes. allgather_groups cg ! i =
        (if i = 0 \<or> sizes ! (i - 1) = sizes ! i \<and> flags' ! (i - 1) = flags' ! i \<or> sizes ! i = 1 then None else tp_groups cg ! i)) \<and>
    (\<forall>i < length sizes. split_groups cg ! i =
        (if i = 0 \<or> sizes ! (i - 1) = sizes ! i \<and> flags' ! (i - 1) = flags' ! i \<or> sizes ! (i - 1) = 1 then None else tp_groups cg ! (i - 1)))"
  using assms by (rule layer_groups_meet)

section \<open>Samples\<close>

text \<open>Eight processes, two stages of two by two, seen from the third one.\<close>

definition third_of_eight :: process where
  "third_of_eight = \<lparr>own_rank = 2, num_processes = 8\<rparr>"

lemma world_of_eight: "world third_of_eight None = [0, 1, 2, 3, 4, 5, 6, 7]"
  by code_simp

theorem process_groups_are_orthogonal_witness:
  "\<exists>T D P. gen_tp_group_dist third_of_eight 2 2 True None = Inr (Some T) \<and>
     gen_dp_group_dist third_of_eight 2 2 False None = Inr (Some D) \<and> gen_pp_group_dist third_of_eight 2 None = Inr (Some P) \<and>
     length T = 2 \<and> length D = 2 \<and> length P = 2 \<and> set T \<inter> set D = {2} \<and> set T \<inter> set P = {2} \<and> set D \<inter> set P = {2}"
  using process_groups_are_orthogonal [of third_of_eight None 2 2 2 True] by (simp add: world_of_eight) (simp add: third_of_eight_def)

theorem members_agree_on_their_groups_witness:
  "gen_tp_group_dist \<lparr>own_rank = 0, num_processes = 8\<rparr> 2 2 False None = Inr (Some [0, 2])"
  using members_agree_on_their_groups [of third_of_eight None 2 2 2 "\<lparr>own_rank = 0, num_processes = 8\<rparr>"
      "\<lambda>p. gen_tp_group_dist p 2 2 False None" False "[0, 2]"]
  by (simp add: world_of_eight) (code_simp)

theorem layer_groups_are_orthogonal_witness:
  "\<exists>flags' cg T D. gen_comm_groups third_of_eight [4, 2] 2 [0, 0] None = Inr (flags', cg) \<and> flags' = [1, 0] \<and>
     tp_groups cg ! 1 = Some T \<and> dp_groups cg ! 1 = Some D \<and> length T = 2 \<and> length D = 2 \<and> set T \<inter> set D = {2} \<and>
     split_groups cg ! 1 = tp_groups cg ! 0"
  using layer_groups_are_orthogonal [of third_of_eight None 2 4 "[4, 2]" "[0, 0]"]
  by (simp add: world_of_eight) (auto simp: third_of_eight_def All_less_Suc)

end
